(* ===== verification/Asdb_Prelude.thy ===== *)
theory Asdb_Prelude
  imports Main "HOL-Library.Word"
begin

text \<open>
  The prelude of the development: results of Rust functions (\<open>Ok\<close>, \<open>Err\<close>, a panic, a
  loop that does not return), state-passing programs over them, byte buffers addressed by
  offset, and little-endian integers.

  \<^item> \<open>outcome\<close> is what a Rust call gives back: \<open>Ok a\<close> and \<open>Err e\<close> are the two values of
    \<open>Result\<close>, \<open>Panic msg\<close> is an unwinding panic (\<open>assert!\<close>, \<open>expect\<close>, an index out of
    range, an arithmetic overflow), and \<open>Hang\<close> is a loop that never returns.
  \<^item> \<open>prog\<close> is a method with a \<open>&mut self\<close>: it maps the state to an outcome and the state
    it leaves behind, which is kept on an error too, since Rust does not roll back.
  \<^item> \<open>get_slice\<close> and \<open>put_slice\<close> are \<open>buf[off..off + n]\<close> read and written by
    \<open>copy_from_slice\<close>; \<open>index_range\<close> and \<open>write_range\<close> add the bounds check that panics.
  \<^item> \<open>le_bytes k v\<close> is \<open>to_le_bytes\<close> of a \<open>k\<close>-byte integer; it keeps the low \<open>k\<close> bytes
    of \<open>v\<close>, so a narrowing \<open>as u16\<close> or \<open>as u32\<close> before it is already written out.
\<close>

named_theorems prog_simps \<open>symbolic execution of state-passing programs\<close>
named_theorems slice_simps \<open>reads after writes of byte ranges\<close>

section \<open>Outcomes and programs\<close>

type_synonym byte = "8 word"
type_synonym i64 = "64 word"
type_synonym f64 = "64 word"

datatype ('e, 'a) outcome = Ok 'a | Err 'e | Panic string | Hang

type_synonym ('s, 'e, 'a) prog = "'s \<Rightarrow> ('e, 'a) outcome \<times> 's"

definition bindO :: "('e, 'a) outcome \<Rightarrow> ('a \<Rightarrow> ('e, 'b) outcome) \<Rightarrow> ('e, 'b) outcome" where
  "bindO m k = (case m of Ok a \<Rightarrow> k a | Err e \<Rightarrow> Err e | Panic p \<Rightarrow> Panic p | Hang \<Rightarrow> Hang)"

definition returnP :: "'a \<Rightarrow> ('s, 'e, 'a) prog" where
  "returnP a = (\<lambda>s. (Ok a, s))"

definition failP :: "'e \<Rightarrow> ('s, 'e, 'a) prog" where
  "failP e = (\<lambda>s. (Err e, s))"

definition panicP :: "string \<Rightarrow> ('s, 'e, 'a) prog" where
  "panicP p = (\<lambda>s. (Panic p, s))"

definition hangP :: "('s, 'e, 'a) prog" where
  "hangP = (\<lambda>s. (Hang, s))"

definition liftO :: "('e, 'a) outcome \<Rightarrow> ('s, 'e, 'a) prog" where
  "liftO r = (\<lambda>s. (r, s))"

definition readP :: "('s \<Rightarrow> 'a) \<Rightarrow> ('s, 'e, 'a) prog" where
  "readP f = (\<lambda>s. (Ok (f s), s))"

definition modifyP :: "('s \<Rightarrow> 's) \<Rightarrow> ('s, 'e, unit) prog" where
  "modifyP f = (\<lambda>s. (Ok (), f s))"

definition assertP :: "bool \<Rightarrow> string \<Rightarrow> ('s, 'e, unit) prog" where
  "assertP b msg = (if b then returnP () else panicP msg)"

definition bindP :: "('s, 'e, 'a) prog \<Rightarrow> ('a \<Rightarrow> ('s, 'e, 'b) prog) \<Rightarrow> ('s, 'e, 'b) prog" where
  "bindP m k = (\<lambda>s. case m s of
      (Ok a, s') \<Rightarrow> k a s'
    | (Err e, s') \<Rightarrow> (Err e, s')
    | (Panic p, s') \<Rightarrow> (Panic p, s')
    | (Hang, s') \<Rightarrow> (Hang, s'))"

text \<open>The \<open>?\<close> operator between two error types goes through \<open>From\<close>.\<close>

definition map_err :: "('e \<Rightarrow> 'f) \<Rightarrow> ('e, 'a) outcome \<Rightarrow> ('f, 'a) outcome" where
  "map_err f r = (case r of Ok a \<Rightarrow> Ok a | Err e \<Rightarrow> Err (f e) | Panic p \<Rightarrow> Panic p | Hang \<Rightarrow> Hang)"

definition map_errP :: "('e \<Rightarrow> 'f) \<Rightarrow> ('s, 'e, 'a) prog \<Rightarrow> ('s, 'f, 'a) prog" where
  "map_errP f m = (\<lambda>s. case m s of (r, s') \<Rightarrow> (map_err f r, s'))"

text \<open>A loop \<open>for x in xs\<close> whose body may fail and collects its results in order.\<close>

fun mapP :: "('a \<Rightarrow> ('s, 'e, 'b) prog) \<Rightarrow> 'a list \<Rightarrow> ('s, 'e, 'b list) prog" where
  "mapP f [] = returnP []"
| "mapP f (x # xs) = bindP (f x) (\<lambda>y. bindP (mapP f xs) (\<lambda>ys. returnP (y # ys)))"

fun mapO :: "('a \<Rightarrow> ('e, 'b) outcome) \<Rightarrow> 'a list \<Rightarrow> ('e, 'b list) outcome" where
  "mapO f [] = Ok []"
| "mapO f (x # xs) = bindO (f x) (\<lambda>y. bindO (mapO f xs) (\<lambda>ys. Ok (y # ys)))"

text \<open>A loop \<open>for _ in 0..n\<close> that pushes the result of each round.\<close>

primrec repeatP :: "nat \<Rightarrow> ('s, 'e, 'a) prog \<Rightarrow> ('s, 'e, 'a list) prog" where
  "repeatP 0 m = returnP []"
| "repeatP (Suc n) m = bindP m (\<lambda>x. bindP (repeatP n m) (\<lambda>xs. returnP (x # xs)))"

text \<open>
  \<open>with_capacity\<close> asks the allocator for room for \<open>n\<close> elements; a request that is refused ends the
  process. Which requests the machine serves is the argument \<open>alloc\<close>; a machine whose memory suffices
  for every request of the program is \<open>ample\<close>.
\<close>

type_synonym allocator = "nat \<Rightarrow> bool"

definition ample :: allocator where "ample n = True"

definition ALLOC_FAILED :: string where "ALLOC_FAILED = ''memory allocation failed''"

definition with_capacity :: "allocator \<Rightarrow> nat \<Rightarrow> ('e, unit) outcome" where
  "with_capacity alloc n = (if alloc n then Ok () else Panic ALLOC_FAILED)"

lemma with_capacity_ample [simp]: "with_capacity ample n = Ok ()"
  by (simp add: with_capacity_def ample_def)

lemma bindO_simps [simp]:
  "bindO (Ok a) k = k a"
  "bindO (Err e) k = Err e"
  "bindO (Panic p) k = Panic p"
  "bindO Hang k = Hang"
  by (simp_all add: bindO_def)

lemma bindO_cong [fundef_cong]:
  assumes "m = m'" and "\<And>a. m' = Ok a \<Longrightarrow> k a = k' a"
  shows "bindO m k = bindO m' k'"
  using assms by (cases m') (auto simp: bindO_def)

lemma bindO_Ok_iff: "bindO m k = Ok b \<longleftrightarrow> (\<exists>a. m = Ok a \<and> k a = Ok b)"
  by (cases m) auto

lemma bindO_assoc: "bindO (bindO m f) g = bindO m (\<lambda>x. bindO (f x) g)"
  by (cases m) auto

lemma bindO_Ok_right [simp]: "bindO m Ok = m"
  by (cases m) auto

lemma map_err_simps [simp]:
  "map_err f (Ok a) = Ok a"
  "map_err f (Err e) = Err (f e)"
  "map_err f (Panic p) = Panic p"
  "map_err f Hang = Hang"
  by (simp_all add: map_err_def)

lemma map_err_Ok_iff: "map_err f r = Ok a \<longleftrightarrow> r = Ok a"
  by (cases r) auto

lemma prog_basic [simp]:
  "returnP a s = (Ok a, s)"
  "failP e s = (Err e, s)"
  "panicP p s = (Panic p, s)"
  "hangP s = (Hang, s)"
  "liftO r s = (r, s)"
  "readP f s = (Ok (f s), s)"
  "modifyP g s = (Ok (), g s)"
  by (simp_all add: returnP_def failP_def panicP_def hangP_def liftO_def readP_def modifyP_def)

lemma assertP_simps [simp]:
  "b \<Longrightarrow> assertP b msg s = (Ok (), s)"
  "\<not> b \<Longrightarrow> assertP b msg s = (Panic msg, s)"
  by (simp_all add: assertP_def)

lemma bindP_step [prog_simps]:
  "m s = (Ok a, s') \<Longrightarrow> bindP m k s = k a s'"
  "m s = (Err e, s') \<Longrightarrow> bindP m k s = (Err e, s')"
  "m s = (Panic p, s') \<Longrightarrow> bindP m k s = (Panic p, s')"
  "m s = (Hang, s') \<Longrightarrow> bindP m k s = (Hang, s')"
  by (simp_all add: bindP_def)

lemma bindP_basic [simp]:
  "bindP (returnP a) k s = k a s"
  "bindP (failP e) k s = (Err e, s)"
  "bindP (panicP p) k s = (Panic p, s)"
  "bindP (readP f) k s = k (f s) s"
  "bindP (modifyP g) k' s = k' () (g s)"
  "bindP (liftO (Ok a)) k s = k a s"
  "bindP (liftO (Err e)) k s = (Err e, s)"
  "bindP (liftO (Panic p)) k s = (Panic p, s)"
  by (simp_all add: bindP_def)

lemma bindP_assert [simp]:
  "b \<Longrightarrow> bindP (assertP b msg) k s = k () s"
  "\<not> b \<Longrightarrow> bindP (assertP b msg) k s = (Panic msg, s)"
  by (simp_all add: bindP_def)

lemma bindP_Ok_iff:
  "bindP m k s = (Ok b, t) \<longleftrightarrow> (\<exists>a s'. m s = (Ok a, s') \<and> k a s' = (Ok b, t))"
  by (auto simp: bindP_def split: prod.splits outcome.splits)

lemma bindP_OkE:
  assumes "bindP m k s = (Ok b, t)"
  obtains a s' where "m s = (Ok a, s')" and "k a s' = (Ok b, t)"
  using assms by (auto simp: bindP_Ok_iff)

lemma bindP_assoc: "bindP (bindP m f) g = bindP m (\<lambda>x. bindP (f x) g)"
  by (rule ext) (auto simp: bindP_def split: prod.splits outcome.splits)

lemma map_errP_step [prog_simps]:
  "m s = (r, s') \<Longrightarrow> map_errP f m s = (map_err f r, s')"
  by (simp add: map_errP_def)

lemma map_errP_Ok_iff: "map_errP f m s = (Ok a, s') \<longleftrightarrow> m s = (Ok a, s')"
  by (auto simp: map_errP_def map_err_Ok_iff split: prod.splits)

lemma mapP_append_Ok:
  assumes "mapP f xs s = (Ok ys, s')" and "mapP f xs' s' = (Ok ys', s'')"
  shows "mapP f (xs @ xs') s = (Ok (ys @ ys'), s'')"
  using assms
proof (induction xs arbitrary: s ys)
  case (Cons x xs)
  from Cons.prems(1) obtain y s1 zs
    where x: "f x s = (Ok y, s1)" and xs: "mapP f xs s1 = (Ok zs, s')" and ys: "ys = y # zs"
    by (auto simp: bindP_Ok_iff)
  have "mapP f (xs @ xs') s1 = (Ok (zs @ ys'), s'')"
    using Cons.IH [OF xs Cons.prems(2)] .
  with x ys show ?case by (simp add: prog_simps)
qed simp

lemma mapO_length: "mapO f xs = Ok ys \<Longrightarrow> length ys = length xs"
  by (induction xs arbitrary: ys) (auto simp: bindO_Ok_iff)

lemma mapO_Ok_map: "(\<And>x. x \<in> set xs \<Longrightarrow> f x = Ok (g x)) \<Longrightarrow> mapO f xs = Ok (map g xs)"
  by (induction xs) auto

lemma mapO_cong [fundef_cong]:
  assumes "xs = ys" and "\<And>x. x \<in> set ys \<Longrightarrow> f x = g x"
  shows "mapO f xs = mapO g ys"
  using assms by (induction ys arbitrary: xs) (auto cong: bindO_cong)

text \<open>\<open>returns r\<close>: the call came back with a \<open>Result\<close>, neither panicking nor running forever.\<close>

definition returns :: "('e, 'a) outcome \<Rightarrow> bool" where
  "returns r \<longleftrightarrow> (case r of Ok _ \<Rightarrow> True | Err _ \<Rightarrow> True | Panic _ \<Rightarrow> False | Hang \<Rightarrow> False)"

lemma returns_simps [simp]:
  "returns (Ok a)" "returns (Err e)" "\<not> returns (Panic p)" "\<not> returns Hang"
  by (simp_all add: returns_def)

lemma returnsE:
  assumes "returns r"
  obtains (Ok) a where "r = Ok a" | (Err) e where "r = Err e"
  using assms by (cases r) auto

lemma returns_bindO [intro]:
  "returns m \<Longrightarrow> (\<And>a. m = Ok a \<Longrightarrow> returns (k a)) \<Longrightarrow> returns (bindO m k)"
  by (cases m) auto

lemma returns_mapO: "(\<And>x. x \<in> set xs \<Longrightarrow> returns (f x)) \<Longrightarrow> returns (mapO f xs)"
  by (induction xs) (auto intro!: returns_bindO)

lemma returns_map_err [simp]: "returns (map_err f r) \<longleftrightarrow> returns r"
  by (cases r) auto

section \<open>Byte ranges\<close>

definition get_slice :: "'a list \<Rightarrow> nat \<Rightarrow> nat \<Rightarrow> 'a list" where
  "get_slice xs off n = take n (drop off xs)"

definition put_slice :: "'a list \<Rightarrow> nat \<Rightarrow> 'a list \<Rightarrow> 'a list" where
  "put_slice xs off bs = take off xs @ bs @ drop (off + length bs) xs"

definition index_range :: "'a list \<Rightarrow> nat \<Rightarrow> nat \<Rightarrow> ('e, 'a list) outcome" where
  "index_range xs off n =
     (if off + n \<le> length xs then Ok (get_slice xs off n) else Panic ''slice index out of range'')"

definition write_range :: "'a list \<Rightarrow> nat \<Rightarrow> 'a list \<Rightarrow> ('e, 'a list) outcome" where
  "write_range xs off bs =
     (if off + length bs \<le> length xs then Ok (put_slice xs off bs)
      else Panic ''slice index out of range'')"

lemma length_get_slice [simp]: "off + n \<le> length xs \<Longrightarrow> length (get_slice xs off n) = n"
  by (simp add: get_slice_def)

lemma length_put_slice [simp]:
  "off + length bs \<le> length xs \<Longrightarrow> length (put_slice xs off bs) = length xs"
  by (simp add: put_slice_def)

lemma index_range_Ok [simp]: "off + n \<le> length xs \<Longrightarrow> index_range xs off n = Ok (get_slice xs off n)"
  by (simp add: index_range_def)

lemma write_range_Ok [simp]:
  "off + length bs \<le> length xs \<Longrightarrow> write_range xs off bs = Ok (put_slice xs off bs)"
  by (simp add: write_range_def)

lemma nth_put_slice:
  assumes "off + length bs \<le> length xs" and "i < length xs"
  shows "put_slice xs off bs ! i =
    (if off \<le> i \<and> i < off + length bs then bs ! (i - off) else xs ! i)"
proof -
  have "length (take off xs) = off" using assms by simp
  then show ?thesis
    using assms by (auto simp: put_slice_def nth_append min_def not_less
        intro: arg_cong2 [where f = nth])
qed

lemma get_slice_eqI:
  assumes "off + n \<le> length xs" and "off + n \<le> length ys"
    and "\<And>i. off \<le> i \<Longrightarrow> i < off + n \<Longrightarrow> xs ! i = ys ! i"
  shows "get_slice xs off n = get_slice ys off n"
  using assms by (intro nth_equalityI) (auto simp: get_slice_def)

lemma get_put_same [slice_simps]:
  "off + length bs \<le> length xs \<Longrightarrow> n = length bs \<Longrightarrow> get_slice (put_slice xs off bs) off n = bs"
  by (simp add: get_slice_def put_slice_def)

lemma get_put_other [slice_simps]:
  assumes "off + length bs \<le> length xs" and "off' + n \<le> length xs"
    and "off' + n \<le> off \<or> off + length bs \<le> off'"
  shows "get_slice (put_slice xs off bs) off' n = get_slice xs off' n"
  using assms by (intro get_slice_eqI) (auto simp: nth_put_slice)

lemma get_slice_all [simp]: "n = length xs \<Longrightarrow> get_slice xs 0 n = xs"
  by (simp add: get_slice_def)

lemma put_slice_append: "put_slice xs (length xs) bs = xs @ bs"
  by (simp add: put_slice_def)

lemma put_put_same:
  "off + length bs \<le> length xs \<Longrightarrow> length cs = length bs \<Longrightarrow>
    put_slice (put_slice xs off bs) off cs = put_slice xs off cs"
  by (simp add: put_slice_def)

lemma get_slice_append_left:
  "off + n \<le> length xs \<Longrightarrow> get_slice (xs @ ys) off n = get_slice xs off n"
  by (simp add: get_slice_def)

section \<open>Little-endian integers\<close>

definition U64_MAX :: nat where
  "U64_MAX = 2 ^ 64 - 1"

primrec le_bytes :: "nat \<Rightarrow> nat \<Rightarrow> byte list" where
  "le_bytes 0 v = []"
| "le_bytes (Suc k) v = word_of_nat (v mod 256) # le_bytes k (v div 256)"

primrec le_val :: "byte list \<Rightarrow> nat" where
  "le_val [] = 0"
| "le_val (b # bs) = unat b + 256 * le_val bs"

lemma length_le_bytes [simp]: "length (le_bytes k v) = k"
  by (induction k arbitrary: v) auto

lemma unat_byte_of_nat [simp]: "unat (word_of_nat (v mod 256) :: byte) = v mod 256"
  by (simp add: unat_of_nat)

lemma le_val_le_bytes: "le_val (le_bytes k v) = v mod 256 ^ k"
proof (induction k arbitrary: v)
  case (Suc k)
  have "v mod 256 + 256 * (v div 256 mod 256 ^ k) = v mod (256 * 256 ^ k)"
    by (simp add: mod_mult2_eq)
  with Suc show ?case by simp
qed simp

lemma le_val_le_bytes_id [simp]: "v < 256 ^ k \<Longrightarrow> le_val (le_bytes k v) = v"
  by (simp add: le_val_le_bytes)

lemma unat_byte_less: "unat (b :: byte) < 256"
  by (rule order_less_le_trans [OF unsigned_less]) simp

lemma unat_i64_less: "unat (i :: 64 word) < 18446744073709551616"
  by (rule order_less_le_trans [OF unsigned_less]) simp

lemma le_val_bound: "le_val bs < 256 ^ length bs"
proof (induction bs)
  case (Cons b bs)
  have b: "unat b < 256" by (rule unat_byte_less)
  have "Suc (le_val bs) \<le> 256 ^ length bs" using Cons.IH by simp
  then have "256 * Suc (le_val bs) \<le> 256 * 256 ^ length bs" by (rule mult_le_mono2)
  with b show ?case by simp
qed simp

lemma le_bytes_le_val [simp]: "k = length bs \<Longrightarrow> le_bytes k (le_val bs) = bs"
proof (induction bs arbitrary: k)
  case (Cons b bs)
  have b: "unat b < 256" by (rule unat_byte_less)
  have "(unat b + 256 * le_val bs) mod 256 = unat b" and "(unat b + 256 * le_val bs) div 256 = le_val bs"
    using b by simp_all
  with Cons show ?case by simp
qed simp

lemma le_bytes_inject: "v < 256 ^ k \<Longrightarrow> w < 256 ^ k \<Longrightarrow> le_bytes k v = le_bytes k w \<longleftrightarrow> v = w"
  by (metis le_val_le_bytes_id)

end
