(* ===== verification/Storage_Disk.thy ===== *)
theory Storage_Disk
  imports Asdb_Prelude
begin

text \<open>
  \<open>src/src/storage/page.rs\<close> and \<open>src/src/storage/disk.rs\<close>: the 4 KiB page and the
  \<open>DiskManager\<close> that owns the database file.

  The file is the list of its bytes. Page ids are natural numbers (\<open>u64\<close> in the code: a
  page id is an offset into the file divided by 4096, so no id that the file can hold comes
  near the width). File-system calls of the operating system are taken to succeed; every
  error the code itself raises is a value here.
\<close>

section \<open>Pages\<close>

type_synonym page_id = nat
type_synonym page = "byte list"

definition PAGE_SIZE :: nat where
  "PAGE_SIZE = 4096"

definition new_page_bytes :: page where
  "new_page_bytes = replicate PAGE_SIZE 0"

lemma length_new_page_bytes [simp]: "length new_page_bytes = PAGE_SIZE"
  by (simp add: new_page_bytes_def)

lemma PAGE_SIZE_pos [simp]: "0 < PAGE_SIZE"
  by (simp add: PAGE_SIZE_def)

section \<open>The disk manager\<close>

datatype io_error = InvalidData | InvalidInput | UnexpectedEof

record disk_manager =
  dm_file :: "byte list"
  dm_num_pages :: nat
  dm_free_list :: "page_id list"

definition disk_open :: "byte list \<Rightarrow> (io_error, disk_manager) outcome" where
  "disk_open file =
     (if length file mod PAGE_SIZE \<noteq> 0 then Err InvalidData
      else Ok \<lparr>dm_file = file, dm_num_pages = length file div PAGE_SIZE, dm_free_list = []\<rparr>)"

text \<open>
  \<open>read_exact\<close> and \<open>write_all\<close> at a file offset. A write past the end of the file leaves
  a hole that reads as zeros.
\<close>

definition read_exact_at :: "byte list \<Rightarrow> nat \<Rightarrow> nat \<Rightarrow> (io_error, byte list) outcome" where
  "read_exact_at file off n =
     (if off + n \<le> length file then Ok (get_slice file off n) else Err UnexpectedEof)"

definition write_all_at :: "byte list \<Rightarrow> nat \<Rightarrow> byte list \<Rightarrow> byte list" where
  "write_all_at file off bs =
     (if off \<le> length file then put_slice file off bs
      else file @ replicate (off - length file) 0 @ bs)"

definition disk_read_page :: "page_id \<Rightarrow> (disk_manager, io_error, page) prog" where
  "disk_read_page pid =
     bindP (readP (\<lambda>d. pid < dm_num_pages d)) (\<lambda>inside.
     bindP (assertP inside ''page_id out of range'') (\<lambda>_.
     bindP (readP dm_file) (\<lambda>file.
     liftO (read_exact_at file (pid * PAGE_SIZE) PAGE_SIZE))))"

definition disk_write_page :: "page_id \<Rightarrow> page \<Rightarrow> (disk_manager, io_error, unit) prog" where
  "disk_write_page pid pg =
     bindP (readP (\<lambda>d. pid < dm_num_pages d)) (\<lambda>inside.
     bindP (assertP inside ''page_id out of range'') (\<lambda>_.
     modifyP (\<lambda>d. d\<lparr>dm_file := write_all_at (dm_file d) (pid * PAGE_SIZE) pg\<rparr>)))"

definition disk_allocate_page :: "(disk_manager, io_error, page_id) prog" where
  "disk_allocate_page =
     bindP (readP dm_free_list) (\<lambda>free.
     if free \<noteq> [] then
       (let pid = last free in
        bindP (modifyP (\<lambda>d. d\<lparr>dm_free_list := butlast free,
                 dm_file := write_all_at (dm_file d) (pid * PAGE_SIZE) new_page_bytes\<rparr>)) (\<lambda>_.
        returnP pid))
     else
       bindP (readP dm_num_pages) (\<lambda>pid.
       bindP (modifyP (\<lambda>d. d\<lparr>dm_file := write_all_at (dm_file d) (pid * PAGE_SIZE) new_page_bytes,
                dm_num_pages := pid + 1\<rparr>)) (\<lambda>_.
       returnP pid)))"

definition disk_free_page :: "page_id \<Rightarrow> (disk_manager, io_error, unit) prog" where
  "disk_free_page pid =
     bindP (readP (\<lambda>d. pid < dm_num_pages d)) (\<lambda>inside.
     bindP (assertP inside ''page_id out of range'') (\<lambda>_.
     bindP (readP dm_free_list) (\<lambda>free.
     if pid \<in> set free then failP InvalidInput
     else modifyP (\<lambda>d. d\<lparr>dm_free_list := free @ [pid]\<rparr>))))"

section \<open>What the file holds\<close>

definition disk_page :: "disk_manager \<Rightarrow> page_id \<Rightarrow> page" where
  "disk_page d pid = get_slice (dm_file d) (pid * PAGE_SIZE) PAGE_SIZE"

definition disk_inv :: "disk_manager \<Rightarrow> bool" where
  "disk_inv d \<longleftrightarrow> dm_num_pages d * PAGE_SIZE \<le> length (dm_file d)
     \<and> length (dm_file d) mod PAGE_SIZE = 0
     \<and> distinct (dm_free_list d) \<and> (\<forall>p \<in> set (dm_free_list d). p < dm_num_pages d)"

definition disk_allocated :: "disk_manager \<Rightarrow> page_id \<Rightarrow> bool" where
  "disk_allocated d pid \<longleftrightarrow> pid < dm_num_pages d \<and> pid \<notin> set (dm_free_list d)"

lemma page_in_file:
  "disk_inv d \<Longrightarrow> pid < dm_num_pages d \<Longrightarrow> pid * PAGE_SIZE + PAGE_SIZE \<le> length (dm_file d)"
proof -
  assume inv: "disk_inv d" and "pid < dm_num_pages d"
  then have "Suc pid * PAGE_SIZE \<le> dm_num_pages d * PAGE_SIZE" by (intro mult_le_mono1) simp
  with inv show ?thesis by (simp add: disk_inv_def)
qed

lemma pages_apart:
  "p \<noteq> q \<Longrightarrow> p * PAGE_SIZE + PAGE_SIZE \<le> q * PAGE_SIZE \<or> q * PAGE_SIZE + PAGE_SIZE \<le> p * PAGE_SIZE"
proof -
  assume "p \<noteq> q"
  then have "Suc p \<le> q \<or> Suc q \<le> p" by auto
  then have "Suc p * PAGE_SIZE \<le> q * PAGE_SIZE \<or> Suc q * PAGE_SIZE \<le> p * PAGE_SIZE"
    using mult_le_mono1 by blast
  then show ?thesis by (simp add: add.commute)
qed

lemma length_disk_page [simp]:
  "disk_inv d \<Longrightarrow> pid < dm_num_pages d \<Longrightarrow> length (disk_page d pid) = PAGE_SIZE"
  by (simp add: disk_page_def page_in_file)

lemma write_inside:
  "off + length bs \<le> length file \<Longrightarrow> write_all_at file off bs = put_slice file off bs"
  by (simp add: write_all_at_def)

lemma length_write_all_at: "length file \<le> length (write_all_at file off bs)"
  by (auto simp: write_all_at_def put_slice_def)

lemma aligned_write_all_at:
  assumes "length file mod PAGE_SIZE = 0" and "length bs = PAGE_SIZE"
  shows "length (write_all_at file (p * PAGE_SIZE) bs) mod PAGE_SIZE = 0"
proof (cases "p * PAGE_SIZE + PAGE_SIZE \<le> length file")
  case True
  with assms show ?thesis by (simp add: write_inside)
next
  case False
  then have "length (write_all_at file (p * PAGE_SIZE) bs) = (p + 1) * PAGE_SIZE"
    using assms by (auto simp: write_all_at_def put_slice_def)
  then show ?thesis by simp
qed

lemma write_all_at_end_length:
  "off + length bs \<le> length (write_all_at file off bs)"
  by (auto simp: write_all_at_def put_slice_def)

lemma get_write_same: "get_slice (write_all_at file off bs) off (length bs) = bs"
proof (cases "off \<le> length file")
  case True
  then show ?thesis by (simp add: write_all_at_def get_slice_def put_slice_def)
next
  case False
  then show ?thesis by (simp add: write_all_at_def get_slice_def)
qed

lemma get_write_before:
  assumes "off' + n \<le> off" and "off' + n \<le> length file"
  shows "get_slice (write_all_at file off bs) off' n = get_slice file off' n"
proof (cases "off \<le> length file")
  case True
  with assms show ?thesis
    by (simp add: write_all_at_def put_slice_def get_slice_append_left)
      (simp add: get_slice_def drop_take min_def)
next
  case False
  with assms show ?thesis
    by (simp add: write_all_at_def get_slice_def)
qed

section \<open>The operations on the abstract page store\<close>

lemma disk_read_page_Ok:
  "disk_inv d \<Longrightarrow> pid < dm_num_pages d \<Longrightarrow> disk_read_page pid d = (Ok (disk_page d pid), d)"
  by (simp add: disk_read_page_def read_exact_at_def page_in_file disk_page_def)

lemma disk_read_page_panics:
  "dm_num_pages d \<le> pid \<Longrightarrow> disk_read_page pid d = (Panic ''page_id out of range'', d)"
  by (simp add: disk_read_page_def)

definition disk_put :: "disk_manager \<Rightarrow> page_id \<Rightarrow> page \<Rightarrow> disk_manager" where
  "disk_put d pid pg = d\<lparr>dm_file := write_all_at (dm_file d) (pid * PAGE_SIZE) pg\<rparr>"

lemma disk_put_simps [simp]:
  "dm_num_pages (disk_put d pid pg) = dm_num_pages d"
  "dm_free_list (disk_put d pid pg) = dm_free_list d"
  by (simp_all add: disk_put_def)

lemma disk_allocated_put [simp]: "disk_allocated (disk_put d pid pg) q \<longleftrightarrow> disk_allocated d q"
  by (simp add: disk_allocated_def)

lemma disk_inv_put [simp]:
  "disk_inv d \<Longrightarrow> length pg = PAGE_SIZE \<Longrightarrow> disk_inv (disk_put d pid pg)"
  using length_write_all_at
  by (auto simp: disk_inv_def disk_put_def aligned_write_all_at intro: le_trans)

lemma disk_write_page_Ok:
  "pid < dm_num_pages d \<Longrightarrow> disk_write_page pid pg d = (Ok (), disk_put d pid pg)"
  by (simp add: disk_write_page_def disk_put_def)

lemma disk_page_put:
  assumes "disk_inv d" and "pid < dm_num_pages d" and "length pg = PAGE_SIZE"
    and "q < dm_num_pages d"
  shows "disk_page (disk_put d pid pg) q = (if q = pid then pg else disk_page d q)"
proof -
  have fit: "pid * PAGE_SIZE + length pg \<le> length (dm_file d)"
    using assms page_in_file by simp
  show ?thesis
    using assms pages_apart [of q pid]
    by (auto simp: disk_page_def disk_put_def write_inside [OF fit] page_in_file
        intro!: get_put_same get_put_other)
qed

text \<open>
  Allocation hands out a page that was not allocated, zeroed, and changes no other page.
\<close>

lemma disk_allocate_page_spec:
  assumes inv: "disk_inv d"
  obtains pid d' where "disk_allocate_page d = (Ok pid, d')" and "disk_inv d'"
    and "\<not> disk_allocated d pid"
    and "\<And>q. disk_allocated d' q \<longleftrightarrow> q = pid \<or> disk_allocated d q"
    and "disk_page d' pid = new_page_bytes"
    and "\<And>q. disk_allocated d q \<Longrightarrow> disk_page d' q = disk_page d q"
    and "dm_num_pages d' \<le> dm_num_pages d + 1"
proof (cases "dm_free_list d = []")
  case True
  define pid where "pid = dm_num_pages d"
  define d' where "d' = (disk_put d pid new_page_bytes)\<lparr>dm_num_pages := pid + 1\<rparr>"
  have run: "disk_allocate_page d = (Ok pid, d')"
    using True by (simp add: disk_allocate_page_def pid_def d'_def disk_put_def)
  have "pid * PAGE_SIZE + PAGE_SIZE \<le> length (dm_file d')"
    using write_all_at_end_length [of "pid * PAGE_SIZE" new_page_bytes "dm_file d"]
    by (simp add: d'_def disk_put_def)
  then have inv': "disk_inv d'"
    using inv True aligned_write_all_at [of "dm_file d" new_page_bytes pid]
    by (simp add: disk_inv_def d'_def disk_put_def)
  have new: "disk_page d' pid = new_page_bytes"
    using get_write_same [of "dm_file d" "pid * PAGE_SIZE" new_page_bytes]
    by (simp add: disk_page_def d'_def disk_put_def)
  have old: "disk_page d' q = disk_page d q" if "disk_allocated d q" for q
  proof -
    have q: "q < pid" using that by (simp add: disk_allocated_def pid_def)
    then have "q * PAGE_SIZE + PAGE_SIZE \<le> pid * PAGE_SIZE"
      using mult_le_mono1 [of "Suc q" pid PAGE_SIZE] by simp
    with inv q show ?thesis
      by (simp add: disk_page_def d'_def disk_put_def get_write_before page_in_file pid_def)
  qed
  show ?thesis
  proof (rule that [OF run inv'])
    show "\<not> disk_allocated d pid" by (simp add: disk_allocated_def pid_def)
    show "disk_allocated d' q \<longleftrightarrow> q = pid \<or> disk_allocated d q" for q
      using True by (auto simp: disk_allocated_def d'_def pid_def)
    show "dm_num_pages d' \<le> dm_num_pages d + 1" by (simp add: d'_def pid_def)
  qed (use new old in auto)
next
  case False
  define pid where "pid = last (dm_free_list d)"
  define d' where "d' = (disk_put d pid new_page_bytes)\<lparr>dm_free_list := butlast (dm_free_list d)\<rparr>"
  have free: "dm_free_list d = butlast (dm_free_list d) @ [pid]"
    using False by (simp add: pid_def)
  have run: "disk_allocate_page d = (Ok pid, d')"
    using False by (simp add: disk_allocate_page_def pid_def d'_def disk_put_def Let_def)
  have pid: "pid < dm_num_pages d"
    using inv False by (simp add: disk_inv_def pid_def)
  have dist: "pid \<notin> set (butlast (dm_free_list d))" "distinct (butlast (dm_free_list d))"
    using inv free by (metis disk_inv_def distinct_append not_distinct_conv_prefix)
      (use inv in \<open>simp add: disk_inv_def distinct_butlast\<close>)
  have inv': "disk_inv d'"
    using disk_inv_put [OF inv, of new_page_bytes pid] dist by (auto simp: disk_inv_def d'_def dest: in_set_butlastD)
  have pg: "disk_page d' q = (if q = pid then new_page_bytes else disk_page d q)"
    if "q < dm_num_pages d" for q
    using disk_page_put [OF inv pid _ that, of new_page_bytes] by (simp add: d'_def disk_page_def)
  have set_free: "set (dm_free_list d) = insert pid (set (butlast (dm_free_list d)))"
    by (subst free) auto
  show ?thesis
  proof (rule that [OF run inv'])
    show "\<not> disk_allocated d pid" using set_free by (simp add: disk_allocated_def)
    show "disk_allocated d' q \<longleftrightarrow> q = pid \<or> disk_allocated d q" for q
      using set_free pid dist by (auto simp: disk_allocated_def d'_def)
    show "disk_page d' pid = new_page_bytes" using pg [OF pid] by simp
    show "disk_page d' q = disk_page d q" if "disk_allocated d q" for q
      using that pg [of q] set_free by (auto simp: disk_allocated_def)
    show "dm_num_pages d' \<le> dm_num_pages d + 1" by (simp add: d'_def)
  qed
qed

lemma disk_free_page_Ok:
  assumes "disk_inv d" and "disk_allocated d pid"
  shows "disk_free_page pid d = (Ok (), d\<lparr>dm_free_list := dm_free_list d @ [pid]\<rparr>)"
    and "disk_inv (d\<lparr>dm_free_list := dm_free_list d @ [pid]\<rparr>)"
  using assms by (auto simp: disk_free_page_def disk_allocated_def disk_inv_def)

end
