(* ===== verification/Store_Logic.thy ===== *)
theory Store_Logic
  imports Storage_Disk
begin

text \<open>
  The interface between the buffer pool and its clients.

  \<open>store_logic\<close> is a small total-correctness calculus for programs over a state with an
  invariant, an abstract view and a budget of accesses: \<open>total n m s Q\<close> says that \<open>m\<close>,
  started in \<open>s\<close> with at least \<open>n\<close> accesses left, returns \<open>Ok\<close>, keeps the invariant,
  ends in a view that satisfies \<open>Q\<close> and spends at most \<open>n\<close> accesses.

  \<open>page_store\<close> adds the three operations the storage clients build on, read, write and
  allocate, with the laws of a map from page ids to pages.
\<close>

locale store_logic =
  fixes inv :: "'s \<Rightarrow> bool"
    and view :: "'s \<Rightarrow> 'v"
    and budget :: "'s \<Rightarrow> nat"
begin

definition total :: "nat \<Rightarrow> ('s, 'e, 'a) prog \<Rightarrow> 's \<Rightarrow> ('a \<Rightarrow> 'v \<Rightarrow> bool) \<Rightarrow> bool" where
  "total n m s Q \<longleftrightarrow> (inv s \<longrightarrow> n \<le> budget s \<longrightarrow>
     (\<exists>r s'. m s = (Ok r, s') \<and> inv s' \<and> Q r (view s') \<and> budget s \<le> budget s' + n))"

lemma totalI:
  assumes "inv s \<Longrightarrow> n \<le> budget s \<Longrightarrow>
    \<exists>r s'. m s = (Ok r, s') \<and> inv s' \<and> Q r (view s') \<and> budget s \<le> budget s' + n"
  shows "total n m s Q"
  using assms by (auto simp: total_def)

lemma totalE:
  assumes "total n m s Q" and "inv s" and "n \<le> budget s"
  obtains r s' where "m s = (Ok r, s')" and "inv s'" and "Q r (view s')"
    and "budget s \<le> budget s' + n"
  using assms by (auto simp: total_def)

lemma total_return: "Q a (view s) \<Longrightarrow> total 0 (returnP a) s Q"
  by (simp add: total_def)

lemma total_lift: "Q a (view s) \<Longrightarrow> total 0 (liftO (Ok a)) s Q"
  by (simp add: total_def)

lemma total_assert: "b \<Longrightarrow> Q () (view s) \<Longrightarrow> total 0 (assertP b msg) s Q"
  by (simp add: total_def)


lemma total_bind:
  assumes m: "total n m s Q"
    and k: "\<And>r s'. Q r (view s') \<Longrightarrow> total n' (k r) s' R"
  shows "total (n + n') (bindP m k) s R"
proof (rule totalI)
  assume inv: "inv s" and b: "n + n' \<le> budget s"
  from m inv b obtain r s' where r: "m s = (Ok r, s')" "inv s'" "Q r (view s')"
    "budget s \<le> budget s' + n" by (auto elim: totalE)
  have "n' \<le> budget s'" using b r(4) by simp
  with k [OF r(3)] r(2) obtain r' s'' where "k r s' = (Ok r', s'')" "inv s''" "R r' (view s'')"
    "budget s' \<le> budget s'' + n'" by (auto elim: totalE)
  with r show "\<exists>r s'. bindP m k s = (Ok r, s') \<and> inv s' \<and> R r (view s') \<and> budget s \<le> budget s' + (n + n')"
    by (auto simp: prog_simps)
qed

lemma total_bind_pure:
  assumes "m s = (Ok a, s)" and "total n (k a) s R"
  shows "total n (bindP m k) s R"
  using assms by (simp add: total_def prog_simps)

lemma total_conseq:
  "total n m s Q \<Longrightarrow> (\<And>r s'. Q r (view s') \<Longrightarrow> R r (view s')) \<Longrightarrow> n \<le> n' \<Longrightarrow> total n' m s R"
  unfolding total_def by fastforce

end

locale page_store = store_logic inv view budget
  for inv :: "'s \<Rightarrow> bool"
    and view :: "'s \<Rightarrow> page_id \<Rightarrow> page option"
    and budget :: "'s \<Rightarrow> nat" +
  fixes get :: "page_id \<Rightarrow> ('s, io_error, page) prog"
    and put :: "page_id \<Rightarrow> page \<Rightarrow> ('s, io_error, unit) prog"
    and alloc :: "page \<Rightarrow> ('s, io_error, page_id) prog"
  assumes page_size: "inv s \<Longrightarrow> view s p = Some pg \<Longrightarrow> length pg = PAGE_SIZE"
    and read_law: "view s p = Some pg \<Longrightarrow> total 1 (get p) s (\<lambda>r V. r = pg \<and> V = view s)"
    and write_law: "view s p \<noteq> None \<Longrightarrow> length pg = PAGE_SIZE \<Longrightarrow>
      total 1 (put p pg) s (\<lambda>_ V. V = (view s)(p \<mapsto> pg))"
    and alloc_law: "length pg = PAGE_SIZE \<Longrightarrow>
      total 1 (alloc pg) s (\<lambda>p V. view s p = None \<and> p < U64_MAX \<and> V = (view s)(p \<mapsto> pg))"
begin

text \<open>What was written is read back, and the other pages are untouched.\<close>

lemma read_after_write:
  assumes "view s p \<noteq> None" and "length pg = PAGE_SIZE"
  shows "total 2 (bindP (put p pg) (\<lambda>_. get p)) s (\<lambda>r V. r = pg \<and> V = (view s)(p \<mapsto> pg))"
proof -
  have "total (1 + 1) (bindP (put p pg) (\<lambda>_. get p)) s (\<lambda>r V. r = pg \<and> V = (view s)(p \<mapsto> pg))"
  proof (rule total_bind [OF write_law [OF assms]])
    fix u s' assume V: "view s' = (view s)(p \<mapsto> pg)"
    then have "view s' p = Some pg" by simp
    from read_law [OF this] V show "total 1 (get p) s' (\<lambda>r V. r = pg \<and> V = (view s)(p \<mapsto> pg))"
      by simp
  qed
  then show ?thesis by (simp add: numeral_2_eq_2)
qed

lemma read_after_write_other:
  assumes "view s p \<noteq> None" and "length pg = PAGE_SIZE" and "q \<noteq> p" and "view s q = Some pg'"
  shows "total 2 (bindP (put p pg) (\<lambda>_. get q)) s (\<lambda>r V. r = pg' \<and> V = (view s)(p \<mapsto> pg))"
proof -
  have "total (1 + 1) (bindP (put p pg) (\<lambda>_. get q)) s (\<lambda>r V. r = pg' \<and> V = (view s)(p \<mapsto> pg))"
  proof (rule total_bind [OF write_law [OF assms(1,2)]])
    fix u s' assume V: "view s' = (view s)(p \<mapsto> pg)"
    then have "view s' q = Some pg'" using assms by simp
    from read_law [OF this] V show "total 1 (get q) s' (\<lambda>r V. r = pg' \<and> V = (view s)(p \<mapsto> pg))"
      by simp
  qed
  then show ?thesis by (simp add: numeral_2_eq_2)
qed

text \<open>A page handed out by the allocator aliases no page that is in use.\<close>

lemma alloc_no_alias:
  assumes "length pg = PAGE_SIZE" and "view s q = Some pg'"
  shows "total 2 (bindP (alloc pg) (\<lambda>_. get q)) s (\<lambda>r V. r = pg' \<and> V q = Some pg')"
proof -
  have "total (1 + 1) (bindP (alloc pg) (\<lambda>_. get q)) s (\<lambda>r V. r = pg' \<and> V q = Some pg')"
  proof (rule total_bind [OF alloc_law [OF assms(1)]])
    fix p s' assume "view s p = None \<and> p < U64_MAX \<and> view s' = (view s)(p \<mapsto> pg)"
    then have "view s' q = Some pg'" using assms by auto
    from total_conseq [OF read_law [OF this] _ order_refl] this
    show "total 1 (get q) s' (\<lambda>r V. r = pg' \<and> V q = Some pg')" by simp
  qed
  then show ?thesis by (simp add: numeral_2_eq_2)
qed

end

end
