(* ===== verification/Storage_Pool.thy ===== *)
theory Storage_Pool
  imports Store_Logic
begin

text \<open>
  \<open>src/src/storage/buffer_pool.rs\<close>: the fixed set of frames in front of the disk manager,
  with pinning, dirty bits and least-recently-used eviction.

  The abstract view of a pool (\<open>pool_view\<close>) is a partial map from allocated page ids to
  page contents: the cached bytes where the page is in a frame, the bytes of the file
  otherwise. The locale \<open>page_store\<close> states what the layers above rely on, a store of
  pages with read, modify and allocate; the pool is an instance of it, so that caching and
  eviction are invisible above this theory.

  The clock is a 64-bit counter that panics on overflow, and a page id is a 64-bit number.
  \<open>pool_budget\<close> is the number of accesses or allocations left before either runs out, and
  every access costs one.
\<close>

section \<open>State\<close>

record frame =
  fr_page :: page
  fr_page_id :: "page_id option"
  fr_is_dirty :: bool
  fr_pin_count :: nat
  fr_last_used :: nat

definition frame_empty :: frame where
  "frame_empty = \<lparr>fr_page = new_page_bytes, fr_page_id = None, fr_is_dirty = False,
     fr_pin_count = 0, fr_last_used = 0\<rparr>"

record buffer_pool =
  bp_frames :: "frame list"
  bp_page_table :: "page_id \<rightharpoonup> nat"
  bp_disk :: disk_manager
  bp_clock :: nat

type_synonym 'a pool_prog = "(buffer_pool, io_error, 'a) prog"

section \<open>Operations\<close>

definition pool_new :: "disk_manager \<Rightarrow> nat \<Rightarrow> (io_error, buffer_pool) outcome" where
  "pool_new d capacity =
     (if 0 < capacity
      then Ok \<lparr>bp_frames = replicate capacity frame_empty, bp_page_table = Map.empty,
               bp_disk = d, bp_clock = 0\<rparr>
      else Panic ''buffer pool capacity must be positive'')"

definition on_disk :: "(disk_manager, io_error, 'a) prog \<Rightarrow> 'a pool_prog" where
  "on_disk m = (\<lambda>s. case m (bp_disk s) of (r, d) \<Rightarrow> (r, s\<lparr>bp_disk := d\<rparr>))"

definition update_frame :: "nat \<Rightarrow> (frame \<Rightarrow> frame) \<Rightarrow> unit pool_prog" where
  "update_frame i g = (\<lambda>s.
     if i < length (bp_frames s)
     then (Ok (), s\<lparr>bp_frames := (bp_frames s)[i := g (bp_frames s ! i)]\<rparr>)
     else (Panic ''index out of bounds'', s))"

definition touch :: "nat \<Rightarrow> unit pool_prog" where
  "touch i =
     bindP (readP bp_clock) (\<lambda>c.
     bindP (assertP (c + 1 \<le> U64_MAX) ''attempt to add with overflow'') (\<lambda>_.
     bindP (modifyP (\<lambda>s. s\<lparr>bp_clock := c + 1\<rparr>)) (\<lambda>_.
     update_frame i (\<lambda>f. f\<lparr>fr_last_used := c + 1\<rparr>))))"

definition find_empty_frame :: "frame list \<Rightarrow> nat option" where
  "find_empty_frame frs = find (\<lambda>i. fr_page_id (frs ! i) = None) [0..<length frs]"

definition lru_step :: "frame list \<Rightarrow> nat \<Rightarrow> nat option \<times> nat \<Rightarrow> nat option \<times> nat" where
  "lru_step frs i vt =
     (if fr_pin_count (frs ! i) = 0 \<and> fr_last_used (frs ! i) < snd vt
      then (Some i, fr_last_used (frs ! i)) else vt)"

definition lru_victim :: "frame list \<Rightarrow> nat option" where
  "lru_victim frs = fst (fold (lru_step frs) [0..<length frs] (None, U64_MAX))"

definition claim_frame :: "nat \<Rightarrow> page_id \<Rightarrow> unit pool_prog" where
  "claim_frame i pid =
     bindP (update_frame i (\<lambda>f. f\<lparr>fr_page_id := Some pid, fr_is_dirty := False, fr_pin_count := 0\<rparr>)) (\<lambda>_.
     modifyP (\<lambda>s. s\<lparr>bp_page_table := (bp_page_table s)(pid \<mapsto> i)\<rparr>))"

definition allocate_frame :: "page_id \<Rightarrow> nat pool_prog" where
  "allocate_frame pid =
     bindP (readP bp_frames) (\<lambda>frs.
     case find_empty_frame frs of
       Some i \<Rightarrow> bindP (claim_frame i pid) (\<lambda>_. returnP i)
     | None \<Rightarrow>
        (case lru_victim frs of
           None \<Rightarrow> panicP ''all frames pinned, cannot evict''
         | Some i \<Rightarrow>
            (case fr_page_id (frs ! i) of
               None \<Rightarrow> panicP ''victim has no page id''
             | Some old \<Rightarrow>
                 bindP (if fr_is_dirty (frs ! i)
                        then on_disk (disk_write_page old (fr_page (frs ! i)))
                        else returnP ()) (\<lambda>_.
                 bindP (modifyP (\<lambda>s. s\<lparr>bp_page_table := (bp_page_table s)(old := None)\<rparr>)) (\<lambda>_.
                 bindP (claim_frame i pid) (\<lambda>_. returnP i))))))"

definition fetch_or_load :: "page_id \<Rightarrow> nat pool_prog" where
  "fetch_or_load pid =
     bindP (readP (\<lambda>s. bp_page_table s pid)) (\<lambda>hit.
     case hit of
       Some i \<Rightarrow> returnP i
     | None \<Rightarrow>
         bindP (allocate_frame pid) (\<lambda>i.
         bindP (on_disk (disk_read_page pid)) (\<lambda>pg.
         bindP (update_frame i (\<lambda>f. f\<lparr>fr_page := pg\<rparr>)) (\<lambda>_.
         returnP i))))"

definition run_on_frame :: "nat \<Rightarrow> (page \<Rightarrow> (io_error, 'r) outcome) \<Rightarrow> 'r pool_prog" where
  "run_on_frame i f = (\<lambda>s.
     if i < length (bp_frames s) then (f (fr_page (bp_frames s ! i)), s)
     else (Panic ''index out of bounds'', s))"

definition with_page :: "page_id \<Rightarrow> (page \<Rightarrow> (io_error, 'r) outcome) \<Rightarrow> 'r pool_prog" where
  "with_page pid f =
     bindP (fetch_or_load pid) (\<lambda>i.
     bindP (update_frame i (\<lambda>fr. fr\<lparr>fr_pin_count := fr_pin_count fr + 1\<rparr>)) (\<lambda>_.
     bindP (run_on_frame i f) (\<lambda>result.
     bindP (update_frame i (\<lambda>fr. fr\<lparr>fr_pin_count := fr_pin_count fr - 1\<rparr>)) (\<lambda>_.
     bindP (touch i) (\<lambda>_.
     returnP result)))))"

text \<open>The closure of \<open>with_page_mut\<close> returns its result and the page it leaves behind.\<close>

definition with_page_mut ::
    "page_id \<Rightarrow> (page \<Rightarrow> (io_error, 'r \<times> page) outcome) \<Rightarrow> 'r pool_prog" where
  "with_page_mut pid f =
     bindP (fetch_or_load pid) (\<lambda>i.
     bindP (update_frame i (\<lambda>fr. fr\<lparr>fr_pin_count := fr_pin_count fr + 1\<rparr>)) (\<lambda>_.
     bindP (run_on_frame i f) (\<lambda>(result, pg).
     bindP (update_frame i (\<lambda>fr. fr\<lparr>fr_page := pg, fr_is_dirty := True\<rparr>)) (\<lambda>_.
     bindP (update_frame i (\<lambda>fr. fr\<lparr>fr_pin_count := fr_pin_count fr - 1\<rparr>)) (\<lambda>_.
     bindP (touch i) (\<lambda>_.
     returnP result))))))"

definition new_page :: "(page \<Rightarrow> (io_error, 'r \<times> page) outcome) \<Rightarrow> (page_id \<times> 'r) pool_prog" where
  "new_page f =
     bindP (on_disk disk_allocate_page) (\<lambda>pid.
     bindP (allocate_frame pid) (\<lambda>i.
     bindP (update_frame i (\<lambda>fr. fr\<lparr>fr_page := new_page_bytes, fr_is_dirty := True,
              fr_pin_count := fr_pin_count fr + 1\<rparr>)) (\<lambda>_.
     bindP (run_on_frame i f) (\<lambda>(result, pg).
     bindP (update_frame i (\<lambda>fr. fr\<lparr>fr_page := pg, fr_pin_count := fr_pin_count fr - 1\<rparr>)) (\<lambda>_.
     bindP (touch i) (\<lambda>_.
     returnP (pid, result)))))))"

definition delete_page :: "page_id \<Rightarrow> unit pool_prog" where
  "delete_page pid =
     bindP (readP (\<lambda>s. bp_page_table s pid)) (\<lambda>hit.
     bindP (case hit of
         None \<Rightarrow> returnP ()
       | Some i \<Rightarrow>
           bindP (readP (\<lambda>s. fr_pin_count (bp_frames s ! i) = 0)) (\<lambda>unpinned.
           bindP (assertP unpinned ''deleting a pinned page'') (\<lambda>_.
           bindP (update_frame i (\<lambda>fr. fr\<lparr>fr_page_id := None, fr_is_dirty := False, fr_last_used := 0\<rparr>)) (\<lambda>_.
           modifyP (\<lambda>s. s\<lparr>bp_page_table := (bp_page_table s)(pid := None)\<rparr>))))) (\<lambda>_.
     on_disk (disk_free_page pid)))"

definition flush_frame :: "nat \<Rightarrow> unit pool_prog" where
  "flush_frame i =
     bindP (readP (\<lambda>s. bp_frames s ! i)) (\<lambda>fr.
     case fr_page_id fr of
       None \<Rightarrow> returnP ()
     | Some pid \<Rightarrow>
        if fr_is_dirty fr then
          bindP (on_disk (disk_write_page pid (fr_page fr))) (\<lambda>_.
          update_frame i (\<lambda>f. f\<lparr>fr_is_dirty := False\<rparr>))
        else returnP ())"

definition flush_all :: "unit pool_prog" where
  "flush_all =
     bindP (readP (\<lambda>s. length (bp_frames s))) (\<lambda>n.
     bindP (mapP flush_frame [0..<n]) (\<lambda>_. returnP ()))"

section \<open>View and invariant\<close>

definition pool_view :: "buffer_pool \<Rightarrow> page_id \<rightharpoonup> page" where
  "pool_view s p =
     (if disk_allocated (bp_disk s) p
      then Some (case bp_page_table s p of
                   Some i \<Rightarrow> fr_page (bp_frames s ! i)
                 | None \<Rightarrow> disk_page (bp_disk s) p)
      else None)"

definition frame_ok :: "disk_manager \<Rightarrow> nat \<Rightarrow> frame \<Rightarrow> bool" where
  "frame_ok d c fr \<longleftrightarrow>
     length (fr_page fr) = PAGE_SIZE \<and> fr_pin_count fr = 0 \<and> fr_last_used fr \<le> c
     \<and> (\<forall>p. fr_page_id fr = Some p \<longrightarrow> disk_allocated d p
           \<and> (\<not> fr_is_dirty fr \<longrightarrow> fr_page fr = disk_page d p))"

definition pool_inv :: "buffer_pool \<Rightarrow> bool" where
  "pool_inv s \<longleftrightarrow>
     disk_inv (bp_disk s) \<and> bp_frames s \<noteq> []
     \<and> (\<forall>p i. bp_page_table s p = Some i
          \<longleftrightarrow> i < length (bp_frames s) \<and> fr_page_id (bp_frames s ! i) = Some p)
     \<and> (\<forall>i < length (bp_frames s). frame_ok (bp_disk s) (bp_clock s) (bp_frames s ! i))"

definition pool_budget :: "buffer_pool \<Rightarrow> nat" where
  "pool_budget s = U64_MAX - max (bp_clock s) (dm_num_pages (bp_disk s))"

lemma pool_invD:
  assumes "pool_inv s"
  shows "disk_inv (bp_disk s)" and "bp_frames s \<noteq> []"
    and "bp_page_table s p = Some i
      \<longleftrightarrow> i < length (bp_frames s) \<and> fr_page_id (bp_frames s ! i) = Some p"
    and "i < length (bp_frames s) \<Longrightarrow> frame_ok (bp_disk s) (bp_clock s) (bp_frames s ! i)"
  using assms by (auto simp: pool_inv_def)

lemma pool_view_dom: "pool_view s p \<noteq> None \<longleftrightarrow> disk_allocated (bp_disk s) p"
  by (simp add: pool_view_def)

lemma pool_view_length:
  assumes "pool_inv s" and "pool_view s p = Some pg"
  shows "length pg = PAGE_SIZE"
proof (cases "bp_page_table s p")
  case None
  with assms show ?thesis
    by (auto simp: pool_view_def disk_allocated_def pool_invD split: if_splits)
next
  case (Some i)
  then have "i < length (bp_frames s)" using pool_invD(3) [OF assms(1)] by blast
  then have "frame_ok (bp_disk s) (bp_clock s) (bp_frames s ! i)"
    using pool_invD(4) [OF assms(1)] by blast
  with Some assms(2) show ?thesis
    by (auto simp: pool_view_def frame_ok_def split: if_splits)
qed

lemma on_disk_step [prog_simps]:
  "m (bp_disk s) = (r, d) \<Longrightarrow> on_disk m s = (r, s\<lparr>bp_disk := d\<rparr>)"
  by (simp add: on_disk_def)

lemma update_frame_step [prog_simps]:
  "i < length (bp_frames s) \<Longrightarrow>
    update_frame i g s = (Ok (), s\<lparr>bp_frames := (bp_frames s)[i := g (bp_frames s ! i)]\<rparr>)"
  by (simp add: update_frame_def)

lemma run_on_frame_step [prog_simps]:
  "i < length (bp_frames s) \<Longrightarrow> run_on_frame i f s = (f (fr_page (bp_frames s ! i)), s)"
  by (simp add: run_on_frame_def)

lemma claim_frame_step [prog_simps]:
  "i < length (bp_frames s) \<Longrightarrow>
    claim_frame i pid s = (Ok (), s\<lparr>bp_frames := (bp_frames s)[i := (bp_frames s ! i)\<lparr>fr_page_id := Some pid,
       fr_is_dirty := False, fr_pin_count := 0\<rparr>], bp_page_table := (bp_page_table s)(pid \<mapsto> i)\<rparr>)"
  by (simp add: claim_frame_def bindP_step update_frame_step)

lemma touch_step [prog_simps]:
  "i < length (bp_frames s) \<Longrightarrow> bp_clock s < U64_MAX \<Longrightarrow>
    touch i s = (Ok (), s\<lparr>bp_clock := bp_clock s + 1,
      bp_frames := (bp_frames s)[i := (bp_frames s ! i)\<lparr>fr_last_used := bp_clock s + 1\<rparr>]\<rparr>)"
  by (simp add: touch_def update_frame_step)

section \<open>Eviction\<close>

lemma lru_fold:
  assumes "fold (lru_step frs) xs (v, t) = (v', t')"
  shows "t' \<le> t
    \<and> (v' = v \<and> t' = t \<or> (\<exists>j \<in> set xs. v' = Some j \<and> fr_pin_count (frs ! j) = 0
           \<and> fr_last_used (frs ! j) = t' \<and> t' < t))
    \<and> (\<forall>i \<in> set xs. fr_pin_count (frs ! i) = 0 \<longrightarrow> t' \<le> fr_last_used (frs ! i))"
  using assms
proof (induction xs arbitrary: v t)
  case (Cons x xs)
  show ?case
  proof (cases "fr_pin_count (frs ! x) = 0 \<and> fr_last_used (frs ! x) < t")
    case True
    then have "fold (lru_step frs) xs (Some x, fr_last_used (frs ! x)) = (v', t')"
      using Cons.prems by (simp add: lru_step_def [of frs x])
    from Cons.IH [OF this] True show ?thesis by auto
  next
    case False
    then have "lru_step frs x (v, t) = (v, t)" by (auto simp: lru_step_def)
    then have "fold (lru_step frs) xs (v, t) = (v', t')" using Cons.prems by simp
    from Cons.IH [OF this] False show ?thesis by auto
  qed
qed auto

lemma lru_victim_spec:
  assumes "k < length frs" and "fr_pin_count (frs ! k) = 0" and "fr_last_used (frs ! k) < U64_MAX"
  obtains i where "lru_victim frs = Some i" and "i < length frs" and "fr_pin_count (frs ! i) = 0"
    and "\<forall>j < length frs. fr_pin_count (frs ! j) = 0 \<longrightarrow> fr_last_used (frs ! i) \<le> fr_last_used (frs ! j)"
proof -
  obtain v t where vt: "fold (lru_step frs) [0..<length frs] (None, U64_MAX) = (v, t)"
    by (metis surj_pair)
  have low: "\<forall>j < length frs. fr_pin_count (frs ! j) = 0 \<longrightarrow> t \<le> fr_last_used (frs ! j)"
    using lru_fold [OF vt] by simp
  with assms have "t < U64_MAX" by fastforce
  with lru_fold [OF vt] obtain i where "v = Some i" "i < length frs" "fr_pin_count (frs ! i) = 0"
    "fr_last_used (frs ! i) = t" by auto
  with vt low that show ?thesis by (simp add: lru_victim_def)
qed

lemma find_empty_frame_Some:
  "find_empty_frame frs = Some i \<Longrightarrow> i < length frs \<and> fr_page_id (frs ! i) = None"
  by (auto simp: find_empty_frame_def find_Some_iff)

lemma find_empty_frame_None:
  "find_empty_frame frs = None \<Longrightarrow> i < length frs \<Longrightarrow> \<exists>p. fr_page_id (frs ! i) = Some p"
  by (auto simp: find_empty_frame_def find_None_iff)

text \<open>Emptying a frame after writing it back changes neither the invariant nor the view.\<close>

definition write_back :: "frame \<Rightarrow> page_id \<Rightarrow> disk_manager \<Rightarrow> disk_manager" where
  "write_back fr p d = (if fr_is_dirty fr then disk_put d p (fr_page fr) else d)"

definition evict :: "nat \<Rightarrow> page_id \<Rightarrow> buffer_pool \<Rightarrow> buffer_pool" where
  "evict i p s = s\<lparr>bp_disk := write_back (bp_frames s ! i) p (bp_disk s),
     bp_page_table := (bp_page_table s)(p := None),
     bp_frames := (bp_frames s)[i := (bp_frames s ! i)\<lparr>fr_page_id := None\<rparr>]\<rparr>"

lemma write_back_simps [simp]:
  "dm_num_pages (write_back fr p d) = dm_num_pages d"
  "dm_free_list (write_back fr p d) = dm_free_list d"
  "disk_allocated (write_back fr p d) q \<longleftrightarrow> disk_allocated d q"
  by (simp_all add: write_back_def)

lemma write_back_page:
  assumes "disk_inv d" and "disk_allocated d p" and "length (fr_page fr) = PAGE_SIZE"
    and "\<not> fr_is_dirty fr \<longrightarrow> fr_page fr = disk_page d p" and "disk_allocated d q"
  shows "disk_page (write_back fr p d) q = (if q = p then fr_page fr else disk_page d q)"
  using assms disk_page_put [of d p "fr_page fr" q] by (auto simp: write_back_def disk_allocated_def)

lemma evict_inv:
  assumes inv: "pool_inv s" and i: "i < length (bp_frames s)"
    and p: "fr_page_id (bp_frames s ! i) = Some p"
  shows "pool_inv (evict i p s)" and "pool_view (evict i p s) = pool_view s"
proof -
  note D = pool_invD [OF inv]
  let ?fr = "bp_frames s ! i" and ?d = "bp_disk s"
  have ok: "frame_ok ?d (bp_clock s) ?fr" using D(4) [OF i] .
  have wb: "disk_page (write_back ?fr p ?d) q = (if q = p then fr_page ?fr else disk_page ?d q)"
    if "disk_allocated ?d q" for q
    using ok p by (intro write_back_page [OF D(1) _ _ _ that]) (auto simp: frame_ok_def)
  have table: "bp_page_table s q = Some j \<longleftrightarrow> j < length (bp_frames s) \<and> fr_page_id (bp_frames s ! j) = Some q"
    for q j by (rule D(3))
  have uniq: "j = i" if "j < length (bp_frames s)" "fr_page_id (bp_frames s ! j) = Some p" for j
    using table [of p i] table [of p j] i p that by simp
  have dinv: "disk_inv (write_back ?fr p ?d)" using D(1) ok by (simp add: write_back_def frame_ok_def)
  have frames: "frame_ok (write_back ?fr p ?d) (bp_clock s) ((bp_frames s)[i := ?fr\<lparr>fr_page_id := None\<rparr>] ! j)"
    if j: "j < length (bp_frames s)" for j
  proof (cases "j = i")
    case True
    with ok j show ?thesis by (simp add: frame_ok_def)
  next
    case False
    have "fr_page_id (bp_frames s ! j) \<noteq> Some p"
      using False j uniq by blast
    moreover have "frame_ok ?d (bp_clock s) (bp_frames s ! j)" using D(4) [OF j] .
    ultimately have "frame_ok (write_back ?fr p ?d) (bp_clock s) (bp_frames s ! j)"
      unfolding frame_ok_def using wb by (metis write_back_simps(3))
    with False j show ?thesis by simp
  qed
  have table': "bp_page_table (evict i p s) q = Some j \<longleftrightarrow> j < length (bp_frames s)
      \<and> fr_page_id ((bp_frames s)[i := ?fr\<lparr>fr_page_id := None\<rparr>] ! j) = Some q" for q j
  proof (cases "j = i")
    case True
    with i p table [of q i] show ?thesis by (auto simp: evict_def)
  next
    case False
    with uniq [of j] table [of q j] show ?thesis by (auto simp: evict_def)
  qed
  show "pool_inv (evict i p s)"
    unfolding pool_inv_def table' using dinv frames D(2) by (simp add: evict_def)
  show "pool_view (evict i p s) = pool_view s"
  proof
    fix q
    show "pool_view (evict i p s) q = pool_view s q"
    proof (cases "disk_allocated ?d q")
      case True
      have pt: "bp_page_table s p = Some i" using table i p by blast
      show ?thesis
      proof (cases "q = p")
        case True
        with pt wb \<open>disk_allocated ?d q\<close> show ?thesis
          by (simp add: pool_view_def evict_def)
      next
        case False
        then have "bp_page_table s q = Some j \<Longrightarrow> j \<noteq> i" for j using table p by auto
        with False wb \<open>disk_allocated ?d q\<close> show ?thesis
          by (auto simp: pool_view_def evict_def nth_list_update split: option.splits)
      qed
    qed (simp add: pool_view_def evict_def)
  qed
qed

text \<open>Filling an empty frame with a page that is not cached.\<close>

lemma install_inv:
  assumes inv: "pool_inv s" and i: "i < length (bp_frames s)"
    and none: "fr_page_id (bp_frames s ! i) = None"
    and p: "disk_allocated (bp_disk s) p" and uncached: "bp_page_table s p = None"
    and fr: "fr_page_id fr = Some p" "frame_ok (bp_disk s) c fr" and c: "bp_clock s \<le> c"
    and s': "bp_frames s' = (bp_frames s)[i := fr]" "bp_page_table s' = (bp_page_table s)(p \<mapsto> i)"
      "bp_disk s' = bp_disk s" "bp_clock s' = c"
  shows "pool_inv s'" and "pool_view s' = (pool_view s)(p \<mapsto> fr_page fr)"
proof -
  note D = pool_invD [OF inv]
  have frames: "frame_ok (bp_disk s) c ((bp_frames s)[i := fr] ! j)" if "j < length (bp_frames s)" for j
    using D(4) [OF that] fr c that by (cases "j = i") (auto simp: frame_ok_def)
  have table: "bp_page_table s q = Some j \<longleftrightarrow> j < length (bp_frames s) \<and> fr_page_id (bp_frames s ! j) = Some q"
    for q j by (rule D(3))
  have "j < length (bp_frames s) \<Longrightarrow> fr_page_id (bp_frames s ! j) \<noteq> Some p" for j
    using table uncached by (metis option.distinct(1))
  then show "pool_inv s'"
    unfolding pool_inv_def using D(1,2) frames i none fr table
    by (auto simp: s' nth_list_update)
  have "bp_page_table s q = Some j \<Longrightarrow> j \<noteq> i" for q j using table none by auto
  then show "pool_view s' = (pool_view s)(p \<mapsto> fr_page fr)"
    using p i by (auto simp: s' pool_view_def fun_eq_iff nth_list_update split: option.splits)
qed

text \<open>Replacing the contents of a frame by a page of the same id.\<close>

lemma replace_inv:
  assumes inv: "pool_inv s" and hit: "bp_page_table s p = Some i"
    and fr: "fr_page_id fr = Some p" "frame_ok (bp_disk s) c fr" and c: "bp_clock s \<le> c"
    and s': "bp_frames s' = (bp_frames s)[i := fr]" "bp_page_table s' = bp_page_table s"
      "bp_disk s' = bp_disk s" "bp_clock s' = c"
  shows "pool_inv s'" and "pool_view s' = (pool_view s)(p \<mapsto> fr_page fr)"
proof -
  note D = pool_invD [OF inv]
  have i: "i < length (bp_frames s)" and id: "fr_page_id (bp_frames s ! i) = Some p"
    using hit D(3) by blast+
  have frames: "frame_ok (bp_disk s) c ((bp_frames s)[i := fr] ! j)" if "j < length (bp_frames s)" for j
    using D(4) [OF that] fr c that by (cases "j = i") (auto simp: frame_ok_def)
  have table: "bp_page_table s q = Some j \<longleftrightarrow> j < length (bp_frames s)
      \<and> fr_page_id ((bp_frames s)[i := fr] ! j) = Some q" for q j
    using D(3) [of q j] i id fr(1) by (cases "j = i") auto
  show "pool_inv s'"
    unfolding pool_inv_def using D(1,2) frames table by (simp add: s')
  have other: "bp_page_table s q \<noteq> Some i" if "q \<noteq> p" for q using D(3) [of q i] id that by auto
  have "disk_allocated (bp_disk s) p" using fr by (simp add: frame_ok_def)
  with i hit other show "pool_view s' = (pool_view s)(p \<mapsto> fr_page fr)"
    by (auto simp: s' pool_view_def fun_eq_iff nth_list_update split: option.splits)
qed

definition claimed :: "nat \<Rightarrow> page_id \<Rightarrow> buffer_pool \<Rightarrow> buffer_pool" where
  "claimed i pid s = s\<lparr>bp_frames := (bp_frames s)[i := (bp_frames s ! i)\<lparr>fr_page_id := Some pid,
     fr_is_dirty := False, fr_pin_count := 0\<rparr>], bp_page_table := (bp_page_table s)(pid \<mapsto> i)\<rparr>"

lemma allocate_frame_spec:
  assumes inv: "pool_inv s" and clock: "bp_clock s < U64_MAX" and none: "bp_page_table s pid = None"
  obtains i s0 where "allocate_frame pid s = (Ok i, claimed i pid s0)"
    and "pool_inv s0" and "pool_view s0 = pool_view s" and "i < length (bp_frames s0)"
    and "fr_page_id (bp_frames s0 ! i) = None" and "bp_page_table s0 pid = None"
    and "bp_clock s0 = bp_clock s" and "disk_allocated (bp_disk s0) = disk_allocated (bp_disk s)"
    and "length (bp_frames s0) = length (bp_frames s)"
    and "dm_num_pages (bp_disk s0) = dm_num_pages (bp_disk s)"
proof (cases "find_empty_frame (bp_frames s)")
  case (Some i)
  with find_empty_frame_Some [OF this]
  have "allocate_frame pid s = (Ok i, claimed i pid s)"
    by (simp add: allocate_frame_def prog_simps claimed_def)
  with find_empty_frame_Some [OF Some] inv none that show ?thesis by blast
next
  case None
  note D = pool_invD [OF inv]
  have "0 < length (bp_frames s)" using D(2) by simp
  moreover from D(4) [OF this]
  have "fr_pin_count (bp_frames s ! 0) = 0" "fr_last_used (bp_frames s ! 0) < U64_MAX"
    using clock by (auto simp: frame_ok_def)
  ultimately obtain i where i: "lru_victim (bp_frames s) = Some i" "i < length (bp_frames s)"
    by (rule lru_victim_spec)
  obtain old where old: "fr_page_id (bp_frames s ! i) = Some old"
    using find_empty_frame_None [OF None i(2)] by blast
  have alloc: "disk_allocated (bp_disk s) old"
    using D(4) [OF i(2)] old by (simp add: frame_ok_def)
  let ?s0 = "evict i old s"
  have wr: "disk_write_page old (fr_page (bp_frames s ! i)) (bp_disk s)
      = (Ok (), disk_put (bp_disk s) old (fr_page (bp_frames s ! i)))"
    using alloc by (intro disk_write_page_Ok) (simp add: disk_allocated_def)
  have "allocate_frame pid s = (Ok i, claimed i pid ?s0)"
    using None i old wr
    by (simp add: allocate_frame_def prog_simps claimed_def evict_def write_back_def)
  moreover have "bp_page_table ?s0 pid = None" using none by (simp add: evict_def)
  moreover have "fr_page_id (bp_frames ?s0 ! i) = None" using i(2) by (simp add: evict_def)
  moreover have "disk_allocated (bp_disk ?s0) = disk_allocated (bp_disk s)"
    by (simp add: evict_def fun_eq_iff)
  ultimately show ?thesis
    using that [of i ?s0] evict_inv [OF inv i(2) old] i(2) by (simp add: evict_def)
qed

lemma fetch_or_load_spec:
  assumes inv: "pool_inv s" and clock: "bp_clock s < U64_MAX"
    and alloc: "disk_allocated (bp_disk s) pid"
  obtains i s' where "fetch_or_load pid s = (Ok i, s')" and "pool_inv s'"
    and "pool_view s' = pool_view s" and "bp_page_table s' pid = Some i"
    and "bp_clock s' = bp_clock s" and "disk_allocated (bp_disk s') = disk_allocated (bp_disk s)"
    and "dm_num_pages (bp_disk s') = dm_num_pages (bp_disk s)"
proof (cases "bp_page_table s pid")
  case (Some i)
  then have "fetch_or_load pid s = (Ok i, s)" by (simp add: fetch_or_load_def)
  with Some inv that show ?thesis by blast
next
  case None
  from inv clock None obtain i s0 where a: "allocate_frame pid s = (Ok i, claimed i pid s0)"
    "pool_inv s0" "pool_view s0 = pool_view s" "i < length (bp_frames s0)"
    "fr_page_id (bp_frames s0 ! i) = None" "bp_page_table s0 pid = None"
    "bp_clock s0 = bp_clock s" "disk_allocated (bp_disk s0) = disk_allocated (bp_disk s)"
    "dm_num_pages (bp_disk s0) = dm_num_pages (bp_disk s)"
    by (rule allocate_frame_spec)
  note D = pool_invD [OF a(2)]
  let ?pg = "disk_page (bp_disk s0) pid"
  let ?fr = "(bp_frames s0 ! i)\<lparr>fr_page_id := Some pid, fr_is_dirty := False, fr_pin_count := 0, fr_page := ?pg\<rparr>"
  let ?s' = "s0\<lparr>bp_page_table := (bp_page_table s0)(pid \<mapsto> i), bp_frames := (bp_frames s0)[i := ?fr]\<rparr>"
  have alloc0: "disk_allocated (bp_disk s0) pid" using alloc a(8) by simp
  then have num: "pid < dm_num_pages (bp_disk s0)" by (simp add: disk_allocated_def)
  have rd: "disk_read_page pid (bp_disk s0) = (Ok ?pg, bp_disk s0)"
    by (rule disk_read_page_Ok [OF D(1) num])
  have run: "fetch_or_load pid s = (Ok i, ?s')"
    using None a(1,4) rd by (simp add: fetch_or_load_def prog_simps claimed_def)
  have ok: "frame_ok (bp_disk s0) (bp_clock s0) ?fr"
    using D(4) [OF a(4)] alloc0 D(1) num by (simp add: frame_ok_def)
  have "pool_inv ?s'" and "pool_view ?s' = (pool_view s0)(pid \<mapsto> fr_page ?fr)"
    using install_inv [OF a(2,4,5) alloc0 a(6) _ ok order_refl, of ?s'] by simp_all
  moreover have "pool_view s0 pid = Some ?pg"
    using alloc0 a(6) by (simp add: pool_view_def)
  ultimately show ?thesis
    using that [OF run] a by (simp add: fun_upd_idem)
qed

section \<open>The pool as a page store\<close>

interpretation pool: store_logic pool_inv pool_view pool_budget .

lemma view_allocated: "pool_view s pid = Some pg \<Longrightarrow> disk_allocated (bp_disk s) pid"
  using pool_view_dom [of s pid] by simp

lemma cached_page:
  "bp_page_table s pid = Some i \<Longrightarrow> pool_view s pid = Some pg \<Longrightarrow> fr_page (bp_frames s ! i) = pg"
  by (auto simp: pool_view_def split: if_splits)

lemma fetch_view:
  assumes "pool_inv s" and "0 < pool_budget s" and "pool_view s pid = Some pg"
  obtains i s' where "fetch_or_load pid s = (Ok i, s')" and "pool_inv s'"
    and "pool_view s' = pool_view s" and "bp_page_table s' pid = Some i"
    and "bp_clock s' = bp_clock s" and "bp_clock s < U64_MAX" and "i < length (bp_frames s')"
    and "fr_page (bp_frames s' ! i) = pg"
    and "frame_ok (bp_disk s') (bp_clock s') (bp_frames s' ! i)"
    and "fr_page_id (bp_frames s' ! i) = Some pid" and "disk_allocated (bp_disk s') pid"
    and "dm_num_pages (bp_disk s') = dm_num_pages (bp_disk s)"
proof -
  have clock: "bp_clock s < U64_MAX" using assms(2) by (simp add: pool_budget_def)
  from assms(1) clock view_allocated [OF assms(3)] obtain i s' where
    f: "fetch_or_load pid s = (Ok i, s')" "pool_inv s'" "pool_view s' = pool_view s"
      "bp_page_table s' pid = Some i" "bp_clock s' = bp_clock s"
      "disk_allocated (bp_disk s') = disk_allocated (bp_disk s)"
      "dm_num_pages (bp_disk s') = dm_num_pages (bp_disk s)"
    by (rule fetch_or_load_spec)
  have i: "i < length (bp_frames s')" "fr_page_id (bp_frames s' ! i) = Some pid"
    using pool_invD(3) [OF f(2)] f(4) by blast+
  have "fr_page (bp_frames s' ! i) = pg" using cached_page [OF f(4)] f(3) assms(3) by simp
  with that [OF f(1-5) clock i(1) _ pool_invD(4) [OF f(2) i(1)] i(2)] f(6,7) view_allocated [OF assms(3)]
  show ?thesis by simp
qed

lemma with_page_total:
  assumes view: "pool_view s pid = Some pg" and f: "f pg = Ok r"
  shows "pool.total 1 (with_page pid f) s (\<lambda>x V. x = r \<and> V = pool_view s)"
proof (rule pool.totalI)
  assume inv: "pool_inv s" and b: "1 \<le> pool_budget s"
  from b have b': "0 < pool_budget s" by simp
  from inv b' view obtain i s' where F: "fetch_or_load pid s = (Ok i, s')" "pool_inv s'"
    "pool_view s' = pool_view s" "bp_page_table s' pid = Some i" "bp_clock s' = bp_clock s"
    "bp_clock s < U64_MAX" "i < length (bp_frames s')" "fr_page (bp_frames s' ! i) = pg"
    "frame_ok (bp_disk s') (bp_clock s') (bp_frames s' ! i)"
    "fr_page_id (bp_frames s' ! i) = Some pid" "disk_allocated (bp_disk s') pid"
    "dm_num_pages (bp_disk s') = dm_num_pages (bp_disk s)"
    by (rule fetch_view)
  let ?c = "bp_clock s' + 1"
  let ?fr = "(bp_frames s' ! i)\<lparr>fr_pin_count := fr_pin_count (bp_frames s' ! i), fr_last_used := ?c\<rparr>"
  let ?t = "s'\<lparr>bp_clock := ?c, bp_frames := (bp_frames s')[i := ?fr]\<rparr>"
  have run: "with_page pid f s = (Ok r, ?t)"
    using F f by (simp add: with_page_def prog_simps)
  have ok: "frame_ok (bp_disk s') ?c ?fr" using F(9,11) by (simp add: frame_ok_def)
  have "pool_inv ?t" and "pool_view ?t = (pool_view s')(pid \<mapsto> fr_page ?fr)"
    using replace_inv [OF F(2,4) _ ok, of ?t] F(10) by simp_all
  moreover have "(pool_view s')(pid \<mapsto> fr_page ?fr) = pool_view s"
    using F(3,8) view by (simp add: fun_upd_idem)
  moreover have "pool_budget s \<le> pool_budget ?t + 1" using F(5,12) by (simp add: pool_budget_def)
  ultimately show "\<exists>x s'. with_page pid f s = (Ok x, s') \<and> pool_inv s'
      \<and> (x = r \<and> pool_view s' = pool_view s) \<and> pool_budget s \<le> pool_budget s' + 1"
    using run by simp
qed

lemma with_page_mut_total:
  assumes view: "pool_view s pid = Some pg" and f: "f pg = Ok (r, pg')" and len: "length pg' = PAGE_SIZE"
  shows "pool.total 1 (with_page_mut pid f) s (\<lambda>x V. x = r \<and> V = (pool_view s)(pid \<mapsto> pg'))"
proof (rule pool.totalI)
  assume inv: "pool_inv s" and b: "1 \<le> pool_budget s"
  from b have b': "0 < pool_budget s" by simp
  from inv b' view obtain i s' where F: "fetch_or_load pid s = (Ok i, s')" "pool_inv s'"
    "pool_view s' = pool_view s" "bp_page_table s' pid = Some i" "bp_clock s' = bp_clock s"
    "bp_clock s < U64_MAX" "i < length (bp_frames s')" "fr_page (bp_frames s' ! i) = pg"
    "frame_ok (bp_disk s') (bp_clock s') (bp_frames s' ! i)"
    "fr_page_id (bp_frames s' ! i) = Some pid" "disk_allocated (bp_disk s') pid"
    "dm_num_pages (bp_disk s') = dm_num_pages (bp_disk s)"
    by (rule fetch_view)
  let ?c = "bp_clock s' + 1"
  let ?fr = "(bp_frames s' ! i)\<lparr>fr_page := pg', fr_is_dirty := True,
    fr_pin_count := fr_pin_count (bp_frames s' ! i), fr_last_used := ?c\<rparr>"
  define t where "t = snd (with_page_mut pid f s)"
  have run: "with_page_mut pid f s = (Ok r, t)"
    and t: "bp_frames t = (bp_frames s')[i := ?fr]" "bp_page_table t = bp_page_table s'"
      "bp_disk t = bp_disk s'" "bp_clock t = ?c"
    using F f by (simp_all add: t_def with_page_mut_def prog_simps)
  have ok: "frame_ok (bp_disk s') ?c ?fr" using F(9,11) len by (simp add: frame_ok_def)
  have "pool_inv t" and "pool_view t = (pool_view s')(pid \<mapsto> fr_page ?fr)"
    using replace_inv [OF F(2,4) _ ok _ t] F(10) by simp_all
  moreover have "pool_budget s \<le> pool_budget t + 1" using F(5,12) t(3,4) by (simp add: pool_budget_def)
  ultimately show "\<exists>x s'. with_page_mut pid f s = (Ok x, s') \<and> pool_inv s'
      \<and> (x = r \<and> pool_view s' = (pool_view s)(pid \<mapsto> pg')) \<and> pool_budget s \<le> pool_budget s' + 1"
    using run F(3) by simp
qed

lemma allocate_disk_pool:
  assumes inv: "pool_inv s"
  obtains pid d where "disk_allocate_page (bp_disk s) = (Ok pid, d)"
    and "pool_inv (s\<lparr>bp_disk := d\<rparr>)" and "pool_view s pid = None" and "bp_page_table s pid = None"
    and "disk_allocated d pid"
    and "pool_view (s\<lparr>bp_disk := d\<rparr>) = (pool_view s)(pid \<mapsto> new_page_bytes)"
    and "dm_num_pages d \<le> dm_num_pages (bp_disk s) + 1"
proof -
  note D = pool_invD [OF inv]
  from D(1) obtain pid d where a: "disk_allocate_page (bp_disk s) = (Ok pid, d)" "disk_inv d"
    "\<not> disk_allocated (bp_disk s) pid" "\<And>q. disk_allocated d q \<longleftrightarrow> q = pid \<or> disk_allocated (bp_disk s) q"
    "disk_page d pid = new_page_bytes"
    "\<And>q. disk_allocated (bp_disk s) q \<Longrightarrow> disk_page d q = disk_page (bp_disk s) q"
    "dm_num_pages d \<le> dm_num_pages (bp_disk s) + 1"
    by (rule disk_allocate_page_spec) blast
  have uncached: "bp_page_table s pid = None"
  proof (cases "bp_page_table s pid")
    case (Some i)
    then have "i < length (bp_frames s)" "fr_page_id (bp_frames s ! i) = Some pid" using D(3) by blast+
    with D(4) a(3) show ?thesis by (auto simp: frame_ok_def)
  qed
  have ok: "frame_ok d c fr" if "frame_ok (bp_disk s) c fr" for c fr
    using that a(4,6) by (auto simp: frame_ok_def)
  have inv': "pool_inv (s\<lparr>bp_disk := d\<rparr>)"
    unfolding pool_inv_def using a(2) D(2,3,4) ok by simp
  have "pool_view (s\<lparr>bp_disk := d\<rparr>) = (pool_view s)(pid \<mapsto> new_page_bytes)"
    using a(3-6) uncached by (auto simp: pool_view_def fun_eq_iff split: option.splits)
  with that [OF a(1) inv'] a(3,4,7) uncached show ?thesis by (simp add: pool_view_def)
qed

lemma new_page_total:
  assumes f: "f new_page_bytes = Ok (r, pg')" and len: "length pg' = PAGE_SIZE"
  shows "pool.total 1 (new_page f) s
    (\<lambda>x V. snd x = r \<and> pool_view s (fst x) = None \<and> fst x < U64_MAX
      \<and> V = (pool_view s)(fst x \<mapsto> pg'))"
proof (rule pool.totalI)
  assume inv: "pool_inv s" and b: "1 \<le> pool_budget s"
  have clock: "bp_clock s < U64_MAX" using b by (simp add: pool_budget_def)
  from inv obtain pid d where a: "disk_allocate_page (bp_disk s) = (Ok pid, d)"
    "pool_inv (s\<lparr>bp_disk := d\<rparr>)" "pool_view s pid = None" "bp_page_table s pid = None"
    "disk_allocated d pid" "pool_view (s\<lparr>bp_disk := d\<rparr>) = (pool_view s)(pid \<mapsto> new_page_bytes)"
    "dm_num_pages d \<le> dm_num_pages (bp_disk s) + 1"
    by (rule allocate_disk_pool)
  let ?s1 = "s\<lparr>bp_disk := d\<rparr>"
  from a(2) clock a(4) obtain i s0 where F: "allocate_frame pid ?s1 = (Ok i, claimed i pid s0)"
    "pool_inv s0" "pool_view s0 = pool_view ?s1" "i < length (bp_frames s0)"
    "fr_page_id (bp_frames s0 ! i) = None" "bp_page_table s0 pid = None" "bp_clock s0 = bp_clock ?s1"
    "disk_allocated (bp_disk s0) = disk_allocated (bp_disk ?s1)"
    "dm_num_pages (bp_disk s0) = dm_num_pages (bp_disk ?s1)"
    by (rule allocate_frame_spec [of ?s1 pid, simplified]) auto
  let ?c = "bp_clock s0 + 1"
  let ?fr = "(bp_frames s0 ! i)\<lparr>fr_page_id := Some pid, fr_is_dirty := True, fr_page := pg',
     fr_pin_count := 0, fr_last_used := ?c\<rparr>"
  define t where "t = snd (new_page f s)"
  have run: "new_page f s = (Ok (pid, r), t)"
    and t: "bp_frames t = (bp_frames s0)[i := ?fr]" "bp_page_table t = (bp_page_table s0)(pid \<mapsto> i)"
      "bp_disk t = bp_disk s0" "bp_clock t = ?c"
    using a(1) F f clock by (simp_all add: t_def new_page_def prog_simps claimed_def)
  have alloc0: "disk_allocated (bp_disk s0) pid" using a(5) F(8) by simp
  have ok: "frame_ok (bp_disk s0) ?c ?fr"
    using pool_invD(4) [OF F(2,4)] alloc0 len by (simp add: frame_ok_def)
  have "pool_inv t" and "pool_view t = (pool_view s0)(pid \<mapsto> fr_page ?fr)"
    using install_inv [OF F(2,4,5) alloc0 F(6) _ ok _ t] by simp_all
  moreover have "pool_budget s \<le> pool_budget t + 1" using F(7,9) a(7) t(3,4) by (simp add: pool_budget_def)
  moreover have "pid < U64_MAX" using a(5,7) b by (auto simp: disk_allocated_def pool_budget_def max_def split: if_splits)
  ultimately show "\<exists>x s'. new_page f s = (Ok x, s') \<and> pool_inv s' \<and> (snd x = r \<and>
      pool_view s (fst x) = None \<and> fst x < U64_MAX \<and> pool_view s' = (pool_view s)(fst x \<mapsto> pg'))
      \<and> pool_budget s \<le> pool_budget s' + 1"
    using run F(3) a(3,6) by simp
qed

definition pool_read :: "page_id \<Rightarrow> page pool_prog" where
  "pool_read pid = with_page pid Ok"

definition pool_write :: "page_id \<Rightarrow> page \<Rightarrow> unit pool_prog" where
  "pool_write pid pg = with_page_mut pid (\<lambda>_. Ok ((), pg))"

definition pool_alloc :: "page \<Rightarrow> page_id pool_prog" where
  "pool_alloc pg = bindP (new_page (\<lambda>_. Ok ((), pg))) (\<lambda>x. returnP (fst x))"

interpretation pages: page_store pool_inv pool_view pool_budget pool_read pool_write pool_alloc
proof
  fix s p pg
  show "pool_inv s \<Longrightarrow> pool_view s p = Some pg \<Longrightarrow> length pg = PAGE_SIZE"
    by (rule pool_view_length)
  show "pool_view s p = Some pg \<Longrightarrow> pool.total 1 (pool_read p) s (\<lambda>r V. r = pg \<and> V = pool_view s)"
    unfolding pool_read_def by (rule with_page_total) simp_all
  show "pool_view s p \<noteq> None \<Longrightarrow> length pg = PAGE_SIZE \<Longrightarrow>
      pool.total 1 (pool_write p pg) s (\<lambda>_ V. V = (pool_view s)(p \<mapsto> pg))"
    unfolding pool_write_def using with_page_mut_total [of s p _ "\<lambda>_. Ok ((), pg)" "()" pg] by auto
  assume len: "length pg = PAGE_SIZE"
  have "pool.total (1 + 0) (pool_alloc pg) s (\<lambda>p V. pool_view s p = None \<and> p < U64_MAX \<and> V = (pool_view s)(p \<mapsto> pg))"
    unfolding pool_alloc_def
    by (rule pool.total_bind [OF new_page_total [of "\<lambda>_. Ok ((), pg)" "()" pg s]])
      (auto simp: len intro: pool.total_return)
  then show "pool.total 1 (pool_alloc pg) s (\<lambda>p V. pool_view s p = None \<and> p < U64_MAX \<and> V = (pool_view s)(p \<mapsto> pg))"
    by simp
qed

section \<open>Freeing, flushing and reopening\<close>

lemma delete_page_total:
  assumes view: "pool_view s pid \<noteq> None"
  shows "pool.total 0 (delete_page pid) s (\<lambda>_ V. V = (pool_view s)(pid := None))"
proof (rule pool.totalI)
  assume inv: "pool_inv s"
  note D = pool_invD [OF inv]
  have alloc: "disk_allocated (bp_disk s) pid" using view pool_view_dom by blast
  let ?d = "(bp_disk s)\<lparr>dm_free_list := dm_free_list (bp_disk s) @ [pid]\<rparr>"
  note free = disk_free_page_Ok [OF D(1) alloc]
  have al: "disk_allocated ?d q \<longleftrightarrow> disk_allocated (bp_disk s) q \<and> q \<noteq> pid" for q
    by (auto simp: disk_allocated_def)
  have dp: "disk_page ?d q = disk_page (bp_disk s) q" for q by (simp add: disk_page_def)
  define t where "t = snd (delete_page pid s)"
  show "\<exists>x s'. delete_page pid s = (Ok x, s') \<and> pool_inv s' \<and> pool_view s' = (pool_view s)(pid := None)
    \<and> pool_budget s \<le> pool_budget s' + 0"
  proof (cases "bp_page_table s pid")
    case None
    have run: "delete_page pid s = (Ok (), s\<lparr>bp_disk := ?d\<rparr>)"
      using None free by (simp add: delete_page_def prog_simps)
    have "fr_page_id (bp_frames s ! i) \<noteq> Some pid" if "i < length (bp_frames s)" for i
      using None D(3) [of pid i] that by auto
    then have "frame_ok ?d (bp_clock s) (bp_frames s ! i)" if "i < length (bp_frames s)" for i
      using D(4) [OF that] that al dp by (auto simp: frame_ok_def)
    then have "pool_inv (s\<lparr>bp_disk := ?d\<rparr>)"
      unfolding pool_inv_def using D(2,3) free(2) by simp
    moreover have "pool_view (s\<lparr>bp_disk := ?d\<rparr>) = (pool_view s)(pid := None)"
      using al dp by (auto simp: pool_view_def fun_eq_iff split: option.splits)
    ultimately show ?thesis using run by (simp add: pool_budget_def)
  next
    case (Some i)
    have i: "i < length (bp_frames s)" "fr_page_id (bp_frames s ! i) = Some pid" using Some D(3) by blast+
    have ok: "frame_ok (bp_disk s) (bp_clock s) (bp_frames s ! i)" using D(4) [OF i(1)] .
    let ?fr = "(bp_frames s ! i)\<lparr>fr_page_id := None, fr_is_dirty := False, fr_last_used := 0\<rparr>"
    have run: "delete_page pid s = (Ok (), t)"
      and t: "bp_frames t = (bp_frames s)[i := ?fr]" "bp_page_table t = (bp_page_table s)(pid := None)"
        "bp_disk t = ?d" "bp_clock t = bp_clock s"
      using Some free i ok by (simp_all add: t_def delete_page_def prog_simps frame_ok_def)
    have uniq: "j = i" if "j < length (bp_frames s)" "fr_page_id (bp_frames s ! j) = Some pid" for j
      using Some D(3) [of pid j] that by simp
    have frames: "frame_ok ?d (bp_clock s) ((bp_frames s)[i := ?fr] ! j)" if j: "j < length (bp_frames s)" for j
    proof (cases "j = i")
      case False
      then have "fr_page_id (bp_frames s ! j) \<noteq> Some pid" using uniq [OF j] by blast
      with D(4) [OF j] False j al dp show ?thesis by (auto simp: frame_ok_def)
    qed (use ok j in \<open>simp add: frame_ok_def\<close>)
    have table: "bp_page_table t q = Some j \<longleftrightarrow> j < length (bp_frames s)
        \<and> fr_page_id ((bp_frames s)[i := ?fr] ! j) = Some q" for q j
    proof (cases "j = i")
      case True
      with i D(3) [of q i] show ?thesis by (auto simp: t)
    next
      case False
      with uniq [of j] D(3) [of q j] show ?thesis by (auto simp: t)
    qed
    have "pool_inv t"
      unfolding pool_inv_def table using frames D(2) free(2) by (simp add: t)
    moreover have other: "bp_page_table s q \<noteq> Some i" if "q \<noteq> pid" for q using D(3) [of q i] i that by auto
    have "pool_view t = (pool_view s)(pid := None)"
      using al dp other i by (auto simp: pool_view_def fun_eq_iff t nth_list_update split: option.splits)
    ultimately show ?thesis using run by (simp add: pool_budget_def t)
  qed
qed

definition frame_clean :: "frame \<Rightarrow> bool" where
  "frame_clean fr \<longleftrightarrow> fr_page_id fr = None \<or> \<not> fr_is_dirty fr"

lemma flush_frame_spec:
  assumes inv: "pool_inv s" and i: "i < length (bp_frames s)"
  obtains s' where "flush_frame i s = (Ok (), s')" and "pool_inv s'" and "pool_view s' = pool_view s"
    and "bp_clock s' = bp_clock s" and "length (bp_frames s') = length (bp_frames s)"
    and "dm_num_pages (bp_disk s') = dm_num_pages (bp_disk s)"
    and "frame_clean (bp_frames s' ! i)"
    and "\<And>j. frame_clean (bp_frames s ! j) \<Longrightarrow> j < length (bp_frames s) \<Longrightarrow> frame_clean (bp_frames s' ! j)"
proof (cases "\<exists>p. fr_page_id (bp_frames s ! i) = Some p \<and> fr_is_dirty (bp_frames s ! i)")
  case False
  then have "flush_frame i s = (Ok (), s)"
    by (auto simp: flush_frame_def split: option.splits)
  with False inv that show ?thesis by (auto simp: frame_clean_def)
next
  case True
  then obtain p where p: "fr_page_id (bp_frames s ! i) = Some p" "fr_is_dirty (bp_frames s ! i)" by blast
  note D = pool_invD [OF inv]
  let ?fr = "bp_frames s ! i"
  have ok: "frame_ok (bp_disk s) (bp_clock s) ?fr" using D(4) [OF i] .
  have alloc: "disk_allocated (bp_disk s) p" and len: "length (fr_page ?fr) = PAGE_SIZE"
    using ok p by (auto simp: frame_ok_def)
  have num: "p < dm_num_pages (bp_disk s)" using alloc by (simp add: disk_allocated_def)
  let ?d = "disk_put (bp_disk s) p (fr_page ?fr)" and ?fr' = "?fr\<lparr>fr_is_dirty := False\<rparr>"
  let ?t = "s\<lparr>bp_disk := ?d, bp_frames := (bp_frames s)[i := ?fr']\<rparr>"
  have run: "flush_frame i s = (Ok (), ?t)"
    using i p disk_write_page_Ok [OF num, of "fr_page ?fr"] by (simp add: flush_frame_def prog_simps)
  have dp: "disk_page ?d q = (if q = p then fr_page ?fr else disk_page (bp_disk s) q)"
    if "disk_allocated (bp_disk s) q" for q
    using disk_page_put [OF D(1) num len, of q] that by (simp add: disk_allocated_def)
  have uniq: "j = i" if "j < length (bp_frames s)" "fr_page_id (bp_frames s ! j) = Some p" for j
    using D(3) [of p i] D(3) [of p j] i p that by simp
  have frames: "frame_ok ?d (bp_clock s) ((bp_frames s)[i := ?fr'] ! j)" if j: "j < length (bp_frames s)" for j
  proof (cases "j = i")
    case True
    with ok j p dp alloc show ?thesis by (simp add: frame_ok_def)
  next
    case False
    then have "fr_page_id (bp_frames s ! j) \<noteq> Some p" using uniq [OF j] by blast
    moreover have "frame_ok (bp_disk s) (bp_clock s) (bp_frames s ! j)" using D(4) [OF j] .
    ultimately have "frame_ok ?d (bp_clock s) (bp_frames s ! j)"
      unfolding frame_ok_def using dp by (metis disk_allocated_put)
    with False j show ?thesis by simp
  qed
  have table: "bp_page_table s q = Some j \<longleftrightarrow> j < length (bp_frames s)
      \<and> fr_page_id ((bp_frames s)[i := ?fr'] ! j) = Some q" for q j
    using D(3) [of q j] i by (cases "j = i") auto
  have "pool_inv ?t"
    unfolding pool_inv_def using table frames D(1,2) len by simp
  moreover have "pool_view ?t = pool_view s"
  proof
    fix q show "pool_view ?t q = pool_view s q"
    proof (cases "bp_page_table s q")
      case None
      then have "q \<noteq> p" using D(3) [of p i] i p by auto
      with None dp show ?thesis by (auto simp: pool_view_def)
    next
      case (Some j)
      then show ?thesis using i by (cases "j = i") (auto simp: pool_view_def)
    qed
  qed
  ultimately show ?thesis
    using that [OF run] i by (auto simp: frame_clean_def nth_list_update)
qed

lemma flush_frames_spec:
  assumes "pool_inv s" and "\<forall>i \<in> set xs. i < length (bp_frames s)"
  obtains ys s' where "mapP flush_frame xs s = (Ok ys, s')" and "pool_inv s'"
    and "pool_view s' = pool_view s" and "bp_clock s' = bp_clock s"
    and "length (bp_frames s') = length (bp_frames s)"
    and "dm_num_pages (bp_disk s') = dm_num_pages (bp_disk s)"
    and "\<And>j. j < length (bp_frames s) \<Longrightarrow> j \<in> set xs \<or> frame_clean (bp_frames s ! j) \<Longrightarrow> frame_clean (bp_frames s' ! j)"
  using assms
proof (induction xs arbitrary: s thesis)
  case Nil
  then show ?case by auto
next
  case (Cons x xs)
  have x: "x < length (bp_frames s)" using Cons.prems(3) by simp
  from Cons.prems(2) x obtain s1 where s1: "flush_frame x s = (Ok (), s1)" "pool_inv s1"
    "pool_view s1 = pool_view s" "bp_clock s1 = bp_clock s" "length (bp_frames s1) = length (bp_frames s)"
    "dm_num_pages (bp_disk s1) = dm_num_pages (bp_disk s)" "frame_clean (bp_frames s1 ! x)"
    "\<And>j. frame_clean (bp_frames s ! j) \<Longrightarrow> j < length (bp_frames s) \<Longrightarrow> frame_clean (bp_frames s1 ! j)"
    by (rule flush_frame_spec) blast
  have "\<forall>i \<in> set xs. i < length (bp_frames s1)" using Cons.prems(3) s1(5) by simp
  with Cons.IH [OF _ s1(2)] obtain ys s' where s': "mapP flush_frame xs s1 = (Ok ys, s')" "pool_inv s'"
    "pool_view s' = pool_view s1" "bp_clock s' = bp_clock s1" "length (bp_frames s') = length (bp_frames s1)"
    "dm_num_pages (bp_disk s') = dm_num_pages (bp_disk s1)"
    "\<And>j. j < length (bp_frames s1) \<Longrightarrow> j \<in> set xs \<or> frame_clean (bp_frames s1 ! j) \<Longrightarrow> frame_clean (bp_frames s' ! j)"
    by blast
  have "mapP flush_frame (x # xs) s = (Ok (() # ys), s')" using s1(1) s'(1) by (simp add: prog_simps)
  then show ?case by (rule Cons.prems(1)) (use s1 s' in auto)
qed

lemma flush_all_spec:
  assumes inv: "pool_inv s"
  obtains s' where "flush_all s = (Ok (), s')" and "pool_inv s'" and "pool_view s' = pool_view s"
    and "pool_budget s' = pool_budget s"
    and "\<And>p. disk_allocated (bp_disk s') p \<Longrightarrow> pool_view s' p = Some (disk_page (bp_disk s') p)"
proof -
  from inv obtain ys s' where F: "mapP flush_frame [0..<length (bp_frames s)] s = (Ok ys, s')" "pool_inv s'"
    "pool_view s' = pool_view s" "bp_clock s' = bp_clock s" "length (bp_frames s') = length (bp_frames s)"
    "dm_num_pages (bp_disk s') = dm_num_pages (bp_disk s)"
    "\<And>j. j < length (bp_frames s) \<Longrightarrow> j \<in> set [0..<length (bp_frames s)] \<or> frame_clean (bp_frames s ! j)
        \<Longrightarrow> frame_clean (bp_frames s' ! j)"
    by (rule flush_frames_spec [of s "[0..<length (bp_frames s)]"]) auto
  have run: "flush_all s = (Ok (), s')" using F(1) by (simp add: flush_all_def prog_simps)
  have "pool_view s' p = Some (disk_page (bp_disk s') p)" if "disk_allocated (bp_disk s') p" for p
  proof (cases "bp_page_table s' p")
    case None
    with that show ?thesis by (simp add: pool_view_def)
  next
    case (Some i)
    then have i: "i < length (bp_frames s')" "fr_page_id (bp_frames s' ! i) = Some p"
      using pool_invD(3) [OF F(2)] by blast+
    then have "frame_clean (bp_frames s' ! i)" using F(5,7) by simp
    with pool_invD(4) [OF F(2) i(1)] i that Some show ?thesis
      by (simp add: pool_view_def frame_ok_def frame_clean_def)
  qed
  moreover have "pool_budget s' = pool_budget s" using F(4,6) by (simp add: pool_budget_def)
  ultimately show ?thesis using that [OF run F(2,3)] by blast
qed

lemma pool_new_inv:
  assumes "disk_inv d" and "0 < n" and "pool_new d n = Ok s"
  shows "pool_inv s" and "pool_view s p = (if disk_allocated d p then Some (disk_page d p) else None)"
    and "pool_budget s = U64_MAX - dm_num_pages d"
  using assms by (auto simp: pool_new_def pool_inv_def pool_view_def pool_budget_def frame_ok_def
      frame_empty_def split: if_splits)

lemma disk_open_inv:
  assumes "disk_open file = Ok d"
  shows "disk_inv d" and "disk_allocated d p \<longleftrightarrow> p < length file div PAGE_SIZE"
    and "disk_page d p = get_slice file (p * PAGE_SIZE) PAGE_SIZE"
  using assms by (auto simp: disk_open_def disk_inv_def disk_allocated_def disk_page_def split: if_splits)

section \<open>Properties\<close>

text \<open>A pool of one frame over a file of one zeroed page, for the concrete instances.\<close>

definition example_pool :: buffer_pool where
  "example_pool = \<lparr>bp_frames = [frame_empty], bp_page_table = Map.empty,
     bp_disk = \<lparr>dm_file = new_page_bytes, dm_num_pages = 1, dm_free_list = []\<rparr>, bp_clock = 0\<rparr>"

lemma example_pool_inv: "pool_inv example_pool"
  by (auto simp: pool_inv_def example_pool_def disk_inv_def frame_ok_def frame_empty_def less_Suc_eq_0_disj)

lemma example_pool_view: "pool_view example_pool 0 = Some new_page_bytes"
  by (simp add: pool_view_def example_pool_def disk_allocated_def disk_page_def)

lemma example_pool_budget: "1024 \<le> pool_budget example_pool"
  by (simp add: pool_budget_def example_pool_def U64_MAX_def)

text \<open>
  C1: \<open>with_page_mut\<close> implements an update of the abstract page store. On an allocated page
  it runs the closure on the current contents, whether they were cached, loaded from the
  file or had to displace another page; it returns the closure's result, keeps the pool's
  invariant, changes the view at that page only, and neither fails nor panics.
\<close>

theorem with_page_mut_refines_store:
  assumes "pool_inv s" and "1 \<le> pool_budget s" and "pool_view s pid = Some pg"
    and "f pg = Ok (r, pg')" and "length pg' = PAGE_SIZE"
  shows "\<exists>s'. with_page_mut pid f s = (Ok r, s') \<and> pool_inv s'
    \<and> pool_view s' = (pool_view s)(pid \<mapsto> pg')"
  using with_page_mut_total [of s pid pg f r pg'] assms by (auto elim!: pool.totalE)

theorem with_page_mut_refines_store_witness:
  "\<exists>s'. with_page_mut 0 (\<lambda>pg. Ok (7 :: nat, pg[0 := 42])) example_pool = (Ok 7, s')
    \<and> pool_inv s' \<and> pool_view s' = (pool_view example_pool)(0 \<mapsto> new_page_bytes[0 := 42])"
  by (rule with_page_mut_refines_store [OF example_pool_inv _ example_pool_view])
    (use example_pool_budget in simp_all)

text \<open>
  C2: pages survive a restart. After \<open>flush_all\<close>, opening the file again and putting a new
  pool of any capacity in front of it shows every page that was allocated before with the
  same contents.
\<close>

theorem flush_then_reopen_keeps_pages:
  assumes inv: "pool_inv s" and n: "0 < n"
  shows "\<exists>s' d t. flush_all s = (Ok (), s') \<and> disk_open (dm_file (bp_disk s')) = Ok d
    \<and> pool_new d n = Ok t \<and> pool_inv t \<and> (\<forall>p pg. pool_view s p = Some pg \<longrightarrow> pool_view t p = Some pg)"
proof -
  from inv obtain s' where F: "flush_all s = (Ok (), s')" "pool_inv s'" "pool_view s' = pool_view s"
    "\<And>p. disk_allocated (bp_disk s') p \<Longrightarrow> pool_view s' p = Some (disk_page (bp_disk s') p)"
    by (rule flush_all_spec) blast
  have di: "disk_inv (bp_disk s')" by (rule pool_invD [OF F(2)])
  obtain d where d: "disk_open (dm_file (bp_disk s')) = Ok d"
    using di by (simp add: disk_open_def disk_inv_def)
  obtain t where t: "pool_new d n = Ok t" using n by (simp add: pool_new_def)
  note T = pool_new_inv [OF disk_open_inv(1) [OF d] n t] and O = disk_open_inv [OF d]
  have "pool_view t p = Some pg" if "pool_view s p = Some pg" for p pg
  proof -
    have al: "disk_allocated (bp_disk s') p" using that F(3) view_allocated by metis
    then have "p * PAGE_SIZE + PAGE_SIZE \<le> length (dm_file (bp_disk s'))"
      using page_in_file [OF di] by (simp add: disk_allocated_def)
    then have "p < length (dm_file (bp_disk s')) div PAGE_SIZE"
      using div_le_mono [of "p * PAGE_SIZE + PAGE_SIZE" _ PAGE_SIZE] by fastforce
    with O T(2) F(3) F(4) [OF al] that show ?thesis by (simp add: disk_page_def)
  qed
  with F(1) d t T(1) show ?thesis by blast
qed

theorem flush_then_reopen_keeps_pages_witness:
  "\<exists>s' d t. flush_all example_pool = (Ok (), s') \<and> disk_open (dm_file (bp_disk s')) = Ok d
    \<and> pool_new d 3 = Ok t \<and> pool_inv t
    \<and> (\<forall>p pg. pool_view example_pool p = Some pg \<longrightarrow> pool_view t p = Some pg)"
  by (rule flush_then_reopen_keeps_pages [OF example_pool_inv]) simp

text \<open>
  C3: \<open>new_page\<close> never hands out a page that is in use. The page it returns was not
  allocated, starts from zeroed bytes, and every other page keeps its contents.
\<close>

theorem new_page_is_fresh:
  assumes "pool_inv s" and "1 \<le> pool_budget s"
    and "f new_page_bytes = Ok (r, pg')" and "length pg' = PAGE_SIZE"
  shows "\<exists>pid s'. new_page f s = (Ok (pid, r), s') \<and> pool_inv s' \<and> pool_view s pid = None
    \<and> pool_view s' = (pool_view s)(pid \<mapsto> pg')"
proof -
  from new_page_total [of f r pg' s] assms obtain x s'
    where "new_page f s = (Ok x, s')" "pool_inv s'" "snd x = r" "pool_view s (fst x) = None"
      "pool_view s' = (pool_view s)(fst x \<mapsto> pg')" by (auto elim!: pool.totalE)
  then show ?thesis by (intro exI [of _ "fst x"] exI [of _ s']) auto
qed

theorem new_page_is_fresh_witness:
  "\<exists>pid s'. new_page (\<lambda>pg. Ok ((), pg[1 := 5])) example_pool = (Ok (pid, ()), s') \<and> pool_inv s'
    \<and> pool_view example_pool pid = None
    \<and> pool_view s' = (pool_view example_pool)(pid \<mapsto> new_page_bytes[1 := 5])"
  by (rule new_page_is_fresh [OF example_pool_inv]) (use example_pool_budget in simp_all)

end
