(* ===== verification/Storage_Heap.thy ===== *)
theory Storage_Heap
  imports Storage_Pool
begin

text \<open>
  \<open>storage/heap.rs\<close>: variable-length records in a chain of slotted pages.

  A page is the byte list the code works on; the helpers (\<open>init_heap_page\<close>,
  \<open>page_free_space\<close>, \<open>try_insert_in_page\<close>, \<open>read_slot\<close>, \<open>tombstone_slot\<close>) are translated on
  the bytes, with the bounds checks of slices as panics. \<open>hp_records\<close> is the abstract content
  of a page, one optional record per slot, and \<open>heap_page_ok\<close> the layout invariant.

  A \<open>HeapFile\<close> method takes \<open>&mut self\<close> and \<open>&mut BufferPool\<close>: its state is the pair of
  the two. The chain walks are loops with no bound in the code; they carry fuel, one step more
  than the file has pages, and give \<open>Hang\<close> when it runs out, which happens only when the walk
  revisits a page and so never ends. \<open>heap_chain\<close> is the invariant under which they return.
\<close>

section \<open>Slotted pages\<close>

type_synonym slot_id = nat
type_synonym doc_id = "page_id \<times> slot_id"

definition HEADER_NEXT_OFFSET :: nat where "HEADER_NEXT_OFFSET = 0"
definition HEADER_SLOT_COUNT_OFFSET :: nat where "HEADER_SLOT_COUNT_OFFSET = 8"
definition HEADER_FREE_END_OFFSET :: nat where "HEADER_FREE_END_OFFSET = 10"
definition HEADER_SIZE :: nat where "HEADER_SIZE = 12"
definition SLOT_SIZE :: nat where "SLOT_SIZE = 4"
definition NO_NEXT :: page_id where "NO_NEXT = U64_MAX"
definition MAX_RECORD_SIZE :: nat where "MAX_RECORD_SIZE = PAGE_SIZE - HEADER_SIZE - SLOT_SIZE"

lemmas heap_consts = HEADER_NEXT_OFFSET_def HEADER_SLOT_COUNT_OFFSET_def HEADER_FREE_END_OFFSET_def
  HEADER_SIZE_def SLOT_SIZE_def

definition read_u64 :: "byte list \<Rightarrow> nat \<Rightarrow> ('e, nat) outcome" where
  "read_u64 buf offset = bindO (index_range buf offset 8) (\<lambda>b. Ok (le_val b))"

definition write_u64 :: "byte list \<Rightarrow> nat \<Rightarrow> nat \<Rightarrow> ('e, byte list) outcome" where
  "write_u64 buf offset val = write_range buf offset (le_bytes 8 val)"

definition read_u16 :: "byte list \<Rightarrow> nat \<Rightarrow> ('e, nat) outcome" where
  "read_u16 buf offset = bindO (index_range buf offset 2) (\<lambda>b. Ok (le_val b))"

definition write_u16 :: "byte list \<Rightarrow> nat \<Rightarrow> nat \<Rightarrow> ('e, byte list) outcome" where
  "write_u16 buf offset val = write_range buf offset (le_bytes 2 val)"

definition init_heap_page :: "page \<Rightarrow> ('e, page) outcome" where
  "init_heap_page pg =
     bindO (write_u64 pg HEADER_NEXT_OFFSET NO_NEXT) (\<lambda>pg.
     bindO (write_u16 pg HEADER_SLOT_COUNT_OFFSET 0) (\<lambda>pg.
     write_u16 pg HEADER_FREE_END_OFFSET PAGE_SIZE))"

text \<open>\<open>saturating_sub\<close> is subtraction on \<open>nat\<close>.\<close>

definition page_free_space :: "page \<Rightarrow> ('e, nat) outcome" where
  "page_free_space pg =
     bindO (read_u16 pg HEADER_SLOT_COUNT_OFFSET) (\<lambda>slot_count.
     bindO (read_u16 pg HEADER_FREE_END_OFFSET) (\<lambda>free_end.
     Ok (free_end - (HEADER_SIZE + slot_count * SLOT_SIZE))))"

definition try_insert_in_page :: "page \<Rightarrow> byte list \<Rightarrow> ('e, slot_id option \<times> page) outcome" where
  "try_insert_in_page pg data =
     bindO (page_free_space pg) (\<lambda>space.
     if space < length data + SLOT_SIZE then Ok (None, pg) else
     bindO (read_u16 pg HEADER_SLOT_COUNT_OFFSET) (\<lambda>slot_count.
     bindO (read_u16 pg HEADER_FREE_END_OFFSET) (\<lambda>free_end.
     if free_end < length data then Panic ''attempt to subtract with overflow'' else
     let new_offset = free_end - length data;
         slot_pos = HEADER_SIZE + slot_count * SLOT_SIZE
     in bindO (write_range pg new_offset data) (\<lambda>pg.
        bindO (write_u16 pg slot_pos new_offset) (\<lambda>pg.
        bindO (write_u16 pg (slot_pos + 2) (length data)) (\<lambda>pg.
        bindO (write_u16 pg HEADER_SLOT_COUNT_OFFSET (slot_count + 1)) (\<lambda>pg.
        bindO (write_u16 pg HEADER_FREE_END_OFFSET new_offset) (\<lambda>pg.
        Ok (Some slot_count, pg)))))))))"

definition read_slot :: "page \<Rightarrow> slot_id \<Rightarrow> ('e, byte list option) outcome" where
  "read_slot pg slot =
     bindO (read_u16 pg HEADER_SLOT_COUNT_OFFSET) (\<lambda>slot_count.
     if slot_count \<le> slot then Ok None else
     let slot_pos = HEADER_SIZE + slot * SLOT_SIZE
     in bindO (read_u16 pg slot_pos) (\<lambda>offset.
        bindO (read_u16 pg (slot_pos + 2)) (\<lambda>len.
        if len = 0 then Ok None
        else bindO (index_range pg offset len) (\<lambda>b. Ok (Some b)))))"

definition tombstone_slot :: "page \<Rightarrow> slot_id \<Rightarrow> ('e, page) outcome" where
  "tombstone_slot pg slot =
     bindO (read_u16 pg HEADER_SLOT_COUNT_OFFSET) (\<lambda>slot_count.
     if slot_count \<le> slot then Ok pg
     else write_u16 pg (HEADER_SIZE + slot * SLOT_SIZE + 2) 0)"

text \<open>The loop over the slots shared by \<open>scan_page\<close> and \<open>scan_all\<close>.\<close>

definition live_records :: "page_id \<Rightarrow> page \<Rightarrow> ('e, (doc_id \<times> byte list) list) outcome" where
  "live_records pid pg =
     bindO (read_u16 pg HEADER_SLOT_COUNT_OFFSET) (\<lambda>slot_count.
     bindO (mapO (\<lambda>s. bindO (read_slot pg s) (\<lambda>r. Ok (s, r))) [0..<slot_count]) (\<lambda>rs.
     Ok (List.map_filter (\<lambda>(s, r). map_option (Pair (pid, s)) r) rs)))"

subsection \<open>The content of a page\<close>

definition u16_at :: "page \<Rightarrow> nat \<Rightarrow> nat" where
  "u16_at pg off = le_val (get_slice pg off 2)"

definition hp_next :: "page \<Rightarrow> page_id" where
  "hp_next pg = le_val (get_slice pg HEADER_NEXT_OFFSET 8)"

definition hp_count :: "page \<Rightarrow> nat" where
  "hp_count pg = u16_at pg HEADER_SLOT_COUNT_OFFSET"

definition hp_free_end :: "page \<Rightarrow> nat" where
  "hp_free_end pg = u16_at pg HEADER_FREE_END_OFFSET"

definition slot_offset :: "page \<Rightarrow> slot_id \<Rightarrow> nat" where
  "slot_offset pg i = u16_at pg (HEADER_SIZE + i * SLOT_SIZE)"

definition slot_length :: "page \<Rightarrow> slot_id \<Rightarrow> nat" where
  "slot_length pg i = u16_at pg (HEADER_SIZE + i * SLOT_SIZE + 2)"

definition slot_record :: "page \<Rightarrow> slot_id \<Rightarrow> byte list option" where
  "slot_record pg i =
     (if slot_length pg i = 0 then None else Some (get_slice pg (slot_offset pg i) (slot_length pg i)))"

definition hp_records :: "page \<Rightarrow> byte list option list" where
  "hp_records pg = map (slot_record pg) [0..<hp_count pg]"

definition hp_free :: "page \<Rightarrow> nat" where
  "hp_free pg = hp_free_end pg - (HEADER_SIZE + hp_count pg * SLOT_SIZE)"

definition heap_page_ok :: "page \<Rightarrow> bool" where
  "heap_page_ok pg \<longleftrightarrow> length pg = PAGE_SIZE
     \<and> HEADER_SIZE + hp_count pg * SLOT_SIZE \<le> hp_free_end pg \<and> hp_free_end pg \<le> PAGE_SIZE
     \<and> (\<forall>i < hp_count pg. hp_free_end pg \<le> slot_offset pg i
                         \<and> slot_offset pg i + slot_length pg i \<le> PAGE_SIZE)"

lemmas hp_defs = hp_next_def hp_count_def hp_free_end_def slot_offset_def slot_length_def u16_at_def

lemma length_hp_records [simp]: "length (hp_records pg) = hp_count pg"
  by (simp add: hp_records_def)

lemma nth_hp_records: "i < hp_count pg \<Longrightarrow> hp_records pg ! i = slot_record pg i"
  by (simp add: hp_records_def)

lemma read_u16_Ok [simp]: "off + 2 \<le> length pg \<Longrightarrow> read_u16 pg off = Ok (u16_at pg off)"
  by (simp add: read_u16_def u16_at_def)

lemma read_u64_Ok [simp]: "off + 8 \<le> length pg \<Longrightarrow> read_u64 pg off = Ok (le_val (get_slice pg off 8))"
  by (simp add: read_u64_def)

lemma write_u16_Ok [simp]: "off + 2 \<le> length pg \<Longrightarrow> write_u16 pg off v = Ok (put_slice pg off (le_bytes 2 v))"
  by (simp add: write_u16_def)

lemma write_u64_Ok [simp]: "off + 8 \<le> length pg \<Longrightarrow> write_u64 pg off v = Ok (put_slice pg off (le_bytes 8 v))"
  by (simp add: write_u64_def)

lemma u16_at_put:
  assumes "off + length bs \<le> length pg" and "off' + 2 \<le> length pg"
    and "off' + 2 \<le> off \<or> off + length bs \<le> off'"
  shows "u16_at (put_slice pg off bs) off' = u16_at pg off'"
  using assms by (simp add: u16_at_def get_put_other)

lemma u16_at_put_same:
  "off + 2 \<le> length pg \<Longrightarrow> v < 65536 \<Longrightarrow> u16_at (put_slice pg off (le_bytes 2 v)) off = v"
  by (simp add: u16_at_def get_put_same)

lemma page_free_space_Ok: "length pg = PAGE_SIZE \<Longrightarrow> page_free_space pg = Ok (hp_free pg)"
  by (simp add: page_free_space_def hp_free_def hp_count_def hp_free_end_def heap_consts PAGE_SIZE_def)

lemma heap_page_okD:
  assumes "heap_page_ok pg"
  shows "length pg = PAGE_SIZE" and "HEADER_SIZE + hp_count pg * SLOT_SIZE \<le> hp_free_end pg"
    and "hp_free_end pg \<le> PAGE_SIZE"
    and "i < hp_count pg \<Longrightarrow> hp_free_end pg \<le> slot_offset pg i"
    and "i < hp_count pg \<Longrightarrow> slot_offset pg i + slot_length pg i \<le> PAGE_SIZE"
  using assms by (auto simp: heap_page_ok_def)

lemma slot_pos_bound:
  assumes "heap_page_ok pg" and "i < hp_count pg"
  shows "HEADER_SIZE + i * SLOT_SIZE + SLOT_SIZE \<le> hp_free_end pg"
proof -
  have "Suc i * SLOT_SIZE \<le> hp_count pg * SLOT_SIZE" using assms(2) by (intro mult_le_mono1) simp
  with heap_page_okD(2) [OF assms(1)] show ?thesis by simp
qed

lemma slot_pos_in_page:
  assumes "heap_page_ok pg" and "i < hp_count pg"
  shows "HEADER_SIZE + i * SLOT_SIZE + 4 \<le> length pg"
  using slot_pos_bound [OF assms] heap_page_okD [OF assms(1)] by (simp add: SLOT_SIZE_def)

lemma read_count_Ok [simp]:
  "length pg = PAGE_SIZE \<Longrightarrow> read_u16 pg HEADER_SLOT_COUNT_OFFSET = Ok (hp_count pg)"
  by (simp add: hp_count_def heap_consts PAGE_SIZE_def)

lemma read_free_end_Ok [simp]:
  "length pg = PAGE_SIZE \<Longrightarrow> read_u16 pg HEADER_FREE_END_OFFSET = Ok (hp_free_end pg)"
  by (simp add: hp_free_end_def heap_consts PAGE_SIZE_def)

lemma read_next_Ok [simp]:
  "length pg = PAGE_SIZE \<Longrightarrow> read_u64 pg HEADER_NEXT_OFFSET = Ok (hp_next pg)"
  by (simp add: hp_next_def heap_consts PAGE_SIZE_def)

lemma read_slot_Ok:
  assumes "heap_page_ok pg"
  shows "read_slot pg i = Ok (if i < hp_count pg then slot_record pg i else None)"
proof (cases "i < hp_count pg")
  case True
  note b = slot_pos_in_page [OF assms True]
  have "slot_offset pg i + slot_length pg i \<le> length pg"
    using heap_page_okD(1,5) [OF assms] True by auto
  with b heap_page_okD(1) [OF assms] True show ?thesis
    by (simp add: read_slot_def Let_def slot_record_def slot_offset_def slot_length_def)
qed (use heap_page_okD(1) [OF assms] in \<open>simp add: read_slot_def\<close>)

text \<open>Writing outside a slot and outside its record leaves the record as it was.\<close>

lemma slot_record_eqI:
  assumes "slot_offset pg' i = slot_offset pg i" and "slot_length pg' i = slot_length pg i"
    and "slot_length pg i \<noteq> 0 \<Longrightarrow> get_slice pg' (slot_offset pg i) (slot_length pg i)
      = get_slice pg (slot_offset pg i) (slot_length pg i)"
  shows "slot_record pg' i = slot_record pg i"
  using assms by (simp add: slot_record_def)


definition insert_bytes :: "page \<Rightarrow> byte list \<Rightarrow> page" where
  "insert_bytes pg data =
     (let off = hp_free_end pg - length data; pos = HEADER_SIZE + hp_count pg * SLOT_SIZE
      in put_slice (put_slice (put_slice (put_slice (put_slice pg off data)
           pos (le_bytes 2 off)) (pos + 2) (le_bytes 2 (length data)))
           HEADER_SLOT_COUNT_OFFSET (le_bytes 2 (hp_count pg + 1)))
           HEADER_FREE_END_OFFSET (le_bytes 2 off))"

lemma try_insert_in_page_Ok:
  assumes ok: "heap_page_ok pg" and fits: "length data + SLOT_SIZE \<le> hp_free pg"
  shows "try_insert_in_page pg data = Ok (Some (hp_count pg), insert_bytes pg data)"
proof -
  note d = heap_page_okD [OF ok]
  have "length data \<le> hp_free_end pg" "hp_free_end pg - length data + length data \<le> length pg"
    "HEADER_SIZE + hp_count pg * SLOT_SIZE + 4 \<le> length pg"
    "HEADER_SLOT_COUNT_OFFSET + 2 \<le> length pg" "HEADER_FREE_END_OFFSET + 2 \<le> length pg"
    using fits d by (auto simp: hp_free_def heap_consts PAGE_SIZE_def)
  with fits d(1) show ?thesis
    by (simp add: try_insert_in_page_def page_free_space_Ok Let_def insert_bytes_def
        hp_count_def hp_free_end_def)
qed

lemma try_insert_in_page_full:
  "length pg = PAGE_SIZE \<Longrightarrow> hp_free pg < length data + SLOT_SIZE \<Longrightarrow>
    try_insert_in_page pg data = Ok (None, pg)"
  by (simp add: try_insert_in_page_def page_free_space_Ok)


lemma insert_bytes_bounds:
  assumes ok: "heap_page_ok pg" and fits: "length data + SLOT_SIZE \<le> hp_free pg"
  shows "length pg = 4096" and "length data \<le> hp_free_end pg" and "hp_free_end pg \<le> 4096"
    and "12 + hp_count pg * 4 + 4 + length data \<le> hp_free_end pg"
  using heap_page_okD [OF ok] fits by (auto simp: hp_free_def heap_consts PAGE_SIZE_def)

lemma insert_bytes_fields:
  assumes ok: "heap_page_ok pg" and fits: "length data + SLOT_SIZE \<le> hp_free pg"
  shows "length (insert_bytes pg data) = PAGE_SIZE"
    and "hp_count (insert_bytes pg data) = hp_count pg + 1"
    and "hp_free_end (insert_bytes pg data) = hp_free_end pg - length data"
    and "hp_next (insert_bytes pg data) = hp_next pg"
    and "slot_offset (insert_bytes pg data) (hp_count pg) = hp_free_end pg - length data"
    and "slot_length (insert_bytes pg data) (hp_count pg) = length data"
    and "get_slice (insert_bytes pg data) (hp_free_end pg - length data) (length data) = data"
    and "\<And>i. i < hp_count pg \<Longrightarrow> slot_offset (insert_bytes pg data) i = slot_offset pg i"
    and "\<And>i. i < hp_count pg \<Longrightarrow> slot_length (insert_bytes pg data) i = slot_length pg i"
    and "\<And>o' n. hp_free_end pg \<le> o' \<Longrightarrow> o' + n \<le> PAGE_SIZE \<Longrightarrow>
      get_slice (insert_bytes pg data) o' n = get_slice pg o' n"
  using insert_bytes_bounds [OF assms]
  unfolding insert_bytes_def Let_def
  by (simp_all add: hp_count_def [of "put_slice _ _ _"] hp_free_end_def [of "put_slice _ _ _"]
      hp_next_def slot_offset_def slot_length_def heap_consts PAGE_SIZE_def
      u16_at_put u16_at_put_same get_put_same get_put_other)

lemma insert_bytes_ok:
  assumes ok: "heap_page_ok pg" and fits: "length data + SLOT_SIZE \<le> hp_free pg"
  shows "heap_page_ok (insert_bytes pg data)"
proof -
  note f = insert_bytes_fields [OF assms] and b = insert_bytes_bounds [OF assms]
  have "hp_free_end pg - length data \<le> slot_offset (insert_bytes pg data) i
      \<and> slot_offset (insert_bytes pg data) i + slot_length (insert_bytes pg data) i \<le> PAGE_SIZE"
    if i: "i < hp_count pg + 1" for i
  proof (cases "i = hp_count pg")
    case False
    with i have "i < hp_count pg" by simp
    with heap_page_okD(4,5) [OF ok] f(8,9) show ?thesis by fastforce
  qed (use f(5,6) b in \<open>simp add: PAGE_SIZE_def\<close>)
  with f(1-3) b show ?thesis by (auto simp: heap_page_ok_def heap_consts PAGE_SIZE_def)
qed

lemma insert_bytes_records:
  assumes ok: "heap_page_ok pg" and fits: "length data + SLOT_SIZE \<le> hp_free pg" and ne: "data \<noteq> []"
  shows "hp_records (insert_bytes pg data) = hp_records pg @ [Some data]"
proof -
  note f = insert_bytes_fields [OF ok fits]
  have "slot_record (insert_bytes pg data) i = slot_record pg i" if "i < hp_count pg" for i
    using that heap_page_okD(4,5) [OF ok] f(8-10) by (intro slot_record_eqI) auto
  moreover have "slot_record (insert_bytes pg data) (hp_count pg) = Some data"
    using f(5-7) ne by (simp add: slot_record_def)
  ultimately show ?thesis using f(2) by (simp add: hp_records_def)
qed

lemma insert_bytes_free:
  assumes "heap_page_ok pg" and "length data + SLOT_SIZE \<le> hp_free pg"
  shows "hp_free (insert_bytes pg data) = hp_free pg - (length data + SLOT_SIZE)"
  using insert_bytes_fields(2,3) [OF assms] by (simp add: hp_free_def SLOT_SIZE_def)

lemma init_heap_page_Ok:
  assumes "length pg = PAGE_SIZE"
  obtains pg' where "init_heap_page pg = Ok pg'" and "heap_page_ok pg'" and "hp_records pg' = []"
    and "hp_next pg' = NO_NEXT" and "hp_free pg' = MAX_RECORD_SIZE + SLOT_SIZE"
proof -
  let ?pg = "put_slice (put_slice (put_slice pg 0 (le_bytes 8 NO_NEXT)) 8 (le_bytes 2 0)) 10 (le_bytes 2 PAGE_SIZE)"
  have len: "length pg = 4096" using assms by (simp add: PAGE_SIZE_def)
  have run: "init_heap_page pg = Ok ?pg" using len by (simp add: init_heap_page_def heap_consts)
  have c: "hp_count ?pg = 0" "hp_free_end ?pg = PAGE_SIZE" "hp_next ?pg = NO_NEXT"
    using len by (simp_all add: hp_count_def hp_free_end_def hp_next_def heap_consts PAGE_SIZE_def
        u16_at_put u16_at_put_same get_put_same get_put_other NO_NEXT_def U64_MAX_def)
  show ?thesis
  proof (rule that [OF run])
    show "heap_page_ok ?pg" "hp_records ?pg = []" "hp_next ?pg = NO_NEXT"
      "hp_free ?pg = MAX_RECORD_SIZE + SLOT_SIZE"
      using c len by (simp_all add: heap_page_ok_def hp_records_def hp_free_def MAX_RECORD_SIZE_def
          heap_consts PAGE_SIZE_def)
  qed
qed

lemma tombstone_slot_Ok:
  assumes ok: "heap_page_ok pg"
  obtains pg' where "tombstone_slot pg i = Ok pg'" and "heap_page_ok pg'"
    and "hp_records pg' = (hp_records pg)[i := None]" and "hp_next pg' = hp_next pg"
    and "hp_free pg' = hp_free pg"
proof (cases "i < hp_count pg")
  case True
  let ?pg = "put_slice pg (HEADER_SIZE + i * SLOT_SIZE + 2) (le_bytes 2 0)"
  have b: "12 + i * 4 + 4 \<le> 4096" and len: "length pg = 4096"
    using slot_pos_in_page [OF ok True] heap_page_okD(1) [OF ok] by (simp_all add: heap_consts PAGE_SIZE_def)
  have run: "tombstone_slot pg i = Ok ?pg"
    using True b len by (simp add: tombstone_slot_def heap_consts PAGE_SIZE_def hp_count_def)
  have c: "hp_count ?pg = hp_count pg" "hp_free_end ?pg = hp_free_end pg" "hp_next ?pg = hp_next pg"
    using b len by (simp_all add: hp_count_def hp_free_end_def hp_next_def heap_consts u16_at_put get_put_other)
  have pos: "12 + j * 4 + 4 \<le> 4096" if "j < hp_count pg" for j
    using slot_pos_in_page [OF ok that] len by (simp add: heap_consts)
  have off: "slot_offset ?pg j = slot_offset pg j" if "j < hp_count pg" for j
    using b len pos [OF that] by (cases j i rule: linorder_cases) (simp_all add: slot_offset_def heap_consts u16_at_put)
  have sl: "slot_length ?pg j = (if j = i then 0 else slot_length pg j)" if "j < hp_count pg" for j
    using b len pos [OF that]
    by (cases j i rule: linorder_cases) (simp_all add: slot_length_def heap_consts u16_at_put u16_at_put_same)
  have bytes: "get_slice ?pg (slot_offset pg j) n = get_slice pg (slot_offset pg j) n"
    if "j < hp_count pg" "slot_offset pg j + n \<le> 4096" for j n
  proof -
    have "12 + i * 4 + 4 \<le> slot_offset pg j"
      using slot_pos_bound [OF ok True] heap_page_okD(4) [OF ok that(1)] by (simp add: heap_consts)
    with that(2) len show ?thesis by (simp add: get_put_other heap_consts)
  qed
  have rec: "slot_record ?pg j = (if j = i then None else slot_record pg j)" if "j < hp_count pg" for j
    using that off sl bytes [OF that, of "slot_length pg j"] heap_page_okD(5) [OF ok that]
    by (auto simp: slot_record_def PAGE_SIZE_def)
  show ?thesis
  proof (rule that [OF run])
    show "heap_page_ok ?pg"
      using ok c off sl len b by (force simp: heap_page_ok_def heap_consts PAGE_SIZE_def)
    show "hp_records ?pg = (hp_records pg)[i := None]"
      using c(1) rec by (intro nth_equalityI) (auto simp: nth_hp_records nth_list_update)
    show "hp_next ?pg = hp_next pg" "hp_free ?pg = hp_free pg" using c by (simp_all add: hp_free_def)
  qed
next
  case False
  then have "tombstone_slot pg i = Ok pg" using heap_page_okD(1) [OF ok] by (simp add: tombstone_slot_def)
  with False ok show ?thesis by (intro that) (simp_all add: list_update_beyond)
qed

text \<open>Linking a page to its successor touches the first eight bytes only.\<close>

lemma link_page_Ok:
  assumes ok: "heap_page_ok pg" and n: "n \<le> U64_MAX"
  obtains pg' where "write_u64 pg HEADER_NEXT_OFFSET n = Ok pg'" and "heap_page_ok pg'"
    and "hp_records pg' = hp_records pg" and "hp_next pg' = n"
proof -
  let ?pg = "put_slice pg HEADER_NEXT_OFFSET (le_bytes 8 n)"
  have len: "length pg = 4096" using heap_page_okD(1) [OF ok] by (simp add: PAGE_SIZE_def)
  have run: "write_u64 pg HEADER_NEXT_OFFSET n = Ok ?pg" using len by (simp add: heap_consts)
  have c: "hp_count ?pg = hp_count pg" "hp_free_end ?pg = hp_free_end pg" "hp_next ?pg = n"
    using n len by (simp_all add: hp_count_def hp_free_end_def hp_next_def heap_consts u16_at_put
        get_put_same U64_MAX_def)
  have sl: "slot_offset ?pg j = slot_offset pg j" "slot_length ?pg j = slot_length pg j"
    if "j < hp_count pg" for j
    using slot_pos_in_page [OF ok that] len
    by (simp_all add: slot_offset_def slot_length_def heap_consts u16_at_put)
  have rec: "slot_record ?pg j = slot_record pg j" if j: "j < hp_count pg" for j
  proof (rule slot_record_eqI [OF sl [OF j]])
    have "8 \<le> slot_offset pg j" using heap_page_okD(2,4) [OF ok] j by (fastforce simp: HEADER_SIZE_def)
    with heap_page_okD(5) [OF ok j] len
    show "get_slice ?pg (slot_offset pg j) (slot_length pg j) = get_slice pg (slot_offset pg j) (slot_length pg j)"
      by (simp add: get_put_other heap_consts PAGE_SIZE_def)
  qed
  show ?thesis
  proof (rule that [OF run])
    show "heap_page_ok ?pg" using ok c sl len by (simp add: heap_page_ok_def heap_consts PAGE_SIZE_def)
    show "hp_records ?pg = hp_records pg" using c(1) rec by (simp add: hp_records_def)
    show "hp_next ?pg = n" by (rule c(3))
  qed
qed

definition page_live :: "page_id \<Rightarrow> page \<Rightarrow> (doc_id \<times> byte list) list" where
  "page_live pid pg = List.map_filter (\<lambda>s. map_option (Pair (pid, s)) (slot_record pg s)) [0..<hp_count pg]"

lemma mapO_read_slot:
  "heap_page_ok pg \<Longrightarrow> mapO (\<lambda>s. bindO (read_slot pg s) (\<lambda>r. Ok (s, r))) [0..<hp_count pg]
    = Ok (map (\<lambda>s. (s, slot_record pg s)) [0..<hp_count pg])"
  by (rule mapO_Ok_map) (simp add: read_slot_Ok)

lemma map_filter_map: "List.map_filter g (map f xs) = List.map_filter (\<lambda>x. g (f x)) xs"
  by (induction xs) (auto simp: List.map_filter_simps split: option.splits)

lemma live_records_Ok: "heap_page_ok pg \<Longrightarrow> live_records pid pg = Ok (page_live pid pg)"
  using heap_page_okD(1) [of pg]
  by (simp add: live_records_def page_live_def mapO_read_slot map_filter_map)

section \<open>Heap files\<close>

record heap_file =
  hf_root :: page_id
  hf_last_page :: page_id

type_synonym 'a heap_prog = "(heap_file \<times> buffer_pool, io_error, 'a) prog"

definition on_pool :: "'a pool_prog \<Rightarrow> 'a heap_prog" where
  "on_pool m = (\<lambda>(h, s). case m s of (r, s') \<Rightarrow> (r, (h, s')))"

definition set_last_page :: "page_id \<Rightarrow> unit heap_prog" where
  "set_last_page p = modifyP (\<lambda>(h, s). (h\<lparr>hf_last_page := p\<rparr>, s))"

fun find_last_loop :: "nat \<Rightarrow> page_id \<Rightarrow> page_id pool_prog" where
  "find_last_loop 0 current = hangP"
| "find_last_loop (Suc n) current =
     bindP (with_page current (\<lambda>pg. read_u64 pg HEADER_NEXT_OFFSET)) (\<lambda>next.
     if next = NO_NEXT then returnP current else find_last_loop n next)"

definition find_last_page :: "page_id \<Rightarrow> page_id pool_prog" where
  "find_last_page root =
     bindP (readP (\<lambda>s. dm_num_pages (bp_disk s))) (\<lambda>n. find_last_loop (Suc n) root)"

definition heap_create :: "heap_file pool_prog" where
  "heap_create =
     bindP (new_page (\<lambda>pg. bindO (init_heap_page pg) (\<lambda>pg. Ok ((), pg)))) (\<lambda>(root, _).
     returnP \<lparr>hf_root = root, hf_last_page = root\<rparr>)"

definition heap_open :: "page_id \<Rightarrow> heap_file pool_prog" where
  "heap_open root =
     bindP (find_last_page root) (\<lambda>last_page.
     returnP \<lparr>hf_root = root, hf_last_page = last_page\<rparr>)"

text \<open>\<open>try_insert_in_page(page, data).expect(msg)\<close> as the closure of a page access.\<close>

definition expect_insert :: "string \<Rightarrow> byte list \<Rightarrow> page \<Rightarrow> (io_error, slot_id \<times> page) outcome" where
  "expect_insert msg data pg =
     bindO (try_insert_in_page pg data) (\<lambda>(r, pg).
     case r of Some slot \<Rightarrow> Ok (slot, pg) | None \<Rightarrow> Panic msg)"

text \<open>
  \<open>HeapFile::insert\<close>, with its three ways to place the record named: into a page with room,
  behind a tail that another handle has extended, and into a fresh page linked from the tail.
\<close>

definition insert_at :: "page_id \<Rightarrow> byte list \<Rightarrow> doc_id heap_prog" where
  "insert_at p data =
     bindP (on_pool (with_page_mut p (expect_insert ''space check said it fits'' data))) (\<lambda>slot.
     returnP (p, slot))"

definition insert_extend :: "page_id \<Rightarrow> byte list \<Rightarrow> doc_id heap_prog" where
  "insert_extend current_tail data =
     bindP (on_pool (new_page (\<lambda>pg.
       bindO (init_heap_page pg) (expect_insert ''fresh page must fit'' data)))) (\<lambda>(new_id, slot).
     bindP (on_pool (with_page_mut current_tail (\<lambda>pg.
       bindO (write_u64 pg HEADER_NEXT_OFFSET new_id) (\<lambda>pg. Ok ((), pg))))) (\<lambda>_.
     bindP (set_last_page new_id) (\<lambda>_.
     returnP (new_id, slot))))"

definition insert_catch_up :: "page_id \<Rightarrow> byte list \<Rightarrow> doc_id heap_prog" where
  "insert_catch_up tail data =
     bindP (on_pool (find_last_page tail)) (\<lambda>current_tail.
     bindP (set_last_page current_tail) (\<lambda>_.
     if current_tail \<noteq> tail then
       bindP (on_pool (with_page current_tail page_free_space)) (\<lambda>space.
       if length data + SLOT_SIZE \<le> space then insert_at current_tail data
       else insert_extend current_tail data)
     else insert_extend current_tail data))"

definition heap_insert :: "byte list \<Rightarrow> doc_id heap_prog" where
  "heap_insert data =
     bindP (assertP (data \<noteq> []) ''empty records are not supported'') (\<lambda>_.
     bindP (assertP (length data \<le> MAX_RECORD_SIZE) ''record larger than MAX_RECORD_SIZE'') (\<lambda>_.
     bindP (readP (\<lambda>(h, s). hf_last_page h)) (\<lambda>tail.
     bindP (on_pool (with_page tail page_free_space)) (\<lambda>space.
     if length data + SLOT_SIZE \<le> space then insert_at tail data
     else insert_catch_up tail data))))"

definition heap_read :: "doc_id \<Rightarrow> byte list option heap_prog" where
  "heap_read doc_id = (case doc_id of (pid, slot) \<Rightarrow> on_pool (with_page pid (\<lambda>pg. read_slot pg slot)))"

definition heap_delete :: "doc_id \<Rightarrow> unit heap_prog" where
  "heap_delete doc_id = (case doc_id of (pid, slot) \<Rightarrow>
     on_pool (with_page_mut pid (\<lambda>pg. bindO (tombstone_slot pg slot) (\<lambda>pg. Ok ((), pg)))))"

definition scan_closure :: "page_id \<Rightarrow> page \<Rightarrow> (io_error, (doc_id \<times> byte list) list \<times> page_id) outcome" where
  "scan_closure pid pg =
     bindO (live_records pid pg) (\<lambda>recs.
     bindO (read_u64 pg HEADER_NEXT_OFFSET) (\<lambda>next. Ok (recs, next)))"

definition scan_page :: "page_id \<Rightarrow> ((doc_id \<times> byte list) list \<times> page_id option) heap_prog" where
  "scan_page pid =
     on_pool (with_page pid (\<lambda>pg. bindO (scan_closure pid pg) (\<lambda>(recs, next).
       Ok (recs, if next = NO_NEXT then None else Some next))))"

fun scan_loop :: "nat \<Rightarrow> page_id option \<Rightarrow> (doc_id \<times> byte list) list \<Rightarrow>
    (doc_id \<times> byte list) list pool_prog" where
  "scan_loop 0 current out = hangP"
| "scan_loop (Suc n) None out = returnP out"
| "scan_loop (Suc n) (Some pid) out =
     bindP (with_page pid (scan_closure pid)) (\<lambda>(records, next).
     scan_loop n (if next = NO_NEXT then None else Some next) (out @ records))"

definition scan_all :: "(doc_id \<times> byte list) list heap_prog" where
  "scan_all =
     bindP (readP (\<lambda>(h, s). (hf_root h, dm_num_pages (bp_disk s)))) (\<lambda>(root, n).
     on_pool (scan_loop (Suc (Suc n)) (Some root) []))"

definition heap_flush :: "unit heap_prog" where
  "heap_flush = on_pool flush_all"

section \<open>The abstract heap\<close>

fun heap_chain :: "(page_id \<rightharpoonup> page) \<Rightarrow> page_id list \<Rightarrow> bool" where
  "heap_chain V [] = False"
| "heap_chain V (p # ps) \<longleftrightarrow> p \<noteq> NO_NEXT
     \<and> (case V p of None \<Rightarrow> False
        | Some pg \<Rightarrow> heap_page_ok pg \<and> hp_next pg = (case ps of [] \<Rightarrow> NO_NEXT | q # _ \<Rightarrow> q))
     \<and> (ps = [] \<or> heap_chain V ps)"

text \<open>
  \<open>heap_rep V h ps\<close>: the handle \<open>h\<close> stands for the chain \<open>ps\<close> in the page view \<open>V\<close>. The
  cached tail is only known to be some page of the chain: another handle may have extended
  it since.
\<close>

definition heap_rep :: "(page_id \<rightharpoonup> page) \<Rightarrow> heap_file \<Rightarrow> page_id list \<Rightarrow> bool" where
  "heap_rep V h ps \<longleftrightarrow> heap_chain V ps \<and> distinct ps \<and> hf_root h = hd ps \<and> hf_last_page h \<in> set ps"

lemma heap_repD:
  assumes "heap_rep V h ps"
  shows "heap_chain V ps" and "distinct ps" and "hf_root h = hd ps" and "hf_last_page h \<in> set ps"
    and "last ps \<in> set ps"
  using assms by (auto simp: heap_rep_def intro!: last_in_set)

definition page_record :: "page \<Rightarrow> slot_id \<Rightarrow> byte list option" where
  "page_record pg i = (if i < hp_count pg then slot_record pg i else None)"

definition heap_map :: "(page_id \<rightharpoonup> page) \<Rightarrow> page_id list \<Rightarrow> doc_id \<rightharpoonup> byte list" where
  "heap_map V ps = (\<lambda>(p, i). if p \<in> set ps then Option.bind (V p) (\<lambda>pg. page_record pg i) else None)"

definition heap_live :: "(page_id \<rightharpoonup> page) \<Rightarrow> page_id list \<Rightarrow> (doc_id \<times> byte list) list" where
  "heap_live V ps = concat (map (\<lambda>p. page_live p (the (V p))) ps)"

lemma chain_page:
  assumes "heap_chain V ps" and "p \<in> set ps"
  obtains pg where "V p = Some pg" and "heap_page_ok pg" and "p \<noteq> NO_NEXT"
  using assms by (induction ps) (auto split: option.splits)

lemma chain_suffix: "heap_chain V (us @ p # vs) \<Longrightarrow> heap_chain V (p # vs)"
  by (induction us) (auto split: option.splits)

lemma chain_next:
  "heap_chain V (p # ps) \<Longrightarrow> V p = Some pg \<Longrightarrow> hp_next pg = (case ps of [] \<Rightarrow> NO_NEXT | q # _ \<Rightarrow> q)"
  by simp

lemma chain_cong:
  "heap_chain V ps \<Longrightarrow> (\<And>p. p \<in> set ps \<Longrightarrow> V' p = V p) \<Longrightarrow> heap_chain V' ps"
  by (induction ps) (auto split: option.splits)

lemma chain_update:
  assumes "heap_chain V ps" and "V p = Some pg" and "heap_page_ok pg'" and "hp_next pg' = hp_next pg"
  shows "heap_chain (V(p \<mapsto> pg')) ps"
  using assms by (induction ps) (auto split: option.splits)

lemma chain_Cons_iff:
  "ps \<noteq> [] \<Longrightarrow> heap_chain V (p # ps) \<longleftrightarrow>
    p \<noteq> NO_NEXT \<and> (\<exists>pg. V p = Some pg \<and> heap_page_ok pg \<and> hp_next pg = hd ps) \<and> heap_chain V ps"
  by (cases ps) (auto simp del: heap_chain.simps(2) simp: heap_chain.simps(2) [of V p] split: option.splits)

lemma chain_extend:
  assumes "heap_chain V ps" and "distinct ps" and "V (last ps) = Some pg"
    and "heap_page_ok pg'" and "hp_next pg' = q" and "q \<notin> set ps" and "q \<noteq> NO_NEXT"
    and "heap_page_ok npg" and "hp_next npg = NO_NEXT"
  shows "heap_chain (V(q \<mapsto> npg, last ps \<mapsto> pg')) (ps @ [q])"
  using assms
proof (induction ps)
  case (Cons p ps)
  show ?case
  proof (cases "ps = []")
    case False
    with Cons.prems have "p \<noteq> last ps" "p \<noteq> q" and ch: "heap_chain V ps" by (auto simp: chain_Cons_iff)
    moreover have "heap_chain (V(q \<mapsto> npg, last ps \<mapsto> pg')) (ps @ [q])"
      by (rule Cons.IH [OF ch]) (use Cons.prems False in auto)
    moreover have "ps @ [q] \<noteq> []" and "hd (ps @ [q]) = hd ps" using False by simp_all
    ultimately show ?thesis
      using Cons.prems(1) [unfolded chain_Cons_iff [OF False]]
      unfolding append_Cons last_ConsR [OF False] by (subst chain_Cons_iff) auto
  qed (use Cons.prems in auto)
qed simp

lemma chain_length:
  assumes "heap_chain (pool_view s) ps" and "distinct ps"
  shows "length ps \<le> dm_num_pages (bp_disk s)"
proof -
  have "set ps \<subseteq> {..<dm_num_pages (bp_disk s)}"
    using assms(1) by (auto elim!: chain_page dest!: view_allocated simp: disk_allocated_def)
  then have "card (set ps) \<le> card {..<dm_num_pages (bp_disk s)}" by (rule card_mono [OF finite_lessThan])
  with assms(2) show ?thesis by (simp add: distinct_card)
qed

lemma page_record_nth: "page_record pg i = (if i < length (hp_records pg) then hp_records pg ! i else None)"
  by (simp add: page_record_def nth_hp_records)

lemma read_slot_record: "heap_page_ok pg \<Longrightarrow> read_slot pg i = Ok (page_record pg i)"
  by (simp add: read_slot_Ok page_record_def)

text \<open>What a change of one page of the chain does to the records of the heap.\<close>

lemma heap_map_page: "p \<in> set ps \<Longrightarrow> V p = Some pg \<Longrightarrow> heap_map V ps (p, i) = page_record pg i"
  by (simp add: heap_map_def)

lemma heap_map_append_record:
  assumes "p \<in> set ps" and "V p = Some pg" and "hp_records pg' = hp_records pg @ [Some data]"
  shows "heap_map (V(p \<mapsto> pg')) ps = (heap_map V ps)((p, hp_count pg) \<mapsto> data)"
proof -
  have "page_record pg' i = (if i = hp_count pg then Some data else page_record pg i)" for i
    unfolding page_record_nth assms(3) by (simp add: nth_append)
  with assms(1,2) show ?thesis by (intro ext) (auto simp: heap_map_def split: if_splits)
qed

lemma heap_map_tombstone:
  assumes "p \<in> set ps" and "V p = Some pg" and "hp_records pg' = (hp_records pg)[i := None]"
  shows "heap_map (V(p \<mapsto> pg')) ps = (heap_map V ps)((p, i) := None)"
proof -
  have "page_record pg' j = (if j = i then None else page_record pg j)" for j
    unfolding page_record_nth assms(3) by (simp add: nth_list_update)
  with assms(1,2) show ?thesis by (intro ext) (auto simp: heap_map_def split: if_splits)
qed

lemma heap_map_live: "heap_map V ps (p, i) = None \<Longrightarrow> p \<in> set ps \<Longrightarrow> V p = Some pg \<Longrightarrow> page_record pg i = None"
  by (simp add: heap_map_def)

lemma page_live_iff: "((q, i), b) \<in> set (page_live p pg) \<longleftrightarrow> q = p \<and> page_record pg i = Some b"
  by (force simp: page_live_def page_record_def map_filter_def)

lemma heap_live_iff:
  "heap_chain V ps \<Longrightarrow> (d, b) \<in> set (heap_live V ps) \<longleftrightarrow> heap_map V ps d = Some b"
  by (cases d) (auto simp: heap_live_def heap_map_def page_live_iff bind_eq_Some_conv elim!: chain_page)

lemma distinct_page_live: "distinct (map fst (page_live p pg))"
proof -
  have "map fst (page_live p pg) = map (Pair p) (filter (\<lambda>s. slot_record pg s \<noteq> None) [0..<hp_count pg])"
    by (auto simp: page_live_def map_filter_def)
  then show ?thesis by (simp add: distinct_map inj_on_def)
qed

lemma distinct_heap_live: "distinct ps \<Longrightarrow> distinct (map fst (heap_live V ps))"
  by (induction ps) (auto simp: heap_live_def distinct_page_live page_live_iff)

section \<open>The operations on the abstract heap\<close>

abbreviation heap_view :: "heap_file \<times> buffer_pool \<Rightarrow> heap_file \<times> (page_id \<rightharpoonup> page)" where
  "heap_view \<equiv> \<lambda>(h, s). (h, pool_view s)"

interpretation heapst: store_logic "\<lambda>(h, s). pool_inv s" heap_view "\<lambda>(h, s). pool_budget s" .

lemma heap_totalE:
  assumes "heapst.total n m (h, s) Q" and "pool_inv s" and "n \<le> pool_budget s"
  obtains r h' s' where "m (h, s) = (Ok r, (h', s'))" and "pool_inv s'" and "Q r (h', pool_view s')"
    and "pool_budget s \<le> pool_budget s' + n"
proof -
  from assms obtain r hs where "m (h, s) = (Ok r, hs)" "case hs of (h', s') \<Rightarrow> pool_inv s'" "Q r (heap_view hs)"
    "pool_budget s \<le> (case hs of (h', s') \<Rightarrow> pool_budget s') + n" by (auto simp: heapst.total_def)
  with that show ?thesis by (cases hs) simp
qed

lemma on_pool_total:
  "pool.total n m s Q \<Longrightarrow> heapst.total n (on_pool m) (h, s) (\<lambda>r (h', V). h' = h \<and> Q r V)"
  by (auto simp: pool.total_def heapst.total_def on_pool_def split: prod.splits)

lemma set_last_page_total:
  "heapst.total 0 (set_last_page p) (h, s) (\<lambda>_ (h', V). h' = h\<lparr>hf_last_page := p\<rparr> \<and> V = pool_view s)"
  by (simp add: heapst.total_def set_last_page_def)

lemma read_next_total:
  "pool_view s p = Some pg \<Longrightarrow> heap_page_ok pg \<Longrightarrow>
    pool.total 1 (with_page p (\<lambda>pg. read_u64 pg HEADER_NEXT_OFFSET)) s (\<lambda>r V. r = hp_next pg \<and> V = pool_view s)"
  by (rule with_page_total) (auto dest: heap_page_okD)

lemma find_last_loop_total:
  assumes "heap_chain (pool_view s) (p # ps)" and "length ps < n"
  shows "pool.total (length (p # ps)) (find_last_loop n p) s (\<lambda>r V. r = last (p # ps) \<and> V = pool_view s)"
  using assms
proof (induction ps arbitrary: n p s)
  case Nil
  from Nil obtain m where n: "n = Suc m" by (cases n) auto
  from Nil obtain pg where pg: "pool_view s p = Some pg" "heap_page_ok pg" "hp_next pg = NO_NEXT"
    by (auto split: option.splits)
  have "pool.total (1 + 0) (find_last_loop n p) s (\<lambda>r V. r = p \<and> V = pool_view s)"
    unfolding n find_last_loop.simps
    by (rule pool.total_bind [OF read_next_total [OF pg(1,2)]])
      (simp add: pg(3) pool.total_return)
  then show ?case by simp
next
  case (Cons q ps)
  from Cons.prems obtain m where n: "n = Suc m" by (cases n) auto
  from Cons.prems obtain pg where pg: "pool_view s p = Some pg" "heap_page_ok pg" "hp_next pg = q"
    by (auto split: option.splits)
  from Cons.prems have q: "q \<noteq> NO_NEXT" and ch: "heap_chain (pool_view s) (q # ps)" and len: "length ps < m"
    by (auto simp: n split: option.splits)
  have "pool.total (1 + length (q # ps)) (find_last_loop n p) s (\<lambda>r V. r = last (p # q # ps) \<and> V = pool_view s)"
    unfolding n find_last_loop.simps
  proof (rule pool.total_bind [OF read_next_total [OF pg(1,2)]])
    fix r s' assume "r = hp_next pg \<and> pool_view s' = pool_view s"
    then show "pool.total (length (q # ps)) (if r = NO_NEXT then returnP p else find_last_loop m r) s'
        (\<lambda>r V. r = last (p # q # ps) \<and> V = pool_view s)"
      using Cons.IH [of s' q m] ch len q pg(3) by simp
  qed
  then show ?case by simp
qed

lemma find_last_page_total:
  assumes "heap_chain (pool_view s) ps" and "distinct ps" and "p \<in> set ps"
  shows "pool.total (length ps) (find_last_page p) s (\<lambda>r V. r = last ps \<and> V = pool_view s)"
proof -
  from assms(3) obtain us vs where ps: "ps = us @ p # vs" by (meson split_list)
  have "length vs < Suc (dm_num_pages (bp_disk s))" using chain_length [OF assms(1,2)] ps by simp
  from find_last_loop_total [OF chain_suffix [OF assms(1) [unfolded ps]] this]
  have "pool.total (length (p # vs)) (find_last_page p) s (\<lambda>r V. r = last (p # vs) \<and> V = pool_view s)"
    unfolding find_last_page_def by (intro pool.total_bind_pure [OF prog_basic(6)])
  then show ?thesis by (rule pool.total_conseq) (auto simp: ps)
qed

lemma expect_insert_Ok:
  "heap_page_ok pg \<Longrightarrow> length data + SLOT_SIZE \<le> hp_free pg \<Longrightarrow>
    expect_insert msg data pg = Ok (hp_count pg, insert_bytes pg data)"
  by (simp add: expect_insert_def try_insert_in_page_Ok)

text \<open>The effect of an insertion, shared by the three branches of \<open>heap_insert\<close>.\<close>

definition inserted :: "(page_id \<rightharpoonup> page) \<Rightarrow> page_id list \<Rightarrow> page_id \<Rightarrow> byte list \<Rightarrow> doc_id \<Rightarrow>
    heap_file \<times> (page_id \<rightharpoonup> page) \<Rightarrow> bool" where
  "inserted V ps root data d = (\<lambda>(h', V'). hf_root h' = root \<and> heap_map V ps d = None
     \<and> (\<exists>ps'. heap_rep V' h' ps' \<and> heap_map V' ps' = (heap_map V ps)(d \<mapsto> data)
          \<and> set ps \<subseteq> set ps' \<and> length ps' \<le> Suc (length ps) \<and> (\<forall>q \<in> set ps' - set ps. V q = None)
          \<and> (\<forall>q. q \<notin> set ps' \<longrightarrow> V' q = V q)))"

lemma insert_in_chain_page:
  assumes rep: "heap_chain V ps" "distinct ps" "hf_root h = hd ps" and p: "p \<in> set ps" "hf_last_page h \<in> set ps"
    and pg: "V p = Some pg" "heap_page_ok pg" and fits: "length data + SLOT_SIZE \<le> hp_free pg" and ne: "data \<noteq> []"
  shows "inserted V ps (hf_root h) data (p, hp_count pg) (h, V(p \<mapsto> insert_bytes pg data))"
proof -
  have "heap_chain (V(p \<mapsto> insert_bytes pg data)) ps"
    using insert_bytes_ok [OF pg(2) fits] insert_bytes_fields(4) [OF pg(2) fits]
    by (intro chain_update [OF rep(1) pg(1)]) auto
  moreover have "heap_map V ps (p, hp_count pg) = None" using p pg by (simp add: heap_map_def page_record_def)
  moreover have "heap_map (V(p \<mapsto> insert_bytes pg data)) ps = (heap_map V ps)((p, hp_count pg) \<mapsto> data)"
    by (rule heap_map_append_record) (use p(1) pg(1) insert_bytes_records [OF pg(2) fits ne] in auto)
  ultimately show ?thesis using rep p
    unfolding inserted_def by (auto simp: heap_rep_def intro!: exI [of _ ps])
qed

lemma insert_in_new_page:
  assumes rep: "heap_chain V ps" "distinct ps" "hf_root h = hd ps"
    and q: "V q = None" "q < U64_MAX"
    and pg: "V (last ps) = Some pg" "heap_page_ok pg'" "hp_next pg' = q" "hp_records pg' = hp_records pg"
    and npg: "heap_page_ok npg" "hp_next npg = NO_NEXT" "hp_records npg = [Some data]"
  shows "inserted V ps (hf_root h) data (q, 0) (h\<lparr>hf_last_page := q\<rparr>, V(q \<mapsto> npg, last ps \<mapsto> pg'))"
proof -
  let ?V = "V(q \<mapsto> npg, last ps \<mapsto> pg')"
  have qs: "q \<notin> set ps" using q(1) rep(1) by (auto elim: chain_page)
  have ne: "ps \<noteq> []" using rep(1) by auto
  then have lst: "last ps \<in> set ps" by simp
  have ch: "heap_chain ?V (ps @ [q])"
    using q(2) by (intro chain_extend [OF rep(1,2) pg(1-3) qs _ npg(1,2)]) (simp add: NO_NEXT_def)
  have rec: "page_record pg' i = page_record pg i" for i unfolding page_record_nth pg(4) by simp
  have new: "page_record npg i = (if i = 0 then Some data else None)" for i
    unfolding page_record_nth npg(3) by simp
  have "heap_map ?V (ps @ [q]) = (heap_map V ps)((q, 0) \<mapsto> data)"
    using qs lst pg(1) by (intro ext) (auto simp: heap_map_def rec new split: if_splits)
  moreover have "heap_map V ps (q, 0) = None" using qs by (simp add: heap_map_def)
  ultimately show ?thesis using ch rep qs q ne lst
    unfolding inserted_def by (auto simp: heap_rep_def intro!: exI [of _ "ps @ [q]"])
qed

lemma space_total:
  assumes "pool_view s p = Some pg" and "heap_page_ok pg"
  shows "heapst.total 1 (on_pool (with_page p page_free_space)) (h, s)
    (\<lambda>r (h', V). h' = h \<and> r = hp_free pg \<and> V = pool_view s)"
  by (rule on_pool_total [OF with_page_total [OF assms(1)]])
    (simp add: page_free_space_Ok heap_page_okD(1) [OF assms(2)])

text \<open>The view of a heap state is the handle and the pages; \<open>heap_now h V st\<close> reads both off.\<close>

lemma heap_view_cases:
  assumes "case heap_view hs of (h', V') \<Rightarrow> P h' V'"
  obtains h' s' where "hs = (h', s')" and "P h' (pool_view s')"
  using assms by (cases hs) auto

lemma insert_at_total:
  assumes rep: "heap_rep (pool_view s) h ps" and p: "p \<in> set ps" and pg: "pool_view s p = Some pg" "heap_page_ok pg"
    and fits: "length data + SLOT_SIZE \<le> hp_free pg" and ne: "data \<noteq> []"
  shows "heapst.total 1 (insert_at p data) (h, s) (inserted (pool_view s) ps (hf_root h) data)"
proof -
  have r: "heap_chain (pool_view s) ps" "distinct ps" "hf_root h = hd ps" "hf_last_page h \<in> set ps"
    using heap_repD [OF rep] by auto
  note w = with_page_mut_total [of s p pg "expect_insert ''space check said it fits'' data", OF pg(1) expect_insert_Ok [OF pg(2) fits]
    insert_bytes_fields(1) [OF pg(2) fits]]
  have "heapst.total (1 + 0) (insert_at p data) (h, s) (inserted (pool_view s) ps (hf_root h) data)"
    unfolding insert_at_def
    by (rule heapst.total_bind [OF on_pool_total [OF w]], rule heapst.total_return)
      (auto elim!: heap_view_cases simp: insert_in_chain_page [OF r(1-3) p r(4) pg fits ne])
  then show ?thesis by simp
qed

lemma fresh_page_insert:
  assumes "data \<noteq> []" and "length data \<le> MAX_RECORD_SIZE"
  obtains npg where "bindO (init_heap_page new_page_bytes) (expect_insert msg data) = Ok (0, npg)"
    and "heap_page_ok npg" and "hp_next npg = NO_NEXT" and "hp_records npg = [Some data]"
proof -
  obtain ipg where i: "init_heap_page new_page_bytes = (Ok ipg :: (io_error, page) outcome)" "heap_page_ok ipg"
    "hp_records ipg = []" "hp_next ipg = NO_NEXT" "hp_free ipg = MAX_RECORD_SIZE + SLOT_SIZE"
    by (rule init_heap_page_Ok [OF length_new_page_bytes])
  have f: "length data + SLOT_SIZE \<le> hp_free ipg" using i(5) assms(2) by simp
  have "hp_count ipg = 0" using arg_cong [OF i(3), of length] by simp
  then show ?thesis
    using that [of "insert_bytes ipg data"] i expect_insert_Ok [OF i(2) f] insert_bytes_ok [OF i(2) f]
      insert_bytes_fields(4) [OF i(2) f] insert_bytes_records [OF i(2) f assms(1)] by simp
qed

lemma insert_extend_total:
  assumes rep: "heap_rep (pool_view s) h ps" and ne: "data \<noteq> []" and fits: "length data \<le> MAX_RECORD_SIZE"
  shows "heapst.total 2 (insert_extend (last ps) data) (h, s) (inserted (pool_view s) ps (hf_root h) data)"
    (is "heapst.total _ _ _ ?Q")
proof -
  let ?V = "pool_view s"
  have r: "heap_chain ?V ps" "distinct ps" "hf_root h = hd ps" "last ps \<in> set ps"
    using heap_repD [OF rep] by auto
  obtain pg where pg: "?V (last ps) = Some pg" "heap_page_ok pg" using chain_page [OF r(1,4)] by blast
  obtain npg where npg: "bindO (init_heap_page new_page_bytes) (expect_insert ''fresh page must fit'' data) = Ok (0, npg)"
    "heap_page_ok npg" "hp_next npg = NO_NEXT" "hp_records npg = [Some data]"
    by (rule fresh_page_insert [OF ne fits])
  note new = new_page_total [of "\<lambda>pg. bindO (init_heap_page pg) (expect_insert ''fresh page must fit'' data)",
      OF npg(1) heap_page_okD(1) [OF npg(2)]]
  have "heapst.total (1 + (1 + 0)) (insert_extend (last ps) data) (h, s) ?Q"
    unfolding insert_extend_def
  proof (rule heapst.total_bind [OF on_pool_total [OF new]], elim heap_view_cases, clarsimp)
    fix q s1 assume q: "?V q = None" "q < U64_MAX" and V1: "pool_view s1 = ?V(q \<mapsto> npg)"
    have "last ps \<noteq> q" using q pg by auto
    then have v1: "pool_view s1 (last ps) = Some pg" using pg V1 by simp
    have "q \<le> U64_MAX" using q by simp
    with pg(2) obtain pg' where pg': "write_u64 pg HEADER_NEXT_OFFSET q = (Ok pg' :: (io_error, page) outcome)"
      "heap_page_ok pg'" "hp_records pg' = hp_records pg" "hp_next pg' = q" by (rule link_page_Ok)
    have link: "bindO (write_u64 pg HEADER_NEXT_OFFSET q) (\<lambda>pg. Ok ((), pg)) = (Ok ((), pg') :: (io_error, unit \<times> page) outcome)"
      using pg'(1) by simp
    note w = with_page_mut_total [of s1 "last ps" pg "\<lambda>pg. bindO (write_u64 pg HEADER_NEXT_OFFSET q) (\<lambda>pg. Ok ((), pg))",
        OF v1 link heap_page_okD(1) [OF pg'(2)]]
    note I = insert_in_new_page [OF r(1-3) q pg(1) pg'(2,4,3) npg(2-4)]
    have "heapst.total (1 + 0) (bindP (on_pool (with_page_mut (last ps)
        (\<lambda>pg. bindO (write_u64 pg HEADER_NEXT_OFFSET q) (\<lambda>pg. Ok ((), pg)))))
        (\<lambda>_. bindP (set_last_page q) (\<lambda>_. returnP (q, 0)))) (h, s1) ?Q"
      by (rule heapst.total_bind [OF on_pool_total [OF w]])
        (use I V1 in \<open>auto elim!: heap_view_cases simp: heapst.total_def set_last_page_def\<close>)
    then show "heapst.total (Suc 0) (bindP (on_pool (with_page_mut (last ps)
        (\<lambda>pg. bindO (write_u64 pg HEADER_NEXT_OFFSET q) (\<lambda>pg. Ok ((), pg)))))
        (\<lambda>_. bindP (set_last_page q) (\<lambda>_. returnP (q, 0)))) (h, s1) ?Q" by simp
  qed
  then show ?thesis by (simp add: numeral_2_eq_2)
qed

lemma insert_catch_up_total:
  assumes rep: "heap_rep (pool_view s) h ps" and ne: "data \<noteq> []" and fits: "length data \<le> MAX_RECORD_SIZE"
    and t: "t \<in> set ps"
  shows "heapst.total (length ps + 3) (insert_catch_up t data) (h, s) (inserted (pool_view s) ps (hf_root h) data)"
    (is "heapst.total _ _ _ ?Q")
proof -
  let ?V = "pool_view s" and ?h = "h\<lparr>hf_last_page := last ps\<rparr>"
  have r: "heap_chain ?V ps" "distinct ps" "last ps \<in> set ps" using heap_repD [OF rep] by auto
  obtain pg where pg: "?V (last ps) = Some pg" "heap_page_ok pg" using chain_page [OF r(1,3)] by blast
  have rep': "heap_rep ?V ?h ps" using rep r(3) by (simp add: heap_rep_def)
  have ext: "heapst.total 2 (insert_extend (last ps) data) (?h, s2) ?Q" if "pool_view s2 = ?V" for s2
    using insert_extend_total [of s2 ?h ps data] rep' ne fits that by simp
  have at: "heapst.total 2 (insert_at (last ps) data) (?h, s2) ?Q"
    if "pool_view s2 = ?V" "length data + SLOT_SIZE \<le> hp_free pg" for s2
    using heapst.total_conseq [OF insert_at_total [of s2 ?h ps "last ps" pg data], of ?Q 2] rep' ne pg r that by simp
  have "heapst.total (length ps + (0 + (1 + 2))) (insert_catch_up t data) (h, s) ?Q"
    unfolding insert_catch_up_def
  proof (rule heapst.total_bind [OF on_pool_total [OF find_last_page_total [OF r(1,2) t]]], elim heap_view_cases, clarify,
      rule heapst.total_bind [OF set_last_page_total], elim heap_view_cases, clarify)
    fix s1 s2 assume v: "pool_view s1 = ?V" "pool_view s2 = pool_view s1"
    show "heapst.total (1 + 2) (if last ps \<noteq> t then
        bindP (on_pool (with_page (last ps) page_free_space)) (\<lambda>space.
        if length data + SLOT_SIZE \<le> space then insert_at (last ps) data else insert_extend (last ps) data)
        else insert_extend (last ps) data) (?h, s2) ?Q"
    proof (cases "last ps = t")
      case True
      with heapst.total_conseq [OF ext [of s2], of ?Q "1 + 2"] v show ?thesis by simp
    next
      case False
      have "heapst.total (1 + 2) (bindP (on_pool (with_page (last ps) page_free_space)) (\<lambda>space.
          if length data + SLOT_SIZE \<le> space then insert_at (last ps) data else insert_extend (last ps) data)) (?h, s2) ?Q"
        by (rule heapst.total_bind [OF space_total [OF _ pg(2)]]) (use v pg(1) ext at in \<open>auto elim!: heap_view_cases\<close>)
      with False show ?thesis by simp
    qed
  qed
  then show ?thesis by (simp add: numeral_3_eq_3)
qed

lemma heap_insert_total:
  assumes rep: "heap_rep (pool_view s) h ps" and ne: "data \<noteq> []" and fits: "length data \<le> MAX_RECORD_SIZE"
  shows "heapst.total (1 + (length ps + 3)) (heap_insert data) (h, s)
    (inserted (pool_view s) ps (hf_root h) data)" (is "heapst.total _ _ _ ?Q")
proof -
  let ?t = "hf_last_page h"
  have r: "heap_chain (pool_view s) ps" "?t \<in> set ps" using heap_repD [OF rep] by auto
  obtain pg where pg: "pool_view s ?t = Some pg" "heap_page_ok pg" using chain_page [OF r] by blast
  have "heapst.total (1 + (length ps + 3)) (bindP (on_pool (with_page ?t page_free_space)) (\<lambda>space.
      if length data + SLOT_SIZE \<le> space then insert_at ?t data else insert_catch_up ?t data)) (h, s) ?Q"
  proof (rule heapst.total_bind [OF space_total [OF pg]], elim heap_view_cases, clarify)
    fix s1 assume v: "pool_view s1 = pool_view s"
    show "heapst.total (length ps + 3) (if length data + SLOT_SIZE \<le> hp_free pg then insert_at ?t data
        else insert_catch_up ?t data) (h, s1) ?Q"
      using heapst.total_conseq [OF insert_at_total [of s1 h ps ?t pg data], of ?Q "length ps + 3"]
        insert_catch_up_total [of s1 h ps data ?t] rep ne fits r(2) pg v by auto
  qed
  with ne fits show ?thesis by (simp add: heap_insert_def heapst.total_def cong: if_cong)
qed

lemma heap_read_total:
  assumes rep: "heap_rep (pool_view s) h ps" and d: "fst d \<in> set ps"
  shows "heapst.total 1 (heap_read d) (h, s) (\<lambda>r v. r = heap_map (pool_view s) ps d \<and> v = (h, pool_view s))"
proof -
  obtain p i where pi: "d = (p, i)" by (cases d)
  obtain pg where pg: "pool_view s p = Some pg" "heap_page_ok pg"
    using chain_page [OF heap_repD(1) [OF rep] d] by (auto simp: pi)
  note t = on_pool_total [OF with_page_total [of s p pg "\<lambda>pg. read_slot pg i", OF pg(1) read_slot_record [OF pg(2)]]]
  show ?thesis
    unfolding heap_read_def pi prod.case
    by (rule heapst.total_conseq [OF t]) (use d pg in \<open>auto simp: pi heap_map_page\<close>)
qed

lemma heap_delete_total:
  assumes rep: "heap_rep (pool_view s) h ps" and d: "fst d \<in> set ps"
  shows "heapst.total 1 (heap_delete d) (h, s) (\<lambda>_ (h', V). h' = h \<and> heap_rep V h ps
    \<and> heap_map V ps = (heap_map (pool_view s) ps)(d := None) \<and> (\<forall>q. q \<notin> set ps \<longrightarrow> V q = pool_view s q))"
proof -
  obtain p i where pi: "d = (p, i)" by (cases d)
  obtain pg where pg: "pool_view s p = Some pg" "heap_page_ok pg"
    using chain_page [OF heap_repD(1) [OF rep] d] by (auto simp: pi)
  obtain pg' where pg': "tombstone_slot pg i = (Ok pg' :: (io_error, page) outcome)" "heap_page_ok pg'"
    "hp_records pg' = (hp_records pg)[i := None]" "hp_next pg' = hp_next pg" by (rule tombstone_slot_Ok [OF pg(2)])
  have run: "bindO (tombstone_slot pg i) (\<lambda>pg. Ok ((), pg)) = (Ok ((), pg') :: (io_error, unit \<times> page) outcome)"
    using pg'(1) by simp
  note t = on_pool_total [OF with_page_mut_total [of s p pg "\<lambda>pg. bindO (tombstone_slot pg i) (\<lambda>pg. Ok ((), pg))",
      OF pg(1) run heap_page_okD(1) [OF pg'(2)]]]
  have ch: "heap_chain ((pool_view s)(p \<mapsto> pg')) ps"
    by (rule chain_update [OF heap_repD(1) [OF rep] pg(1) pg'(2,4)])
  have m: "heap_map ((pool_view s)(p \<mapsto> pg')) ps = (heap_map (pool_view s) ps)((p, i) := None)"
    by (rule heap_map_tombstone) (use d pg pg' in \<open>auto simp: pi\<close>)
  show ?thesis
    unfolding heap_delete_def pi prod.case
    by (rule heapst.total_conseq [OF t]) (use d ch m rep in \<open>auto simp: pi heap_rep_def\<close>)
qed

lemma scan_closure_Ok: "heap_page_ok pg \<Longrightarrow> scan_closure p pg = Ok (page_live p pg, hp_next pg)"
  using heap_page_okD(1) by (simp add: scan_closure_def live_records_Ok)

lemma scan_page_total:
  assumes "pool_view s p = Some pg" and "heap_page_ok pg"
  shows "heapst.total 1 (scan_page p) (h, s) (\<lambda>r v. v = (h, pool_view s)
    \<and> r = (page_live p pg, if hp_next pg = NO_NEXT then None else Some (hp_next pg)))"
  unfolding scan_page_def
  by (rule heapst.total_conseq [OF on_pool_total [OF with_page_total [OF assms(1)]]])
    (auto simp: scan_closure_Ok [OF assms(2)])

lemma scan_loop_total:
  assumes "heap_chain (pool_view s) (p # ps)" and "Suc (length ps) < n"
  shows "pool.total (length (p # ps)) (scan_loop n (Some p) out) s
    (\<lambda>r V. r = out @ heap_live (pool_view s) (p # ps) \<and> V = pool_view s)"
  using assms
proof (induction ps arbitrary: n p s out)
  case Nil
  from Nil(2) have "2 \<le> n" by simp
  then obtain m where n: "n = Suc (Suc m)" by (metis add_2_eq_Suc le_Suc_ex)
  from Nil obtain pg where pg: "pool_view s p = Some pg" "heap_page_ok pg" "hp_next pg = NO_NEXT"
    by (auto split: option.splits)
  have "pool.total (1 + 0) (scan_loop n (Some p) out) s
      (\<lambda>r V. r = out @ heap_live (pool_view s) [p] \<and> V = pool_view s)"
    unfolding n scan_loop.simps
    by (rule pool.total_bind [OF with_page_total [of s p pg "scan_closure p", OF pg(1) scan_closure_Ok [OF pg(2)]]])
      (simp add: pg pool.total_return heap_live_def)
  then show ?case by simp
next
  case (Cons q ps)
  from Cons.prems obtain m where n: "n = Suc m" by (cases n) auto
  from Cons.prems obtain pg where pg: "pool_view s p = Some pg" "heap_page_ok pg" "hp_next pg = q"
    by (auto split: option.splits)
  from Cons.prems have q: "q \<noteq> NO_NEXT" and ch: "heap_chain (pool_view s) (q # ps)" and len: "Suc (length ps) < m"
    by (auto simp: n split: option.splits)
  have "pool.total (1 + length (q # ps)) (scan_loop n (Some p) out) s
      (\<lambda>r V. r = out @ heap_live (pool_view s) (p # q # ps) \<and> V = pool_view s)"
    unfolding n scan_loop.simps
  proof (rule pool.total_bind [OF with_page_total [of s p pg "scan_closure p", OF pg(1) scan_closure_Ok [OF pg(2)]]], clarify)
    fix s' assume v: "pool_view s' = pool_view s"
    then show "pool.total (length (q # ps)) (scan_loop m (if hp_next pg = NO_NEXT then None else Some (hp_next pg))
        (out @ page_live p pg)) s' (\<lambda>r V. r = out @ heap_live (pool_view s) (p # q # ps) \<and> V = pool_view s)"
      using Cons.IH [of s' q m "out @ page_live p pg"] ch len q pg by (simp add: heap_live_def)
  qed
  then show ?case by simp
qed

lemma scan_all_total:
  assumes rep: "heap_rep (pool_view s) h ps"
  shows "heapst.total (length ps) scan_all (h, s) (\<lambda>r v. r = heap_live (pool_view s) ps \<and> v = (h, pool_view s))"
proof -
  obtain p qs where ps: "ps = p # qs" using heap_repD(1) [OF rep] by (cases ps) auto
  have "Suc (length qs) < Suc (Suc (dm_num_pages (bp_disk s)))"
    using chain_length [OF heap_repD(1,2) [OF rep]] ps by simp
  from on_pool_total [OF scan_loop_total [OF heap_repD(1) [OF rep, unfolded ps] this, of "[]"], of h]
  have "heapst.total (length ps) (on_pool (scan_loop (Suc (Suc (dm_num_pages (bp_disk s)))) (Some p) [])) (h, s)
      (\<lambda>r v. r = heap_live (pool_view s) ps \<and> v = (h, pool_view s))"
    unfolding ps by (rule heapst.total_conseq) auto
  with heap_repD(3) [OF rep] ps show ?thesis by (simp add: scan_all_def heapst.total_def)
qed

lemma heap_create_total:
  "pool.total 1 heap_create s (\<lambda>h V. heap_rep V h [hf_root h] \<and> heap_map V [hf_root h] = Map.empty
     \<and> pool_view s (hf_root h) = None \<and> (\<forall>q. q \<noteq> hf_root h \<longrightarrow> V q = pool_view s q))"
proof -
  obtain pg where pg: "init_heap_page new_page_bytes = (Ok pg :: (io_error, page) outcome)" "heap_page_ok pg"
    "hp_records pg = []" "hp_next pg = NO_NEXT" by (rule init_heap_page_Ok [OF length_new_page_bytes])
  have run: "bindO (init_heap_page new_page_bytes) (\<lambda>pg. Ok ((), pg)) = (Ok ((), pg) :: (io_error, unit \<times> page) outcome)"
    using pg(1) by simp
  note new = new_page_total [of "\<lambda>pg. bindO (init_heap_page pg) (\<lambda>pg. Ok ((), pg))", OF run heap_page_okD(1) [OF pg(2)]]
  have none: "page_record pg i = None" for i unfolding page_record_nth pg(3) by simp
  have "pool.total (1 + 0) heap_create s (\<lambda>h V. heap_rep V h [hf_root h] \<and> heap_map V [hf_root h] = Map.empty
     \<and> pool_view s (hf_root h) = None \<and> (\<forall>q. q \<noteq> hf_root h \<longrightarrow> V q = pool_view s q))"
    unfolding heap_create_def
    by (rule pool.total_bind [OF new])
      (auto intro!: pool.total_return simp: heap_rep_def heap_map_def none pg NO_NEXT_def fun_eq_iff)
  then show ?thesis by simp
qed

lemma heap_open_total:
  assumes "heap_chain (pool_view s) ps" and "distinct ps" and "p = hd ps"
  shows "pool.total (length ps) (heap_open p) s (\<lambda>h V. h = \<lparr>hf_root = p, hf_last_page = last ps\<rparr>
    \<and> heap_rep V h ps \<and> V = pool_view s)"
proof -
  have p: "p \<in> set ps" and l: "last ps \<in> set ps" using assms(1,3) by (cases ps; auto)+
  have "pool.total (length ps + 0) (heap_open p) s (\<lambda>h V. h = \<lparr>hf_root = p, hf_last_page = last ps\<rparr>
      \<and> heap_rep V h ps \<and> V = pool_view s)"
    unfolding heap_open_def
    by (rule pool.total_bind [OF find_last_page_total [OF assms(1,2) p]], rule pool.total_return)
      (use assms l in \<open>auto simp: heap_rep_def\<close>)
  then show ?thesis by simp
qed

section \<open>The interface of a record store\<close>

text \<open>
  What a client of the heap relies on: a finite map from document ids to records that is
  extended at fresh ids, read, cut down and listed. \<open>rep v ps m\<close> says that the state with view
  \<open>v\<close> holds the records \<open>m\<close> on the pages \<open>ps\<close>.
\<close>

locale record_store = store_logic inv view budget
  for inv :: "'s \<Rightarrow> bool" and view :: "'s \<Rightarrow> 'v" and budget :: "'s \<Rightarrow> nat" +
  fixes rep :: "'v \<Rightarrow> page_id list \<Rightarrow> (doc_id \<rightharpoonup> byte list) \<Rightarrow> bool"
    and ins :: "byte list \<Rightarrow> ('s, io_error, doc_id) prog"
    and get :: "doc_id \<Rightarrow> ('s, io_error, byte list option) prog"
    and del :: "doc_id \<Rightarrow> ('s, io_error, unit) prog"
    and scan :: "('s, io_error, (doc_id \<times> byte list) list) prog"
  assumes rep_page: "rep v ps m \<Longrightarrow> m d = Some b \<Longrightarrow> fst d \<in> set ps"
    and ins_law: "rep (view s) ps m \<Longrightarrow> data \<noteq> [] \<Longrightarrow> length data \<le> MAX_RECORD_SIZE \<Longrightarrow>
      total (length ps + 4) (ins data) s (\<lambda>d v. m d = None \<and> (\<exists>ps'. rep v ps' (m(d \<mapsto> data)) \<and> set ps \<subseteq> set ps'
          \<and> length ps' \<le> Suc (length ps)))"
    and get_law: "rep (view s) ps m \<Longrightarrow> fst d \<in> set ps \<Longrightarrow> total 1 (get d) s (\<lambda>r v. r = m d \<and> v = view s)"
    and del_law: "rep (view s) ps m \<Longrightarrow> fst d \<in> set ps \<Longrightarrow> total 1 (del d) s (\<lambda>_ v. rep v ps (m(d := None)))"
    and scan_law: "rep (view s) ps m \<Longrightarrow> total (length ps) scan s
      (\<lambda>r v. v = view s \<and> map_of r = m \<and> distinct (map fst r))"
begin

lemma insert_then_read:
  assumes "rep (view s) ps m" and "data \<noteq> []" and "length data \<le> MAX_RECORD_SIZE"
  shows "total (length ps + 4 + 1) (bindP (ins data) get) s (\<lambda>r v. r = Some data)"
proof (rule total_bind [OF ins_law [OF assms]], elim conjE exE)
  fix d s' ps' assume r: "rep (view s') ps' (m(d \<mapsto> data))"
  have "fst d \<in> set ps'" using rep_page [OF r, of d] by simp
  from total_conseq [OF get_law [OF r this] _ order_refl] show "total 1 (get d) s' (\<lambda>r v. r = Some data)" by simp
qed

lemma insert_keeps_others:
  assumes "rep (view s) ps m" and "data \<noteq> []" and "length data \<le> MAX_RECORD_SIZE" and "m e = Some b"
  shows "total (length ps + 4 + 1) (bindP (ins data) (\<lambda>_. get e)) s (\<lambda>r v. r = Some b)"
proof (rule total_bind [OF ins_law [OF assms(1-3)]], elim conjE exE)
  fix d s' ps' assume d: "m d = None" and r: "rep (view s') ps' (m(d \<mapsto> data))"
  have "d \<noteq> e" using d assms(4) by auto
  moreover from this have "fst e \<in> set ps'" using rep_page [OF r, of e] assms(4) by simp
  ultimately show "total 1 (get e) s' (\<lambda>r v. r = Some b)"
    using total_conseq [OF get_law [OF r] _ order_refl, of e "\<lambda>r v. r = Some b"] assms(4) by simp
qed

lemma delete_then_read:
  assumes r: "rep (view s) ps m" and d: "fst d \<in> set ps"
  shows "total (1 + 1) (bindP (del d) (\<lambda>_. get d)) s (\<lambda>r v. r = None)"
proof (rule total_bind [OF del_law [OF assms]])
  fix u s' assume "rep (view s') ps (m(d := None))"
  from total_conseq [OF get_law [OF this d] _ order_refl] show "total 1 (get d) s' (\<lambda>r v. r = None)" by simp
qed

end

definition heap_holds :: "heap_file \<times> (page_id \<rightharpoonup> page) \<Rightarrow> page_id list \<Rightarrow> (doc_id \<rightharpoonup> byte list) \<Rightarrow> bool" where
  "heap_holds = (\<lambda>(h, V) ps m. heap_rep V h ps \<and> m = heap_map V ps)"

lemma map_of_heap_live:
  assumes "heap_rep V h ps"
  shows "map_of (heap_live V ps) = heap_map V ps"
proof (rule ext)
  fix d
  have "map_of (heap_live V ps) d = Some b \<longleftrightarrow> heap_map V ps d = Some b" for b
    using distinct_heap_live [OF heap_repD(2) [OF assms]] heap_live_iff [OF heap_repD(1) [OF assms]]
    by (simp add: map_of_eq_Some_iff)
  then show "map_of (heap_live V ps) d = heap_map V ps d" by (metis option.exhaust)
qed


interpretation heap: record_store "\<lambda>(h, s). pool_inv s" heap_view "\<lambda>(h, s). pool_budget s"
  heap_holds heap_insert heap_read heap_delete scan_all
proof
  show "fst d \<in> set ps" if "heap_holds v ps m" "m d = Some b" for v ps m d b
    using that by (cases v; cases d) (auto simp: heap_holds_def heap_map_def split: if_splits)
  show "heapst.total (length ps + 4) (heap_insert data) hs
      (\<lambda>d v. m d = None \<and> (\<exists>ps'. heap_holds v ps' (m(d \<mapsto> data)) \<and> set ps \<subseteq> set ps' \<and> length ps' \<le> Suc (length ps)))"
    if "heap_holds (heap_view hs) ps m" "data \<noteq> []" "length data \<le> MAX_RECORD_SIZE" for hs ps m data
  proof -
    obtain h s where hs: "hs = (h, s)" by (cases hs)
    have r: "heap_rep (pool_view s) h ps" "m = heap_map (pool_view s) ps" using that(1) by (simp_all add: hs heap_holds_def)
    show ?thesis
      unfolding hs by (rule heapst.total_conseq [OF heap_insert_total [OF r(1) that(2,3)]])
        (auto simp: inserted_def heap_holds_def r(2) elim!: heap_view_cases)
  qed
  show "heapst.total 1 (heap_read d) hs (\<lambda>r v. r = m d \<and> v = heap_view hs)"
    if "heap_holds (heap_view hs) ps m" "fst d \<in> set ps" for hs ps m d
    using that heap_read_total [of "snd hs" "fst hs" ps d] by (cases hs) (simp add: heap_holds_def)
  show "heapst.total 1 (heap_delete d) hs (\<lambda>_ v. heap_holds v ps (m(d := None)))"
    if "heap_holds (heap_view hs) ps m" "fst d \<in> set ps" for hs ps m d
  proof -
    obtain h s where hs: "hs = (h, s)" by (cases hs)
    have r: "heap_rep (pool_view s) h ps" "m = heap_map (pool_view s) ps" using that(1) by (simp_all add: hs heap_holds_def)
    show ?thesis
      unfolding hs by (rule heapst.total_conseq [OF heap_delete_total [OF r(1) that(2)]])
        (auto simp: heap_holds_def r(2) elim!: heap_view_cases)
  qed
  show "heapst.total (length ps) scan_all hs (\<lambda>r v. v = heap_view hs \<and> map_of r = m \<and> distinct (map fst r))"
    if "heap_holds (heap_view hs) ps m" for hs ps m
  proof -
    obtain h s where hs: "hs = (h, s)" by (cases hs)
    have r: "heap_rep (pool_view s) h ps" "m = heap_map (pool_view s) ps" using that by (simp_all add: hs heap_holds_def)
    show ?thesis
      unfolding hs by (rule heapst.total_conseq [OF scan_all_total [OF r(1)]])
        (auto simp: r(2) map_of_heap_live [OF r(1)] distinct_heap_live heap_repD(2) [OF r(1)])
  qed
qed


section \<open>Properties\<close>

lemma example_heap:
  obtains h s where "heap_create example_pool = (Ok h, s)" and "pool_inv s"
    and "heap_rep (pool_view s) h [hf_root h]" and "heap_map (pool_view s) [hf_root h] = Map.empty"
    and "1023 \<le> pool_budget s"
proof -
  have "1 \<le> pool_budget example_pool" using example_pool_budget by simp
  from heap_create_total [of example_pool, THEN pool.totalE, OF example_pool_inv this]
  obtain h s where "heap_create example_pool = (Ok h, s)" "pool_inv s"
    "heap_rep (pool_view s) h [hf_root h]" "heap_map (pool_view s) [hf_root h] = Map.empty"
    "pool_budget example_pool \<le> pool_budget s + 1" by blast
  with that example_pool_budget show ?thesis by simp
qed

text \<open>
  C4: \<open>HeapFile::insert\<close> adds exactly one record, at an id that held none, and returns that id.
  It does so whatever the page it ends on, also through a handle whose cached tail is stale;
  every other handle on the same heap stays valid, and no page outside the heap that was in
  use changes.
\<close>

theorem heap_insert_adds_record:
  assumes "pool_inv s" and "length ps + 4 \<le> pool_budget s" and "heap_rep (pool_view s) h ps"
    and "data \<noteq> []" and "length data \<le> MAX_RECORD_SIZE"
  shows "\<exists>d h' s' ps'. heap_insert data (h, s) = (Ok d, (h', s')) \<and> pool_inv s'
    \<and> heap_map (pool_view s) ps d = None
    \<and> heap_map (pool_view s') ps' = (heap_map (pool_view s) ps)(d \<mapsto> data)
    \<and> heap_rep (pool_view s') h' ps'
    \<and> (\<forall>g. heap_rep (pool_view s) g ps \<longrightarrow> heap_rep (pool_view s') g ps')
    \<and> (\<forall>q pg. q \<notin> set ps \<and> pool_view s q = Some pg \<longrightarrow> pool_view s' q = Some pg)"
proof -
  have "1 + (length ps + 3) \<le> pool_budget s" using assms(2) by simp
  with heap_insert_total [OF assms(3-5)] assms(1)
  obtain d h' s' where run: "heap_insert data (h, s) = (Ok d, (h', s'))" "pool_inv s'"
    and I: "inserted (pool_view s) ps (hf_root h) data d (h', pool_view s')" by (rule heap_totalE)
  from I obtain ps' where ps': "hf_root h' = hf_root h" "heap_map (pool_view s) ps d = None"
    "heap_rep (pool_view s') h' ps'" "heap_map (pool_view s') ps' = (heap_map (pool_view s) ps)(d \<mapsto> data)"
    "set ps \<subseteq> set ps'" "\<forall>q \<in> set ps' - set ps. pool_view s q = None"
    "\<forall>q. q \<notin> set ps' \<longrightarrow> pool_view s' q = pool_view s q" by (auto simp: inserted_def)
  have "heap_rep (pool_view s') g ps'" if "heap_rep (pool_view s) g ps" for g
    using that ps'(1,3,5) assms(3) by (auto simp: heap_rep_def)
  moreover have "pool_view s' q = Some pg" if "q \<notin> set ps" "pool_view s q = Some pg" for q pg
    using that ps'(6,7) by (metis DiffI option.distinct(1))
  ultimately show ?thesis using run ps'(2-4) by blast
qed

theorem heap_insert_adds_record_witness:
  "\<exists>h s d h' s' ps'. heap_create example_pool = (Ok h, s)
    \<and> heap_insert [1, 2, 3] (h, s) = (Ok d, (h', s')) \<and> heap_rep (pool_view s') h' ps'
    \<and> heap_map (pool_view s') ps' = [d \<mapsto> [1, 2, 3]]"
proof -
  obtain h s where e: "heap_create example_pool = (Ok h, s)" "pool_inv s"
    "heap_rep (pool_view s) h [hf_root h]" "heap_map (pool_view s) [hf_root h] = Map.empty" "1023 \<le> pool_budget s"
    by (rule example_heap)
  have "length [hf_root h] + 4 \<le> pool_budget s" using e(5) by simp
  from heap_insert_adds_record [OF e(2) this e(3), of "[1, 2, 3]"] e(1,4) show ?thesis
    by (fastforce simp: MAX_RECORD_SIZE_def heap_consts PAGE_SIZE_def)
qed

text \<open>
  C5: a record that is deleted is gone and nothing else is. \<open>HeapFile::delete\<close> on any slot of
  the heap (live, already deleted or past the end of its page) returns \<open>Ok\<close>, and a scan of the
  whole heap afterwards lists the records it listed before without that one, each id once.
\<close>

theorem heap_delete_then_scan:
  assumes "pool_inv s" and "1 + length ps \<le> pool_budget s" and "heap_rep (pool_view s) h ps"
    and "fst d \<in> set ps"
  shows "\<exists>rs s'. bindP (heap_delete d) (\<lambda>_. scan_all) (h, s) = (Ok rs, (h, s')) \<and> distinct (map fst rs)
    \<and> set rs = {(e, b). heap_map (pool_view s) ps e = Some b \<and> e \<noteq> d}"
proof -
  have "heapst.total (1 + length ps) (bindP (heap_delete d) (\<lambda>_. scan_all)) (h, s) (\<lambda>rs (h', V).
      h' = h \<and> distinct (map fst rs) \<and> set rs = {(e, b). heap_map (pool_view s) ps e = Some b \<and> e \<noteq> d})"
  proof (rule heapst.total_bind [OF heap_delete_total [OF assms(3,4)]], elim heap_view_cases conjE, clarify)
    fix s' assume r: "heap_rep (pool_view s') h ps" and m: "heap_map (pool_view s') ps = (heap_map (pool_view s) ps)(d := None)"
    have "set (heap_live (pool_view s') ps) = {(e, b). heap_map (pool_view s) ps e = Some b \<and> e \<noteq> d}"
      using heap_live_iff [OF heap_repD(1) [OF r]] m by (auto split: if_splits)
    with distinct_heap_live [OF heap_repD(2) [OF r]]
    show "heapst.total (length ps) scan_all (h, s') (\<lambda>rs (h', V).
        h' = h \<and> distinct (map fst rs) \<and> set rs = {(e, b). heap_map (pool_view s) ps e = Some b \<and> e \<noteq> d})"
      by (intro heapst.total_conseq [OF scan_all_total [OF r]]) auto
  qed
  then show ?thesis using assms(1,2) by (auto elim!: heapst.totalE split: prod.splits)
qed

theorem heap_delete_then_scan_witness:
  "\<exists>h s rs s'. heap_create example_pool = (Ok h, s)
    \<and> bindP (heap_delete (hf_root h, 0)) (\<lambda>_. scan_all) (h, s) = (Ok rs, (h, s')) \<and> rs = []"
proof -
  obtain h s where e: "heap_create example_pool = (Ok h, s)" "pool_inv s"
    "heap_rep (pool_view s) h [hf_root h]" "heap_map (pool_view s) [hf_root h] = Map.empty" "1023 \<le> pool_budget s"
    by (rule example_heap)
  have "1 + length [hf_root h] \<le> pool_budget s" using e(5) by simp
  from heap_delete_then_scan [OF e(2) this e(3), of "(hf_root h, 0)"] e(1,4) show ?thesis by auto
qed

end
