(* ===== verification/Doc_Value.thy ===== *)
theory Doc_Value
  imports Asdb_Prelude "HOL-Library.Char_ord" "HOL-Library.List_Lexorder"
begin

text \<open>
  \<open>document/value.rs\<close>: the document model, with what the code takes from the standard
  library for it.

  \<^item> A Rust \<open>String\<close> is its sequence of UTF-8 bytes, held as a \<open>string\<close> (one character per
    byte); \<open>utf8_valid\<close> is the check \<open>String::from_utf8\<close> makes. Comparison of Rust strings is
    lexicographic on the bytes, which is the order of \<open>List_Lexorder\<close> over \<open>Char_ord\<close>.
  \<^item> \<open>i64\<close> is a 64-bit word read by \<open>sint\<close>; \<open>f64\<close> is the 64-bit IEEE pattern that
    \<open>to_bits\<close> gives, so that equality of the model is equality of bits.
  \<^item> A \<open>Document\<close> is a \<open>HashMap\<close>: an association list whose order stands for the iteration
    order, which Rust leaves open. \<open>value_ok\<close> is what the Rust types guarantee (valid strings,
    each key once); \<open>canon\<close> sorts every document by key, so that two values are equal as hash
    maps exactly when their canonical forms are equal.
\<close>

section \<open>Strings and bytes\<close>

definition string_bytes :: "string \<Rightarrow> byte list" where
  "string_bytes s = map (\<lambda>c. word_of_nat (of_char c)) s"

definition bytes_string :: "byte list \<Rightarrow> string" where
  "bytes_string bs = map (\<lambda>b. char_of (unat b)) bs"

lemma length_string_bytes [simp]: "length (string_bytes s) = length s"
  by (simp add: string_bytes_def)

lemma length_bytes_string [simp]: "length (bytes_string bs) = length bs"
  by (simp add: bytes_string_def)

lemma byte_of_char_of: "(word_of_nat (of_char (char_of (unat b) :: char)) :: byte) = b"
  using unat_byte_less [of b] by simp

lemma char_of_byte_of: "char_of (unat (word_of_nat (of_char c) :: byte)) = c"
proof -
  have "(of_char c :: nat) < 256" by simp
  then show ?thesis by (simp add: unat_of_nat)
qed

lemma bytes_string_bytes [simp]: "bytes_string (string_bytes s) = s"
  unfolding bytes_string_def string_bytes_def map_map comp_def char_of_byte_of by simp

lemma string_bytes_string [simp]: "string_bytes (bytes_string bs) = bs"
  unfolding bytes_string_def string_bytes_def map_map comp_def byte_of_char_of by simp

lemma string_bytes_inject [simp]: "string_bytes s = string_bytes t \<longleftrightarrow> s = t"
  by (metis bytes_string_bytes)

text \<open>Well-formed UTF-8 byte sequences (Unicode table 3-7).\<close>

definition utf8_cont :: "nat \<Rightarrow> bool" where
  "utf8_cont b \<longleftrightarrow> 128 \<le> b \<and> b \<le> 191"

fun utf8_valid_nat :: "nat list \<Rightarrow> bool" where
  "utf8_valid_nat [] = True"
| "utf8_valid_nat (a # bs) = (
     if a < 128 then utf8_valid_nat bs
     else if 194 \<le> a \<and> a \<le> 223 then
       (case bs of b # rest \<Rightarrow> utf8_cont b \<and> utf8_valid_nat rest | _ \<Rightarrow> False)
     else if 224 \<le> a \<and> a \<le> 239 then
       (case bs of b # c # rest \<Rightarrow>
          (if a = 224 then 160 \<le> b \<and> b \<le> 191 else if a = 237 then 128 \<le> b \<and> b \<le> 159 else utf8_cont b)
          \<and> utf8_cont c \<and> utf8_valid_nat rest | _ \<Rightarrow> False)
     else if 240 \<le> a \<and> a \<le> 244 then
       (case bs of b # c # d # rest \<Rightarrow>
          (if a = 240 then 144 \<le> b \<and> b \<le> 191 else if a = 244 then 128 \<le> b \<and> b \<le> 143 else utf8_cont b)
          \<and> utf8_cont c \<and> utf8_cont d \<and> utf8_valid_nat rest | _ \<Rightarrow> False)
     else False)"

definition utf8_valid :: "string \<Rightarrow> bool" where
  "utf8_valid s = utf8_valid_nat (map of_char s)"

lemma utf8_valid_ascii: "\<forall>c \<in> set s. (of_char c :: nat) < 128 \<Longrightarrow> utf8_valid s"
  unfolding utf8_valid_def by (induction s) auto

section \<open>Values\<close>

datatype doc_value =
    VInt i64
  | VFloat f64
  | VString string
  | VBool bool
  | VNull
  | VArray "doc_value list"
  | VDocument "(string \<times> doc_value) list"

type_synonym document = "(string \<times> doc_value) list"

lemma size_in_array [termination_simp]: "v \<in> set vs \<Longrightarrow> size v < Suc (size_list size vs)"
  by (induction vs) auto

lemma size_in_document [termination_simp]:
  "(k, v) \<in> set d \<Longrightarrow> size v < Suc (size_list (size_prod f size) d)"
  by (induction d) auto

text \<open>\<open>HashMap::insert\<close> and \<open>HashMap::get\<close>.\<close>

fun doc_insert :: "string \<Rightarrow> 'v \<Rightarrow> (string \<times> 'v) list \<Rightarrow> (string \<times> 'v) list" where
  "doc_insert k v [] = [(k, v)]"
| "doc_insert k v ((k', v') # d) = (if k' = k then (k, v) # d else (k', v') # doc_insert k v d)"

abbreviation doc_get :: "(string \<times> 'v) list \<Rightarrow> string \<Rightarrow> 'v option" where
  "doc_get d k \<equiv> map_of d k"

lemma map_of_doc_insert [simp]: "map_of (doc_insert k v d) = (map_of d)(k \<mapsto> v)"
  by (induction d) (auto simp: fun_eq_iff)

lemma keys_doc_insert: "fst ` set (doc_insert k v d) = insert k (fst ` set d)"
  by (induction k v d rule: doc_insert.induct) (simp_all add: insert_commute)

lemma distinct_doc_insert: "distinct (map fst d) \<Longrightarrow> distinct (map fst (doc_insert k v d))"
  by (induction d) (auto simp: keys_doc_insert)

lemma set_doc_insert: "set (doc_insert k v d) \<subseteq> insert (k, v) (set d)"
  by (induction k v d rule: doc_insert.induct) (auto split: if_splits)

lemma doc_insert_new: "k \<notin> fst ` set d \<Longrightarrow> doc_insert k v d = d @ [(k, v)]"
  by (induction d) auto

text \<open>A run of insertions, later fields winning.\<close>

definition insert_all :: "(string \<times> doc_value) list \<Rightarrow> document \<Rightarrow> document" where
  "insert_all fields doc = fold (\<lambda>(k, v). doc_insert k v) fields doc"

lemma insert_all_distinct:
  "distinct (map fst (doc @ fields)) \<Longrightarrow> insert_all fields doc = doc @ fields"
  by (induction fields arbitrary: doc) (auto simp: insert_all_def doc_insert_new)

fun value_ok :: "doc_value \<Rightarrow> bool" where
  "value_ok (VString s) = utf8_valid s"
| "value_ok (VArray vs) = (\<forall>v \<in> set vs. value_ok v)"
| "value_ok (VDocument d) =
     (distinct (map fst d) \<and> (\<forall>kv \<in> set d. utf8_valid (fst kv) \<and> value_ok (snd kv)))"
| "value_ok _ = True"

definition document_ok :: "document \<Rightarrow> bool" where
  "document_ok d \<longleftrightarrow> value_ok (VDocument d)"

lemma insert_all_ok:
  assumes "document_ok d" and "\<forall>kv \<in> set fs. utf8_valid (fst kv) \<and> value_ok (snd kv)"
  shows "document_ok (insert_all fs d)"
  using assms
proof (induction fs arbitrary: d)
  case (Cons kv fs)
  obtain k v where kv: "kv = (k, v)" by (cases kv)
  have "set (doc_insert k v d) \<subseteq> insert (k, v) (set d)" by (rule set_doc_insert)
  with Cons.prems distinct_doc_insert have "document_ok (doc_insert k v d)"
    by (auto simp: document_ok_def kv)
  with Cons show ?case by (simp add: insert_all_def kv)
qed (simp add: insert_all_def)

fun canon :: "doc_value \<Rightarrow> doc_value" where
  "canon (VArray vs) = VArray (map canon vs)"
| "canon (VDocument d) = VDocument (sort_key fst (map (\<lambda>(k, v). (k, canon v)) d))"
| "canon v = v"

definition canon_doc :: "document \<Rightarrow> document" where
  "canon_doc d = sort_key fst (map (\<lambda>(k, v). (k, canon v)) d)"

end
