(* ===== verification/Codec_Interface.thy ===== *)
theory Codec_Interface
  imports Doc_Value
begin

text \<open>
  The contract of a byte encoding, and what follows from it. A decoder is a program over the
  bytes that are left to read. \<open>codec\<close> asks that the decoder, run on an encoding followed by
  anything, returns the encoded object in a normal form and leaves the rest; the storage codec
  (\<open>Doc_Codec\<close>) and the wire codec (\<open>Wire_Codec\<close>) interpret it. \<open>consumes\<close> is the contract of
  a decoder on arbitrary bytes: it returns \<open>Ok\<close> or \<open>Err\<close> and never grows its input.
\<close>

locale codec =
  fixes enc :: "'a \<Rightarrow> byte list"
    and dec :: "(byte list, 'e, 'a) prog"
    and ok :: "'a \<Rightarrow> bool"
    and norm :: "'a \<Rightarrow> 'a"
  assumes dec_enc: "ok a \<Longrightarrow> dec (enc a @ rest) = (Ok (norm a), rest)"
begin

lemma prefix_free:
  assumes "ok a" and "ok b" and "enc a @ r = enc b @ r'"
  shows "norm a = norm b" and "r = r'"
  using dec_enc [OF assms(1), of r] dec_enc [OF assms(2), of r'] assms(3) by simp_all

lemma enc_inject:
  assumes "ok a" and "ok b" and "enc a = enc b"
  shows "norm a = norm b"
  using prefix_free(1) [OF assms(1,2), of "[]" "[]"] assms(3) by simp

lemma repeat_dec:
  "\<forall>x \<in> set xs. ok x \<Longrightarrow> repeatP (length xs) dec (concat (map enc xs) @ rest) = (Ok (map norm xs), rest)"
  by (induction xs) (auto simp: prog_simps dec_enc)

lemma sequence_inject:
  assumes "\<forall>x \<in> set xs. ok x" and "\<forall>y \<in> set ys. ok y" and "length xs = length ys"
    and "concat (map enc xs) @ r = concat (map enc ys) @ r'"
  shows "map norm xs = map norm ys" and "r = r'"
  using repeat_dec [OF assms(1), of r] repeat_dec [OF assms(2), of r'] assms(3,4) by simp_all

end

text \<open>
  \<open>consumes m bs\<close>: on the bytes \<open>bs\<close> the decoder neither panics nor runs forever, and leaves no
  more than \<open>bs\<close>; \<open>eats\<close> says that a success reads at least one byte.
\<close>

definition consumes :: "(byte list, 'e, 'a) prog \<Rightarrow> byte list \<Rightarrow> bool" where
  "consumes m bs \<longleftrightarrow> (case m bs of (r, bs') \<Rightarrow>
     (\<exists>a. r = Ok a) \<or> (\<exists>e. r = Err e)) \<and> length (snd (m bs)) \<le> length bs"

definition eats :: "(byte list, 'e, 'a) prog \<Rightarrow> byte list \<Rightarrow> bool" where
  "eats m bs \<longleftrightarrow> (\<forall>a bs'. m bs = (Ok a, bs') \<longrightarrow> length bs' < length bs)"

lemma consumesE:
  assumes "consumes m bs"
  obtains (Ok) a bs' where "m bs = (Ok a, bs')" and "length bs' \<le> length bs"
  | (Err) e bs' where "m bs = (Err e, bs')" and "length bs' \<le> length bs"
  using assms by (cases "m bs") (auto simp: consumes_def)

lemma consumes_return [simp]: "consumes (returnP a) bs"
  by (simp add: consumes_def)

lemma consumes_fail [simp]: "consumes (failP e) bs"
  by (simp add: consumes_def)

lemma consumes_bind:
  assumes "consumes m bs" and "\<And>a bs'. m bs = (Ok a, bs') \<Longrightarrow> length bs' \<le> length bs \<Longrightarrow> consumes (k a) bs'"
  shows "consumes (bindP m k) bs"
  using assms(1)
proof (cases rule: consumesE)
  case (Ok a bs')
  with assms(2) [OF Ok] show ?thesis
    by (cases "k a bs'") (auto simp: consumes_def prog_simps)
next
  case (Err e bs')
  then show ?thesis by (simp add: consumes_def prog_simps)
qed

lemma consumes_repeat:
  "(\<And>bs'. length bs' \<le> length bs \<Longrightarrow> consumes m bs') \<Longrightarrow> consumes (repeatP n m) bs"
proof (induction n arbitrary: bs)
  case (Suc n)
  show ?case
    unfolding repeatP.simps
  proof (rule consumes_bind [OF Suc.prems], simp, rule consumes_bind)
    fix a and bs' :: "byte list" assume "length bs' \<le> length bs"
    then show "consumes (repeatP n m) bs'" by (intro Suc) simp
  qed simp
qed simp

lemma eats_bind:
  assumes "eats m bs" and "\<And>a bs'. m bs = (Ok a, bs') \<Longrightarrow> consumes (k a) bs'"
  shows "eats (bindP m k) bs"
  unfolding eats_def
proof (intro allI impI)
  fix b bs'' assume "bindP m k bs = (Ok b, bs'')"
  then obtain a bs' where "m bs = (Ok a, bs')" "k a bs' = (Ok b, bs'')" by (rule bindP_OkE)
  with assms(1) assms(2) [OF this(1)] show "length bs'' < length bs"
    by (auto simp: eats_def consumes_def)
qed

section \<open>Loops of the decoders\<close>

lemma length_in_concat: "x \<in> set xs \<Longrightarrow> length (f x) \<le> length (concat (map f xs))"
  by (induction xs) auto

lemma repeatP_all:
  assumes "repeatP n m bs = (Ok xs, bs')" and "\<And>bs x bs'. m bs = (Ok x, bs') \<Longrightarrow> P x"
  shows "\<forall>x \<in> set xs. P x"
  using assms(1) by (induction n arbitrary: bs xs) (auto simp: bindP_Ok_iff dest: assms(2))

end
