(* ===== verification/Doc_Codec.thy ===== *)
theory Doc_Codec
  imports Codec_Interface
begin

text \<open>
  \<open>document/codec.rs\<close>: the binary encoding of documents in heap records.

  The writers return the bytes they append to \<open>out\<close>. A \<open>Cursor\<close> is the list of the bytes after
  \<open>pos\<close>, so \<open>is_done\<close> is emptiness; the additions that \<open>checked_add\<close> guards stay below
  \<open>usize::MAX\<close> for a buffer in memory, so \<open>LengthOverflow\<close> is not reached and only kept as an
  error value. \<open>read_value_with\<close> recurses on nested values: it carries a bound on the nesting, taken
  from the number of bytes left, which is never exhausted. \<open>Vec::with_capacity\<close> and
  \<open>Document::with_capacity\<close> are requests to an allocator that may refuse them.
\<close>

section \<open>Encoding\<close>

definition TAG_NULL :: byte where "TAG_NULL = 0x00"
definition TAG_BOOL_FALSE :: byte where "TAG_BOOL_FALSE = 0x01"
definition TAG_BOOL_TRUE :: byte where "TAG_BOOL_TRUE = 0x02"
definition TAG_INT :: byte where "TAG_INT = 0x03"
definition TAG_FLOAT :: byte where "TAG_FLOAT = 0x04"
definition TAG_STRING :: byte where "TAG_STRING = 0x05"
definition TAG_ARRAY :: byte where "TAG_ARRAY = 0x06"
definition TAG_DOCUMENT :: byte where "TAG_DOCUMENT = 0x07"

lemmas tag_defs = TAG_NULL_def TAG_BOOL_FALSE_def TAG_BOOL_TRUE_def TAG_INT_def TAG_FLOAT_def
  TAG_STRING_def TAG_ARRAY_def TAG_DOCUMENT_def

datatype decode_error = UnexpectedEof | InvalidTag byte | InvalidUtf8 | TrailingBytes | LengthOverflow

text \<open>\<open>len as u32\<close> keeps the low 32 bits, as \<open>le_bytes 4\<close> does.\<close>

definition write_len :: "nat \<Rightarrow> byte list" where
  "write_len len = le_bytes 4 len"

definition write_bytes :: "byte list \<Rightarrow> byte list" where
  "write_bytes bytes = write_len (length bytes) @ bytes"

fun write_value :: "doc_value \<Rightarrow> byte list" where
  "write_value VNull = [TAG_NULL]"
| "write_value (VBool False) = [TAG_BOOL_FALSE]"
| "write_value (VBool True) = [TAG_BOOL_TRUE]"
| "write_value (VInt n) = TAG_INT # le_bytes 8 (unat n)"
| "write_value (VFloat n) = TAG_FLOAT # le_bytes 8 (unat n)"
| "write_value (VString s) = TAG_STRING # write_bytes (string_bytes s)"
| "write_value (VArray values) = TAG_ARRAY # write_len (length values) @ concat (map write_value values)"
| "write_value (VDocument doc) = TAG_DOCUMENT # write_len (length doc)
     @ concat (map (\<lambda>(key, v). write_bytes (string_bytes key) @ write_value v) doc)"

definition write_document :: "document \<Rightarrow> byte list" where
  "write_document doc = write_len (length doc)
     @ concat (map (\<lambda>(key, v). write_bytes (string_bytes key) @ write_value v) doc)"

definition serialize_document :: "document \<Rightarrow> byte list" where
  "serialize_document doc = write_document doc"

definition serialize_value :: "doc_value \<Rightarrow> byte list" where
  "serialize_value v = write_value v"

section \<open>Decoding\<close>

type_synonym 'a cursor_prog = "(byte list, decode_error, 'a) prog"

definition read_exact :: "nat \<Rightarrow> byte list cursor_prog" where
  "read_exact n = (\<lambda>bs. if length bs < n then (Err UnexpectedEof, bs) else (Ok (take n bs), drop n bs))"

definition read_u8 :: "byte cursor_prog" where
  "read_u8 = (\<lambda>bs. case bs of [] \<Rightarrow> (Err UnexpectedEof, bs) | b # rest \<Rightarrow> (Ok b, rest))"

definition read_u32 :: "nat cursor_prog" where
  "read_u32 = bindP (read_exact 4) (\<lambda>b. returnP (le_val b))"

definition read_i64 :: "i64 cursor_prog" where
  "read_i64 = bindP (read_exact 8) (\<lambda>b. returnP (word_of_nat (le_val b)))"

definition read_f64 :: "f64 cursor_prog" where
  "read_f64 = bindP (read_exact 8) (\<lambda>b. returnP (word_of_nat (le_val b)))"

definition read_len :: "nat cursor_prog" where
  "read_len = read_u32"

definition read_bytes :: "byte list cursor_prog" where
  "read_bytes = bindP read_len (\<lambda>len. \<lambda>bs.
     if length bs < len then (Err UnexpectedEof, bs) else (Ok (take len bs), drop len bs))"

definition read_string :: "string cursor_prog" where
  "read_string = bindP read_bytes (\<lambda>b.
     if utf8_valid (bytes_string b) then returnP (bytes_string b) else failP InvalidUtf8)"

text \<open>
  \<open>read_value\<close> and \<open>read_document_body\<close> call each other; the body takes the reader of the
  nested values as an argument.
\<close>

definition read_field :: "doc_value cursor_prog \<Rightarrow> (string \<times> doc_value) cursor_prog" where
  "read_field read_value = bindP read_string (\<lambda>key. bindP read_value (\<lambda>v. returnP (key, v)))"

definition read_document_body_with :: "allocator \<Rightarrow> doc_value cursor_prog \<Rightarrow> document cursor_prog" where
  "read_document_body_with alloc read_value =
     bindP read_len (\<lambda>len.
     bindP (liftO (with_capacity alloc len)) (\<lambda>_.
     bindP (repeatP len (read_field read_value)) (\<lambda>fields.
     returnP (insert_all fields []))))"

fun read_value_with :: "allocator \<Rightarrow> nat \<Rightarrow> doc_value cursor_prog" where
  "read_value_with alloc 0 = hangP"
| "read_value_with alloc (Suc n) = bindP read_u8 (\<lambda>tag.
     if tag = TAG_NULL then returnP VNull
     else if tag = TAG_BOOL_FALSE then returnP (VBool False)
     else if tag = TAG_BOOL_TRUE then returnP (VBool True)
     else if tag = TAG_INT then bindP read_i64 (\<lambda>i. returnP (VInt i))
     else if tag = TAG_FLOAT then bindP read_f64 (\<lambda>x. returnP (VFloat x))
     else if tag = TAG_STRING then bindP read_string (\<lambda>s. returnP (VString s))
     else if tag = TAG_ARRAY then
       bindP read_len (\<lambda>len.
       bindP (liftO (with_capacity alloc len)) (\<lambda>_.
       bindP (repeatP len (read_value_with alloc n)) (\<lambda>values. returnP (VArray values))))
     else if tag = TAG_DOCUMENT then
       bindP (read_document_body_with alloc (read_value_with alloc n)) (\<lambda>doc. returnP (VDocument doc))
     else failP (InvalidTag tag))"

definition deserialize_document_with :: "allocator \<Rightarrow> byte list \<Rightarrow> (decode_error, document) outcome" where
  "deserialize_document_with alloc bytes = (case read_document_body_with alloc (read_value_with alloc (length bytes)) bytes of
     (Ok doc, rest) \<Rightarrow> if rest = [] then Ok doc else Err TrailingBytes
   | (Err e, _) \<Rightarrow> Err e | (Panic p, _) \<Rightarrow> Panic p | (Hang, _) \<Rightarrow> Hang)"

definition deserialize_value_with :: "allocator \<Rightarrow> byte list \<Rightarrow> (decode_error, doc_value) outcome" where
  "deserialize_value_with alloc bytes = (case read_value_with alloc (Suc (length bytes)) bytes of
     (Ok v, rest) \<Rightarrow> if rest = [] then Ok v else Err TrailingBytes
   | (Err e, _) \<Rightarrow> Err e | (Panic p, _) \<Rightarrow> Panic p | (Hang, _) \<Rightarrow> Hang)"

text \<open>
  The decoders on a machine with ample memory. The layers above use these; the property about
  arbitrary bytes is stated for every allocator.
\<close>

definition read_document_body :: "doc_value cursor_prog \<Rightarrow> document cursor_prog" where
  "read_document_body = read_document_body_with ample"

definition read_value :: "nat \<Rightarrow> doc_value cursor_prog" where
  "read_value = read_value_with ample"

definition deserialize_document :: "byte list \<Rightarrow> (decode_error, document) outcome" where
  "deserialize_document = deserialize_document_with ample"

definition deserialize_value :: "byte list \<Rightarrow> (decode_error, doc_value) outcome" where
  "deserialize_value = deserialize_value_with ample"

lemma bindP_unit [simp]: "bindP (liftO (Ok ())) k = k ()"
  by (rule ext) simp

lemma read_document_body_eq: "read_document_body rv =
     bindP read_len (\<lambda>len.
     bindP (repeatP len (read_field rv)) (\<lambda>fields.
     returnP (insert_all fields [])))"
  by (simp add: read_document_body_def read_document_body_with_def)

lemma read_value_simps [simp]:
  "read_value 0 = hangP"
  "read_value (Suc n) = bindP read_u8 (\<lambda>tag.
     if tag = TAG_NULL then returnP VNull
     else if tag = TAG_BOOL_FALSE then returnP (VBool False)
     else if tag = TAG_BOOL_TRUE then returnP (VBool True)
     else if tag = TAG_INT then bindP read_i64 (\<lambda>i. returnP (VInt i))
     else if tag = TAG_FLOAT then bindP read_f64 (\<lambda>x. returnP (VFloat x))
     else if tag = TAG_STRING then bindP read_string (\<lambda>s. returnP (VString s))
     else if tag = TAG_ARRAY then
       bindP read_len (\<lambda>len. bindP (repeatP len (read_value n)) (\<lambda>values. returnP (VArray values)))
     else if tag = TAG_DOCUMENT then
       bindP (read_document_body (read_value n)) (\<lambda>doc. returnP (VDocument doc))
     else failP (InvalidTag tag))"
  unfolding read_value_def read_document_body_def read_value_with.simps with_capacity_ample bindP_unit by (rule refl)+

lemma deserialize_document_eq: "deserialize_document bytes = (case read_document_body (read_value (length bytes)) bytes of
     (Ok doc, rest) \<Rightarrow> if rest = [] then Ok doc else Err TrailingBytes
   | (Err e, _) \<Rightarrow> Err e | (Panic p, _) \<Rightarrow> Panic p | (Hang, _) \<Rightarrow> Hang)"
  by (simp add: deserialize_document_def deserialize_document_with_def read_document_body_def read_value_def)

section \<open>Round trip\<close>

fun value_fits :: "doc_value \<Rightarrow> bool" where
  "value_fits (VString s) = (length s < 2 ^ 32)"
| "value_fits (VArray vs) = (length vs < 2 ^ 32 \<and> (\<forall>v \<in> set vs. value_fits v))"
| "value_fits (VDocument d) =
     (length d < 2 ^ 32 \<and> (\<forall>kv \<in> set d. length (fst kv) < 2 ^ 32 \<and> value_fits (snd kv)))"
| "value_fits _ = True"

lemma read_u8_Cons [simp]: "read_u8 (b # bs) = (Ok b, bs)"
  by (simp add: read_u8_def)

lemma read_exact_append [simp]: "length bs = n \<Longrightarrow> read_exact n (bs @ rest) = (Ok bs, rest)"
  by (simp add: read_exact_def)

lemma read_len_append [simp]: "n < 2 ^ 32 \<Longrightarrow> read_len (write_len n @ rest) = (Ok n, rest)"
  by (simp add: read_len_def read_u32_def write_len_def bindP_step)

lemma read_i64_append [simp]: "read_i64 (le_bytes 8 (unat i) @ rest) = (Ok i, rest)"
  using unat_i64_less [of i] by (simp add: read_i64_def bindP_step)

lemma read_f64_append [simp]: "read_f64 (le_bytes 8 (unat x) @ rest) = (Ok x, rest)"
  using unat_i64_less [of x] by (simp add: read_f64_def bindP_step)

lemma read_string_append [simp]:
  "utf8_valid s \<Longrightarrow> length s < 2 ^ 32 \<Longrightarrow> read_string (write_bytes (string_bytes s) @ rest) = (Ok s, rest)"
  by (simp add: read_string_def read_bytes_def write_bytes_def bindP_step)

lemma repeat_field_append:
  assumes "\<And>k v r. (k, v) \<in> set d \<Longrightarrow> utf8_valid k \<and> length k < 2 ^ 32 \<and> rv (write_value v @ r) = (Ok v, r)"
  shows "repeatP (length d) (read_field rv)
    (concat (map (\<lambda>(key, v). write_bytes (string_bytes key) @ write_value v) d) @ rest) = (Ok d, rest)"
  using assms
proof (induction d)
  case (Cons kv d)
  obtain k v where kv: "kv = (k, v)" by (cases kv)
  have f: "read_field rv (write_bytes (string_bytes k) @ write_value v @ r) = (Ok (k, v), r)" for r
    using Cons.prems [of k v] by (simp add: kv read_field_def bindP_step)
  have "repeatP (length d) (read_field rv)
      (concat (map (\<lambda>(key, v). write_bytes (string_bytes key) @ write_value v) d) @ rest) = (Ok d, rest)"
    by (rule Cons.IH) (use Cons.prems in auto)
  with f show ?case by (simp add: kv bindP_step)
qed simp

lemma read_document_body_append:
  assumes "distinct (map fst d)" and "length d < 2 ^ 32"
    and "\<And>k v r. (k, v) \<in> set d \<Longrightarrow> utf8_valid k \<and> length k < 2 ^ 32 \<and> rv (write_value v @ r) = (Ok v, r)"
  shows "read_document_body rv (write_document d @ rest) = (Ok d, rest)"
  using repeat_field_append [OF assms(3), of d rest] assms(1,2) insert_all_distinct [of "[]" d]
  by (simp add: read_document_body_eq write_document_def bindP_step)

lemma repeat_value_append:
  assumes "\<And>v r. v \<in> set vs \<Longrightarrow> rv (write_value v @ r) = (Ok v, r)"
  shows "repeatP (length vs) rv (concat (map write_value vs) @ rest) = (Ok vs, rest)"
  using assms by (induction vs) (auto simp: bindP_step)

lemma write_value_document: "write_value (VDocument d) = TAG_DOCUMENT # write_document d"
  by (simp add: write_document_def)

lemma field_length:
  assumes "(k, v) \<in> set d"
  shows "length (write_value v) \<le> length (write_document d)"
  using length_in_concat [OF assms, of "\<lambda>(key, v). write_bytes (string_bytes key) @ write_value v"]
  by (simp add: write_document_def)

lemma write_value_nonempty: "0 < length (write_value v)"
  by (cases v rule: write_value.cases) simp_all

lemma read_value_append:
  "value_ok v \<Longrightarrow> value_fits v \<Longrightarrow> length (write_value v) \<le> Suc n \<Longrightarrow>
    read_value (Suc n) (write_value v @ rest) = (Ok v, rest)"
proof (induction v arbitrary: n rest rule: write_value.induct)
  case (7 vs)
  have "read_value n (write_value v @ r) = (Ok v, r)" if v: "v \<in> set vs" for v r
  proof -
    have l: "length (write_value v) \<le> n" using length_in_concat [OF v, of write_value] 7(4) by simp
    with write_value_nonempty [of v] obtain m where "n = Suc m" by (cases n) auto
    with 7 v l show ?thesis by auto
  qed
  from repeat_value_append [of vs "read_value n", OF this, of rest] 7(3) show ?case
    by (simp add: tag_defs bindP_step)
next
  case (8 d)
  have "utf8_valid k \<and> length k < 2 ^ 32 \<and> read_value n (write_value v @ r) = (Ok v, r)"
    if kv: "(k, v) \<in> set d" for k v r
  proof -
    have l: "length (write_value v) \<le> n" using 8(4) [unfolded write_value_document] field_length [OF kv] by simp
    with write_value_nonempty [of v] obtain m where n: "n = Suc m" by (cases n) auto
    have "value_ok v" "value_fits v" "utf8_valid k" "length k < 2 ^ 32" using 8(2,3) kv by auto
    with 8(1) [OF kv refl] l n show ?thesis by blast
  qed
  from read_document_body_append [of d "read_value n", OF _ _ this, of rest] 8(2,3) show ?case
    unfolding write_value_document by (simp add: tag_defs bindP_step)
qed (simp_all add: tag_defs bindP_step)

interpretation value_codec: codec write_value "\<lambda>bs. read_value (Suc (length bs)) bs"
  "\<lambda>v. value_ok v \<and> value_fits v" "\<lambda>v. v"
proof
  fix v rest assume "value_ok v \<and> value_fits v"
  then show "read_value (Suc (length (write_value v @ rest))) (write_value v @ rest) = (Ok v, rest)"
    by (intro read_value_append) auto
qed

interpretation document_codec: codec write_document "\<lambda>bs. read_document_body (read_value (length bs)) bs"
  "\<lambda>d. document_ok d \<and> value_fits (VDocument d)" "\<lambda>d. d"
proof
  fix d rest assume d: "document_ok d \<and> value_fits (VDocument d)"
  have "read_value (length (write_document d @ rest)) (write_value v @ r) = (Ok v, r)"
    if kv: "(k, v) \<in> set d" for k v r
  proof -
    obtain m where m: "length (write_document d @ rest) = Suc m" by (cases "write_document d")
      (auto simp: write_document_def write_len_def)
    show ?thesis unfolding m
      using d kv field_length [OF kv] m by (intro read_value_append) (auto simp: document_ok_def)
  qed
  then show "read_document_body (read_value (length (write_document d @ rest))) (write_document d @ rest) = (Ok d, rest)"
    using d by (intro read_document_body_append) (auto simp: document_ok_def)
qed

section \<open>Arbitrary bytes\<close>

lemma consumes_read_u8 [simp]: "consumes read_u8 bs"
  by (cases bs) (auto simp: consumes_def read_u8_def)

lemma consumes_read_exact [simp]: "consumes (read_exact n) bs"
  by (simp add: consumes_def read_exact_def)

lemma consumes_basic [simp]:
  "consumes read_len bs" "consumes read_i64 bs" "consumes read_f64 bs" "consumes read_bytes bs" "consumes read_string bs"
proof -
  show l: "consumes read_len bs" for bs by (auto simp: read_len_def read_u32_def intro!: consumes_bind)
  show "consumes read_i64 bs" "consumes read_f64 bs" by (auto simp: read_i64_def read_f64_def intro!: consumes_bind)
  show b: "consumes read_bytes bs" for bs
    unfolding read_bytes_def by (rule consumes_bind [OF l]) (simp add: consumes_def)
  show "consumes read_string bs" unfolding read_string_def by (rule consumes_bind [OF b]) simp
qed

lemma eats_read_u8 [simp]: "eats read_u8 bs"
  by (cases bs) (auto simp: eats_def read_u8_def)

lemma eats_read_len: "read_len bs = (Ok n, bs') \<Longrightarrow> length bs' < length bs"
  by (auto simp: read_len_def read_u32_def read_exact_def bindP_Ok_iff split: if_splits)

lemma consumes_document_body:
  assumes "\<And>bs'. length bs' \<le> length bs \<Longrightarrow> consumes rv bs'"
  shows "consumes (read_document_body rv) bs"
  unfolding read_document_body_eq
proof (rule consumes_bind [OF consumes_basic(1)], rule consumes_bind [OF consumes_repeat])
  fix n and bs' bs'' :: "byte list" assume l: "length bs' \<le> length bs" "length bs'' \<le> length bs'"
  show "consumes (read_field rv) bs''"
    unfolding read_field_def
    by (rule consumes_bind [OF consumes_basic(5)], rule consumes_bind [OF assms]) (use l in auto)
qed simp

lemma consumes_read_value: "length bs < n \<Longrightarrow> consumes (read_value n) bs"
proof (induction n arbitrary: bs)
  case (Suc n)
  show ?case
    unfolding read_value_simps
  proof (rule consumes_bind [OF consumes_read_u8])
    fix tag bs' assume u: "read_u8 bs = (Ok tag, bs')"
    have less: "length bs' < length bs" using eats_read_u8 [of bs] u by (simp add: eats_def)
    have rv: "consumes (read_value n) bs''" if "length bs'' \<le> length bs'" for bs''
      using Suc.IH [of bs''] that less Suc.prems by simp
    have "consumes (bindP read_len (\<lambda>len. bindP (repeatP len (read_value n)) (\<lambda>values. returnP (VArray values)))) bs'"
      by (rule consumes_bind [OF consumes_basic(1)], rule consumes_bind [OF consumes_repeat]) (use rv in auto)
    moreover have "consumes (bindP (read_document_body (read_value n)) (\<lambda>doc. returnP (VDocument doc))) bs'"
      by (rule consumes_bind [OF consumes_document_body]) (use rv in auto)
    ultimately show "consumes (if tag = TAG_NULL then returnP VNull
        else if tag = TAG_BOOL_FALSE then returnP (VBool False)
        else if tag = TAG_BOOL_TRUE then returnP (VBool True)
        else if tag = TAG_INT then bindP read_i64 (\<lambda>i. returnP (VInt i))
        else if tag = TAG_FLOAT then bindP read_f64 (\<lambda>x. returnP (VFloat x))
        else if tag = TAG_STRING then bindP read_string (\<lambda>s. returnP (VString s))
        else if tag = TAG_ARRAY then
          bindP read_len (\<lambda>len. bindP (repeatP len (read_value n)) (\<lambda>values. returnP (VArray values)))
        else if tag = TAG_DOCUMENT then
          bindP (read_document_body (read_value n)) (\<lambda>doc. returnP (VDocument doc))
        else failP (InvalidTag tag)) bs'"
      by (auto intro!: consumes_bind)
  qed
qed simp

lemma consumes_top_document: "consumes (read_document_body (read_value (length bs))) bs"
  unfolding read_document_body_eq
proof (rule consumes_bind [OF consumes_basic(1)], rule consumes_bind [OF consumes_repeat])
  fix n and bs' bs'' :: "byte list" assume l: "read_len bs = (Ok n, bs')" "length bs'' \<le> length bs'"
  have "length bs'' < length bs" using eats_read_len [OF l(1)] l(2) by simp
  then show "consumes (read_field (read_value (length bs))) bs''"
    unfolding read_field_def
    by (intro consumes_bind [OF consumes_basic(5)] consumes_bind [OF consumes_read_value]) auto
qed simp

lemma read_string_valid: "read_string bs = (Ok s, bs') \<Longrightarrow> utf8_valid s"
  by (auto simp: read_string_def bindP_Ok_iff split: if_splits)

lemma read_document_body_ok:
  assumes "read_document_body rv bs = (Ok d, bs')" and "\<And>bs v bs'. rv bs = (Ok v, bs') \<Longrightarrow> value_ok v"
  shows "document_ok d"
proof -
  from assms(1) obtain len b1 fs where fs: "repeatP len (read_field rv) b1 = (Ok fs, bs')"
    and d: "d = insert_all fs []" by (auto simp: read_document_body_eq bindP_Ok_iff)
  have "\<forall>kv \<in> set fs. utf8_valid (fst kv) \<and> value_ok (snd kv)"
    by (rule repeatP_all [OF fs])
      (auto simp: read_field_def bindP_Ok_iff dest: read_string_valid assms(2))
  then show ?thesis unfolding d by (intro insert_all_ok) (simp_all add: document_ok_def)
qed

lemma read_value_ok: "read_value n bs = (Ok v, bs') \<Longrightarrow> value_ok v"
proof (induction n arbitrary: bs v bs')
  case (Suc n)
  note d = read_document_body_ok [of "read_value n", OF _ Suc.IH]
  from Suc.prems show ?case
    by (auto simp: bindP_Ok_iff document_ok_def simp del: value_ok.simps(3) split: if_splits
        dest: read_string_valid d repeatP_all [of _ "read_value n", OF _ Suc.IH])
qed simp

section \<open>Properties\<close>

text \<open>
  C17: documents survive storage. Whatever the nesting, \<open>deserialize_document\<close> gives back the
  document that \<open>serialize_document\<close> wrote, bit for bit, as long as no string, array or document
  in it is longer than the 32-bit length prefix can say.
\<close>

theorem document_roundtrip:
  assumes "document_ok d" and "value_fits (VDocument d)"
  shows "deserialize_document (serialize_document d) = Ok d"
  using document_codec.dec_enc [of d "[]"] assms
  by (simp add: deserialize_document_eq serialize_document_def)

theorem document_roundtrip_witness:
  "deserialize_document (serialize_document
     [(''a'', VInt 5), (''t'', VArray [VNull, VString ''x'', VDocument [(''b'', VBool True)]])])
   = Ok [(''a'', VInt 5), (''t'', VArray [VNull, VString ''x'', VDocument [(''b'', VBool True)]])]"
  by (rule document_roundtrip) (simp_all add: document_ok_def utf8_valid_def)

section \<open>Any allocator\<close>

text \<open>
  A count that stands in the bytes and that the allocator refuses. \<open>agrees\<close>: with this allocator the
  decoder does what it does with ample memory, or ends because of such a count.
\<close>

definition refuses_count :: "allocator \<Rightarrow> byte list \<Rightarrow> bool" where
  "refuses_count alloc bs \<longleftrightarrow> (\<exists>i. i + 4 \<le> length bs \<and> \<not> alloc (le_val (take 4 (drop i bs))))"

lemma refuses_count_drop: "refuses_count alloc (drop i bs) \<Longrightarrow> i \<le> length bs \<Longrightarrow> refuses_count alloc bs"
  unfolding refuses_count_def
proof (elim exE conjE)
  fix j assume "i \<le> length bs" "j + 4 \<le> length (drop i bs)" "\<not> alloc (le_val (take 4 (drop j (drop i bs))))"
  then show "\<exists>i. i + 4 \<le> length bs \<and> \<not> alloc (le_val (take 4 (drop i bs)))"
    by (intro exI [of _ "i + j"]) (simp add: add.commute)
qed

definition agrees :: "allocator \<Rightarrow> 'a cursor_prog \<Rightarrow> 'a cursor_prog \<Rightarrow> byte list \<Rightarrow> bool" where
  "agrees alloc m m' bs \<longleftrightarrow> m bs = m' bs \<and> (\<exists>i \<le> length bs. snd (m bs) = drop i bs)
     \<or> fst (m bs) = Panic ALLOC_FAILED \<and> refuses_count alloc bs"

lemma agrees_bind:
  assumes "agrees alloc m m' bs" and "\<And>a bs'. m' bs = (Ok a, bs') \<Longrightarrow> agrees alloc (k a) (k' a) bs'"
  shows "agrees alloc (bindP m k) (bindP m' k') bs"
proof (cases "fst (m bs) = Panic ALLOC_FAILED \<and> refuses_count alloc bs")
  case True
  then show ?thesis by (cases "m bs") (auto simp: agrees_def bindP_def)
next
  case False
  then obtain i where m: "m bs = m' bs" "i \<le> length bs" "snd (m bs) = drop i bs" using assms(1) by (auto simp: agrees_def)
  show ?thesis
  proof (cases "m' bs")
    case (Pair x bs')
    show ?thesis
    proof (cases x)
      case (Ok a)
      have bs': "bs' = drop i bs" using m Pair by simp
      have run: "bindP m k bs = k a bs'" "bindP m' k' bs = k' a bs'" using m(1) Pair Ok by (simp_all add: bindP_def)
      from assms(2) [of a bs'] Pair Ok have "agrees alloc (k a) (k' a) bs'" by simp
      then show ?thesis
        unfolding agrees_def run
      proof (elim disjE conjE bexE exE)
        fix j assume "k a bs' = k' a bs'" "j \<le> length bs'" "snd (k a bs') = drop j bs'"
        then show "k a bs' = k' a bs' \<and> (\<exists>i\<le>length bs. snd (k a bs') = drop i bs)
            \<or> fst (k a bs') = Panic ALLOC_FAILED \<and> refuses_count alloc bs"
          using m(2) bs' by (intro disjI1 conjI exI [of _ "i + j"]) (auto simp: add.commute)
      qed (use m(2) bs' refuses_count_drop in blast)
    qed (use m Pair in \<open>auto simp: agrees_def bindP_def\<close>)
  qed
qed

lemma agrees_return [simp]: "agrees alloc (returnP a) (returnP a) bs"
  by (auto simp: agrees_def intro!: exI [of _ 0])

lemma agrees_fail [simp]: "agrees alloc (failP e) (failP e) bs"
  by (auto simp: agrees_def intro!: exI [of _ 0])

lemma agrees_hang [simp]: "agrees alloc hangP hangP bs"
  by (auto simp: agrees_def intro!: exI [of _ 0])

lemma agrees_repeat: "(\<And>bs. agrees alloc m m' bs) \<Longrightarrow> agrees alloc (repeatP n m) (repeatP n m') bs"
  by (induction n arbitrary: bs) (auto intro!: agrees_bind)

lemma agrees_read_exact [simp]: "agrees alloc (read_exact n) (read_exact n) bs"
  by (auto simp: agrees_def read_exact_def intro: exI [of _ 0] exI [of _ n])

lemma agrees_basic [simp]:
  "agrees alloc read_u8 read_u8 bs" "agrees alloc read_len read_len bs" "agrees alloc read_i64 read_i64 bs"
  "agrees alloc read_f64 read_f64 bs" "agrees alloc read_string read_string bs"
proof -
  show "agrees alloc read_u8 read_u8 bs"
    by (cases bs) (auto simp: agrees_def read_u8_def intro: exI [of _ 0] exI [of _ 1])
  show l: "agrees alloc read_len read_len bs" for bs by (auto simp: read_len_def read_u32_def intro!: agrees_bind)
  show "agrees alloc read_i64 read_i64 bs" "agrees alloc read_f64 read_f64 bs"
    by (auto simp: read_i64_def read_f64_def intro!: agrees_bind)
  have b: "agrees alloc read_bytes read_bytes bs" for bs
    unfolding read_bytes_def
  proof (rule agrees_bind [OF l])
    fix len bs' show "agrees alloc (\<lambda>bs. if length bs < len then (Err UnexpectedEof, bs) else (Ok (take len bs), drop len bs))
      (\<lambda>bs. if length bs < len then (Err UnexpectedEof, bs) else (Ok (take len bs), drop len bs)) bs'"
      by (auto simp: agrees_def intro: exI [of _ 0] exI [of _ len])
  qed
  show "agrees alloc read_string read_string bs" unfolding read_string_def by (rule agrees_bind [OF b]) simp
qed

lemma read_len_Ok: "read_len bs = (Ok len, bs') \<Longrightarrow> 4 \<le> length bs \<and> len = le_val (take 4 bs) \<and> bs' = drop 4 bs"
  by (auto simp: read_len_def read_u32_def read_exact_def bindP_Ok_iff split: if_splits)

lemma agrees_capacity:
  assumes "\<And>len bs. agrees alloc (k len) (k' len) bs"
  shows "agrees alloc (bindP read_len (\<lambda>len. bindP (liftO (with_capacity alloc len)) (\<lambda>_. k len))) (bindP read_len k') bs"
proof (cases "\<exists>len bs'. read_len bs = (Ok len, bs') \<and> \<not> alloc len")
  case True
  then obtain len bs' where l: "read_len bs = (Ok len, bs')" "\<not> alloc len" by blast
  then have "refuses_count alloc bs" using read_len_Ok [OF l(1)] by (auto simp: refuses_count_def intro!: exI [of _ 0])
  then show ?thesis using l by (simp add: agrees_def prog_simps with_capacity_def)
next
  case False
  show ?thesis
  proof (rule agrees_bind)
    fix len bs' assume "read_len bs = (Ok len, bs')"
    then have "alloc len" using False by blast
    then have "bindP (liftO (with_capacity alloc len)) (\<lambda>_. k len) bs' = k len bs'" by (simp add: with_capacity_def)
    then show "agrees alloc (bindP (liftO (with_capacity alloc len)) (\<lambda>_. k len)) (k' len) bs'"
      using assms [of len bs'] by (simp add: agrees_def)
  qed simp
qed

lemma agrees_document_body:
  assumes "\<And>bs. agrees alloc rv rv' bs"
  shows "agrees alloc (read_document_body_with alloc rv) (read_document_body rv') bs"
  unfolding read_document_body_with_def read_document_body_eq read_field_def
  by (rule agrees_capacity) (auto intro!: agrees_bind agrees_repeat assms)

lemma agrees_read_value: "agrees alloc (read_value_with alloc n) (read_value n) bs"
proof (induction n arbitrary: bs)
  case (Suc n)
  have "agrees alloc (bindP read_len (\<lambda>len. bindP (liftO (with_capacity alloc len)) (\<lambda>_.
       bindP (repeatP len (read_value_with alloc n)) (\<lambda>values. returnP (VArray values)))))
     (bindP read_len (\<lambda>len. bindP (repeatP len (read_value n)) (\<lambda>values. returnP (VArray values)))) bs'" for bs'
    by (rule agrees_capacity) (auto intro!: agrees_bind agrees_repeat Suc)
  moreover have "agrees alloc (read_document_body_with alloc (read_value_with alloc n)) (read_document_body (read_value n)) bs'" for bs'
    by (rule agrees_document_body) (rule Suc)
  ultimately show ?case
    unfolding read_value_with.simps read_value_simps by (intro agrees_bind) (auto intro!: agrees_bind)
qed simp

lemma deserialize_document_outcome:
  "(\<exists>d. deserialize_document bytes = Ok d \<and> document_ok d) \<or> (\<exists>e. deserialize_document bytes = Err e)"
  using consumes_top_document [of bytes]
  by (cases rule: consumesE)
    (auto simp: deserialize_document_eq dest: read_document_body_ok [OF _ read_value_ok])

text \<open>
  C18: decoding on every input and every machine. For any bytes and any allocator,
  \<open>deserialize_document\<close> returns an error value or a document whose strings are valid UTF-8 and whose
  keys are distinct at every level, or the process ends because the allocator refuses the room for a
  count that stands in the bytes; there is no other panic and no endless loop. The exception is real:
  the count in front of a document is requested before any of its fields is read, so a refused count
  ends the process whatever follows it.
\<close>

theorem deserialize_document_total:
  "((\<exists>d. deserialize_document_with alloc bytes = Ok d \<and> document_ok d)
     \<or> (\<exists>e. deserialize_document_with alloc bytes = Err e)
     \<or> deserialize_document_with alloc bytes = Panic ALLOC_FAILED \<and> refuses_count alloc bytes)
   \<and> (\<forall>count rest. count < 2 ^ 32 \<longrightarrow> \<not> alloc count \<longrightarrow>
        deserialize_document_with alloc (write_len count @ rest) = Panic ALLOC_FAILED)"
proof (intro conjI allI impI)
  have "agrees alloc (read_document_body_with alloc (read_value_with alloc (length bytes))) (read_document_body (read_value (length bytes))) bytes"
    by (rule agrees_document_body) (rule agrees_read_value)
  then have "deserialize_document_with alloc bytes = deserialize_document bytes
      \<or> deserialize_document_with alloc bytes = Panic ALLOC_FAILED \<and> refuses_count alloc bytes"
    by (auto simp: agrees_def deserialize_document_with_def deserialize_document_eq split: prod.splits outcome.splits)
  then show "(\<exists>d. deserialize_document_with alloc bytes = Ok d \<and> document_ok d)
     \<or> (\<exists>e. deserialize_document_with alloc bytes = Err e)
     \<or> deserialize_document_with alloc bytes = Panic ALLOC_FAILED \<and> refuses_count alloc bytes"
    using deserialize_document_outcome [of bytes] by metis
next
  fix count rest assume "count < 2 ^ 32" "\<not> alloc count"
  then show "deserialize_document_with alloc (write_len count @ rest) = Panic ALLOC_FAILED"
    by (simp add: deserialize_document_with_def read_document_body_with_def prog_simps with_capacity_def)
qed

theorem deserialize_document_total_witness:
  "deserialize_document_with (\<lambda>n. n \<le> 1000000) [0xFF, 0xFF, 0xFF, 0xFF] = Panic ALLOC_FAILED"
proof -
  let ?bs = "[0xFF, 0xFF, 0xFF, 0xFF] :: byte list"
  have v: "le_val ?bs = 4294967295" by simp
  have "deserialize_document_with (\<lambda>n. n \<le> 1000000) (write_len (le_val ?bs) @ []) = Panic ALLOC_FAILED"
    by (rule conjunct2 [OF deserialize_document_total, rule_format]) (simp_all only: v, simp_all)
  moreover have "write_len (le_val ?bs) = ?bs" unfolding write_len_def by (rule le_bytes_le_val) simp
  ultimately show ?thesis by (simp only: append_Nil2)
qed

end
