(* ===== verification/Wire_Codec.thy ===== *)
theory Wire_Codec
  imports Codec_Interface
begin

text \<open>
  \<open>wire.rs\<close>: opcodes and the value encoding of the binary protocol ABP/1. It has the tags of
  the storage codec but writes the keys of a document in sorted order, so that equal documents
  have equal encodings, and checks every length against the bytes that are left before it
  reads. A \<open>Reader\<close> is the list of the bytes after \<open>pos\<close>; \<open>wire_value\<close> carries a bound on the
  nesting as \<open>read_value\<close> of the storage codec does.
\<close>

section \<open>Opcodes\<close>

datatype op = Exec | Insert | Ping | Close | Upsert | Affected | Documents | ErrorOp | Pong

fun op_code :: "op \<Rightarrow> byte" where
  "op_code Exec = 1"
| "op_code Insert = 2"
| "op_code Ping = 3"
| "op_code Close = 4"
| "op_code Upsert = 5"
| "op_code Affected = 6"
| "op_code Documents = 7"
| "op_code ErrorOp = 8"
| "op_code Pong = 9"

definition op_try_from :: "byte \<Rightarrow> (byte, op) outcome" where
  "op_try_from code =
     (if code = 1 then Ok Exec else if code = 2 then Ok Insert else if code = 3 then Ok Ping
      else if code = 4 then Ok Close else if code = 5 then Ok Upsert else if code = 6 then Ok Affected
      else if code = 7 then Ok Documents else if code = 8 then Ok ErrorOp else if code = 9 then Ok Pong
      else Err code)"

definition MAX_FRAME :: nat where
  "MAX_FRAME = 64 * 1024 * 1024"

datatype wire_error = Truncated | BadTag byte | BadUtf8 | TooLarge nat

section \<open>Writing\<close>

definition W_TAG_NULL :: byte where "W_TAG_NULL = 0x00"
definition W_TAG_FALSE :: byte where "W_TAG_FALSE = 0x01"
definition W_TAG_TRUE :: byte where "W_TAG_TRUE = 0x02"
definition W_TAG_INT :: byte where "W_TAG_INT = 0x03"
definition W_TAG_FLOAT :: byte where "W_TAG_FLOAT = 0x04"
definition W_TAG_STRING :: byte where "W_TAG_STRING = 0x05"
definition W_TAG_ARRAY :: byte where "W_TAG_ARRAY = 0x06"
definition W_TAG_DOCUMENT :: byte where "W_TAG_DOCUMENT = 0x07"

lemmas wtag_defs = W_TAG_NULL_def W_TAG_FALSE_def W_TAG_TRUE_def W_TAG_INT_def W_TAG_FLOAT_def
  W_TAG_STRING_def W_TAG_ARRAY_def W_TAG_DOCUMENT_def

definition put_u32 :: "nat \<Rightarrow> byte list" where
  "put_u32 n = le_bytes 4 n"

definition put_str :: "string \<Rightarrow> byte list" where
  "put_str s = put_u32 (length s) @ string_bytes s"

text \<open>
  The keys of a document are sorted and each is looked up again; the keys being distinct, this
  is the list of the fields sorted by key.
\<close>

fun put_value :: "doc_value \<Rightarrow> byte list" where
  "put_value VNull = [W_TAG_NULL]"
| "put_value (VBool False) = [W_TAG_FALSE]"
| "put_value (VBool True) = [W_TAG_TRUE]"
| "put_value (VInt n) = W_TAG_INT # le_bytes 8 (unat n)"
| "put_value (VFloat x) = W_TAG_FLOAT # le_bytes 8 (unat x)"
| "put_value (VString s) = W_TAG_STRING # put_str s"
| "put_value (VArray items) = W_TAG_ARRAY # put_u32 (length items) @ concat (map put_value items)"
| "put_value (VDocument doc) = W_TAG_DOCUMENT # put_u32 (length doc)
     @ concat (map (\<lambda>(k, v). put_str k @ put_value v) (sort_key fst doc))"

definition put_document_body :: "document \<Rightarrow> byte list" where
  "put_document_body doc = put_u32 (length doc)
     @ concat (map (\<lambda>(k, v). put_str k @ put_value v) (sort_key fst doc))"

section \<open>Reading\<close>

type_synonym 'a reader_prog = "(byte list, wire_error, 'a) prog"

definition wire_take :: "nat \<Rightarrow> byte list reader_prog" where
  "wire_take n = (\<lambda>bs. if length bs < n then (Err Truncated, bs) else (Ok (take n bs), drop n bs))"

definition wire_u8 :: "byte reader_prog" where
  "wire_u8 = bindP (wire_take 1) (\<lambda>b. returnP (b ! 0))"

definition wire_u32 :: "nat reader_prog" where
  "wire_u32 = bindP (wire_take 4) (\<lambda>b. returnP (le_val b))"

definition wire_i64 :: "i64 reader_prog" where
  "wire_i64 = bindP (wire_take 8) (\<lambda>b. returnP (word_of_nat (le_val b)))"

definition wire_f64 :: "f64 reader_prog" where
  "wire_f64 = bindP (wire_take 8) (\<lambda>b. returnP (word_of_nat (le_val b)))"

definition wire_str :: "string reader_prog" where
  "wire_str = bindP wire_u32 (\<lambda>n. bindP (wire_take n) (\<lambda>b.
     if utf8_valid (bytes_string b) then returnP (bytes_string b) else failP BadUtf8))"

text \<open>A count is rejected when it exceeds the number of bytes left.\<close>

definition wire_count :: "nat reader_prog" where
  "wire_count = bindP wire_u32 (\<lambda>n. \<lambda>bs. if length bs < n then (Err Truncated, bs) else (Ok n, bs))"

definition wire_field :: "doc_value reader_prog \<Rightarrow> (string \<times> doc_value) reader_prog" where
  "wire_field value = bindP wire_str (\<lambda>k. bindP value (\<lambda>v. returnP (k, v)))"

definition document_body :: "doc_value reader_prog \<Rightarrow> document reader_prog" where
  "document_body value =
     bindP wire_count (\<lambda>n.
     bindP (repeatP n (wire_field value)) (\<lambda>fields.
     returnP (insert_all fields [])))"

fun wire_value :: "nat \<Rightarrow> doc_value reader_prog" where
  "wire_value 0 = hangP"
| "wire_value (Suc depth) = bindP wire_u8 (\<lambda>tag.
     if tag = W_TAG_NULL then returnP VNull
     else if tag = W_TAG_FALSE then returnP (VBool False)
     else if tag = W_TAG_TRUE then returnP (VBool True)
     else if tag = W_TAG_INT then bindP wire_i64 (\<lambda>i. returnP (VInt i))
     else if tag = W_TAG_FLOAT then bindP wire_f64 (\<lambda>x. returnP (VFloat x))
     else if tag = W_TAG_STRING then bindP wire_str (\<lambda>s. returnP (VString s))
     else if tag = W_TAG_ARRAY then
       bindP wire_count (\<lambda>n. bindP (repeatP n (wire_value depth)) (\<lambda>items. returnP (VArray items)))
     else if tag = W_TAG_DOCUMENT then
       bindP (document_body (wire_value depth)) (\<lambda>doc. returnP (VDocument doc))
     else failP (BadTag tag))"

text \<open>The nesting is bounded by the bytes left: every level has a tag of its own.\<close>

definition reader_value :: "doc_value reader_prog" where
  "reader_value = (\<lambda>bs. wire_value (Suc (length bs)) bs)"

definition reader_document_body :: "document reader_prog" where
  "reader_document_body = (\<lambda>bs. document_body (wire_value (length bs)) bs)"

section \<open>Round trip\<close>

fun wire_fits :: "doc_value \<Rightarrow> bool" where
  "wire_fits (VString s) = (length s < 2 ^ 32)"
| "wire_fits (VArray vs) = (length vs < 2 ^ 32 \<and> (\<forall>v \<in> set vs. wire_fits v))"
| "wire_fits (VDocument d) =
     (length d < 2 ^ 32 \<and> (\<forall>kv \<in> set d. length (fst kv) < 2 ^ 32 \<and> wire_fits (snd kv)))"
| "wire_fits _ = True"

lemma op_roundtrip: "op_try_from (op_code o') = Ok o'"
  by (cases o') (simp_all add: op_try_from_def)

lemma wire_take_append [simp]: "length bs = n \<Longrightarrow> wire_take n (bs @ rest) = (Ok bs, rest)"
  by (simp add: wire_take_def)

lemma wire_u8_Cons [simp]: "wire_u8 (b # bs) = (Ok b, bs)"
  by (simp add: wire_u8_def bindP_step wire_take_def)

lemma wire_u32_append [simp]: "n < 2 ^ 32 \<Longrightarrow> wire_u32 (put_u32 n @ rest) = (Ok n, rest)"
  by (simp add: wire_u32_def put_u32_def bindP_step)

lemma wire_i64_append [simp]: "wire_i64 (le_bytes 8 (unat i) @ rest) = (Ok i, rest)"
  using unat_i64_less [of i] by (simp add: wire_i64_def bindP_step)

lemma wire_f64_append [simp]: "wire_f64 (le_bytes 8 (unat x) @ rest) = (Ok x, rest)"
  using unat_i64_less [of x] by (simp add: wire_f64_def bindP_step)

lemma wire_str_append [simp]:
  "utf8_valid s \<Longrightarrow> length s < 2 ^ 32 \<Longrightarrow> wire_str (put_str s @ rest) = (Ok s, rest)"
  by (simp add: wire_str_def put_str_def bindP_step)

lemma wire_count_append [simp]:
  "n < 2 ^ 32 \<Longrightarrow> n \<le> length rest \<Longrightarrow> wire_count (put_u32 n @ rest) = (Ok n, rest)"
  by (simp add: wire_count_def bindP_step)

lemma length_le_concat: "(\<And>x. x \<in> set xs \<Longrightarrow> 0 < length (f x)) \<Longrightarrow> length xs \<le> length (concat (map f xs))"
proof (induction xs)
  case (Cons x xs)
  have "Suc 0 \<le> length (f x)" using Cons.prems [of x] by (cases "f x") auto
  with Cons show ?case by simp
qed simp

lemma put_value_nonempty: "0 < length (put_value v)"
  by (cases v rule: put_value.cases) simp_all

lemma repeat_wire_field:
  assumes "\<And>k v r. (k, v) \<in> set d \<Longrightarrow> utf8_valid k \<and> length k < 2 ^ 32 \<and> rv (put_value v @ r) = (Ok (canon v), r)"
  shows "repeatP (length d) (wire_field rv) (concat (map (\<lambda>(k, v). put_str k @ put_value v) d) @ rest)
    = (Ok (map (\<lambda>(k, v). (k, canon v)) d), rest)"
  using assms
proof (induction d)
  case (Cons kv d)
  obtain k v where kv: "kv = (k, v)" by (cases kv)
  have f: "wire_field rv (put_str k @ put_value v @ r) = (Ok (k, canon v), r)" for r
    using Cons.prems [of k v] by (simp add: kv wire_field_def bindP_step)
  have "repeatP (length d) (wire_field rv) (concat (map (\<lambda>(k, v). put_str k @ put_value v) d) @ rest)
      = (Ok (map (\<lambda>(k, v). (k, canon v)) d), rest)"
    by (rule Cons.IH) (use Cons.prems in auto)
  with f show ?case by (simp add: kv bindP_step)
qed simp

lemma sort_key_map_fst: "sort_key fst (map (\<lambda>(k, v). (k, f v)) d) = map (\<lambda>(k, v). (k, f v)) (sort_key fst d)"
proof -
  have i: "insort_key fst (k, f v) (map (\<lambda>(k, v). (k, f v)) xs) = map (\<lambda>(k, v). (k, f v)) (insort_key fst (k, v) xs)"
    for k v xs by (induction xs) auto
  show ?thesis by (induction d) (auto simp: i)
qed

lemma sort_key_sorted: "sorted (map f xs) \<Longrightarrow> sort_key f xs = xs"
  by (induction xs) (auto simp: insort_is_Cons)

lemma canon_document: "canon (VDocument d) = VDocument (map (\<lambda>(k, v). (k, canon v)) (sort_key fst d))"
  by (simp add: sort_key_map_fst)


lemma distinct_sort_key_fst: "distinct (map fst (sort_key fst d)) \<longleftrightarrow> distinct (map fst d)"
  by (induction d) (auto simp: distinct_insort_key)

lemma document_body_append:
  assumes "distinct (map fst d)" and "length d < 2 ^ 32"
    and "\<And>k v r. (k, v) \<in> set d \<Longrightarrow> utf8_valid k \<and> length k < 2 ^ 32 \<and> rv (put_value v @ r) = (Ok (canon v), r)"
  shows "document_body rv (put_document_body d @ rest) = (Ok (canon_doc d), rest)"
proof -
  let ?d = "sort_key fst d"
  have r: "repeatP (length ?d) (wire_field rv) (concat (map (\<lambda>(k, v). put_str k @ put_value v) ?d) @ rest)
      = (Ok (map (\<lambda>(k, v). (k, canon v)) ?d), rest)"
    by (rule repeat_wire_field) (use assms(3) in auto)
  have "length ?d \<le> length (concat (map (\<lambda>(k, v). put_str k @ put_value v) ?d))"
    by (rule length_le_concat) (use put_value_nonempty in \<open>auto simp: case_prod_beta\<close>)
  then have c: "wire_count (put_u32 (length d) @ concat (map (\<lambda>(k, v). put_str k @ put_value v) ?d) @ rest)
      = (Ok (length d), concat (map (\<lambda>(k, v). put_str k @ put_value v) ?d) @ rest)"
    using assms(2) by simp
  have "distinct (map fst (map (\<lambda>(k, v). (k, canon v)) ?d))"
    using assms(1) distinct_sort_key_fst [of d] by (simp add: comp_def case_prod_beta)
  then have i: "insert_all (map (\<lambda>(k, v). (k, canon v)) ?d) [] = map (\<lambda>(k, v). (k, canon v)) ?d"
    using insert_all_distinct [of "[]"] by simp
  show ?thesis
    using c r i by (simp add: document_body_def put_document_body_def bindP_step canon_doc_def sort_key_map_fst)
qed

lemma put_value_document: "put_value (VDocument d) = W_TAG_DOCUMENT # put_document_body d"
  by (simp add: put_document_body_def)

lemma wire_field_length:
  assumes "(k, v) \<in> set d"
  shows "length (put_value v) \<le> length (put_document_body d)"
  using length_in_concat [of "(k, v)" "sort_key fst d" "\<lambda>(k, v). put_str k @ put_value v"] assms
  by (simp add: put_document_body_def)

lemma repeat_wire_value:
  assumes "\<And>v r. v \<in> set vs \<Longrightarrow> rv (put_value v @ r) = (Ok (canon v), r)"
  shows "repeatP (length vs) rv (concat (map put_value vs) @ rest) = (Ok (map canon vs), rest)"
  using assms by (induction vs) (auto simp: bindP_step)

lemma wire_value_append:
  "value_ok v \<Longrightarrow> wire_fits v \<Longrightarrow> length (put_value v) \<le> Suc n \<Longrightarrow>
    wire_value (Suc n) (put_value v @ rest) = (Ok (canon v), rest)"
proof (induction v arbitrary: n rest rule: put_value.induct)
  case (7 vs)
  have "wire_value n (put_value v @ r) = (Ok (canon v), r)" if v: "v \<in> set vs" for v r
  proof -
    have l: "length (put_value v) \<le> n" using length_in_concat [OF v, of put_value] 7(4) by simp
    with put_value_nonempty [of v] obtain m where "n = Suc m" by (cases n) auto
    with 7 v l show ?thesis by auto
  qed
  from repeat_wire_value [of vs "wire_value n", OF this, of rest] 7(3)
    length_le_concat [of vs put_value, OF put_value_nonempty] show ?case
    by (simp add: wtag_defs bindP_step)
next
  case (8 d)
  have "utf8_valid k \<and> length k < 2 ^ 32 \<and> wire_value n (put_value v @ r) = (Ok (canon v), r)"
    if kv: "(k, v) \<in> set d" for k v r
  proof -
    have l: "length (put_value v) \<le> n" using 8(4) [unfolded put_value_document] wire_field_length [OF kv] by simp
    with put_value_nonempty [of v] obtain m where n: "n = Suc m" by (cases n) auto
    have "value_ok v" "wire_fits v" "utf8_valid k" "length k < 2 ^ 32" using 8(2,3) kv by auto
    moreover have "(k, v) \<in> set (sort_key fst d)" using kv by simp
    ultimately show ?thesis using 8(1) [OF _ refl] l n by blast
  qed
  from document_body_append [of d "wire_value n", OF _ _ this, of rest] 8(2,3) show ?case
    unfolding put_value_document by (simp add: wtag_defs bindP_step canon_doc_def)
qed (simp_all add: wtag_defs bindP_step)

interpretation wire_codec: codec put_value reader_value "\<lambda>v. value_ok v \<and> wire_fits v" canon
proof
  fix v rest assume "value_ok v \<and> wire_fits v"
  then show "reader_value (put_value v @ rest) = (Ok (canon v), rest)"
    unfolding reader_value_def by (intro wire_value_append) auto
qed

interpretation wire_document_codec: codec put_document_body reader_document_body
  "\<lambda>d. document_ok d \<and> wire_fits (VDocument d)" canon_doc
proof
  fix d rest assume d: "document_ok d \<and> wire_fits (VDocument d)"
  have "wire_value (length (put_document_body d @ rest)) (put_value v @ r) = (Ok (canon v), r)"
    if kv: "(k, v) \<in> set d" for k v r
  proof -
    obtain m where m: "length (put_document_body d @ rest) = Suc m"
      by (cases "put_document_body d") (auto simp: put_document_body_def put_u32_def)
    show ?thesis unfolding m
      using d kv wire_field_length [OF kv] m by (intro wire_value_append) (auto simp: document_ok_def)
  qed
  then show "reader_document_body (put_document_body d @ rest) = (Ok (canon_doc d), rest)"
    unfolding reader_document_body_def using d by (intro document_body_append) (auto simp: document_ok_def)
qed

lemma put_value_canon: "put_value (canon v) = put_value v"
proof (induction v rule: put_value.induct)
  case (7 vs)
  then show ?case by (simp add: comp_def cong: map_cong)
next
  case (8 d)
  have s: "sort_key fst (map (\<lambda>(k, v). (k, canon v)) (sort_key fst d)) = map (\<lambda>(k, v). (k, canon v)) (sort_key fst d)"
    by (simp add: sort_key_map_fst sort_key_sorted)
  have "map (\<lambda>(k, v). put_str k @ put_value v) (map (\<lambda>(k, v). (k, canon v)) (sort_key fst d))
      = map (\<lambda>(k, v). put_str k @ put_value v) (sort_key fst d)"
    using 8 by (auto simp del: set_sort)
  then show ?case unfolding canon_document put_value.simps s by (simp only: length_map length_sort)
qed simp_all

section \<open>Arbitrary bytes\<close>

lemma consumes_wire_take [simp]: "consumes (wire_take n) bs"
  by (simp add: consumes_def wire_take_def)

lemma consumes_wire_basic [simp]:
  "consumes wire_u8 bs" "consumes wire_u32 bs" "consumes wire_i64 bs" "consumes wire_f64 bs"
  "consumes wire_str bs" "consumes wire_count bs"
proof -
  show u: "consumes wire_u32 bs" for bs by (auto simp: wire_u32_def intro!: consumes_bind)
  show "consumes wire_u8 bs" "consumes wire_i64 bs" "consumes wire_f64 bs"
    by (auto simp: wire_u8_def wire_i64_def wire_f64_def intro!: consumes_bind)
  show "consumes wire_str bs"
    unfolding wire_str_def by (rule consumes_bind [OF u], rule consumes_bind [OF consumes_wire_take]) simp
  show "consumes wire_count bs"
    unfolding wire_count_def by (rule consumes_bind [OF u]) (simp add: consumes_def)
qed

lemma eats_wire_u8: "wire_u8 bs = (Ok b, bs') \<Longrightarrow> length bs' < length bs"
  by (auto simp: wire_u8_def wire_take_def bindP_Ok_iff split: if_splits)

lemma eats_wire_count: "wire_count bs = (Ok n, bs') \<Longrightarrow> length bs' < length bs"
  by (auto simp: wire_count_def wire_u32_def wire_take_def bindP_Ok_iff split: if_splits)

lemma consumes_wire_body:
  assumes "\<And>bs'. length bs' < length bs \<Longrightarrow> consumes rv bs'"
  shows "consumes (document_body rv) bs"
  unfolding document_body_def
proof (rule consumes_bind [OF consumes_wire_basic(6)], rule consumes_bind [OF consumes_repeat])
  fix n and bs' bs'' :: "byte list" assume l: "wire_count bs = (Ok n, bs')" "length bs'' \<le> length bs'"
  show "consumes (wire_field rv) bs''"
    unfolding wire_field_def
    by (rule consumes_bind [OF consumes_wire_basic(5)], rule consumes_bind [OF assms])
      (use l eats_wire_count [OF l(1)] in auto)
qed simp

lemma consumes_wire_value: "length bs < n \<Longrightarrow> consumes (wire_value n) bs"
proof (induction n arbitrary: bs)
  case (Suc n)
  have rv: "consumes (wire_value n) bs''"
    if "wire_u8 bs = (Ok tag, bs')" "length bs'' \<le> length bs'" for tag bs' bs''
    using Suc.IH [of bs''] that(2) eats_wire_u8 [OF that(1)] Suc.prems by simp
  have "consumes (bindP wire_count (\<lambda>n'. bindP (repeatP n' (wire_value n)) (\<lambda>items. returnP (VArray items)))) bs'"
    if "wire_u8 bs = (Ok tag, bs')" for tag bs'
    by (rule consumes_bind [OF consumes_wire_basic(6)], rule consumes_bind [OF consumes_repeat]) (use rv [OF that] in auto)
  moreover have "consumes (bindP (document_body (wire_value n)) (\<lambda>doc. returnP (VDocument doc))) bs'"
    if "wire_u8 bs = (Ok tag, bs')" for tag bs'
    by (rule consumes_bind [OF consumes_wire_body]) (use rv [OF that] in auto)
  ultimately show ?case
    unfolding wire_value.simps by (intro consumes_bind [OF consumes_wire_basic(1)]) (auto intro!: consumes_bind)
qed simp

lemma wire_str_valid: "wire_str bs = (Ok s, bs') \<Longrightarrow> utf8_valid s"
  by (auto simp: wire_str_def bindP_Ok_iff split: if_splits)

lemma document_body_ok:
  assumes "document_body rv bs = (Ok d, bs')" and "\<And>bs v bs'. rv bs = (Ok v, bs') \<Longrightarrow> value_ok v"
  shows "document_ok d"
proof -
  from assms(1) obtain len b1 fs where fs: "repeatP len (wire_field rv) b1 = (Ok fs, bs')"
    and d: "d = insert_all fs []" by (auto simp: document_body_def bindP_Ok_iff)
  have "\<forall>kv \<in> set fs. utf8_valid (fst kv) \<and> value_ok (snd kv)"
    by (rule repeatP_all [OF fs])
      (auto simp: wire_field_def bindP_Ok_iff dest: wire_str_valid assms(2))
  then show ?thesis unfolding d by (intro insert_all_ok) (simp_all add: document_ok_def)
qed

lemma wire_value_ok: "wire_value n bs = (Ok v, bs') \<Longrightarrow> value_ok v"
proof (induction n arbitrary: bs v bs')
  case (Suc n)
  note d = document_body_ok [of "wire_value n", OF _ Suc.IH]
  from Suc.prems show ?case
    by (auto simp: bindP_Ok_iff document_ok_def simp del: value_ok.simps(3) split: if_splits
        dest: wire_str_valid d repeatP_all [of _ "wire_value n", OF _ Suc.IH])
qed simp

section \<open>Properties\<close>

text \<open>
  C25: a value sent over the wire arrives. Reading the encoding of a value, followed by any
  further bytes of the frame, gives back the same value (documents with their keys in sorted
  order, which is the same hash map) and leaves exactly the further bytes.
\<close>

theorem wire_roundtrip:
  assumes "value_ok v" and "wire_fits v"
  shows "reader_value (put_value v @ rest) = (Ok (canon v), rest)"
  using wire_codec.dec_enc assms by simp

theorem wire_roundtrip_witness:
  "reader_value (put_value (VDocument [(''b'', VInt 1), (''a'', VArray [VNull])]) @ [9, 9])
   = (Ok (VDocument [(''a'', VArray [VNull]), (''b'', VInt 1)]), [9, 9])"
  using wire_roundtrip [of "VDocument [(''b'', VInt 1), (''a'', VArray [VNull])]" "[9, 9]"]
  by (simp add: utf8_valid_def less_char_def)

text \<open>
  C26: the wire encoding identifies a value. Two values have the same encoding exactly when they
  are equal as hash maps, whatever order their documents happen to be iterated in.
\<close>

theorem wire_encoding_canonical:
  assumes "value_ok v" and "wire_fits v" and "value_ok w" and "wire_fits w"
  shows "put_value v = put_value w \<longleftrightarrow> canon v = canon w"
  using wire_codec.enc_inject [of v w] assms put_value_canon by metis

theorem wire_encoding_canonical_witness:
  "put_value (VDocument [(''b'', VInt 1), (''a'', VNull)]) = put_value (VDocument [(''a'', VNull), (''b'', VInt 1)])"
  using wire_encoding_canonical [of "VDocument [(''b'', VInt 1), (''a'', VNull)]" "VDocument [(''a'', VNull), (''b'', VInt 1)]"]
  by (simp add: utf8_valid_def less_char_def)

text \<open>
  C27: reading a frame is safe on every input. Whatever bytes a client sends, the reader of a
  document body returns an error value or a well-formed document, and reads no byte beyond
  the frame.
\<close>

theorem wire_reader_total:
  "\<exists>r rest. reader_document_body bs = (r, rest) \<and> length rest \<le> length bs
     \<and> ((\<exists>d. r = Ok d \<and> document_ok d) \<or> (\<exists>e. r = Err e))"
proof -
  have "consumes (document_body (wire_value (length bs))) bs"
    by (rule consumes_wire_body) (rule consumes_wire_value)
  then show ?thesis
    by (cases rule: consumesE)
      (auto simp: reader_document_body_def dest: document_body_ok [OF _ wire_value_ok])
qed

end
