(* ===== verification/Asl_Ast.thy ===== *)
theory Asl_Ast
  imports Doc_Value
begin

text \<open>
  \<open>asl/ast.rs\<close>: the syntax tree of the query language, with the constructors of the source.
  A \<open>DocLiteral\<close> is its list of fields; an \<open>i64\<close> literal is a 64-bit word, a float literal an
  IEEE bit pattern.
\<close>

datatype lit_value = LInt i64 | LFloat f64 | LString string | LBool bool | LNull

datatype bin_op =
    OpEq | OpNotEq | OpGt | OpGtEq | OpLt | OpLtEq
  | OpAnd | OpOr | OpAdd | OpSub | OpMul | OpDiv | OpMod

datatype unary_op = OpNeg | OpNot

datatype string_match_op = Contains | Starts | Ends

datatype expr =
    EField string
  | ELit lit_value
  | EBinOp bin_op expr expr
  | EUnaryOp unary_op expr
  | EIn (in_field: string) (in_values: "lit_value list") (in_negated: bool)
  | EExists string
  | EMissing string
  | EStringMatch (sm_field: string) (sm_op: string_match_op) (sm_pattern: string)
  | ETernary (tern_cond: expr) (tern_then: expr) (tern_else: expr)
  | EArrayLit "expr list"
  | EDocLit "(string \<times> expr) list"
  | EAggCall (agg_name: string) (agg_arg: "string option")

type_synonym doc_literal = "(string \<times> expr) list"

lemma size_in_expr_list [termination_simp]: "e \<in> set es \<Longrightarrow> size (e :: expr) < Suc (size_list size es)"
  by (induction es) auto

lemma size_in_expr_fields [termination_simp]:
  "(k, e) \<in> set d \<Longrightarrow> size (e :: expr) < Suc (size_list (size_prod f size) d)"
  by (induction d) auto

datatype direction = Asc | Desc

record select_item =
  si_expr :: expr
  si_alias :: "string option"

record order_key =
  ok_field :: string
  ok_direction :: direction

record assignment =
  as_field :: string
  as_value :: expr

datatype schema_type = TInt | TFloat | TString | TBool | TAny

record schema_field =
  sf_name :: string
  sf_ty :: schema_type
  sf_required :: bool
  sf_unique :: bool

datatype stage =
    SFrom (from_collection: string) (from_hint: "string option")
  | SWhere expr
  | SSelect "select_item list option"
  | SDrop "string list"
  | SOrder "order_key list"
  | SLimit i64
  | SOffset i64
  | SGroup "string list"
  | SJoin (join_collection: string) (join_left: string) (join_right: string)
  | SInsert "doc_literal list"
  | SUpdate "assignment list"
  | SUpsert doc_literal
  | SDelete

type_synonym pipeline = "stage list"

datatype stmt =
    Pipeline pipeline
  | CreateCollection (cc_name: string) (cc_schema: "schema_field list") (cc_if_not_exists: bool)
  | DropCollection (dc_name: string) (dc_if_exists: bool)
  | CreateIndex (ci_collection: string) (ci_fields: "string list") (ci_if_not_exists: bool) (ci_unique: bool)
  | DropIndex (di_collection: string) (di_fields: "string list") (di_if_exists: bool)

end
