(* ===== verification/F64.thy ===== *)
theory F64
  imports Doc_Value
begin

text \<open>
  What the program uses of Rust's \<open>f64\<close> and integer formatting: IEEE 754 binary64 values as bit
  patterns, their order, rounding of an exact ratio to the nearest value with ties to even, the
  arithmetic operators (each the rounding of the exact result), conversion from \<open>i64\<close>, and the
  \<open>Display\<close> form, the shortest decimal that rounds back to the value. Every NaN an operation
  produces is the quiet NaN with a zero payload, which Rust leaves open.
\<close>

section \<open>Floats as bit patterns\<close>

definition f64_sign :: "f64 \<Rightarrow> bool" where
  "f64_sign x \<longleftrightarrow> bit x 63"

definition f64_mag :: "f64 \<Rightarrow> nat" where
  "f64_mag x = unat x mod 2 ^ 63"

definition F64_INF_MAG :: nat where
  "F64_INF_MAG = 0x7FF0000000000000"

definition f64_is_nan :: "f64 \<Rightarrow> bool" where
  "f64_is_nan x \<longleftrightarrow> F64_INF_MAG < f64_mag x"

definition f64_is_inf :: "f64 \<Rightarrow> bool" where
  "f64_is_inf x \<longleftrightarrow> f64_mag x = F64_INF_MAG"

definition f64_make :: "bool \<Rightarrow> nat \<Rightarrow> f64" where
  "f64_make neg mag = word_of_nat (if neg then 2 ^ 63 + mag else mag)"

definition F64_NAN :: f64 where
  "F64_NAN = 0x7FF8000000000000"

text \<open>
  Between floats that are no NaN the IEEE order is the order of sign and magnitude, and the two
  zeros are equal.
\<close>

definition f64_ord :: "f64 \<Rightarrow> int" where
  "f64_ord x = (if f64_sign x then - int (f64_mag x) else int (f64_mag x))"

datatype ordering = Less | Equal | Greater

definition cmp :: "'a :: linorder \<Rightarrow> 'a \<Rightarrow> ordering" where
  "cmp a b = (if a < b then Less else if a = b then Equal else Greater)"

definition f64_partial_cmp :: "f64 \<Rightarrow> f64 \<Rightarrow> ordering option" where
  "f64_partial_cmp x y = (if f64_is_nan x \<or> f64_is_nan y then None else Some (cmp (f64_ord x) (f64_ord y)))"

definition f64_eq :: "f64 \<Rightarrow> f64 \<Rightarrow> bool" where
  "f64_eq x y \<longleftrightarrow> f64_partial_cmp x y = Some Equal"

section \<open>Rounding\<close>

fun bitlen :: "nat \<Rightarrow> nat" where
  "bitlen n = (if n = 0 then 0 else Suc (bitlen (n div 2)))"

declare bitlen.simps [simp del]

text \<open>The integer nearest to \<open>n / d\<close>, ties to even.\<close>

definition div_round :: "nat \<Rightarrow> nat \<Rightarrow> nat" where
  "div_round n d = (let q = n div d; r = n mod d in
     if 2 * r < d \<or> (2 * r = d \<and> even q) then q else q + 1)"

text \<open>The largest \<open>e\<close> with \<open>2\<^sup>e \<le> n / d\<close>.\<close>

definition ratio_exp :: "nat \<Rightarrow> nat \<Rightarrow> int" where
  "ratio_exp n d = (let e = int (bitlen n) - int (bitlen d) in
     if d * 2 ^ nat e \<le> n * 2 ^ nat (- e) then e else e - 1)"

text \<open>
  The float nearest to \<open>n / d\<close>: the significand is the ratio in units of \<open>2\<^sup>u\<close>, and since an
  overflow of the significand carries into the exponent field the pattern is a sum.
\<close>

definition f64_round :: "bool \<Rightarrow> nat \<Rightarrow> nat \<Rightarrow> f64" where
  "f64_round neg n d = (if n = 0 then f64_make neg 0 else
     let u = max (ratio_exp n d - 52) (- 1074);
         s = div_round (n * 2 ^ nat (- u)) (d * 2 ^ nat u);
         mag = nat (u + 1074) * 2 ^ 52 + s
     in f64_make neg (if F64_INF_MAG \<le> mag then F64_INF_MAG else mag))"

text \<open>A finite float as a ratio with a power of two below.\<close>

definition f64_ratio :: "f64 \<Rightarrow> nat \<times> nat" where
  "f64_ratio x = (let e = f64_mag x div 2 ^ 52; f = f64_mag x mod 2 ^ 52 in
     if e = 0 then (f, 2 ^ 1074)
     else if 1075 \<le> e then ((f + 2 ^ 52) * 2 ^ (e - 1075), 1)
     else (f + 2 ^ 52, 2 ^ (1075 - e)))"

definition f64_of_int :: "int \<Rightarrow> f64" where
  "f64_of_int i = f64_round (i < 0) (nat \<bar>i\<bar>) 1"

definition f64_of_i64 :: "i64 \<Rightarrow> f64" where
  "f64_of_i64 n = f64_of_int (sint n)"

section \<open>Arithmetic\<close>

definition f64_neg :: "f64 \<Rightarrow> f64" where
  "f64_neg x = f64_make (\<not> f64_sign x) (f64_mag x)"

definition f64_is_zero :: "f64 \<Rightarrow> bool" where
  "f64_is_zero x \<longleftrightarrow> f64_mag x = 0"

definition f64_signed :: "f64 \<Rightarrow> nat \<Rightarrow> int" where
  "f64_signed x n = (if f64_sign x then - int n else int n)"

definition f64_add :: "f64 \<Rightarrow> f64 \<Rightarrow> f64" where
  "f64_add x y =
     (if f64_is_nan x \<or> f64_is_nan y then F64_NAN
      else if f64_is_inf x then (if f64_is_inf y \<and> f64_sign x \<noteq> f64_sign y then F64_NAN else x)
      else if f64_is_inf y then y
      else (case (f64_ratio x, f64_ratio y) of ((nx, dx), (ny, dy)) \<Rightarrow>
        let s = f64_signed x (nx * dy) + f64_signed y (ny * dx)
        in if s = 0 then f64_make (f64_sign x \<and> f64_sign y) 0
           else f64_round (s < 0) (nat \<bar>s\<bar>) (dx * dy)))"

definition f64_sub :: "f64 \<Rightarrow> f64 \<Rightarrow> f64" where
  "f64_sub x y = (if f64_is_nan y then F64_NAN else f64_add x (f64_neg y))"

definition f64_mul :: "f64 \<Rightarrow> f64 \<Rightarrow> f64" where
  "f64_mul x y = (let neg = f64_sign x \<noteq> f64_sign y in
     if f64_is_nan x \<or> f64_is_nan y then F64_NAN
     else if f64_is_inf x \<or> f64_is_inf y then
       (if f64_is_zero x \<or> f64_is_zero y then F64_NAN else f64_make neg F64_INF_MAG)
     else (case (f64_ratio x, f64_ratio y) of ((nx, dx), (ny, dy)) \<Rightarrow> f64_round neg (nx * ny) (dx * dy)))"

definition f64_div :: "f64 \<Rightarrow> f64 \<Rightarrow> f64" where
  "f64_div x y = (let neg = f64_sign x \<noteq> f64_sign y in
     if f64_is_nan x \<or> f64_is_nan y then F64_NAN
     else if f64_is_inf x then (if f64_is_inf y then F64_NAN else f64_make neg F64_INF_MAG)
     else if f64_is_inf y then f64_make neg 0
     else if f64_is_zero y then (if f64_is_zero x then F64_NAN else f64_make neg F64_INF_MAG)
     else (case (f64_ratio x, f64_ratio y) of ((nx, dx), (ny, dy)) \<Rightarrow> f64_round neg (nx * dy) (dx * ny)))"

definition f64_rem :: "f64 \<Rightarrow> f64 \<Rightarrow> f64" where
  "f64_rem x y =
     (if f64_is_nan x \<or> f64_is_nan y \<or> f64_is_inf x \<or> f64_is_zero y then F64_NAN
      else if f64_is_inf y then x
      else (case (f64_ratio x, f64_ratio y) of ((nx, dx), (ny, dy)) \<Rightarrow>
        f64_round (f64_sign x) ((nx * dy) mod (ny * dx)) (dx * dy)))"

section \<open>Decimal text\<close>

fun nat_digits :: "nat \<Rightarrow> string" where
  "nat_digits n = (if n < 10 then [char_of (48 + n)] else nat_digits (n div 10) @ [char_of (48 + n mod 10)])"

declare nat_digits.simps [simp del]

definition int_to_string :: "int \<Rightarrow> string" where
  "int_to_string i = (if i < 0 then ''-'' @ nat_digits (nat (- i)) else nat_digits (nat i))"

text \<open>The value \<open>q \<cdot> 10\<^sup>p\<close> as a ratio, and its plain decimal form.\<close>

definition dec_ratio :: "nat \<Rightarrow> int \<Rightarrow> nat \<times> nat" where
  "dec_ratio q p = (q * 10 ^ nat p, 10 ^ nat (- p))"

definition dec_string :: "nat \<Rightarrow> int \<Rightarrow> string" where
  "dec_string q p = (if 0 \<le> p then nat_digits (q * 10 ^ nat p)
     else let k = nat (- p); ds = nat_digits q; pad = replicate (Suc k - length ds) (CHR ''0'') @ ds
          in take (length pad - k) pad @ ''.'' @ drop (length pad - k) pad)"

text \<open>Candidates with \<open>k\<close> digits: \<open>n / d\<close> in units of \<open>10\<^sup>p\<close>, rounded down and up.\<close>

definition dec_candidates :: "nat \<Rightarrow> nat \<Rightarrow> int \<Rightarrow> nat list" where
  "dec_candidates n d p = (let a = n * 10 ^ nat (- p); b = d * 10 ^ nat p; q = a div b; r = a mod b in
     if 2 * r < b \<or> 2 * r = b \<and> even q then [q, q + 1] else [q + 1, q])"

definition dec_rounds_to :: "nat \<Rightarrow> int \<Rightarrow> nat \<Rightarrow> bool" where
  "dec_rounds_to q p mag \<longleftrightarrow> (case dec_ratio q p of (a, b) \<Rightarrow> f64_mag (f64_round False a b) = mag)"

fun shortest_dec :: "nat \<Rightarrow> nat \<Rightarrow> nat \<Rightarrow> nat \<Rightarrow> int \<Rightarrow> nat \<times> int" where
  "shortest_dec 0 mag n d p = (n, 0)"
| "shortest_dec (Suc fuel) mag n d p =
     (case filter (\<lambda>q. dec_rounds_to q p mag) (dec_candidates n d p) of
        q # _ \<Rightarrow> (q, p)
      | [] \<Rightarrow> shortest_dec fuel mag n d (p - 1))"

fun strip_zeros :: "nat \<Rightarrow> nat \<Rightarrow> int \<Rightarrow> nat \<times> int" where
  "strip_zeros 0 q p = (q, p)"
| "strip_zeros (Suc fuel) q p = (if q \<noteq> 0 \<and> q mod 10 = 0 \<and> p < 0 then strip_zeros fuel (q div 10) (p + 1) else (q, p))"

text \<open>
  \<open>f64::to_string\<close>. Every finite float has magnitude below \<open>10\<^sup>3\<^sup>0\<^sup>9\<close> and seventeen digits
  single it out, so the search from \<open>10\<^sup>3\<^sup>0\<^sup>8\<close> downwards ends within the fuel.
\<close>

definition f64_to_string :: "f64 \<Rightarrow> string" where
  "f64_to_string x = (if f64_is_nan x then ''NaN'' else
     (if f64_sign x then ''-'' else '''') @
     (if f64_is_inf x then ''inf'' else if f64_is_zero x then ''0''
      else case f64_ratio x of (n, d) \<Rightarrow>
        case shortest_dec 700 (f64_mag x) n d 308 of (q, p) \<Rightarrow>
        case strip_zeros 700 q p of (q, p) \<Rightarrow> dec_string q p))"

end
