(* ===== verification/Query_Eval.thy ===== *)
theory Query_Eval
  imports Asl_Ast F64 "HOL-Library.Sublist" "HOL-Library.Signed_Division"
begin

text \<open>
  \<open>query/evaluate.rs\<close> and \<open>query/error.rs\<close>: evaluation of expressions on a document.
  \<open>evaluate\<close> returns the value or the error the code returns, with its message. Integer
  arithmetic is checked: the exact result on \<open>int\<close> is returned when it is an \<open>i64\<close> and an
  \<open>Arithmetic\<close> error otherwise.
\<close>

section \<open>Errors, names and equality\<close>

datatype query_error =
    Arithmetic string
  | Storage string
  | InvalidPipeline string
  | TypeErr string
  | Unsupported string
  | Validation string

type_synonym 'a query_result = "(query_error, 'a) outcome"

fun literal_to_value :: "lit_value \<Rightarrow> doc_value" where
  "literal_to_value (LInt n) = VInt n"
| "literal_to_value (LFloat n) = VFloat n"
| "literal_to_value (LString s) = VString s"
| "literal_to_value (LBool b) = VBool b"
| "literal_to_value LNull = VNull"

fun value_name :: "doc_value \<Rightarrow> string" where
  "value_name (VInt _) = ''int''"
| "value_name (VFloat _) = ''float''"
| "value_name (VString _) = ''string''"
| "value_name (VBool _) = ''bool''"
| "value_name VNull = ''null''"
| "value_name (VArray _) = ''array''"
| "value_name (VDocument _) = ''document''"

text \<open>The derived \<open>PartialEq\<close> of \<open>Value\<close>: floats by IEEE equality, documents as hash maps.\<close>

lemma size_zip_left [termination_simp]:
  "(x, y) \<in> set (zip xs ys) \<Longrightarrow> size (x :: doc_value) < Suc (size_list size xs)"
  by (drule set_zip_leftD) (rule size_in_array)

fun value_eq :: "doc_value \<Rightarrow> doc_value \<Rightarrow> bool" where
  "value_eq (VInt a) (VInt b) \<longleftrightarrow> a = b"
| "value_eq (VFloat a) (VFloat b) \<longleftrightarrow> f64_eq a b"
| "value_eq (VString a) (VString b) \<longleftrightarrow> a = b"
| "value_eq (VBool a) (VBool b) \<longleftrightarrow> a = b"
| "value_eq VNull VNull \<longleftrightarrow> True"
| "value_eq (VArray a) (VArray b) \<longleftrightarrow> length a = length b \<and> (\<forall>(x, y) \<in> set (zip a b). value_eq x y)"
| "value_eq (VDocument a) (VDocument b) \<longleftrightarrow> length a = length b
     \<and> (\<forall>(k, x) \<in> set a. case map_of b k of None \<Rightarrow> False | Some y \<Rightarrow> value_eq x y)"
| "value_eq _ _ \<longleftrightarrow> False"

fun values_equal :: "doc_value \<Rightarrow> doc_value \<Rightarrow> bool" where
  "values_equal (VInt a) (VFloat b) \<longleftrightarrow> f64_eq (f64_of_i64 a) b"
| "values_equal (VFloat a) (VInt b) \<longleftrightarrow> f64_eq a (f64_of_i64 b)"
| "values_equal left right \<longleftrightarrow> value_eq left right"

definition compare_floats :: "f64 \<Rightarrow> f64 \<Rightarrow> ordering query_result" where
  "compare_floats left right = (case f64_partial_cmp left right of
     Some r \<Rightarrow> Ok r | None \<Rightarrow> Err (TypeErr ''cannot compare NaN values''))"

fun compare_values :: "doc_value \<Rightarrow> doc_value \<Rightarrow> ordering query_result" where
  "compare_values (VInt a) (VInt b) = Ok (cmp (sint a) (sint b))"
| "compare_values (VInt a) (VFloat b) = compare_floats (f64_of_i64 a) b"
| "compare_values (VFloat a) (VInt b) = compare_floats a (f64_of_i64 b)"
| "compare_values (VFloat a) (VFloat b) = compare_floats a b"
| "compare_values (VString a) (VString b) = Ok (cmp a b)"
| "compare_values left right =
     Err (TypeErr (''cannot compare '' @ value_name left @ '' and '' @ value_name right))"

fun value_to_string :: "doc_value \<Rightarrow> string query_result" where
  "value_to_string (VInt n) = Ok (int_to_string (sint n))"
| "value_to_string (VFloat n) = Ok (f64_to_string n)"
| "value_to_string (VString s) = Ok s"
| "value_to_string (VBool b) = Ok (if b then ''true'' else ''false'')"
| "value_to_string VNull = Ok ''null''"
| "value_to_string other = Err (TypeErr (''cannot convert '' @ value_name other @ '' to string''))"

section \<open>Operators\<close>

fun op_symbol :: "bin_op \<Rightarrow> string" where
  "op_symbol OpAdd = ''+''"
| "op_symbol OpSub = ''-''"
| "op_symbol OpMul = ''*''"
| "op_symbol OpDiv = ''/''"
| "op_symbol OpMod = ''%''"
| "op_symbol _ = ''?''"

definition i64_range :: "int \<Rightarrow> bool" where
  "i64_range r \<longleftrightarrow> - (2 ^ 63) \<le> r \<and> r < 2 ^ 63"

text \<open>\<open>checked_add\<close> and its siblings followed by \<open>ok_or_else(overflow)?\<close>.\<close>

definition checked_i64 :: "query_error \<Rightarrow> int \<Rightarrow> i64 query_result" where
  "checked_i64 overflow r = (if i64_range r then Ok (word_of_int r) else Err overflow)"

definition evaluate_int_arithmetic :: "bin_op \<Rightarrow> i64 \<Rightarrow> i64 \<Rightarrow> doc_value query_result" where
  "evaluate_int_arithmetic op left right = (
     let l = sint left; r = sint right;
         expr_text = int_to_string l @ '' '' @ op_symbol op @ '' '' @ int_to_string r;
         overflow = Arithmetic (''integer overflow evaluating '' @ expr_text)
     in bindO (case op of
          OpAdd \<Rightarrow> checked_i64 overflow (l + r)
        | OpSub \<Rightarrow> checked_i64 overflow (l - r)
        | OpMul \<Rightarrow> checked_i64 overflow (l * r)
        | OpDiv \<Rightarrow> if r = 0 then Err (Arithmetic (''division by zero evaluating '' @ expr_text))
                  else checked_i64 overflow (l sdiv r)
        | OpMod \<Rightarrow> if r = 0 then Err (Arithmetic (''division by zero evaluating '' @ expr_text))
                  else if i64_range (l sdiv r) then Ok (word_of_int (l smod r)) else Err overflow
        | _ \<Rightarrow> Panic ''caller restricted op to arithmetic'') (\<lambda>n. Ok (VInt n)))"

definition evaluate_float_arithmetic :: "bin_op \<Rightarrow> f64 \<Rightarrow> f64 \<Rightarrow> doc_value query_result" where
  "evaluate_float_arithmetic op left right = (case op of
     OpAdd \<Rightarrow> Ok (VFloat (f64_add left right))
   | OpSub \<Rightarrow> Ok (VFloat (f64_sub left right))
   | OpMul \<Rightarrow> Ok (VFloat (f64_mul left right))
   | OpDiv \<Rightarrow> Ok (VFloat (f64_div left right))
   | OpMod \<Rightarrow> Ok (VFloat (f64_rem left right))
   | _ \<Rightarrow> Panic ''internal error: entered unreachable code'')"

definition evaluate_arithmetic :: "bin_op \<Rightarrow> doc_value \<Rightarrow> doc_value \<Rightarrow> doc_value query_result" where
  "evaluate_arithmetic op left right = (
     let mismatch = Err (TypeErr (''cannot apply arithmetic to '' @ value_name left @ '' and '' @ value_name right))
     in case (left, right) of
       (VInt a, VInt b) \<Rightarrow> evaluate_int_arithmetic op a b
     | (VInt a, VFloat b) \<Rightarrow> evaluate_float_arithmetic op (f64_of_i64 a) b
     | (VFloat a, VInt b) \<Rightarrow> evaluate_float_arithmetic op a (f64_of_i64 b)
     | (VFloat a, VFloat b) \<Rightarrow> evaluate_float_arithmetic op a b
     | (VString a, b) \<Rightarrow> if op = OpAdd then bindO (value_to_string b) (\<lambda>s. Ok (VString (a @ s))) else mismatch
     | (a, VString b) \<Rightarrow> if op = OpAdd then bindO (value_to_string a) (\<lambda>s. Ok (VString (s @ b))) else mismatch
     | _ \<Rightarrow> mismatch)"

definition is_ordering_op :: "bin_op \<Rightarrow> bool" where
  "is_ordering_op op \<longleftrightarrow> op = OpGt \<or> op = OpGtEq \<or> op = OpLt \<or> op = OpLtEq"

definition evaluate_comparison :: "bin_op \<Rightarrow> doc_value \<Rightarrow> doc_value \<Rightarrow> doc_value query_result" where
  "evaluate_comparison op left right =
     (if is_ordering_op op \<and> (left = VNull \<or> right = VNull) then Ok (VBool False)
      else bindO (case op of
          OpEq \<Rightarrow> Ok (values_equal left right)
        | OpNotEq \<Rightarrow> Ok (\<not> values_equal left right)
        | OpGt \<Rightarrow> bindO (compare_values left right) (\<lambda>r. Ok (r = Greater))
        | OpGtEq \<Rightarrow> bindO (compare_values left right) (\<lambda>r. Ok (r = Greater \<or> r = Equal))
        | OpLt \<Rightarrow> bindO (compare_values left right) (\<lambda>r. Ok (r = Less))
        | OpLtEq \<Rightarrow> bindO (compare_values left right) (\<lambda>r. Ok (r = Less \<or> r = Equal))
        | _ \<Rightarrow> Panic ''internal error: entered unreachable code'') (\<lambda>b. Ok (VBool b)))"

fun expect_bool :: "doc_value \<Rightarrow> bool query_result" where
  "expect_bool (VBool b) = Ok b"
| "expect_bool other = Err (TypeErr (''expected bool expression, got '' @ value_name other))"

definition evaluate_neg :: "doc_value \<Rightarrow> doc_value query_result" where
  "evaluate_neg v = (case v of
     VInt n \<Rightarrow> bindO (checked_i64 (Arithmetic (''integer overflow negating '' @ int_to_string (sint n))) (- sint n))
                (\<lambda>m. Ok (VInt m))
   | VFloat n \<Rightarrow> Ok (VFloat (f64_neg n))
   | other \<Rightarrow> Err (TypeErr (''cannot negate '' @ value_name other)))"

definition field_or_null :: "document \<Rightarrow> string \<Rightarrow> doc_value" where
  "field_or_null doc name = (case doc_get doc name of None \<Rightarrow> VNull | Some v \<Rightarrow> v)"

definition string_match :: "string_match_op \<Rightarrow> string \<Rightarrow> string \<Rightarrow> bool" where
  "string_match op value pattern = (case op of
     Contains \<Rightarrow> sublist pattern value | Starts \<Rightarrow> prefix pattern value | Ends \<Rightarrow> suffix pattern value)"

section \<open>Evaluation\<close>

text \<open>
  The operands of \<open>evaluate_bin_op\<close> and \<open>evaluate_unary_op\<close> are the results of evaluating the
  subexpressions; \<open>and\<close> and \<open>or\<close> look at the right one only when the left one does not decide.
\<close>

definition evaluate_bin_op :: "bin_op \<Rightarrow> doc_value query_result \<Rightarrow> doc_value query_result \<Rightarrow> doc_value query_result" where
  "evaluate_bin_op op left right =
     (if op = OpAnd then
        bindO (bindO left expect_bool) (\<lambda>l.
        if l then bindO (bindO right expect_bool) (\<lambda>r. Ok (VBool r)) else Ok (VBool False))
      else if op = OpOr then
        bindO (bindO left expect_bool) (\<lambda>l.
        if l then Ok (VBool True) else bindO (bindO right expect_bool) (\<lambda>r. Ok (VBool r)))
      else if op \<in> {OpEq, OpNotEq, OpGt, OpGtEq, OpLt, OpLtEq} then
        bindO left (\<lambda>l. bindO right (\<lambda>r. evaluate_comparison op l r))
      else bindO left (\<lambda>l. bindO right (\<lambda>r. evaluate_arithmetic op l r)))"

definition evaluate_unary_op :: "unary_op \<Rightarrow> doc_value query_result \<Rightarrow> doc_value query_result" where
  "evaluate_unary_op op e = (case op of
     OpNot \<Rightarrow> bindO (bindO e expect_bool) (\<lambda>b. Ok (VBool (\<not> b)))
   | OpNeg \<Rightarrow> bindO e evaluate_neg)"

declare evaluate_bin_op_def [simp] evaluate_unary_op_def [simp]

fun evaluate :: "expr \<Rightarrow> document \<Rightarrow> doc_value query_result" where
  "evaluate (EField name) doc = Ok (field_or_null doc name)"
| "evaluate (ELit lit) doc = Ok (literal_to_value lit)"
| "evaluate (EBinOp op left right) doc = evaluate_bin_op op (evaluate left doc) (evaluate right doc)"
| "evaluate (EUnaryOp op e) doc = evaluate_unary_op op (evaluate e doc)"
| "evaluate (EIn field values negated) doc =
     (let left = field_or_null doc field; found = list_ex (\<lambda>v. values_equal left (literal_to_value v)) values
      in Ok (VBool (if negated then \<not> found else found)))"
| "evaluate (EExists field) doc = Ok (VBool (doc_get doc field \<noteq> None))"
| "evaluate (EMissing field) doc = Ok (VBool (doc_get doc field = None))"
| "evaluate (EStringMatch field op pattern) doc = (case doc_get doc field of
     Some (VString v) \<Rightarrow> Ok (VBool (string_match op v pattern))
   | _ \<Rightarrow> Ok (VBool False))"
| "evaluate (ETernary c t f) doc =
     bindO (bindO (evaluate c doc) expect_bool) (\<lambda>b. if b then evaluate t doc else evaluate f doc)"
| "evaluate (EArrayLit values) doc =
     bindO (mapO (\<lambda>e. evaluate e doc) values) (\<lambda>vs. Ok (VArray vs))"
| "evaluate (EDocLit fs) doc =
     bindO (mapO (\<lambda>(f, e). bindO (evaluate e doc) (\<lambda>v. Ok (f, v))) fs) (\<lambda>kvs.
     Ok (VDocument (insert_all kvs [])))"
| "evaluate (EAggCall name arg) doc =
     Err (Unsupported (''aggregate evaluation is not implemented yet: '' @ name))"

definition evaluate_bool :: "expr \<Rightarrow> document \<Rightarrow> bool query_result" where
  "evaluate_bool e doc = bindO (evaluate e doc) expect_bool"

text \<open>\<open>evaluate_literal_expr\<close> and \<open>doc_literal_to_document\<close>, whose loop is the second function.\<close>

fun evaluate_literal_expr :: "expr \<Rightarrow> doc_value query_result"
  and literal_fields :: "(string \<times> expr) list \<Rightarrow> document \<Rightarrow> document query_result" where
  "evaluate_literal_expr (ELit lit) = Ok (literal_to_value lit)"
| "evaluate_literal_expr (EArrayLit values) =
     bindO (mapO evaluate_literal_expr values) (\<lambda>vs. Ok (VArray vs))"
| "evaluate_literal_expr (EDocLit fs) = bindO (literal_fields fs []) (\<lambda>d. Ok (VDocument d))"
| "evaluate_literal_expr _ = Err (Unsupported ''insert documents only support literal values for now'')"
| "literal_fields [] doc = Ok doc"
| "literal_fields ((field, e) # rest) doc =
     (if doc_get doc field \<noteq> None then Err (Validation (''duplicate document field: '' @ field))
      else bindO (evaluate_literal_expr e) (\<lambda>v. literal_fields rest (doc_insert field v doc)))"

definition doc_literal_to_document :: "doc_literal \<Rightarrow> document query_result" where
  "doc_literal_to_document fs = literal_fields fs []"

section \<open>Every evaluation returns\<close>

lemma returns_expect_bool [simp]: "returns (expect_bool v)"
  by (cases v) auto

lemma returns_checked_i64 [simp]: "returns (checked_i64 e r)"
  by (simp add: checked_i64_def)

lemma returns_compare_values [simp]: "returns (compare_values a b)"
  by (cases "(a, b)" rule: compare_values.cases) (auto simp: compare_floats_def split: option.split)

lemma returns_value_to_string [simp]: "returns (value_to_string v)"
  by (cases v) auto

lemma returns_comparison:
  "op \<in> {OpEq, OpNotEq, OpGt, OpGtEq, OpLt, OpLtEq} \<Longrightarrow> returns (evaluate_comparison op l r)"
  unfolding evaluate_comparison_def by (auto intro!: returns_bindO)

lemma returns_int_arithmetic:
  "op \<in> {OpAdd, OpSub, OpMul, OpDiv, OpMod} \<Longrightarrow> returns (evaluate_int_arithmetic op l r)"
  unfolding evaluate_int_arithmetic_def Let_def by (auto intro!: returns_bindO)

lemma returns_float_arithmetic:
  "op \<in> {OpAdd, OpSub, OpMul, OpDiv, OpMod} \<Longrightarrow> returns (evaluate_float_arithmetic op l r)"
  by (auto simp: evaluate_float_arithmetic_def)

lemma returns_arithmetic:
  "op \<in> {OpAdd, OpSub, OpMul, OpDiv, OpMod} \<Longrightarrow> returns (evaluate_arithmetic op l r)"
  unfolding evaluate_arithmetic_def Let_def
  by (auto simp: returns_int_arithmetic returns_float_arithmetic intro!: returns_bindO split: doc_value.split)

lemma returns_neg [simp]: "returns (evaluate_neg v)"
  unfolding evaluate_neg_def by (cases v) (auto intro!: returns_bindO)

lemma returns_evaluate: "returns (evaluate e doc)"
proof (induction e doc rule: evaluate.induct)
  case (3 op l r doc)
  then show ?case
    by (cases op) (auto intro!: returns_bindO simp: returns_arithmetic returns_comparison)
next
  case (4 op e doc)
  then show ?case by (cases op) (auto intro!: returns_bindO)
next
  case (9 c t f doc)
  then show ?case by (auto intro!: returns_bindO)
next
  case (10 es doc)
  then show ?case by (auto intro!: returns_bindO returns_mapO)
next
  case (11 fs doc)
  then show ?case by (auto intro!: returns_bindO returns_mapO)
qed (auto simp: Let_def split: option.split doc_value.split)

lemma returns_evaluate_bool [simp]: "returns (evaluate_bool e doc)"
  unfolding evaluate_bool_def by (intro returns_bindO returns_evaluate) simp

section \<open>Integer arithmetic\<close>

lemma sint_word_of_int_i64: "i64_range r \<Longrightarrow> sint (word_of_int r :: i64) = r"
  unfolding i64_range_def by (intro signed_take_bit_int_eq_self [THEN trans [OF sint_sbintrunc']]) auto

text \<open>The mathematical result.\<close>

fun exact_int :: "bin_op \<Rightarrow> int \<Rightarrow> int \<Rightarrow> int" where
  "exact_int OpAdd l r = l + r"
| "exact_int OpSub l r = l - r"
| "exact_int OpMul l r = l * r"
| "exact_int OpDiv l r = l sdiv r"
| "exact_int OpMod l r = l smod r"
| "exact_int _ l r = 0"

text \<open>The result exists and is a 64-bit integer.\<close>

definition int_op_defined :: "bin_op \<Rightarrow> int \<Rightarrow> int \<Rightarrow> bool" where
  "int_op_defined op l r \<longleftrightarrow> (op = OpDiv \<or> op = OpMod \<longrightarrow> r \<noteq> 0) \<and> i64_range (exact_int op l r)"

lemma i64_range_sint: "i64_range (sint (n :: i64))"
  using sint_ge [of n] sint_lt [of n] by (simp add: i64_range_def)

lemma i64_range_smod: "i64_range r \<Longrightarrow> r \<noteq> 0 \<Longrightarrow> i64_range (l smod r)"
  using smod_int_range [of r l] by (auto simp: i64_range_def)

text \<open>The only quotient of two 64-bit integers that is not one of them.\<close>

lemma i64_range_sdiv:
  assumes l: "i64_range l" and r: "i64_range r" "r \<noteq> 0"
  shows "i64_range (l sdiv r) \<longleftrightarrow> \<not> (l = - (2 ^ 63) \<and> r = - 1)"
proof (cases "\<bar>r\<bar> = 1")
  case True
  then have "r = 1 \<or> r = - 1" by auto
  then show ?thesis using l by (auto simp: i64_range_def signed_divide_int_def sgn_if)
next
  case False
  with r(2) have "2 \<le> \<bar>r\<bar>" by auto
  then have "\<bar>l\<bar> div \<bar>r\<bar> \<le> \<bar>l\<bar> div 2" by (intro zdiv_mono2) auto
  also have "\<dots> \<le> 2 ^ 62" using l by (auto simp: i64_range_def)
  finally have "\<bar>l\<bar> div \<bar>r\<bar> \<le> 2 ^ 62" .
  moreover have "0 \<le> \<bar>l\<bar> div \<bar>r\<bar>" using r(2) by (intro pos_imp_zdiv_nonneg_iff [THEN iffD2]) auto
  ultimately have "i64_range (l sdiv r)" by (auto simp: i64_range_def signed_divide_int_def sgn_if)
  then show ?thesis using False by auto
qed

section \<open>Properties\<close>

text \<open>
  C32: evaluating any expression on any document returns: either a value or an error of the
  query language. No combination of operand types, integer overflow, division by zero or NaN
  makes \<open>evaluate\<close> panic.
\<close>

theorem evaluate_never_panics:
  "(\<exists>v. evaluate e doc = Ok v) \<or> (\<exists>err. evaluate e doc = Err err)"
  using returns_evaluate [of e doc] by (rule returnsE) auto

text \<open>
  C33: integer arithmetic is exact or an error. When the mathematical result of \<open>+\<close>, \<open>-\<close>,
  \<open>*\<close>, \<open>/\<close> or \<open>%\<close> on two 64-bit integers exists (no division by zero) and is a 64-bit integer, the
  query gets that number, never a wrapped one; otherwise it gets an \<open>Arithmetic\<close> error. There is one
  exception: the remainder of the smallest integer by -1 is 0, and the query gets an error, since
  \<open>checked_rem\<close> fails when the quotient overflows.
\<close>

theorem int_arithmetic_exact:
  assumes "op \<in> {OpAdd, OpSub, OpMul, OpDiv, OpMod}"
  shows "if int_op_defined op (sint a) (sint b) \<and> \<not> (op = OpMod \<and> sint a = - (2 ^ 63) \<and> sint b = - 1)
    then \<exists>c. evaluate_int_arithmetic op a b = Ok (VInt c) \<and> sint c = exact_int op (sint a) (sint b)
    else \<exists>msg. evaluate_int_arithmetic op a b = Err (Arithmetic msg)"
proof -
  have m: "sint b \<noteq> 0 \<Longrightarrow> i64_range (sint a smod sint b)" by (rule i64_range_smod [OF i64_range_sint])
  note q = i64_range_sdiv [OF i64_range_sint i64_range_sint, of b a]
  have out: "\<not> i64_range (- 9223372036854775809)" by (simp add: i64_range_def)
  show ?thesis
    using assms m q out sint_word_of_int_i64 [OF m]
    by (auto simp: int_op_defined_def evaluate_int_arithmetic_def Let_def checked_i64_def sint_word_of_int_i64
        simp del: of_int_add of_int_diff of_int_mult)
qed

theorem int_arithmetic_exact_witness:
  "(\<exists>c. evaluate_int_arithmetic OpDiv (- 7) 2 = Ok (VInt c) \<and> sint c = - 3)
   \<and> (\<exists>msg. evaluate_int_arithmetic OpAdd 0x7FFFFFFFFFFFFFFF 1 = Err (Arithmetic msg))"
  using int_arithmetic_exact [of OpDiv "- 7" 2] int_arithmetic_exact [of OpAdd "0x7FFFFFFFFFFFFFFF" 1]
  by (simp add: int_op_defined_def i64_range_def)

end
