(* ===== verification/Doc_Key.thy ===== *)
theory Doc_Key
  imports F64
begin

unbundle bit_operations_syntax

text \<open>
  \<open>document/key.rs\<close>: the order-preserving encoding of scalar values that the indexes store.
  Keys are compared as byte strings, lexicographically and unsigned; the theorems say that this
  order is the numeric order of integers, the IEEE order of floats (with \<open>-0.0\<close> before
  \<open>+0.0\<close>), the byte order of strings, and the order of the type tags across types.
\<close>

section \<open>The key encoding\<close>

definition be_bytes :: "nat \<Rightarrow> nat \<Rightarrow> byte list" where
  "be_bytes k v = rev (le_bytes k v)"

definition sortable_int :: "i64 \<Rightarrow> 64 word" where
  "sortable_int n = n XOR push_bit 63 1"

definition sortable_float :: "f64 \<Rightarrow> 64 word" where
  "sortable_float bits = (if bits AND push_bit 63 1 \<noteq> 0 then NOT bits else bits XOR push_bit 63 1)"

fun serialize_key :: "doc_value \<Rightarrow> ('e, byte list) outcome" where
  "serialize_key VNull = Ok [0x00]"
| "serialize_key (VBool False) = Ok [0x01]"
| "serialize_key (VBool True) = Ok [0x02]"
| "serialize_key (VInt n) = Ok (0x03 # be_bytes 8 (unat (sortable_int n)))"
| "serialize_key (VFloat n) =
     (if f64_is_nan n then Panic ''NaN cannot be used as an index key''
      else Ok (0x04 # be_bytes 8 (unat (sortable_float n))))"
| "serialize_key (VString s) = Ok (0x05 # string_bytes s)"
| "serialize_key (VArray _) = Panic ''array values cannot be used as index keys yet''"
| "serialize_key (VDocument _) = Panic ''document values cannot be used as index keys yet''"

section \<open>Order\<close>

lemma be_bytes_Suc: "be_bytes (Suc k) v = be_bytes k (v div 256) @ [word_of_nat (v mod 256)]"
  by (simp add: be_bytes_def)

lemma length_be_bytes [simp]: "length (be_bytes k v) = k"
  by (simp add: be_bytes_def)

lemma snoc_less:
  fixes a b :: "'a :: linorder"
  assumes "length xs = length ys"
  shows "xs @ [a] < ys @ [b] \<longleftrightarrow> xs < ys \<or> xs = ys \<and> a < b"
  using assms by (induction xs ys rule: list_induct2) auto

lemma byte_of_nat_less: "i < 256 \<Longrightarrow> j < 256 \<Longrightarrow> (word_of_nat i :: byte) < word_of_nat j \<longleftrightarrow> i < j"
  by (simp add: word_less_nat_alt unat_of_nat)

lemma be_bytes_inject: "v < 256 ^ k \<Longrightarrow> w < 256 ^ k \<Longrightarrow> be_bytes k v = be_bytes k w \<longleftrightarrow> v = w"
  by (simp add: be_bytes_def le_bytes_inject)

lemma digit_less:
  "b < 256 \<Longrightarrow> d < 256 \<Longrightarrow> a * 256 + b < c * 256 + d \<longleftrightarrow> a < c \<or> a = c \<and> b < (d :: nat)"
  by (cases a c rule: linorder_cases) linarith+

lemma be_bytes_less: "v < 256 ^ k \<Longrightarrow> w < 256 ^ k \<Longrightarrow> be_bytes k v < be_bytes k w \<longleftrightarrow> v < w"
proof (induction k arbitrary: v w)
  case (Suc k)
  have b: "v div 256 < 256 ^ k" "w div 256 < 256 ^ k" using Suc.prems by (simp_all add: less_mult_imp_div_less mult.commute)
  have "v < w \<longleftrightarrow> v div 256 < w div 256 \<or> v div 256 = w div 256 \<and> v mod 256 < w mod 256"
    using digit_less [of "v mod 256" "w mod 256" "v div 256" "w div 256"] by simp
  then show ?case
    unfolding be_bytes_Suc using Suc.IH [OF b] be_bytes_inject [OF b]
    by (simp add: snoc_less byte_of_nat_less)
qed (simp add: be_bytes_def)

lemma bit_63_iff: "x < 2 ^ 64 \<Longrightarrow> bit x 63 \<longleftrightarrow> 2 ^ 63 \<le> (x :: nat)"
proof -
  assume "x < 2 ^ 64"
  then have "x div 2 ^ 63 < 2" by (simp add: less_mult_imp_div_less)
  moreover have "x div 2 ^ 63 = 0 \<longleftrightarrow> x < 2 ^ 63" by (simp add: div_eq_0_iff)
  ultimately show ?thesis by (auto simp: bit_iff_odd not_less less_2_cases_iff)
qed

lemma bit_63_unat: "bit (w :: 64 word) 63 \<longleftrightarrow> 2 ^ 63 \<le> unat w"
  using bit_63_iff [of "unat w"] unat_i64_less [of w] by (simp add: bit_unsigned_iff)

lemma int_offset:
  "int a = (if P then int b - 2 ^ 63 else int b + 2 ^ 63) \<Longrightarrow> (P \<Longrightarrow> 2 ^ 63 \<le> b) \<Longrightarrow>
    a = (if P then b - 2 ^ 63 else b + 2 ^ 63)"
  by (auto split: if_splits)

lemma xor_top_unat: "unat (w XOR push_bit 63 1 :: 64 word) = (if 2 ^ 63 \<le> unat w then unat w - 2 ^ 63 else unat w + 2 ^ 63)"
proof -
  have x: "uint (w XOR push_bit 63 1) = flip_bit 63 (uint w)"
    by (simp add: unsigned_xor_eq flip_bit_eq_xor)
  have b: "bit (uint w) 63 \<longleftrightarrow> 2 ^ 63 \<le> unat w"
    using bit_63_unat [of w] by (simp add: bit_unsigned_iff)
  have "uint (w XOR push_bit 63 1) = (if 2 ^ 63 \<le> unat w then uint w - 2 ^ 63 else uint w + 2 ^ 63)"
    unfolding x flip_bit_eq_if b by (simp add: unset_bit_eq set_bit_eq b [simplified])
  then have "int (unat (w XOR push_bit 63 1)) = (if 2 ^ 63 \<le> unat w then int (unat w) - 2 ^ 63 else int (unat w) + 2 ^ 63)"
    by simp
  then show ?thesis by (rule int_offset)
qed

lemma not_unat: "unat (NOT w :: 64 word) = 2 ^ 64 - 1 - unat w"
proof -
  have "NOT w = - 1 - w" by (simp add: not_eq_complement)
  moreover have "w \<le> - 1" by simp
  ultimately have "unat (NOT w) = unat (- 1 :: 64 word) - unat w" by (simp only: unat_sub)
  moreover have "unat (- 1 :: 64 word) = 2 ^ 64 - 1" by (simp add: unsigned_minus_1_eq_mask mask_eq_exp_minus_1)
  ultimately show ?thesis by simp
qed

lemma and_top_iff: "(w AND push_bit 63 1 :: 64 word) \<noteq> 0 \<longleftrightarrow> 2 ^ 63 \<le> unat w"
  unfolding push_bit_of_1 and_exp_eq_0_iff_not_bit by (simp only: not_not bit_63_unat)

lemma sint_unat: "sint (w :: 64 word) = (if 2 ^ 63 \<le> unat w then int (unat w) - 2 ^ 64 else int (unat w))"
proof -
  have "sint w = signed_take_bit 63 (uint w)" by (simp add: sint_uint)
  also have "\<dots> = take_bit (Suc 63) (uint w) - 2 ^ Suc 63 * of_bool (bit (uint w) 63)"
    by (rule signed_take_bit_eq_take_bit_minus)
  also have "take_bit (Suc 63) (uint w) = uint w"
    using uint_lt2p [of w] by (intro take_bit_int_eq_self) simp_all
  finally show ?thesis using bit_63_unat [of w] by (simp add: bit_unsigned_iff)
qed

lemma offset_order:
  fixes a b :: nat
  assumes "a < 2 ^ 64" and "b < 2 ^ 64"
  shows "(if 2 ^ 63 \<le> a then a - 2 ^ 63 else a + 2 ^ 63) < (if 2 ^ 63 \<le> b then b - 2 ^ 63 else b + 2 ^ 63) \<longleftrightarrow>
    (if 2 ^ 63 \<le> a then int a - 2 ^ 64 else int a) < (if 2 ^ 63 \<le> b then int b - 2 ^ 64 else int b)"
  using assms by auto

lemma sortable_int_less: "unat (sortable_int n) < unat (sortable_int m) \<longleftrightarrow> sint n < sint m"
  unfolding sortable_int_def xor_top_unat sint_unat
  using unat_i64_less [of n] unat_i64_less [of m] by (intro offset_order) simp_all

lemma sortable_int_inject: "unat (sortable_int n) = unat (sortable_int m) \<longleftrightarrow> n = m"
  by (metis sortable_int_def bit.xor_left_self xor.commute word_unat_eq_iff)

lemma f64_mag_alt: "f64_mag x = (if 2 ^ 63 \<le> unat x then unat x - 2 ^ 63 else unat x)"
proof (cases "2 ^ 63 \<le> unat x")
  case True
  then have "unat x mod 2 ^ 63 = (unat x - 2 ^ 63) mod 2 ^ 63" by (rule le_mod_geq)
  then have "unat x mod 2 ^ 63 = unat x - 2 ^ 63" using unat_i64_less [of x] by simp
  with True show ?thesis by (simp add: f64_mag_def)
qed (simp add: f64_mag_def)

lemma sortable_float_unat:
  "unat (sortable_float x) = (if f64_sign x then 2 ^ 63 - 1 - f64_mag x else 2 ^ 63 + f64_mag x)"
  unfolding sortable_float_def and_top_iff f64_sign_def bit_63_unat f64_mag_alt
  by (simp add: not_unat xor_top_unat [simplified])

lemma f64_mag_less: "f64_mag x < 2 ^ 63"
  by (simp add: f64_mag_def)

lemma f64_eq_iff: "x = y \<longleftrightarrow> f64_sign x = f64_sign y \<and> f64_mag x = f64_mag y"
proof
  assume a: "f64_sign x = f64_sign y \<and> f64_mag x = f64_mag y"
  then have "unat x = unat y"
    unfolding f64_sign_def bit_63_unat f64_mag_alt by (auto split: if_splits)
  then show "x = y" by (simp add: word_unat_eq_iff)
qed simp

definition f64_before :: "f64 \<Rightarrow> f64 \<Rightarrow> bool" where
  "f64_before x y \<longleftrightarrow> f64_ord x < f64_ord y \<or> f64_ord x = f64_ord y \<and> f64_sign x \<and> \<not> f64_sign y"

lemma sortable_float_less: "unat (sortable_float x) < unat (sortable_float y) \<longleftrightarrow> f64_before x y"
  using f64_mag_less [of x] f64_mag_less [of y]
  unfolding sortable_float_unat f64_before_def f64_ord_def by auto

lemma sortable_float_inject: "unat (sortable_float x) = unat (sortable_float y) \<longleftrightarrow> x = y"
  using f64_mag_less [of x] f64_mag_less [of y]
  unfolding sortable_float_unat f64_eq_iff by auto

lemma byte_of_char_less: "(word_of_nat (of_char c) :: byte) < word_of_nat (of_char d) \<longleftrightarrow> c < d"
  by (simp add: byte_of_nat_less less_char_def)

lemma byte_of_char_inject: "(word_of_nat (of_char c) :: byte) = word_of_nat (of_char d) \<longleftrightarrow> c = d"
  by (metis char_of_byte_of)

lemma string_bytes_less: "string_bytes s < string_bytes t \<longleftrightarrow> s < t"
proof (induction s arbitrary: t)
  case (Cons c s)
  then show ?case
    by (cases t) (auto simp: string_bytes_def byte_of_char_less byte_of_char_inject)
qed (auto simp: string_bytes_def neq_Nil_conv; case_tac t; simp)

fun key_rank :: "doc_value \<Rightarrow> nat" where
  "key_rank VNull = 0"
| "key_rank (VBool b) = (if b then 2 else 1)"
| "key_rank (VInt _) = 3"
| "key_rank (VFloat _) = 4"
| "key_rank (VString _) = 5"
| "key_rank (VArray _) = 6"
| "key_rank (VDocument _) = 7"

fun key_before :: "doc_value \<Rightarrow> doc_value \<Rightarrow> bool" where
  "key_before (VInt n) (VInt m) \<longleftrightarrow> sint n < sint m"
| "key_before (VFloat x) (VFloat y) \<longleftrightarrow> f64_before x y"
| "key_before (VString s) (VString t) \<longleftrightarrow> s < t"
| "key_before a b \<longleftrightarrow> key_rank a < key_rank b"

lemma be_bytes_word_less:
  "be_bytes 8 (unat (v :: 64 word)) < be_bytes 8 (unat (w :: 64 word)) \<longleftrightarrow> unat v < unat w"
  using unat_i64_less [of v] unat_i64_less [of w] by (intro be_bytes_less) simp_all

lemma be_bytes_word_inject:
  "be_bytes 8 (unat (v :: 64 word)) = be_bytes 8 (unat (w :: 64 word)) \<longleftrightarrow> unat v = unat w"
  using unat_i64_less [of v] unat_i64_less [of w] by (intro be_bytes_inject) simp_all

lemmas key_order_simps = be_bytes_word_less be_bytes_word_inject sortable_int_less sortable_int_inject
  sortable_float_less sortable_float_inject string_bytes_less

lemma serialize_key_less:
  "serialize_key a = Ok x \<Longrightarrow> serialize_key b = Ok y \<Longrightarrow> x < y \<longleftrightarrow> key_before a b"
  by (cases a rule: serialize_key.cases; cases b rule: serialize_key.cases)
    (auto simp: key_order_simps split: if_splits)

lemma serialize_key_eq:
  "serialize_key a = Ok x \<Longrightarrow> serialize_key b = Ok y \<Longrightarrow> x = y \<longleftrightarrow> a = b"
  by (cases a rule: serialize_key.cases; cases b rule: serialize_key.cases)
    (auto simp: key_order_simps split: if_splits)

section \<open>Properties\<close>

text \<open>
  C23: index keys sort like the values they stand for. For any two values that have a key, the
  bytes of the first are below the bytes of the second exactly when the first value comes
  before the second (integers by their signed value, floats by the IEEE order, strings by
  bytes, different types by their tag), and two values share a key only if they are the same.
\<close>

theorem serialize_key_order:
  assumes "serialize_key a = (Ok x :: (unit, byte list) outcome)"
    and "serialize_key b = (Ok y :: (unit, byte list) outcome)"
  shows "(x < y \<longleftrightarrow> key_before a b) \<and> (x = y \<longleftrightarrow> a = b)"
  using serialize_key_less [OF assms] serialize_key_eq [OF assms] by blast

theorem serialize_key_order_witness:
  "be_bytes 8 (unat (sortable_int (- 7))) < be_bytes 8 (unat (sortable_int 3))
   \<and> key_before (VInt (- 7)) (VInt 3)"
  using serialize_key_order [of "VInt (- 7)" _ "VInt 3", OF serialize_key.simps(4) serialize_key.simps(4)]
  by simp

end
