(* ===== verification/Query_Planner.thy ===== *)
theory Query_Planner
  imports Query_Eval Doc_Key
begin

text \<open>
  \<open>query/plan.rs\<close> and \<open>query/planner.rs\<close>: the physical operator tree and the translation of a
  bound pipeline into it.

  The planner asks the database one question, whether a field has an index; the functions take
  that as the argument \<open>has_index\<close>. \<open>std::ptr::eq\<close> finds the position of the stage the loop is
  at, so the loop carries its index. The lemmas show when pushing a comparison into an index
  scan keeps the answer of the query; what the executor makes of such a plan is shown in
  \<open>Query_Index\<close>.
\<close>

section \<open>Physical plans\<close>

record scan_bounds =
  sb_low :: "doc_value option"
  sb_high :: "doc_value option"

definition bounds_exact :: "doc_value \<Rightarrow> scan_bounds" where
  "bounds_exact v = \<lparr>sb_low = Some v, sb_high = Some v\<rparr>"

definition bounds_unbounded :: scan_bounds where
  "bounds_unbounded = \<lparr>sb_low = None, sb_high = None\<rparr>"

datatype physical_op =
    SeqScan string
  | IndexScan string string scan_bounds
  | FilterOp physical_op expr
  | Projection physical_op "select_item list option"
  | DropOp physical_op "string list"
  | Sort physical_op "order_key list"
  | Limit physical_op nat
  | Offset physical_op nat
  | HashAggregate physical_op "string list" "select_item list"
  | HashJoin physical_op physical_op string string
  | InsertOp string "document list"
  | UpdateOp physical_op string "assignment list"
  | UpsertOp physical_op string doc_literal
  | DeleteOp physical_op string

fun collection_name :: "physical_op \<Rightarrow> string option" where
  "collection_name (SeqScan c) = Some c"
| "collection_name (IndexScan c _ _) = Some c"
| "collection_name (InsertOp c _) = Some c"
| "collection_name (UpdateOp _ c _) = Some c"
| "collection_name (UpsertOp _ c _) = Some c"
| "collection_name (DeleteOp _ c) = Some c"
| "collection_name (FilterOp input _) = collection_name input"
| "collection_name (Projection input _) = collection_name input"
| "collection_name (DropOp input _) = collection_name input"
| "collection_name (Sort input _) = collection_name input"
| "collection_name (Limit input _) = collection_name input"
| "collection_name (Offset input _) = collection_name input"
| "collection_name (HashAggregate input _ _) = collection_name input"
| "collection_name (HashJoin _ _ _ _) = None"

section \<open>Index selection\<close>

fun split_conjuncts :: "expr \<Rightarrow> expr list" where
  "split_conjuncts (EBinOp OpAnd left right) = split_conjuncts left @ split_conjuncts right"
| "split_conjuncts other = [other]"

fun flip :: "bin_op \<Rightarrow> bin_op" where
  "flip OpGt = OpLt"
| "flip OpGtEq = OpLtEq"
| "flip OpLt = OpGt"
| "flip OpLtEq = OpGtEq"
| "flip other = other"

definition indexed_field_of :: "expr \<Rightarrow> string option" where
  "indexed_field_of e = (case e of
     EBinOp _ (EField f) (ELit _) \<Rightarrow> Some f
   | EBinOp _ (ELit _) (EField f) \<Rightarrow> Some f
   | _ \<Rightarrow> None)"

definition normalised_test :: "expr \<Rightarrow> string \<Rightarrow> (bin_op \<times> doc_value) option" where
  "normalised_test e field = (case e of
     EBinOp op (EField f) (ELit lit) \<Rightarrow> if f = field then Some (op, literal_to_value lit) else None
   | EBinOp op (ELit lit) (EField f) \<Rightarrow> if f = field then Some (flip op, literal_to_value lit) else None
   | _ \<Rightarrow> None)"

definition as_index_bound :: "expr \<Rightarrow> string \<Rightarrow> (scan_bounds \<times> bool) option" where
  "as_index_bound e field = (case normalised_test e field of
     None \<Rightarrow> None
   | Some (op, v) \<Rightarrow> (case op of
       OpEq \<Rightarrow> Some (bounds_exact v, True)
     | OpGtEq \<Rightarrow> Some (\<lparr>sb_low = Some v, sb_high = None\<rparr>, True)
     | OpGt \<Rightarrow> Some (\<lparr>sb_low = Some v, sb_high = None\<rparr>, False)
     | OpLtEq \<Rightarrow> Some (\<lparr>sb_low = None, sb_high = Some v\<rparr>, True)
     | OpLt \<Rightarrow> Some (\<lparr>sb_low = None, sb_high = Some v\<rparr>, False)
     | _ \<Rightarrow> None))"

definition I64_MIN :: i64 where "I64_MIN = 0x8000000000000000"
definition I64_MAX :: i64 where "I64_MAX = 0x7FFFFFFFFFFFFFFF"
definition F64_INFINITY :: f64 where "F64_INFINITY = 0x7FF0000000000000"
definition F64_NEG_INFINITY :: f64 where "F64_NEG_INFINITY = 0xFFF0000000000000"

definition type_min :: "doc_value \<Rightarrow> doc_value option" where
  "type_min like = (case like of
     VInt _ \<Rightarrow> Some (VInt I64_MIN) | VFloat _ \<Rightarrow> Some (VFloat F64_NEG_INFINITY) | _ \<Rightarrow> None)"

definition type_max :: "doc_value \<Rightarrow> doc_value option" where
  "type_max like = (case like of
     VInt _ \<Rightarrow> Some (VInt I64_MAX) | VFloat _ \<Rightarrow> Some (VFloat F64_INFINITY) | _ \<Rightarrow> None)"

definition close_bounds :: "scan_bounds \<Rightarrow> scan_bounds option" where
  "close_bounds bounds = (case (sb_low bounds, sb_high bounds) of
     (Some _, Some _) \<Rightarrow> Some bounds
   | (Some low, None) \<Rightarrow> map_option (\<lambda>high. bounds\<lparr>sb_high := Some high\<rparr>) (type_max low)
   | (None, Some high) \<Rightarrow> map_option (\<lambda>low. bounds\<lparr>sb_low := Some low\<rparr>) (type_min high)
   | (None, None) \<Rightarrow> None)"

text \<open>The body of the loop over the conjuncts: the scan and whether it enforces the conjunct.\<close>

definition try_conjunct :: "(string \<Rightarrow> string \<Rightarrow> bool) \<Rightarrow> string \<Rightarrow> expr \<Rightarrow> (physical_op \<times> bool) option" where
  "try_conjunct has_index collection conjunct =
     Option.bind (indexed_field_of conjunct) (\<lambda>field.
     if \<not> has_index collection field then None else
     Option.bind (as_index_bound conjunct field) (\<lambda>(bounds, exact).
     Option.bind (close_bounds bounds) (\<lambda>bounds.
     Some (IndexScan collection field bounds, exact))))"

fun first_index_scan :: "(string \<Rightarrow> string \<Rightarrow> bool) \<Rightarrow> string \<Rightarrow> (nat \<times> expr) list \<Rightarrow> (physical_op \<times> nat list) option" where
  "first_index_scan has_index collection [] = None"
| "first_index_scan has_index collection ((i, conjunct) # rest) =
     (case try_conjunct has_index collection conjunct of
        Some (scan, exact) \<Rightarrow> Some (scan, if exact then [i] else [])
      | None \<Rightarrow> first_index_scan has_index collection rest)"

definition plan_source :: "(string \<Rightarrow> string \<Rightarrow> bool) \<Rightarrow> string \<Rightarrow> expr option \<Rightarrow> physical_op \<times> nat list" where
  "plan_source has_index collection predicate = (case predicate of
     None \<Rightarrow> (SeqScan collection, [])
   | Some p \<Rightarrow> (case first_index_scan has_index collection (enumerate 0 (split_conjuncts p)) of
       Some r \<Rightarrow> r
     | None \<Rightarrow> (SeqScan collection, [])))"

text \<open>\<open>residual_predicate\<close>: the conjuncts that are kept, joined by \<open>and\<close> again.\<close>

definition kept_conjuncts :: "expr \<Rightarrow> nat list \<Rightarrow> expr list" where
  "kept_conjuncts e absorbed = map snd (filter (\<lambda>(i, _). i \<notin> set absorbed) (enumerate 0 (split_conjuncts e)))"

definition residual_predicate :: "expr \<Rightarrow> nat list \<Rightarrow> expr option" where
  "residual_predicate e absorbed = (case kept_conjuncts e absorbed of
     [] \<Rightarrow> None
   | first # rest \<Rightarrow> Some (foldl (EBinOp OpAnd) first rest))"

section \<open>Stages\<close>

definition non_negative :: "i64 \<Rightarrow> string \<Rightarrow> nat query_result" where
  "non_negative n what = (if sint n < 0
     then Err (Validation (what @ '' must not be negative, got '' @ int_to_string (sint n)))
     else Ok (nat (sint n)))"

definition plan_stage :: "physical_op \<Rightarrow> stage \<Rightarrow> physical_op query_result" where
  "plan_stage input stage = (
     let collection = (case collection_name input of Some c \<Rightarrow> c | None \<Rightarrow> [])
     in case stage of
       SDrop fs \<Rightarrow> Ok (DropOp input fs)
     | SOrder keys \<Rightarrow> Ok (Sort input keys)
     | SLimit n \<Rightarrow> bindO (non_negative n ''limit'') (\<lambda>n. Ok (Limit input n))
     | SOffset n \<Rightarrow> bindO (non_negative n ''offset'') (\<lambda>n. Ok (Offset input n))
     | SJoin right lf rf \<Rightarrow> Ok (HashJoin input (SeqScan right) lf rf)
     | SUpdate assignments \<Rightarrow> Ok (UpdateOp input collection assignments)
     | SUpsert doc \<Rightarrow> Ok (UpsertOp input collection doc)
     | SDelete \<Rightarrow> Ok (DeleteOp input collection)
     | SFrom _ _ \<Rightarrow> Err (InvalidPipeline ''from may only appear as the first stage'')
     | _ \<Rightarrow> Panic ''handled in plan()'')"

definition next_select_items :: "pipeline \<Rightarrow> nat \<Rightarrow> select_item list option" where
  "next_select_items p idx = (if idx + 1 < length p
     then (case p ! (idx + 1) of SSelect items \<Rightarrow> Some (case items of Some xs \<Rightarrow> xs | None \<Rightarrow> []) | _ \<Rightarrow> None)
     else None)"

definition is_group :: "stage \<Rightarrow> bool" where
  "is_group s = (case s of SGroup _ \<Rightarrow> True | _ \<Rightarrow> False)"

definition follows_group :: "pipeline \<Rightarrow> nat \<Rightarrow> bool" where
  "follows_group p idx \<longleftrightarrow> 0 < idx \<and> idx - 1 < length p \<and> is_group (p ! (idx - 1))"

text \<open>One round of the loop of \<open>plan\<close>, on the stage at position \<open>idx\<close>.\<close>

definition plan_step :: "pipeline \<Rightarrow> nat list \<Rightarrow> nat \<Rightarrow> stage \<Rightarrow> physical_op \<Rightarrow> physical_op query_result" where
  "plan_step p absorbed idx stage tree = (case stage of
     SWhere e \<Rightarrow> Ok (case residual_predicate e absorbed of Some residual \<Rightarrow> FilterOp tree residual | None \<Rightarrow> tree)
   | SGroup fs \<Rightarrow> (case next_select_items p idx of
        Some items \<Rightarrow> Ok (HashAggregate tree fs items)
      | None \<Rightarrow> Err (InvalidPipeline ''group must be followed by a select''))
   | SSelect items \<Rightarrow> Ok (if follows_group p idx then tree else Projection tree items)
   | other \<Rightarrow> plan_stage tree other)"

fun plan_stages :: "pipeline \<Rightarrow> nat list \<Rightarrow> (nat \<times> stage) list \<Rightarrow> physical_op \<Rightarrow> physical_op query_result" where
  "plan_stages p absorbed [] tree = Ok tree"
| "plan_stages p absorbed ((idx, stage) # rest) tree =
     bindO (plan_step p absorbed idx stage tree) (plan_stages p absorbed rest)"

definition find_insert :: "pipeline \<Rightarrow> doc_literal list option" where
  "find_insert p = (case List.find (\<lambda>s. case s of SInsert _ \<Rightarrow> True | _ \<Rightarrow> False) p of
     Some (SInsert docs) \<Rightarrow> Some docs | _ \<Rightarrow> None)"

definition find_where :: "pipeline \<Rightarrow> expr option" where
  "find_where p = (case List.find (\<lambda>s. case s of SWhere _ \<Rightarrow> True | _ \<Rightarrow> False) p of
     Some (SWhere e) \<Rightarrow> Some e | _ \<Rightarrow> None)"

definition plan :: "(string \<Rightarrow> string \<Rightarrow> bool) \<Rightarrow> pipeline \<Rightarrow> physical_op query_result" where
  "plan has_index p = (case p of
     SFrom collection _ # _ \<Rightarrow>
       (case find_insert p of
          Some docs \<Rightarrow> bindO (mapO doc_literal_to_document docs) (\<lambda>out. Ok (InsertOp collection out))
        | None \<Rightarrow>
            (case plan_source has_index collection (find_where p) of (tree, absorbed) \<Rightarrow>
               plan_stages p absorbed (tl (enumerate 0 p)) tree))
   | _ \<Rightarrow> Err (InvalidPipeline ''pipeline must start with a from stage''))"

section \<open>Dropping a conjunct\<close>

text \<open>A conjunction evaluates its conjuncts from left to right and stops at the first that is false.\<close>

definition andO :: "('e, bool) outcome \<Rightarrow> ('e, bool) outcome \<Rightarrow> ('e, bool) outcome" where
  "andO m k = bindO m (\<lambda>b. if b then k else Ok False)"

fun all_true :: "expr list \<Rightarrow> document \<Rightarrow> bool query_result" where
  "all_true [] doc = Ok True"
| "all_true (c # cs) doc = andO (evaluate_bool c doc) (all_true cs doc)"

lemma andO_simps [simp]: "andO (Ok True) k = k" "andO (Ok False) k = Ok False" "andO m (Ok True) = m"
  by (cases m; simp add: andO_def)+

lemma andO_assoc: "andO (andO a b) c = andO a (andO b c)"
  by (cases a) (auto simp: andO_def)

lemma andO_True_iff: "andO a b = Ok True \<longleftrightarrow> a = Ok True \<and> b = Ok True"
  by (cases a) (auto simp: andO_def)

lemma all_true_append: "all_true (xs @ ys) doc = andO (all_true xs doc) (all_true ys doc)"
  by (induction xs) (auto simp: andO_assoc)

lemma evaluate_bool_and:
  "evaluate_bool (EBinOp OpAnd l r) doc = andO (evaluate_bool l doc) (evaluate_bool r doc)"
proof (cases "evaluate_bool l doc")
  case (Ok b)
  then show ?thesis by (cases "evaluate_bool r doc"; cases b) (auto simp: evaluate_bool_def andO_def)
qed (auto simp: evaluate_bool_def andO_def)

lemma evaluate_conjuncts: "evaluate_bool e doc = all_true (split_conjuncts e) doc"
  by (induction e rule: split_conjuncts.induct) (simp_all add: evaluate_bool_and all_true_append)

lemma evaluate_foldl_and:
  "evaluate_bool (foldl (EBinOp OpAnd) e es) doc = andO (evaluate_bool e doc) (all_true es doc)"
  by (induction es arbitrary: e) (simp_all add: evaluate_bool_and andO_assoc)

definition filter_result :: "expr option \<Rightarrow> document \<Rightarrow> bool query_result" where
  "filter_result p doc = (case p of None \<Rightarrow> Ok True | Some r \<Rightarrow> evaluate_bool r doc)"

lemma residual_all_true: "filter_result (residual_predicate e absorbed) doc = all_true (kept_conjuncts e absorbed) doc"
  by (simp add: filter_result_def residual_predicate_def evaluate_foldl_and split: list.split)

lemma all_true_drop:
  "(\<And>i c. (i, c) \<in> set xs \<Longrightarrow> i \<in> A \<Longrightarrow> evaluate_bool c doc = Ok True) \<Longrightarrow>
    all_true (map snd (filter (\<lambda>(i, _). i \<notin> A) xs)) doc = all_true (map snd xs) doc"
proof (induction xs)
  case (Cons x xs)
  have "all_true (map snd (filter (\<lambda>(i, _). i \<notin> A) xs)) doc = all_true (map snd xs) doc"
    by (rule Cons.IH) (use Cons.prems in auto)
  with Cons.prems [of "fst x" "snd x"] show ?case by (cases x) auto
qed simp

lemma residual_sound:
  assumes "\<And>i. i \<in> set absorbed \<Longrightarrow> i < length (split_conjuncts e) \<Longrightarrow>
    evaluate_bool (split_conjuncts e ! i) doc = Ok True"
  shows "filter_result (residual_predicate e absorbed) doc = evaluate_bool e doc"
proof -
  have "all_true (kept_conjuncts e absorbed) doc = all_true (map snd (enumerate 0 (split_conjuncts e))) doc"
    unfolding kept_conjuncts_def by (rule all_true_drop) (use assms in \<open>auto simp: in_set_enumerate_eq\<close>)
  then show ?thesis by (simp add: residual_all_true evaluate_conjuncts [of e])
qed

section \<open>Index bounds\<close>

definition key_of :: "doc_value \<Rightarrow> byte list" where
  "key_of v = (case serialize_key v of Ok k \<Rightarrow> k | Err (_ :: unit) \<Rightarrow> [] | _ \<Rightarrow> [])"

definition has_key :: "doc_value \<Rightarrow> bool" where
  "has_key v \<longleftrightarrow> (\<exists>k. serialize_key v = (Ok k :: (unit, byte list) outcome))"

text \<open>The entries an index scan visits: the key of the field is between the keys of the bounds.\<close>

definition in_bounds :: "scan_bounds \<Rightarrow> doc_value \<Rightarrow> bool" where
  "in_bounds b v \<longleftrightarrow> (\<exists>lo hi. sb_low b = Some lo \<and> sb_high b = Some hi
     \<and> key_of lo \<le> key_of v \<and> key_of v \<le> key_of hi)"

text \<open>
  A value and a literal that the index compares as the evaluator does: the same type, no NaN,
  and not the two different zeros.
\<close>

fun index_comparable :: "doc_value \<Rightarrow> doc_value \<Rightarrow> bool" where
  "index_comparable (VInt _) (VInt _) = True"
| "index_comparable (VFloat x) (VFloat y) =
     (\<not> f64_is_nan x \<and> \<not> f64_is_nan y \<and> (f64_ord x = f64_ord y \<longrightarrow> x = y))"
| "index_comparable (VString _) (VString _) = True"
| "index_comparable (VBool _) (VBool _) = True"
| "index_comparable VNull VNull = True"
| "index_comparable _ _ = False"

lemma has_key_bool: "\<exists>k. serialize_key (VBool b) = Ok k"
  by (cases b) auto

lemma index_comparable_has_key: "index_comparable v w \<Longrightarrow> has_key v \<and> has_key w"
  by (cases "(v, w)" rule: index_comparable.cases) (auto simp: has_key_def has_key_bool)

lemma key_of_less: "has_key a \<Longrightarrow> has_key b \<Longrightarrow> key_of a < key_of b \<longleftrightarrow> key_before a b"
  by (auto simp: has_key_def key_of_def serialize_key_less)

lemma key_of_le: "has_key a \<Longrightarrow> has_key b \<Longrightarrow> key_of a \<le> key_of b \<longleftrightarrow> \<not> key_before b a"
  by (simp add: key_of_less flip: not_less)

lemma key_of_eq: "has_key a \<Longrightarrow> has_key b \<Longrightarrow> key_of a = key_of b \<longleftrightarrow> a = b"
  by (auto simp: has_key_def key_of_def serialize_key_eq)

lemma f64_before_comparable:
  "index_comparable (VFloat x) (VFloat y) \<Longrightarrow> f64_before x y \<longleftrightarrow> f64_ord x < f64_ord y"
  by (auto simp: f64_before_def)

lemma values_equal_comparable: "index_comparable v w \<Longrightarrow> values_equal v w \<longleftrightarrow> v = w"
  by (cases "(v, w)" rule: index_comparable.cases)
    (auto simp: f64_eq_def f64_partial_cmp_def cmp_def split: if_splits)

lemma index_comparable_sym: "index_comparable v w \<Longrightarrow> index_comparable w v"
  by (cases "(v, w)" rule: index_comparable.cases) auto

text \<open>Values on which the ordering operators are defined.\<close>

fun ordered_value :: "doc_value \<Rightarrow> bool" where
  "ordered_value (VInt _) = True"
| "ordered_value (VFloat _) = True"
| "ordered_value (VString _) = True"
| "ordered_value _ = False"

lemma compare_values_comparable:
  assumes "index_comparable v w" and "ordered_value w"
  shows "compare_values v w = Ok (if key_before v w then Less else if v = w then Equal else Greater)"
  using assms
  by (cases "(v, w)" rule: index_comparable.cases)
    (auto simp: cmp_def compare_floats_def f64_partial_cmp_def f64_before_comparable signed_word_eqI)

lemma key_before_total:
  assumes "index_comparable v w" and "v \<noteq> w"
  shows "key_before w v \<longleftrightarrow> \<not> key_before v w"
  using key_of_less [of v w] key_of_less [of w v] key_of_eq [of v w] index_comparable_has_key [OF assms(1)] assms(2)
  by auto

lemma key_before_irrefl: "has_key v \<Longrightarrow> \<not> key_before v v"
  using key_of_less [of v v] by simp

text \<open>What a comparison of a field with a literal decides, in terms of the keys.\<close>

fun key_test :: "bin_op \<Rightarrow> doc_value \<Rightarrow> doc_value \<Rightarrow> bool" where
  "key_test OpEq v w \<longleftrightarrow> v = w"
| "key_test OpGt v w \<longleftrightarrow> key_before w v"
| "key_test OpGtEq v w \<longleftrightarrow> \<not> key_before v w"
| "key_test OpLt v w \<longleftrightarrow> key_before v w"
| "key_test OpLtEq v w \<longleftrightarrow> \<not> key_before w v"
| "key_test _ v w \<longleftrightarrow> False"

definition pushable :: "bin_op \<Rightarrow> doc_value \<Rightarrow> bool" where
  "pushable op w \<longleftrightarrow> op = OpEq \<or> op \<in> {OpGt, OpGtEq, OpLt, OpLtEq} \<and> ordered_value w"

lemma ordered_not_null: "ordered_value w \<Longrightarrow> w \<noteq> VNull"
  by auto

lemma comparable_null: "index_comparable v w \<Longrightarrow> v = VNull \<longleftrightarrow> w = VNull"
  by (cases "(v, w)" rule: index_comparable.cases) auto

lemma evaluate_comparison_key:
  assumes c: "index_comparable v w" and p: "pushable op w"
  shows "evaluate_comparison op v w = Ok (VBool (key_test op v w))"
proof (cases "op = OpEq")
  case True
  then show ?thesis by (simp add: evaluate_comparison_def is_ordering_op_def values_equal_comparable [OF c])
next
  case False
  with p have o: "op \<in> {OpGt, OpGtEq, OpLt, OpLtEq}" "ordered_value w" by (auto simp: pushable_def)
  then have n: "v \<noteq> VNull" "w \<noteq> VNull" using comparable_null [OF c] ordered_not_null by auto
  have k: "key_before w v \<longleftrightarrow> \<not> key_before v w" if "v \<noteq> w" using key_before_total [OF c that] .
  have i: "\<not> key_before v v" using index_comparable_has_key [OF c] key_before_irrefl by blast
  show ?thesis
    using o n i k by (auto simp: evaluate_comparison_def compare_values_comparable [OF c o(2)])
qed

lemma evaluate_comparison_flip:
  assumes c: "index_comparable v w" and p: "pushable (flip op) w"
  shows "evaluate_comparison op w v = Ok (VBool (key_test (flip op) v w))"
proof (cases "op = OpEq")
  case True
  then show ?thesis
    by (auto simp: evaluate_comparison_def is_ordering_op_def values_equal_comparable [OF index_comparable_sym [OF c]])
next
  case False
  with p have o: "op \<in> {OpGt, OpGtEq, OpLt, OpLtEq}" "ordered_value w" by (cases op; auto simp: pushable_def)+
  have ov: "ordered_value v" using c o(2) by (cases "(v, w)" rule: index_comparable.cases) auto
  have n: "v \<noteq> VNull" "w \<noteq> VNull" using ordered_not_null ov o(2) by auto
  have k: "key_before w v \<longleftrightarrow> \<not> key_before v w" if "v \<noteq> w" using key_before_total [OF c that] .
  have i: "\<not> key_before v v" using index_comparable_has_key [OF c] key_before_irrefl by blast
  show ?thesis
    using o n i k by (auto simp: evaluate_comparison_def compare_values_comparable [OF index_comparable_sym [OF c] ov])
qed

lemma normalised_test_eval:
  assumes "normalised_test c f = Some (op, w)" and "pushable op w" and "doc_get doc f = Some v"
    and "index_comparable v w"
  shows "evaluate_bool c doc = Ok (key_test op v w)"
proof -
  have b: "op' \<noteq> OpAnd \<and> op' \<noteq> OpOr \<and> op' \<in> {OpEq, OpNotEq, OpGt, OpGtEq, OpLt, OpLtEq}"
    if "pushable op' w \<or> pushable (flip op') w" for op' using that by (cases op') (auto simp: pushable_def)
  from assms(1) show ?thesis
    unfolding normalised_test_def
    using assms(2-4) b evaluate_comparison_key [OF assms(4)] evaluate_comparison_flip [OF assms(4)]
    by (auto simp: evaluate_bool_def field_or_null_def split: expr.splits if_splits)
qed

lemma sint_bounds: "\<not> key_before (VInt n) (VInt I64_MIN)" "\<not> key_before (VInt I64_MAX) (VInt n)"
  using i64_range_sint [of n] by (simp_all add: I64_MIN_def I64_MAX_def i64_range_def)

lemma f64_inf_parts:
  "f64_mag F64_INFINITY = F64_INF_MAG" "\<not> f64_sign F64_INFINITY"
  "f64_mag F64_NEG_INFINITY = F64_INF_MAG" "f64_sign F64_NEG_INFINITY"
  by (simp_all add: f64_mag_def f64_sign_def F64_INFINITY_def F64_NEG_INFINITY_def F64_INF_MAG_def bit_63_unat)

lemma float_bounds:
  "\<not> f64_is_nan x \<Longrightarrow> \<not> key_before (VFloat x) (VFloat F64_NEG_INFINITY)"
  "\<not> f64_is_nan x \<Longrightarrow> \<not> key_before (VFloat F64_INFINITY) (VFloat x)"
  by (auto simp: f64_before_def f64_ord_def f64_inf_parts f64_is_nan_def F64_INF_MAG_def)

lemma inf_has_key: "has_key (VFloat F64_INFINITY)" "has_key (VFloat F64_NEG_INFINITY)"
  by (simp_all add: has_key_def f64_is_nan_def f64_inf_parts)

lemma type_max_key:
  assumes "type_max w = Some m" and "index_comparable v w"
  shows "key_of v \<le> key_of m" and "ordered_value w"
  using assms key_of_le [of v m] sint_bounds(2) float_bounds(2) inf_has_key index_comparable_has_key [OF assms(2)]
  by (cases "(v, w)" rule: index_comparable.cases; auto simp: type_max_def has_key_def)+

lemma type_min_key:
  assumes "type_min w = Some m" and "index_comparable v w"
  shows "key_of m \<le> key_of v" and "ordered_value w"
  using assms key_of_le [of m v] sint_bounds(1) float_bounds(1) inf_has_key index_comparable_has_key [OF assms(2)]
  by (cases "(v, w)" rule: index_comparable.cases; auto simp: type_min_def has_key_def)+

text \<open>
  A conjunct that drives an index scan: the scan visits every document whose field satisfies it,
  and exactly those when the planner calls the bound exact.
\<close>

lemma index_bound_sound:
  assumes b: "as_index_bound c f = Some (b, exact)" and cb: "close_bounds b = Some cb"
    and n: "normalised_test c f = Some (op, w)"
    and v: "doc_get doc f = Some v" and cmp: "index_comparable v w"
  shows "evaluate_bool c doc = Ok (key_test op v w)"
    and "key_test op v w \<Longrightarrow> in_bounds cb v"
    and "exact \<Longrightarrow> in_bounds cb v \<Longrightarrow> key_test op v w"
proof -
  have hk: "has_key v" "has_key w" using index_comparable_has_key [OF cmp] by auto
  have op: "op \<in> {OpEq, OpGt, OpGtEq, OpLt, OpLtEq}" using b n by (auto simp: as_index_bound_def split: bin_op.splits)
  have pu: "pushable op w"
    using op b cb n type_max_key(2) [OF _ cmp] type_min_key(2) [OF _ cmp]
    by (auto simp: pushable_def as_index_bound_def close_bounds_def split: option.splits)
  show "evaluate_bool c doc = Ok (key_test op v w)" by (rule normalised_test_eval [OF n pu v cmp])
  have sym: "key_before w v \<Longrightarrow> \<not> key_before v w"
    using key_before_total [OF cmp] key_before_irrefl [OF hk(1)] by blast
  have bounds: "in_bounds cb v \<longleftrightarrow> (case op of OpEq \<Rightarrow> v = w
      | OpGt \<Rightarrow> \<not> key_before v w | OpGtEq \<Rightarrow> \<not> key_before v w | _ \<Rightarrow> \<not> key_before w v)"
    using op b cb n type_max_key(1) [OF _ cmp] type_min_key(1) [OF _ cmp] key_of_le [OF hk] key_of_le [OF hk(2,1)]
      key_of_eq [OF hk] order_antisym [of "key_of w" "key_of v"]
    by (auto simp: in_bounds_def as_index_bound_def close_bounds_def bounds_exact_def split: option.splits)
  show "key_test op v w \<Longrightarrow> in_bounds cb v" unfolding bounds using op sym by auto
  show "exact \<Longrightarrow> in_bounds cb v \<Longrightarrow> key_test op v w"
    unfolding bounds using op b n by (auto simp: as_index_bound_def)
qed

lemma missing_field_eval:
  assumes n: "normalised_test c f = Some (op, w)" and op: "op \<in> {OpEq, OpGt, OpGtEq, OpLt, OpLtEq}"
    and none: "doc_get doc f = None" and w: "w \<noteq> VNull"
  shows "evaluate_bool c doc = Ok False"
proof -
  have v: "\<not> values_equal VNull w" "\<not> values_equal w VNull" using w by (cases w; simp)+
  have c: "evaluate_comparison op' VNull w = Ok (VBool False)" "evaluate_comparison op' w VNull = Ok (VBool False)"
    if "op' \<in> {OpEq, OpGt, OpGtEq, OpLt, OpLtEq}" for op'
    using that v by (auto simp: evaluate_comparison_def is_ordering_op_def)
  have fl: "op' \<in> {OpEq, OpGt, OpGtEq, OpLt, OpLtEq} \<longleftrightarrow> flip op' \<in> {OpEq, OpGt, OpGtEq, OpLt, OpLtEq}" for op'
    by (cases op') auto
  from n show ?thesis
    unfolding normalised_test_def
    using op none c fl by (auto simp: evaluate_bool_def field_or_null_def split: expr.splits if_splits)
qed

lemma try_conjunct_Some:
  "try_conjunct has_index coll c = Some (src, exact) \<longleftrightarrow>
    (\<exists>f b cb. indexed_field_of c = Some f \<and> has_index coll f \<and> as_index_bound c f = Some (b, exact)
      \<and> close_bounds b = Some cb \<and> src = IndexScan coll f cb)"
  by (auto simp: try_conjunct_def bind_eq_Some_conv split: if_splits)

lemma first_index_scan_Some:
  "first_index_scan has_index coll xs = Some (src, ab) \<Longrightarrow>
    \<exists>i c exact. (i, c) \<in> set xs \<and> try_conjunct has_index coll c = Some (src, exact)
      \<and> ab = (if exact then [i] else [])"
proof (induction xs)
  case (Cons x xs)
  obtain i c where x: "x = (i, c)" by (cases x)
  show ?case
  proof (cases "try_conjunct has_index coll c")
    case None
    with Cons.prems have "first_index_scan has_index coll xs = Some (src, ab)" by (simp add: x)
    from Cons.IH [OF this] obtain j e exact where "(j, e) \<in> set xs"
      "try_conjunct has_index coll e = Some (src, exact)" "ab = (if exact then [j] else [])" by (elim exE conjE)
    then show ?thesis by (intro exI [of _ j] exI [of _ e] exI [of _ exact]) simp
  next
    case (Some r)
    then obtain exact where "r = (src, exact)" "ab = (if exact then [i] else [])"
      using Cons.prems by (cases r) (simp add: x)
    with Some show ?thesis by (intro exI [of _ i] exI [of _ c] exI [of _ exact]) (simp add: x)
  qed
qed simp

text \<open>Which documents of a collection a source operator is to hand out.\<close>

definition scan_visits :: "physical_op \<Rightarrow> document \<Rightarrow> bool" where
  "scan_visits src d = (case src of
     SeqScan _ \<Rightarrow> True
   | IndexScan _ f b \<Rightarrow> (case doc_get d f of None \<Rightarrow> False | Some v \<Rightarrow> in_bounds b v)
   | _ \<Rightarrow> False)"

text \<open>
  The documents on which an index answers like the evaluator: a field that the predicate
  compares with a literal is absent (and the literal is not \<open>null\<close>), or holds a value of the
  literal's type.
\<close>

definition index_safe :: "expr \<Rightarrow> document \<Rightarrow> bool" where
  "index_safe p d \<longleftrightarrow> list_all (\<lambda>c. case indexed_field_of c of None \<Rightarrow> True
     | Some f \<Rightarrow> (case normalised_test c f of None \<Rightarrow> True
         | Some (op, w) \<Rightarrow> (case doc_get d f of None \<Rightarrow> w \<noteq> VNull | Some v \<Rightarrow> index_comparable v w)))
     (split_conjuncts p)"

lemma index_scan_step:
  assumes i: "(i, c) \<in> set (enumerate 0 (split_conjuncts p))" and f: "indexed_field_of c = Some f"
    and b: "as_index_bound c f = Some (b, exact)" and cb: "close_bounds b = Some cb" and safe: "index_safe p d"
  shows "(case doc_get d f of None \<Rightarrow> False | Some v \<Rightarrow> in_bounds cb v) \<Longrightarrow> exact \<Longrightarrow> evaluate_bool c d = Ok True"
    and "\<not> (case doc_get d f of None \<Rightarrow> False | Some v \<Rightarrow> in_bounds cb v) \<Longrightarrow> evaluate_bool c d \<noteq> Ok True"
proof -
  have c: "c \<in> set (split_conjuncts p)" using i by (auto simp: in_set_enumerate_eq)
  obtain op w where n: "normalised_test c f = Some (op, w)" and op: "op \<in> {OpEq, OpGt, OpGtEq, OpLt, OpLtEq}"
    using b by (auto simp: as_index_bound_def split: option.splits bin_op.splits)
  have s: "case doc_get d f of None \<Rightarrow> w \<noteq> VNull | Some v \<Rightarrow> index_comparable v w"
    using safe c f n by (fastforce simp: index_safe_def list_all_iff)
  show "(case doc_get d f of None \<Rightarrow> False | Some v \<Rightarrow> in_bounds cb v) \<Longrightarrow> exact \<Longrightarrow> evaluate_bool c d = Ok True"
    using s index_bound_sound [OF b cb n] by (auto split: option.splits)
  show "\<not> (case doc_get d f of None \<Rightarrow> False | Some v \<Rightarrow> in_bounds cb v) \<Longrightarrow> evaluate_bool c d \<noteq> Ok True"
    using s index_bound_sound [OF b cb n] missing_field_eval [OF n op] by (auto split: option.splits)
qed

lemma all_true_member: "all_true cs d = Ok True \<Longrightarrow> c \<in> set cs \<Longrightarrow> evaluate_bool c d = Ok True"
  by (induction cs) (auto simp: andO_True_iff)

section \<open>The source of a plan\<close>

text \<open>
  Whatever conjunct \<open>plan_source\<close> pushes into an index scan, and whether or not it drops it from the
  filter: on a document that the scan visits the residual filter gives exactly the result (value or
  error) of the whole predicate, and a document that satisfies the predicate is visited. Both need
  the document to be one on which the index answers like the evaluator.
\<close>

lemma planner_index_scan_sound:
  assumes plan: "plan_source has_index coll (Some p) = (src, absorbed)" and safe: "index_safe p d"
  shows "scan_visits src d \<Longrightarrow> filter_result (residual_predicate p absorbed) d = evaluate_bool p d"
    and "evaluate_bool p d = Ok True \<Longrightarrow> scan_visits src d"
proof -
  have "(scan_visits src d \<longrightarrow> filter_result (residual_predicate p absorbed) d = evaluate_bool p d)
    \<and> (evaluate_bool p d = Ok True \<longrightarrow> scan_visits src d)"
  proof (cases "first_index_scan has_index coll (enumerate 0 (split_conjuncts p))")
    case None
    with plan have "src = SeqScan coll" "absorbed = []" by (auto simp: plan_source_def)
    then show ?thesis using residual_sound [of "[]" p] by (simp add: scan_visits_def)
  next
    case (Some r)
    with plan have r: "r = (src, absorbed)" by (auto simp: plan_source_def)
    from first_index_scan_Some [OF Some [unfolded r]] obtain i c f b exact cb where
      i: "(i, c) \<in> set (enumerate 0 (split_conjuncts p))" and f: "indexed_field_of c = Some f"
      and b: "as_index_bound c f = Some (b, exact)" "close_bounds b = Some cb"
      and src: "src = IndexScan coll f cb" and ab: "absorbed = (if exact then [i] else [])"
      unfolding try_conjunct_Some by blast
    have c: "split_conjuncts p ! i = c" "c \<in> set (split_conjuncts p)" using i by (auto simp: in_set_enumerate_eq)
    note step = index_scan_step [OF i f b safe]
    have "filter_result (residual_predicate p absorbed) d = evaluate_bool p d" if "scan_visits src d"
      by (rule residual_sound) (use that step(1) c(1) in \<open>auto simp: ab scan_visits_def src split: if_splits\<close>)
    moreover have "scan_visits src d" if "evaluate_bool p d = Ok True"
      using step(2) that all_true_member [OF _ c(2)] evaluate_conjuncts [of p d] by (auto simp: scan_visits_def src)
    ultimately show ?thesis by blast
  qed
  then show "scan_visits src d \<Longrightarrow> filter_result (residual_predicate p absorbed) d = evaluate_bool p d"
    and "evaluate_bool p d = Ok True \<Longrightarrow> scan_visits src d" by simp_all
qed

text \<open>The literals of a predicate that may become a bound have keys: none of them is NaN.\<close>

definition literals_have_keys :: "expr \<Rightarrow> bool" where
  "literals_have_keys p \<longleftrightarrow> list_all (\<lambda>c. case indexed_field_of c of None \<Rightarrow> True
     | Some f \<Rightarrow> (case normalised_test c f of None \<Rightarrow> True | Some (op, w) \<Rightarrow> has_key w)) (split_conjuncts p)"

lemma closed_bounds:
  assumes "as_index_bound c f = Some (b, exact)" and "close_bounds b = Some cb" and n: "normalised_test c f = Some (op, w)" and "has_key w"
  obtains lo hi where "sb_low cb = Some lo" and "sb_high cb = Some hi" and "has_key lo" and "has_key hi"
proof -
  have m: "type_max w = Some x \<Longrightarrow> has_key x" "type_min w = Some x \<Longrightarrow> has_key x" for x
    using inf_has_key by (auto simp: type_max_def type_min_def has_key_def split: doc_value.splits)
  show thesis
    using assms m that
    by (cases op) (auto simp: as_index_bound_def close_bounds_def bounds_exact_def split: option.splits)
qed

text \<open>A source is the sequential scan, or an index scan between two bounds on a field that has an index.\<close>

lemma plan_source_cases:
  assumes "plan_source has_index coll (Some p) = (src, absorbed)" and "literals_have_keys p"
  obtains "src = SeqScan coll" "absorbed = []"
  | c f b lo hi where "src = IndexScan coll f b" "c \<in> set (split_conjuncts p)" "indexed_field_of c = Some f" "has_index coll f"
      "sb_low b = Some lo" "sb_high b = Some hi" "has_key lo" "has_key hi"
proof (cases "first_index_scan has_index coll (enumerate 0 (split_conjuncts p))")
  case None
  then show thesis using assms that(1) by (simp add: plan_source_def)
next
  case (Some r)
  then have r: "r = (src, absorbed)" using assms by (simp add: plan_source_def)
  from first_index_scan_Some [OF Some [unfolded r]] obtain i c f b exact cb where
    i: "(i, c) \<in> set (enumerate 0 (split_conjuncts p))" and f: "indexed_field_of c = Some f" "has_index coll f"
    and b: "as_index_bound c f = Some (b, exact)" "close_bounds b = Some cb" and src: "src = IndexScan coll f cb"
    unfolding try_conjunct_Some by blast
  obtain op w where n: "normalised_test c f = Some (op, w)" using b(1) by (auto simp: as_index_bound_def split: option.splits)
  have c: "c \<in> set (split_conjuncts p)" using i by (auto simp: in_set_enumerate_eq)
  then have "has_key w" using assms(2) f(1) n by (fastforce simp: literals_have_keys_def list_all_iff)
  then show thesis using closed_bounds [OF b n] that(2) [OF src c f] by blast
qed

text \<open>
  A \<open>where\<close> behind a \<open>limit\<close> is moved in front of it. With an index on \<open>a\<close>, the plan of
  \<open>from c | limit 1 | where a == 1\<close> takes one row of the index scan instead of testing the first
  row of the collection.
\<close>

theorem where_moved_before_limit:
  "plan (\<lambda>_ f. f = ''a'')
     [SFrom ''c'' None, SLimit 1, SWhere (EBinOp OpEq (EField ''a'') (ELit (LInt 1)))]
   = Ok (Limit (IndexScan ''c'' ''a'' (bounds_exact (VInt 1))) 1)"
  by (simp add: plan_def find_insert_def find_where_def plan_source_def try_conjunct_def indexed_field_of_def
      as_index_bound_def normalised_test_def close_bounds_def bounds_exact_def plan_step_def plan_stage_def
      residual_predicate_def kept_conjuncts_def non_negative_def)

end
