(* ===== verification/Query_Binder.thy ===== *)
theory Query_Binder
  imports Query_Planner
begin

text \<open>
  \<open>query/binder.rs\<close>: the checks between the parser and the planner. What the binder asks the
  database, whether a collection or an index exists, is the record \<open>db_names\<close>; the checks are
  translated in the order in which the code makes them, since the first that fails decides the
  error.
\<close>

section \<open>The binder\<close>

record db_names =
  dn_has_collection :: "string \<Rightarrow> bool"
  dn_has_index :: "string \<Rightarrow> string \<Rightarrow> bool"
  dn_has_compound_index :: "string \<Rightarrow> string list \<Rightarrow> bool"

datatype bound_statement =
    BPipeline pipeline
  | BCreateCollection string "schema_field list"
  | BDropCollection string
  | BCreateIndex string "string list" bool
  | BDropIndex string string
  | BNoOp

text \<open>A loop of checks: the first error ends it.\<close>

fun forO :: "('a \<Rightarrow> ('e, unit) outcome) \<Rightarrow> 'a list \<Rightarrow> ('e, unit) outcome" where
  "forO f [] = Ok ()"
| "forO f (x # xs) = bindO (f x) (\<lambda>_. forO f xs)"

lemma forO_cong [fundef_cong]:
  assumes "xs = ys" and "\<And>x. x \<in> set ys \<Longrightarrow> f x = g x"
  shows "forO f xs = forO g ys"
  using assms by (induction ys arbitrary: xs) (auto cong: bindO_cong)

definition ensure_terminal :: "pipeline \<Rightarrow> nat \<Rightarrow> string \<Rightarrow> unit query_result" where
  "ensure_terminal stages index name = (if index \<noteq> length stages - 1
     then Err (InvalidPipeline (name @ '' must be terminal'')) else Ok ())"

text \<open>The loop over a \<open>HashSet\<close> that reports the first name it has seen before.\<close>

fun no_duplicates :: "string \<Rightarrow> string list \<Rightarrow> string list \<Rightarrow> unit query_result" where
  "no_duplicates msg seen [] = Ok ()"
| "no_duplicates msg seen (x # xs) =
     (if x \<in> set seen then Err (Validation (msg @ x)) else no_duplicates msg (x # seen) xs)"

definition validate_schema :: "schema_field list \<Rightarrow> unit query_result" where
  "validate_schema schema = no_duplicates ''duplicate schema field: '' [] (map sf_name schema)"

definition validate_insert_docs :: "doc_literal list \<Rightarrow> unit query_result" where
  "validate_insert_docs docs = (if docs = []
     then Err (InvalidPipeline ''insert requires at least one document'')
     else forO (\<lambda>doc. no_duplicates ''duplicate document field: '' [] (map fst doc)) docs)"

fun validate_select_expr :: "bool \<Rightarrow> expr \<Rightarrow> unit query_result" where
  "validate_select_expr saw_group (EAggCall name arg) = (if \<not> saw_group
     then Err (InvalidPipeline ''aggregate select requires a preceding group stage'') else Ok ())"
| "validate_select_expr saw_group (EBinOp _ left right) =
     bindO (validate_select_expr saw_group left) (\<lambda>_. validate_select_expr saw_group right)"
| "validate_select_expr saw_group (EUnaryOp _ e) = validate_select_expr saw_group e"
| "validate_select_expr saw_group (ETernary c t f) =
     bindO (validate_select_expr saw_group c) (\<lambda>_.
     bindO (validate_select_expr saw_group t) (\<lambda>_. validate_select_expr saw_group f))"
| "validate_select_expr saw_group (EArrayLit es) = forO (validate_select_expr saw_group) es"
| "validate_select_expr saw_group (EDocLit doc) = forO (\<lambda>(_, e). validate_select_expr saw_group e) doc"
| "validate_select_expr saw_group _ = Ok ()"

definition validate_select_items :: "bool \<Rightarrow> select_item list \<Rightarrow> unit query_result" where
  "validate_select_items saw_group items = forO (\<lambda>item. validate_select_expr saw_group (si_expr item)) items"

text \<open>One round of the loop over the stages, and the loop with its flag \<open>saw_group\<close>.\<close>

definition bind_stage :: "db_names \<Rightarrow> pipeline \<Rightarrow> nat \<Rightarrow> bool \<Rightarrow> stage \<Rightarrow> unit query_result" where
  "bind_stage db stages i saw_group stage = (case stage of
     SFrom _ _ \<Rightarrow> if i \<noteq> 0 then Err (InvalidPipeline ''from must appear only as the first stage'') else Ok ()
   | SInsert docs \<Rightarrow> bindO (ensure_terminal stages i ''insert'') (\<lambda>_. validate_insert_docs docs)
   | SUpdate assignments \<Rightarrow> bindO (ensure_terminal stages i ''update'') (\<lambda>_.
       if assignments = [] then Err (InvalidPipeline ''update requires at least one assignment'') else Ok ())
   | SUpsert doc \<Rightarrow> bindO (ensure_terminal stages i ''upsert'') (\<lambda>_.
       if doc = [] then Err (InvalidPipeline ''upsert requires a document with at least one field'') else Ok ())
   | SDelete \<Rightarrow> ensure_terminal stages i ''delete''
   | SJoin collection _ _ \<Rightarrow> if \<not> dn_has_collection db collection
       then Err (Validation (''collection not found: '' @ collection)) else Ok ()
   | SSelect (Some items) \<Rightarrow> validate_select_items saw_group items
   | SLimit n \<Rightarrow> if sint n < 0 then Err (InvalidPipeline ''limit and offset must be non-negative'') else Ok ()
   | SOffset n \<Rightarrow> if sint n < 0 then Err (InvalidPipeline ''limit and offset must be non-negative'') else Ok ()
   | _ \<Rightarrow> Ok ())"

fun bind_stages :: "db_names \<Rightarrow> pipeline \<Rightarrow> (nat \<times> stage) list \<Rightarrow> bool \<Rightarrow> unit query_result" where
  "bind_stages db stages [] saw_group = Ok ()"
| "bind_stages db stages ((i, stage) # rest) saw_group =
     bindO (bind_stage db stages i saw_group stage) (\<lambda>_.
     bind_stages db stages rest (saw_group \<or> is_group stage))"

definition bind_pipeline :: "db_names \<Rightarrow> pipeline \<Rightarrow> bound_statement query_result" where
  "bind_pipeline db stages = (case stages of
     [] \<Rightarrow> Err (InvalidPipeline ''pipeline is empty'')
   | SFrom collection index_hint # _ \<Rightarrow>
       if \<not> dn_has_collection db collection then Err (Validation (''collection not found: '' @ collection))
       else bindO (case index_hint of
              Some field \<Rightarrow> if \<not> dn_has_index db collection field
                then Err (Validation (''index not found: '' @ collection @ ''.'' @ field)) else Ok ()
            | None \<Rightarrow> Ok ()) (\<lambda>_.
            bindO (bind_stages db stages (enumerate 0 stages) False) (\<lambda>_.
            Ok (BPipeline stages)))
   | _ \<Rightarrow> Err (InvalidPipeline ''pipeline must start with from''))"

definition bind_single_index_field :: "db_names \<Rightarrow> string \<Rightarrow> string list \<Rightarrow> string query_result" where
  "bind_single_index_field db collection fs =
     (if \<not> dn_has_collection db collection then Err (Validation (''collection not found: '' @ collection))
      else case fs of [f] \<Rightarrow> Ok f
         | _ \<Rightarrow> Err (Unsupported ''composite runtime indexes are not supported yet''))"

definition bind_index_fields :: "db_names \<Rightarrow> string \<Rightarrow> string list \<Rightarrow> bool \<Rightarrow> string list query_result" where
  "bind_index_fields db collection fs unique =
     (if \<not> dn_has_collection db collection then Err (Validation (''collection not found: '' @ collection))
      else if fs = [] then Err (Validation ''an index needs at least one field'')
      else if 1 < length fs \<and> \<not> unique
        then Err (Unsupported ''composite indexes are supported only as unique constraints'')
      else Ok fs)"

fun join_strings :: "string \<Rightarrow> string list \<Rightarrow> string" where
  "join_strings sep [] = []"
| "join_strings sep [x] = x"
| "join_strings sep (x # xs) = x @ sep @ join_strings sep xs"

definition bind :: "db_names \<Rightarrow> stmt \<Rightarrow> bound_statement query_result" where
  "bind db statement = (case statement of
     Pipeline stages \<Rightarrow> bind_pipeline db stages
   | CreateCollection name schema if_not_exists \<Rightarrow>
       if dn_has_collection db name then
         (if if_not_exists then Ok BNoOp else Err (Validation (''collection already exists: '' @ name)))
       else bindO (validate_schema schema) (\<lambda>_. Ok (BCreateCollection name schema))
   | DropCollection name if_exists \<Rightarrow>
       if \<not> dn_has_collection db name then
         (if if_exists then Ok BNoOp else Err (Validation (''collection not found: '' @ name)))
       else Ok (BDropCollection name)
   | CreateIndex collection fs if_not_exists unique \<Rightarrow>
       bindO (bind_index_fields db collection fs unique) (\<lambda>fs.
       if dn_has_compound_index db collection fs then
         (if if_not_exists then Ok BNoOp
          else Err (Validation (''index already exists: '' @ collection @ ''.'' @ join_strings '', '' fs)))
       else Ok (BCreateIndex collection fs unique))
   | DropIndex collection fs if_exists \<Rightarrow>
       bindO (bind_single_index_field db collection fs) (\<lambda>field.
       if \<not> dn_has_index db collection field then
         (if if_exists then Ok BNoOp
          else Err (Validation (''index not found: '' @ collection @ ''.'' @ field)))
       else Ok (BDropIndex collection field)))"

section \<open>What a bound pipeline looks like\<close>

fun is_from :: "stage \<Rightarrow> bool" where
  "is_from (SFrom _ _) = True"
| "is_from _ = False"

fun is_write :: "stage \<Rightarrow> bool" where
  "is_write (SInsert _) = True"
| "is_write (SUpdate _) = True"
| "is_write (SUpsert _) = True"
| "is_write SDelete = True"
| "is_write _ = False"

fun is_insert :: "stage \<Rightarrow> bool" where
  "is_insert (SInsert _) = True"
| "is_insert _ = False"

lemma bind_stages_Ok:
  "bind_stages db stages xs g = Ok () \<Longrightarrow> (i, s) \<in> set xs \<Longrightarrow> \<exists>g'. bind_stage db stages i g' s = Ok ()"
  by (induction xs arbitrary: g) (auto simp: bindO_Ok_iff)

lemma bind_pipeline_Ok:
  assumes "bind_pipeline db p = Ok b"
  obtains c h rest where "p = SFrom c h # rest" and "b = BPipeline p" and "dn_has_collection db c"
    and "\<And>i. i < length p \<Longrightarrow> \<exists>g. bind_stage db p i g (p ! i) = Ok ()"
proof -
  from assms obtain c h rest where p: "p = SFrom c h # rest" and b: "b = BPipeline p" "dn_has_collection db c"
    and s: "bind_stages db p (enumerate 0 p) False = Ok ()"
    by (auto simp: bind_pipeline_def bindO_Ok_iff split: list.splits stage.splits if_splits)
  show ?thesis
    by (rule that [OF p b]) (use bind_stages_Ok [OF s] in \<open>auto simp: in_set_enumerate_eq\<close>)
qed

lemma bind_stage_from: "bind_stage db p i g s = Ok () \<Longrightarrow> is_from s \<Longrightarrow> i = 0"
  by (cases s) (auto simp: bind_stage_def split: if_splits)

lemma bind_stage_write: "bind_stage db p i g s = Ok () \<Longrightarrow> is_write s \<Longrightarrow> i = length p - 1"
  by (cases s) (auto simp: bind_stage_def ensure_terminal_def bindO_Ok_iff split: if_splits)

lemma bind_stage_limit: "bind_stage db p i g s = Ok () \<Longrightarrow> s = SLimit n \<or> s = SOffset n \<Longrightarrow> 0 \<le> sint n"
  by (auto simp: bind_stage_def split: if_splits)

section \<open>Planning after binding\<close>

lemma find_insert_None: "find_insert p = None \<longleftrightarrow> (\<forall>s \<in> set p. \<not> is_insert s)"
proof (induction p)
  case (Cons s p)
  then show ?case by (cases s) (auto simp: find_insert_def)
qed (simp add: find_insert_def)

lemma find_insert_Some: "find_insert p = Some docs \<Longrightarrow> SInsert docs \<in> set p"
proof (induction p)
  case (Cons s p)
  then show ?case by (cases s) (auto simp: find_insert_def)
qed (simp add: find_insert_def)

lemma plan_stage_Ok:
  assumes "\<not> is_from s" and "\<not> is_insert s" and "\<forall>e. s \<noteq> SWhere e" and "\<forall>x. s \<noteq> SSelect x" and "\<not> is_group s"
    and "\<forall>n. s = SLimit n \<or> s = SOffset n \<longrightarrow> 0 \<le> sint n"
  shows "\<exists>t. plan_stage tree s = Ok t"
  using assms by (cases s) (auto simp: plan_stage_def non_negative_def is_group_def)

lemma plan_step_Ok:
  assumes "\<not> is_from s" and "\<not> is_insert s" and "\<forall>n. s = SLimit n \<or> s = SOffset n \<longrightarrow> 0 \<le> sint n"
    and "is_group s \<Longrightarrow> next_select_items p i \<noteq> None"
  shows "\<exists>t. plan_step p ab i s tree = Ok t"
  using plan_stage_Ok [of s tree] assms by (cases s) (auto simp: plan_step_def is_group_def)

lemma plan_stages_Ok:
  assumes "\<And>i s tree. (i, s) \<in> set xs \<Longrightarrow> \<exists>t. plan_step p ab i s tree = Ok t"
  shows "\<exists>t. plan_stages p ab xs tree = Ok t"
  using assms
proof (induction xs arbitrary: tree)
  case (Cons x xs)
  obtain i s where x: "x = (i, s)" by (cases x)
  obtain t where "plan_step p ab i s tree = Ok t" using Cons.prems [of i s tree] by (auto simp: x)
  moreover have "\<exists>t'. plan_stages p ab xs t = Ok t'" by (rule Cons.IH) (use Cons.prems in auto)
  ultimately show ?case by (auto simp: x)
qed simp

text \<open>A \<open>group\<close> that is not directly followed by a \<open>select\<close>, which only the planner rejects.\<close>

definition groups_selected :: "pipeline \<Rightarrow> bool" where
  "groups_selected p \<longleftrightarrow> (\<forall>i < length p. is_group (p ! i) \<longrightarrow> next_select_items p i \<noteq> None)"

section \<open>Properties\<close>

text \<open>
  C34: what the binder lets through is well formed. A bound pipeline is the pipeline it was
  given, starts with a \<open>from\<close> on an existing collection, has no other \<open>from\<close>, writes only in its
  last stage, and its limits and offsets are not negative.
\<close>

theorem bound_pipeline_well_formed:
  assumes "bind db (Pipeline p) = Ok b"
  shows "b = BPipeline p
    \<and> (\<exists>c h rest. p = SFrom c h # rest \<and> dn_has_collection db c)
    \<and> (\<forall>i < length p. (is_from (p ! i) \<longrightarrow> i = 0) \<and> (is_write (p ! i) \<longrightarrow> i = length p - 1)
        \<and> (\<forall>n. p ! i = SLimit n \<or> p ! i = SOffset n \<longrightarrow> 0 \<le> sint n))"
proof -
  have "bind_pipeline db p = Ok b" using assms by (simp add: bind_def)
  then obtain c h rest where p: "p = SFrom c h # rest" and b: "b = BPipeline p" "dn_has_collection db c"
    and s: "\<And>i. i < length p \<Longrightarrow> \<exists>g. bind_stage db p i g (p ! i) = Ok ()" by (rule bind_pipeline_Ok) blast
  have "(is_from (p ! i) \<longrightarrow> i = 0) \<and> (is_write (p ! i) \<longrightarrow> i = length p - 1)
      \<and> (\<forall>n. p ! i = SLimit n \<or> p ! i = SOffset n \<longrightarrow> 0 \<le> sint n)" if "i < length p" for i
    using s [OF that] bind_stage_from bind_stage_write bind_stage_limit by blast
  with p b show ?thesis by blast
qed

definition example_names :: db_names where
  "example_names = \<lparr>dn_has_collection = (\<lambda>c. c = ''users''), dn_has_index = (\<lambda>_ _. False),
     dn_has_compound_index = (\<lambda>_ _. False)\<rparr>"

theorem bound_pipeline_well_formed_witness:
  "bind example_names (Pipeline [SFrom ''users'' None, SLimit 3, SDelete]) = Ok (BPipeline [SFrom ''users'' None, SLimit 3, SDelete])
   \<and> [SFrom ''users'' None, SLimit 3, SDelete] ! 2 = SDelete"
proof -
  have "bind example_names (Pipeline [SFrom ''users'' None, SLimit 3, SDelete]) = Ok (BPipeline [SFrom ''users'' None, SLimit 3, SDelete])"
    by (simp add: bind_def bind_pipeline_def example_names_def bind_stage_def ensure_terminal_def)
  with bound_pipeline_well_formed [OF this] show ?thesis by simp
qed

text \<open>
  C35: every bound read, update or delete has a plan. If the binder accepts a pipeline without
  an insert in which each \<open>group\<close> is followed by its \<open>select\<close>, the planner returns a tree, with
  or without indexes; it neither fails nor reaches one of its unreachable arms.
\<close>

theorem bound_pipeline_plans:
  assumes "bind db (Pipeline p) = Ok b" and "\<forall>s \<in> set p. \<not> is_insert s" and "groups_selected p"
  shows "\<exists>tree. plan has_index p = Ok tree"
proof -
  have "bind_pipeline db p = Ok b" using assms(1) by (simp add: bind_def)
  then obtain c h rest where p: "p = SFrom c h # rest"
    and s: "\<And>i. i < length p \<Longrightarrow> \<exists>g. bind_stage db p i g (p ! i) = Ok ()" by (rule bind_pipeline_Ok) blast
  have step: "\<exists>t. plan_step p ab i st tree = Ok t" if "(i, st) \<in> set (tl (enumerate 0 p))" for ab i st tree
  proof -
    have i: "0 < i" "i < length p" "st = p ! i"
      using that by (auto simp: p in_set_enumerate_eq enumerate_simps nth_Cons')
    from s [OF i(2)] obtain g where "bind_stage db p i g st = Ok ()" using i(3) by auto
    then have "\<not> is_from st" and "\<forall>n. st = SLimit n \<or> st = SOffset n \<longrightarrow> 0 \<le> sint n"
      using bind_stage_from bind_stage_limit i(1) by blast+
    then show ?thesis
      using i assms(2,3) nth_mem [OF i(2)] by (intro plan_step_Ok) (auto simp: groups_selected_def)
  qed
  obtain tree ab where src: "plan_source has_index c (find_where p) = (tree, ab)" by fastforce
  have "find_insert p = None" using assms(2) by (simp add: find_insert_None)
  with plan_stages_Ok [of "tl (enumerate 0 p)" p ab tree] step src show ?thesis
    by (simp add: plan_def p)
qed

theorem bound_pipeline_plans_witness:
  "\<exists>tree. plan (\<lambda>_ _. True) [SFrom ''users'' None, SGroup [''a''], SSelect None, SLimit 3] = Ok tree"
proof -
  let ?p = "[SFrom ''users'' None, SGroup [''a''], SSelect None, SLimit 3]"
  have "bind example_names (Pipeline ?p) = Ok (BPipeline ?p)"
    by (simp add: bind_def bind_pipeline_def example_names_def bind_stage_def)
  then show ?thesis
    by (rule bound_pipeline_plans) (auto simp: groups_selected_def next_select_items_def is_group_def less_Suc_eq numeral_eq_Suc)
qed

end
