(* ===== verification/Asl_Lexer.thy ===== *)
theory Asl_Lexer
  imports F64
begin

text \<open>
  \<open>asl/lexer.rs\<close>: source text to tokens.

  The lexer's cursor is the text after \<open>pos\<close> and the position \<open>(line, col)\<close>. A \<open>char\<close> in an
  error is its code point. The loops that only move forward over the text are structural
  recursions; the main loop carries fuel, one round per character of the input and one more,
  and \<open>tokenize_total\<close> shows that it is enough. A float literal is rounded from its exact decimal
  value, which is what \<open>parse::<f64>\<close> does.
\<close>

section \<open>Tokens\<close>

datatype (plugins only: size) token =
    TFrom | TWhere | TSelect | TOrder | TLimit | TOffset | TGroup | TJoin | TInsert | TUpdate | TUpsert
  | TDelete | TDrop | TCreate | TIndex | TOn | TSet | TAs | TIn | TExists | TMissing | TContains
  | TStarts | TEnds | TUse | TAsc | TDesc | TAnd | TOr | TNot | TIf | TThen | TElse | TTrue | TFalse
  | TNull | TRequired | TUnique | TAnyKw
  | IntLit i64 | FloatLit f64 | StringLit string | Ident string
  | EqEq | BangEq | Gt | GtEq | Lt | LtEq | Plus | Minus | Star | Slash | Percent | Pipe | EqSign
  | LBrace | RBrace | LBracket | RBracket | LParen | RParen | Comma | Colon | Dot

record spanned =
  sp_token :: token
  sp_line :: nat
  sp_col :: nat

datatype lex_error =
    UnexpectedChar nat nat nat
  | UnterminatedString nat nat
  | InvalidNumber string nat nat
  | InvalidEscape nat nat nat

section \<open>Characters\<close>

type_synonym pos = "nat \<times> nat"

text \<open>\<open>bump\<close> moves over one byte, \<open>bump_char\<close> over one code point; both count one column.\<close>

definition advance :: "char \<Rightarrow> pos \<Rightarrow> pos" where
  "advance c p = (case p of (line, col) \<Rightarrow> if c = CHR 0x0A then (line + 1, 1) else (line, col + 1))"

definition char_code :: "char \<Rightarrow> nat" where
  "char_code c = of_char c"

text \<open>The bytes of the UTF-8 sequence that starts with the given byte, and its code point.\<close>

definition utf8_width :: "char \<Rightarrow> nat" where
  "utf8_width c = (let b = char_code c in if b < 128 then 1 else if b < 224 then 2 else if b < 240 then 3 else 4)"

definition code_point :: "string \<Rightarrow> nat" where
  "code_point s = (case s of [] \<Rightarrow> char_code (CHR ''?'')
     | c # _ \<Rightarrow> let w = utf8_width c;
                    lead = (if w = 1 then char_code c else char_code c mod 2 ^ (7 - w))
                in foldl (\<lambda>acc d. acc * 64 + char_code d mod 64) lead (take (w - 1) (tl s)))"

definition is_digit :: "char \<Rightarrow> bool" where
  "is_digit c \<longleftrightarrow> 48 \<le> char_code c \<and> char_code c \<le> 57"

definition is_alpha :: "char \<Rightarrow> bool" where
  "is_alpha c \<longleftrightarrow> 97 \<le> char_code c \<and> char_code c \<le> 122 \<or> 65 \<le> char_code c \<and> char_code c \<le> 90"

definition is_ident_start :: "char \<Rightarrow> bool" where
  "is_ident_start c \<longleftrightarrow> is_alpha c \<or> c = CHR ''_''"

definition is_ident_char :: "char \<Rightarrow> bool" where
  "is_ident_char c \<longleftrightarrow> is_alpha c \<or> is_digit c \<or> c = CHR ''_''"

definition is_space :: "char \<Rightarrow> bool" where
  "is_space c \<longleftrightarrow> c = CHR '' '' \<or> c = CHR 0x09 \<or> c = CHR 0x0A \<or> c = CHR 0x0D"

section \<open>The lexer\<close>

text \<open>
  \<open>skip_whitespace_and_comments\<close>; the flag says that the inner loop is inside a comment. The
  newline that ends a comment is consumed by the outer loop.
\<close>

fun skip_ws :: "bool \<Rightarrow> string \<Rightarrow> pos \<Rightarrow> string \<times> pos" where
  "skip_ws in_comment [] p = ([], p)"
| "skip_ws True (c # s) p = skip_ws (c \<noteq> CHR 0x0A) s (advance c p)"
| "skip_ws False (c # s) p =
     (if is_space c then skip_ws False s (advance c p)
      else if c = CHR ''-'' then
        (case s of d # s' \<Rightarrow> if d = CHR ''-'' then skip_ws True s' (advance d (advance c p)) else (c # s, p)
                 | [] \<Rightarrow> (c # s, p))
      else (c # s, p))"

function read_quoted_ident :: "pos \<Rightarrow> string \<Rightarrow> pos \<Rightarrow> string \<Rightarrow> (lex_error, token \<times> string \<times> pos) outcome" where
  "read_quoted_ident open_pos [] p out = Err (UnterminatedString (fst open_pos) (snd open_pos))"
| "read_quoted_ident open_pos (c # s) p out =
     (if c = CHR 0x60 then
        (if out = [] then Err (UnexpectedChar 96 (fst open_pos) (snd open_pos))
         else Ok (Ident out, s, advance c p))
      else read_quoted_ident open_pos (drop (utf8_width c - 1) s) (advance c p)
             (out @ c # take (utf8_width c - 1) s))"
  by pat_completeness auto
termination by (relation "measure (\<lambda>(_, s, _, _). length s)") auto

text \<open>The escapes the code accepts.\<close>

definition escape_char :: "char \<Rightarrow> char option" where
  "escape_char c =
     (if c = CHR 0x22 then Some (CHR 0x22)
      else if c = CHR 0x5C then Some (CHR 0x5C)
      else if c = CHR ''n'' then Some (CHR 0x0A)
      else if c = CHR ''t'' then Some (CHR 0x09)
      else if c = CHR ''r'' then Some (CHR 0x0D)
      else None)"

function read_string_lit :: "pos \<Rightarrow> string \<Rightarrow> pos \<Rightarrow> string \<Rightarrow> (lex_error, token \<times> string \<times> pos) outcome" where
  "read_string_lit open_pos [] p out = Err (UnterminatedString (fst open_pos) (snd open_pos))"
| "read_string_lit open_pos (c # s) p out =
     (if c = CHR 0x22 then Ok (StringLit out, s, advance c p)
      else if c = CHR 0x5C then
        (case s of
           [] \<Rightarrow> Err (UnterminatedString (fst open_pos) (snd open_pos))
         | d # s' \<Rightarrow>
             let esc = advance c p in
             (case escape_char d of
                Some e \<Rightarrow> read_string_lit open_pos s' (advance d esc) (out @ [e])
              | None \<Rightarrow> Err (InvalidEscape (char_code d) (fst esc) (snd esc))))
      else read_string_lit open_pos (drop (utf8_width c - 1) s) (advance c p)
             (out @ c # take (utf8_width c - 1) s))"
  by pat_completeness auto
termination by (relation "measure (\<lambda>(_, s, _, _). length s)") auto

definition digits_value :: "string \<Rightarrow> nat" where
  "digits_value s = foldl (\<lambda>acc c. acc * 10 + (char_code c - 48)) 0 s"

definition read_number :: "string \<Rightarrow> pos \<Rightarrow> (lex_error, token \<times> string \<times> pos) outcome" where
  "read_number s p = (case p of (line, col) \<Rightarrow>
     let whole = takeWhile is_digit s; rest = dropWhile is_digit s in
     case rest of
       d # f # fs \<Rightarrow>
         if d = CHR ''.'' \<and> is_digit f then
           (let frac = takeWhile is_digit (f # fs); rest' = dropWhile is_digit (f # fs)
            in Ok (FloatLit (f64_round False (digits_value (whole @ frac)) (10 ^ length frac)), rest',
                   (line, col + length whole + 1 + length frac)))
         else if digits_value whole < 2 ^ 63
           then Ok (IntLit (word_of_nat (digits_value whole)), rest, (line, col + length whole))
           else Err (InvalidNumber whole line col)
     | _ \<Rightarrow> if digits_value whole < 2 ^ 63
           then Ok (IntLit (word_of_nat (digits_value whole)), rest, (line, col + length whole))
           else Err (InvalidNumber whole line col))"

definition keyword_table :: "(string \<times> token) list" where
  "keyword_table =
    [(''from'', TFrom),
     (''where'', TWhere),
     (''select'', TSelect),
     (''order'', TOrder),
     (''limit'', TLimit),
     (''offset'', TOffset),
     (''group'', TGroup),
     (''join'', TJoin),
     (''insert'', TInsert),
     (''update'', TUpdate),
     (''delete'', TDelete),
     (''drop'', TDrop),
     (''create'', TCreate),
     (''upsert'', TUpsert),
     (''index'', TIndex),
     (''on'', TOn),
     (''set'', TSet),
     (''as'', TAs),
     (''in'', TIn),
     (''exists'', TExists),
     (''missing'', TMissing),
     (''contains'', TContains),
     (''starts'', TStarts),
     (''ends'', TEnds),
     (''use'', TUse),
     (''asc'', TAsc),
     (''desc'', TDesc),
     (''and'', TAnd),
     (''or'', TOr),
     (''not'', TNot),
     (''if'', TIf),
     (''then'', TThen),
     (''else'', TElse),
     (''true'', TTrue),
     (''false'', TFalse),
     (''null'', TNull),
     (''required'', TRequired),
     (''unique'', TUnique),
     (''any'', TAnyKw)]"

definition read_ident_or_keyword :: "string \<Rightarrow> pos \<Rightarrow> token \<times> string \<times> pos" where
  "read_ident_or_keyword s p = (case p of (line, col) \<Rightarrow>
     let text = takeWhile is_ident_char s
     in (case map_of keyword_table text of Some kw \<Rightarrow> kw | None \<Rightarrow> Ident text,
         dropWhile is_ident_char s, (line, col + length text)))"

text \<open>The operators of one byte, and those of one or two, where the second byte is \<open>=\<close>.\<close>

definition single_table :: "(char \<times> token) list" where
  "single_table =
    [(CHR ''{'', LBrace), (CHR ''}'', RBrace), (CHR ''['', LBracket), (CHR '']'', RBracket),
     (CHR ''('', LParen), (CHR '')'', RParen), (CHR '','', Comma), (CHR '':'', Colon), (CHR ''.'', Dot),
     (CHR ''+'', Plus), (CHR ''*'', Star), (CHR ''/'', Slash), (CHR ''%'', Percent), (CHR ''|'', Pipe),
     (CHR ''-'', Minus)]"

definition double_table :: "(char \<times> token \<times> token option) list" where
  "double_table =
    [(CHR ''='', EqEq, Some EqSign), (CHR ''!'', BangEq, None), (CHR ''>'', GtEq, Some Gt), (CHR ''<'', LtEq, Some Lt)]"

text \<open>One token, the text being non-empty and past whitespace.\<close>

definition lex_token :: "char \<Rightarrow> string \<Rightarrow> pos \<Rightarrow> (lex_error, token \<times> string \<times> pos) outcome" where
  "lex_token c s p =
     (case map_of single_table c of
        Some t \<Rightarrow> Ok (t, s, advance c p)
      | None \<Rightarrow>
     (case map_of double_table c of
        Some (with_eq, alone) \<Rightarrow>
          (case s of
             d # s' \<Rightarrow> if d = CHR ''='' then Ok (with_eq, s', advance d (advance c p))
               else (case alone of Some t \<Rightarrow> Ok (t, s, advance c p)
                                 | None \<Rightarrow> Err (UnexpectedChar (char_code c) (fst p) (snd p)))
           | [] \<Rightarrow> (case alone of Some t \<Rightarrow> Ok (t, s, advance c p)
                                 | None \<Rightarrow> Err (UnexpectedChar (char_code c) (fst p) (snd p))))
      | None \<Rightarrow>
     (if c = CHR 0x22 then read_string_lit p s (advance c p) []
      else if c = CHR 0x60 then read_quoted_ident p s (advance c p) []
      else if is_digit c then read_number (c # s) p
      else if is_ident_start c then Ok (read_ident_or_keyword (c # s) p)
      else Err (UnexpectedChar (code_point (c # s)) (fst p) (snd p)))))"

fun tokenize_loop :: "nat \<Rightarrow> string \<Rightarrow> pos \<Rightarrow> spanned list \<Rightarrow> (lex_error, spanned list) outcome" where
  "tokenize_loop 0 s p out = Hang"
| "tokenize_loop (Suc n) s p out =
     (case skip_ws False s p of
        ([], _) \<Rightarrow> Ok out
      | (c # s', p') \<Rightarrow>
          bindO (lex_token c s' p') (\<lambda>(t, rest, q).
          tokenize_loop n rest q (out @ [\<lparr>sp_token = t, sp_line = fst p', sp_col = snd p'\<rparr>])))"

definition tokenize :: "string \<Rightarrow> (lex_error, spanned list) outcome" where
  "tokenize input = tokenize_loop (Suc (length input)) input (1, 1) []"

section \<open>Every input is lexed\<close>

lemma skip_ws_length: "length (fst (skip_ws b s p)) \<le> length s"
proof (induction b s p rule: skip_ws.induct)
  case (3 c s p)
  then show ?case by (cases s) (simp_all add: le_SucI)
qed (simp_all add: le_SucI)

definition lexes :: "string \<Rightarrow> (lex_error, token \<times> string \<times> pos) outcome \<Rightarrow> bool" where
  "lexes s r \<longleftrightarrow> (case r of Ok (t, rest, q) \<Rightarrow> length rest \<le> length s | Err e \<Rightarrow> True | _ \<Rightarrow> False)"

lemma lexes_simps [simp]:
  "lexes s (Ok (t, rest, q)) \<longleftrightarrow> length rest \<le> length s" "lexes s (Err e)"
  by (simp_all add: lexes_def)

lemma lexes_mono: "lexes s r \<Longrightarrow> length s \<le> length s' \<Longrightarrow> lexes s' r"
  by (auto simp: lexes_def split: outcome.splits)

lemma lexes_quoted_ident: "lexes s (read_quoted_ident op s p out)"
proof (induction op s p out rule: read_quoted_ident.induct)
  case (2 op c s p out)
  then show ?case using lexes_mono [of "drop (utf8_width c - 1) s" _ "c # s"] by simp
qed simp

lemma lexes_string_lit: "lexes s (read_string_lit op s p out)"
proof (induction op s p out rule: read_string_lit.induct)
  case (2 op c s p out)
  have "lexes (c # s) (read_string_lit op (drop (utf8_width c - 1) s) (advance c p) (out @ c # take (utf8_width c - 1) s))"
    if "c \<noteq> CHR 0x22" "c \<noteq> CHR 0x5C"
    by (rule lexes_mono [OF 2(2) [OF that]]) simp
  moreover have "lexes (c # d # s') (read_string_lit op s' (advance d (advance c p)) (out @ [e]))"
    if "c \<noteq> CHR 0x22" "c = CHR 0x5C" "s = d # s'" "escape_char d = Some e" for d s' e
    by (rule lexes_mono [OF 2(1) [OF that(1-3) refl that(4)]]) simp
  ultimately show ?case by (auto simp: Let_def split: list.split option.split)
qed simp

lemma length_dropWhile: "length (dropWhile P xs) \<le> length xs"
  by (induction xs) auto

lemma lexes_number:
  assumes "is_digit c"
  shows "lexes s (read_number (c # s) p)"
proof -
  have d: "length (dropWhile is_digit (c # s)) \<le> length s" using assms by (simp add: length_dropWhile)
  have f: "length (dropWhile is_digit (f # fs)) \<le> length s" if "dropWhile is_digit (c # s) = g # f # fs" for f g fs
    using d that length_dropWhile [of is_digit "f # fs"] by simp
  show ?thesis
    using d f by (auto simp: read_number_def Let_def split: prod.split list.split simp del: dropWhile.simps)
qed

lemma lexes_ident: "is_ident_start c \<Longrightarrow> lexes s (Ok (read_ident_or_keyword (c # s) p))"
  by (auto simp: read_ident_or_keyword_def Let_def is_ident_start_def is_ident_char_def length_dropWhile
      split: prod.split)

lemma lexes_token: "lexes s (lex_token c s p)"
  unfolding lex_token_def
  by (auto simp: lexes_string_lit lexes_quoted_ident lexes_number lexes_ident
      split: option.split list.split)

lemma tokenize_loop_returns: "length s < n \<Longrightarrow> returns (tokenize_loop n s p out)"
proof (induction n arbitrary: s p out)
  case (Suc n)
  obtain s1 p1 where k: "skip_ws False s p = (s1, p1)" by (cases "skip_ws False s p") blast
  have l: "length s1 \<le> length s" using skip_ws_length [of False s p] k by simp
  show ?case
  proof (cases s1)
    case (Cons c s2)
    from lexes_token [of s2 c p1] show ?thesis
      using Suc l Cons k by (cases "lex_token c s2 p1") (auto simp: lexes_def)
  qed (simp add: k)
qed simp

section \<open>Printing tokens\<close>

definition esc :: "char \<Rightarrow> string" where
  "esc c = (if c = CHR 0x22 then [CHR 0x5C, CHR 0x22] else if c = CHR 0x5C then [CHR 0x5C, CHR 0x5C]
     else if c = CHR 0x0A then [CHR 0x5C, CHR ''n''] else [c])"

definition quote :: "string \<Rightarrow> string" where
  "quote s = CHR 0x22 # concat (map esc s) @ [CHR 0x22]"

definition fixed_text :: "(token \<times> string) list" where
  "fixed_text = map (\<lambda>(k, t). (t, k)) keyword_table @ map (\<lambda>(c, t). (t, [c])) single_table
     @ [(EqEq, ''==''), (EqSign, ''=''), (BangEq, ''!=''), (GtEq, ''>=''), (Gt, ''>''), (LtEq, ''<=''), (Lt, ''<'')]"

fun token_text :: "token \<Rightarrow> string" where
  "token_text (IntLit n) = nat_digits (unat n)"
| "token_text (StringLit s) = quote s"
| "token_text (Ident s) = CHR 0x60 # s @ [CHR 0x60]"
| "token_text t = (case map_of fixed_text t of Some k \<Rightarrow> k | None \<Rightarrow> [])"

fun printable :: "token \<Rightarrow> bool" where
  "printable (IntLit n) = (unat n < 2 ^ 63)"
| "printable (FloatLit x) = False"
| "printable (StringLit s) = utf8_valid s"
| "printable (Ident s) = (s \<noteq> [] \<and> utf8_valid s \<and> CHR 0x60 \<notin> set s)"
| "printable t = True"

text \<open>One character of a valid string: its continuation bytes follow and are none of the special ones.\<close>

lemma utf8_step:
  assumes "utf8_valid (c # s)"
  shows "utf8_width c - 1 \<le> length s" and "\<forall>d \<in> set (take (utf8_width c - 1) s). 128 \<le> char_code d"
    and "utf8_valid (drop (utf8_width c - 1) s)"
proof -
  have v: "utf8_valid_nat (char_code c # map of_char s)" using assms by (simp add: utf8_valid_def char_code_def)
  obtain a where a: "a = char_code c" by blast
  consider "a < 128" | "194 \<le> a" "a \<le> 223" | "224 \<le> a" "a \<le> 239" | "240 \<le> a" "a \<le> 244"
    using v by (auto simp: a [symmetric] split: if_splits)
  then have "utf8_width c - 1 \<le> length s \<and> (\<forall>d \<in> set (take (utf8_width c - 1) s). 128 \<le> char_code d)
      \<and> utf8_valid (drop (utf8_width c - 1) s)"
  proof cases
    case 1
    with v show ?thesis by (simp add: a utf8_width_def Let_def utf8_valid_def)
  next
    case 2
    with v show ?thesis
      by (cases s) (auto simp: a utf8_width_def Let_def utf8_valid_def utf8_cont_def char_code_def)
  next
    case 3
    with v obtain d e r where "s = d # e # r" by (auto simp: a split: list.splits)
    with v 3 show ?thesis
      by (auto simp: a utf8_width_def Let_def utf8_valid_def utf8_cont_def char_code_def numeral_2_eq_2 split: if_splits)
  next
    case 4
    with v obtain d e f r where "s = d # e # f # r" by (auto simp: a split: list.splits)
    with v 4 show ?thesis
      by (auto simp: a utf8_width_def Let_def utf8_valid_def utf8_cont_def char_code_def numeral_3_eq_3 split: if_splits)
  qed
  then show "utf8_width c - 1 \<le> length s" "\<forall>d \<in> set (take (utf8_width c - 1) s). 128 \<le> char_code d"
    "utf8_valid (drop (utf8_width c - 1) s)" by auto
qed

lemma esc_high: "128 \<le> char_code c \<Longrightarrow> esc c = [c]"
  by (auto simp: esc_def char_code_def)

lemma concat_esc_high: "\<forall>d \<in> set xs. 128 \<le> char_code d \<Longrightarrow> concat (map esc xs) = xs"
  by (induction xs) (auto simp: esc_high)

lemma concat_esc_split:
  assumes "utf8_valid (c # s)"
  shows "concat (map esc s) = take (utf8_width c - 1) s @ concat (map esc (drop (utf8_width c - 1) s))"
proof -
  have "concat (map esc s) = concat (map esc (take (utf8_width c - 1) s @ drop (utf8_width c - 1) s))" by simp
  then show ?thesis using concat_esc_high [OF utf8_step(2) [OF assms]] by (simp only: map_append concat_append)
qed

lemma read_string_lit_quote:
  "utf8_valid s \<Longrightarrow> \<exists>q. read_string_lit op (concat (map esc s) @ CHR 0x22 # rest) p out = Ok (StringLit (out @ s), rest, q)"
proof (induction "length s" arbitrary: s p out rule: less_induct)
  case less
  show ?case
  proof (cases s)
    case (Cons c s')
    note v = less.prems [unfolded Cons]
    show ?thesis
    proof (cases "c = CHR 0x22 \<or> c = CHR 0x5C \<or> c = CHR 0x0A")
      case True
      then have w: "utf8_width c = 1" by (auto simp: utf8_width_def char_code_def)
      have "utf8_valid s'" using utf8_step(3) [OF v] w by simp
      then have ih: "\<exists>q. read_string_lit op (concat (map esc s') @ CHR 0x22 # rest) p' out'
          = Ok (StringLit (out' @ s'), rest, q)" for p' out'
        by (intro less.hyps) (simp add: Cons)
      obtain d where "esc c = [CHR 0x5C, d]" "escape_char d = Some c"
        using True by (auto simp: esc_def escape_char_def)
      then have "read_string_lit op (concat (map esc s) @ CHR 0x22 # rest) p out
          = read_string_lit op (concat (map esc s') @ CHR 0x22 # rest) (advance d (advance (CHR 0x5C) p)) (out @ [c])"
        by (simp add: Cons Let_def)
      with ih [of "advance d (advance (CHR 0x5C) p)" "out @ [c]"] show ?thesis by (simp add: Cons)
    next
      case False
      let ?n = "utf8_width c - 1"
      have "length (take ?n s') = ?n" using utf8_step(1) [OF v] by simp
      then have "take ?n (concat (map esc s') @ CHR 0x22 # rest) = take ?n s'"
        and "drop ?n (concat (map esc s') @ CHR 0x22 # rest) = concat (map esc (drop ?n s')) @ CHR 0x22 # rest"
        unfolding concat_esc_split [OF v] by (simp_all del: length_take)
      moreover have "\<exists>q. read_string_lit op (concat (map esc (drop ?n s')) @ CHR 0x22 # rest) (advance c p) (out @ c # take ?n s')
          = Ok (StringLit ((out @ c # take ?n s') @ drop ?n s'), rest, q)"
        by (rule less.hyps) (use utf8_step(3) [OF v] in \<open>simp_all add: Cons\<close>)
      ultimately show ?thesis using False by (simp add: Cons esc_def)
    qed
  qed simp
qed

lemma read_quoted_ident_back:
  "utf8_valid s \<Longrightarrow> CHR 0x60 \<notin> set s \<Longrightarrow> out @ s \<noteq> [] \<Longrightarrow>
    \<exists>q. read_quoted_ident op (s @ CHR 0x60 # rest) p out = Ok (Ident (out @ s), rest, q)"
proof (induction "length s" arbitrary: s p out rule: less_induct)
  case less
  show ?case
  proof (cases s)
    case (Cons c s')
    note v = less.prems(1) [unfolded Cons]
    let ?n = "utf8_width c - 1"
    have n: "?n \<le> length s'" by (rule utf8_step(1) [OF v])
    have "\<exists>q. read_quoted_ident op (drop ?n s' @ CHR 0x60 # rest) (advance c p) (out @ c # take ?n s')
        = Ok (Ident ((out @ c # take ?n s') @ drop ?n s'), rest, q)"
      by (intro less.hyps) (use less.prems(2) utf8_step(3) [OF v] in \<open>auto simp: Cons dest: in_set_dropD\<close>)
    with n less.prems(2) show ?thesis by (auto simp: Cons)
  qed (use less.prems in simp)
qed

lemma nat_digits_digit: "\<forall>c \<in> set (nat_digits n). is_digit c"
proof (induction n rule: nat_digits.induct)
  case (1 n)
  show ?case
    using 1 by (subst nat_digits.simps) (auto simp: is_digit_def char_code_def)
qed

lemma nat_digits_nonempty: "nat_digits n \<noteq> []"
  by (subst nat_digits.simps) simp

lemma digits_value_append: "digits_value (s @ [c]) = digits_value s * 10 + (char_code c - 48)"
  by (simp add: digits_value_def)

lemma digits_value_nat_digits: "digits_value (nat_digits n) = n"
proof (induction n rule: nat_digits.induct)
  case (1 n)
  show ?case
  proof (cases "n < 10")
    case True
    then show ?thesis by (subst nat_digits.simps) (simp add: digits_value_def char_code_def)
  next
    case False
    have "char_code (char_of (48 + n mod 10)) = 48 + n mod 10" by (simp add: char_code_def)
    with 1 [OF False] False show ?thesis by (subst nat_digits.simps) (simp add: digits_value_append)
  qed
qed

text \<open>A printed token, followed by a blank, is lexed to itself.\<close>

definition lexed_back :: "token \<Rightarrow> string \<Rightarrow> bool" where
  "lexed_back t text \<longleftrightarrow> (\<forall>rest p. \<exists>c s' q. text = c # s' \<and> \<not> is_space c \<and> \<not> (c = CHR ''-'' \<and> s' \<noteq> [])
     \<and> lex_token c (s' @ CHR '' '' # rest) p = Ok (t, CHR '' '' # rest, q))"

lemma keyword_lexed:
  assumes "map_of single_table c = None" and "map_of double_table c = None" and "is_ident_start c" and "\<not> is_digit c"
    and "c \<noteq> CHR 0x22" and "c \<noteq> CHR 0x60" and "\<not> is_space c" and "c \<noteq> CHR ''-''"
    and "\<forall>d \<in> set s. is_ident_char d" and "map_of keyword_table (c # s) = Some t"
  shows "lexed_back t (c # s)"
proof -
  have "is_ident_char c" using assms(3) by (auto simp: is_ident_start_def is_ident_char_def)
  moreover have "\<not> is_ident_char (CHR '' '')" by (simp add: is_ident_char_def is_alpha_def is_digit_def char_code_def)
  ultimately have "takeWhile is_ident_char (c # s @ CHR '' '' # rest) = c # s"
    "dropWhile is_ident_char (c # s @ CHR '' '' # rest) = CHR '' '' # rest" for rest
    using assms(9) by (simp_all add: takeWhile_append2 dropWhile_append2)
  with assms show ?thesis
    by (auto simp: lexed_back_def lex_token_def read_ident_or_keyword_def Let_def split: prod.split)
qed

definition keyword_ok :: "string \<times> token \<Rightarrow> bool" where
  "keyword_ok kt = (case kt of (k, t) \<Rightarrow> case k of [] \<Rightarrow> False | c # s \<Rightarrow>
     map_of single_table c = None \<and> map_of double_table c = None \<and> is_ident_start c \<and> \<not> is_digit c
     \<and> c \<noteq> CHR 0x22 \<and> c \<noteq> CHR 0x60 \<and> \<not> is_space c \<and> c \<noteq> CHR ''-'' \<and> (\<forall>d \<in> set s. is_ident_char d)
     \<and> map_of keyword_table k = Some t)"

lemma keyword_table_ok: "list_all keyword_ok keyword_table"
  by (simp add: keyword_ok_def keyword_table_def single_table_def double_table_def is_ident_start_def is_alpha_def
      is_digit_def is_space_def is_ident_char_def char_code_def)

lemma single_table_ok:
  "list_all (\<lambda>(c, t). map_of single_table c = Some t \<and> \<not> is_space c) single_table"
  by (simp add: single_table_def is_space_def)

lemma keywords_lexed:
  assumes "(k, t) \<in> set keyword_table"
  shows "lexed_back t k"
proof -
  have "keyword_ok (k, t)" using keyword_table_ok assms by (auto simp only: list_all_iff)
  then show ?thesis by (cases k) (simp_all add: keyword_ok_def keyword_lexed del: split_paired_Ex split_paired_All)
qed

lemma singles_lexed: "(c, t) \<in> set single_table \<Longrightarrow> lexed_back t [c]"
  using single_table_ok by (auto simp: list_all_iff lexed_back_def lex_token_def)

lemma double_lexed:
  assumes "map_of single_table c = None" and "map_of double_table c = Some (w, alone)"
    and "\<not> is_space c" and "c \<noteq> CHR ''-''"
  shows "lexed_back w [c, CHR ''='']" and "alone = Some t \<Longrightarrow> lexed_back t [c]"
  using assms by (simp_all add: lexed_back_def lex_token_def)

definition double_ok :: "char \<times> token \<times> token option \<Rightarrow> bool" where
  "double_ok e = (case e of (c, w, alone) \<Rightarrow>
     map_of single_table c = None \<and> map_of double_table c = Some (w, alone) \<and> \<not> is_space c \<and> c \<noteq> CHR ''-'')"

lemma double_table_ok: "list_all double_ok double_table"
  by (simp add: double_ok_def double_table_def single_table_def is_space_def)

lemma doubles_lexed:
  assumes "(t, k) \<in> set [(EqEq, ''==''), (EqSign, ''=''), (BangEq, ''!=''), (GtEq, ''>=''), (Gt, ''>''), (LtEq, ''<=''), (Lt, ''<'')]"
  shows "lexed_back t k"
proof -
  have d: "lexed_back w [c, CHR ''=''] \<and> (\<forall>t. alone = Some t \<longrightarrow> lexed_back t [c])"
    if "(c, w, alone) \<in> set double_table" for c w alone
    using bspec [OF double_table_ok [unfolded list_all_iff] that] double_lexed [of c w alone] by (simp add: double_ok_def)
  show ?thesis
    using assms d [of "CHR ''=''" EqEq "Some EqSign"] d [of "CHR ''!''" BangEq None] d [of "CHR ''>''" GtEq "Some Gt"]
      d [of "CHR ''<''" LtEq "Some Lt"] by (auto simp: double_table_def)
qed

lemma fixed_lexed:
  assumes "map_of fixed_text t = Some k"
  shows "lexed_back t k"
proof -
  have "(t, k) \<in> set fixed_text" using assms by (rule map_of_SomeD)
  then consider "(k, t) \<in> set keyword_table" | c where "(c, t) \<in> set single_table" "k = [c]"
    | "(t, k) \<in> set [(EqEq, ''==''), (EqSign, ''=''), (BangEq, ''!=''), (GtEq, ''>=''), (Gt, ''>''), (LtEq, ''<=''), (Lt, ''<'')]"
    unfolding fixed_text_def set_append by auto
  then show ?thesis using keywords_lexed singles_lexed doubles_lexed by cases auto
qed

text \<open>Every token without a payload has a text.\<close>

definition has_payload :: "token \<Rightarrow> bool" where
  "has_payload t \<longleftrightarrow> (\<exists>x. t = IntLit x \<or> t = FloatLit x) \<or> (\<exists>s. t = StringLit s \<or> t = Ident s)"

lemma fixed_tokens: "map fst fixed_text =
    [TFrom, TWhere, TSelect, TOrder, TLimit, TOffset, TGroup, TJoin, TInsert, TUpdate, TDelete, TDrop,
     TCreate, TUpsert, TIndex, TOn, TSet, TAs, TIn, TExists, TMissing, TContains, TStarts, TEnds, TUse,
     TAsc, TDesc, TAnd, TOr, TNot, TIf, TThen, TElse, TTrue, TFalse, TNull, TRequired, TUnique, TAnyKw,
     LBrace, RBrace, LBracket, RBracket, LParen, RParen, Comma, Colon, Dot, Plus, Star, Slash, Percent,
     Pipe, Minus, EqEq, EqSign, BangEq, GtEq, Gt, LtEq, Lt]"
  by (simp add: fixed_text_def keyword_table_def single_table_def)

lemma fixed_text_complete:
  assumes "\<not> has_payload t"
  shows "map_of fixed_text t \<noteq> None"
proof -
  have "t \<in> set (map fst fixed_text)"
    unfolding fixed_tokens using assms by (cases t) (simp_all add: has_payload_def)
  then show ?thesis by (simp add: map_of_eq_None_iff)
qed

lemma digit_char_facts:
  assumes "is_digit c"
  shows "map_of single_table c = None" and "map_of double_table c = None" and "\<not> is_space c"
    and "c \<noteq> CHR 0x22" and "c \<noteq> CHR 0x60" and "c \<noteq> CHR ''-''"
proof -
  have "list_all (\<lambda>e. \<not> is_digit (fst e)) single_table" "list_all (\<lambda>e. \<not> is_digit (fst e)) double_table"
    by (simp_all add: single_table_def double_table_def is_digit_def char_code_def)
  then show "map_of single_table c = None" "map_of double_table c = None"
    using assms by (auto simp: map_of_eq_None_iff list_all_iff)
  have n: "c \<noteq> d" if "\<not> is_digit d" for d using assms that by auto
  show "\<not> is_space c" "c \<noteq> CHR 0x22" "c \<noteq> CHR 0x60" "c \<noteq> CHR ''-''"
    unfolding is_space_def by (simp_all add: n is_digit_def char_code_def)
qed

lemma int_lexed: "unat n < 2 ^ 63 \<Longrightarrow> lexed_back (IntLit n) (nat_digits (unat n))"
  unfolding lexed_back_def
proof (intro allI)
  fix rest p assume n: "unat n < 2 ^ 63"
  obtain c s where cs: "nat_digits (unat n) = c # s" using nat_digits_nonempty by (cases "nat_digits (unat n)") auto
  have d: "is_digit c" "\<forall>e \<in> set s. is_digit e" using nat_digits_digit [of "unat n"] by (simp_all add: cs)
  have sp: "\<not> is_digit (CHR '' '')" by (simp add: is_digit_def char_code_def)
  have tw: "takeWhile is_digit (c # s @ CHR '' '' # rest) = c # s"
    "dropWhile is_digit (c # s @ CHR '' '' # rest) = CHR '' '' # rest"
    using d sp by (simp_all add: takeWhile_append2 dropWhile_append2)
  have v: "digits_value (c # s) = unat n" using digits_value_nat_digits [of "unat n"] by (simp add: cs)
  have "read_number (c # s @ CHR '' '' # rest) p = Ok (IntLit n, CHR '' '' # rest, (fst p, snd p + length (c # s)))"
    unfolding read_number_def Let_def tw v using n by (cases p) (auto split: list.split)
  then have "lex_token c (s @ CHR '' '' # rest) p = Ok (IntLit n, CHR '' '' # rest, (fst p, snd p + length (c # s)))"
    using digit_char_facts [OF d(1)] d(1) by (simp add: lex_token_def)
  with digit_char_facts [OF d(1)] cs
  show "\<exists>c s' q. nat_digits (unat n) = c # s' \<and> \<not> is_space c \<and> \<not> (c = CHR ''-'' \<and> s' \<noteq> [])
      \<and> lex_token c (s' @ CHR '' '' # rest) p = Ok (IntLit n, CHR '' '' # rest, q)" by blast
qed

lemma quote_char_facts:
  "map_of single_table (CHR 0x22) = None" "map_of double_table (CHR 0x22) = None" "\<not> is_space (CHR 0x22)"
  "map_of single_table (CHR 0x60) = None" "map_of double_table (CHR 0x60) = None" "\<not> is_space (CHR 0x60)"
  by (simp_all add: single_table_def double_table_def is_space_def)

lemma string_lexed: "utf8_valid s \<Longrightarrow> lexed_back (StringLit s) (quote s)"
  using read_string_lit_quote [of s _ "CHR '' '' # _" _ "[]"]
  by (simp add: lexed_back_def quote_def lex_token_def quote_char_facts del: split_paired_Ex split_paired_All)

lemma ident_lexed:
  "s \<noteq> [] \<Longrightarrow> utf8_valid s \<Longrightarrow> CHR 0x60 \<notin> set s \<Longrightarrow> lexed_back (Ident s) (CHR 0x60 # s @ [CHR 0x60])"
  using read_quoted_ident_back [of s "[]" _ "CHR '' '' # _"]
  by (simp add: lexed_back_def lex_token_def quote_char_facts del: split_paired_Ex split_paired_All)

lemma token_lexed:
  assumes "printable t"
  shows "lexed_back t (token_text t)"
proof (cases "has_payload t")
  case True
  with assms int_lexed string_lexed ident_lexed show ?thesis by (auto simp: has_payload_def)
next
  case False
  then obtain k where k: "map_of fixed_text t = Some k" using fixed_text_complete by blast
  moreover have "token_text t = k" using False k by (cases t) (simp_all add: has_payload_def)
  ultimately show ?thesis using fixed_lexed by simp
qed

definition print_tokens :: "token list \<Rightarrow> string" where
  "print_tokens ts = concat (map (\<lambda>t. token_text t @ '' '') ts)"

lemma tokenize_loop_blank:
  "tokenize_loop (Suc n) (CHR '' '' # s) p out = tokenize_loop (Suc n) s (advance (CHR '' '') p) out"
  by (simp add: is_space_def)

lemma skip_ws_token:
  "\<not> is_space c \<Longrightarrow> \<not> (c = CHR ''-'' \<and> s \<noteq> []) \<Longrightarrow>
    skip_ws False (c # s @ CHR '' '' # rest) p = (c # s @ CHR '' '' # rest, p)"
  by (cases s) auto

lemma tokenize_loop_print:
  "\<forall>t \<in> set ts. printable t \<Longrightarrow> length ts < n \<Longrightarrow>
    \<exists>sps. tokenize_loop n (print_tokens ts) p out = Ok (out @ sps) \<and> map sp_token sps = ts"
proof (induction ts arbitrary: n p out)
  case Nil
  then show ?case by (cases n) (auto simp: print_tokens_def)
next
  case (Cons t ts)
  from Cons.prems(2) have "2 \<le> n" by simp
  then obtain m where n: "n = Suc (Suc m)" by (metis add_2_eq_Suc le_Suc_ex)
  have "lexed_back t (token_text t)" using Cons.prems by (intro token_lexed) simp
  then obtain c s' q where tt: "token_text t = c # s'" and c: "\<not> is_space c" "\<not> (c = CHR ''-'' \<and> s' \<noteq> [])"
    and lx: "lex_token c (s' @ CHR '' '' # print_tokens ts) p = Ok (t, CHR '' '' # print_tokens ts, q)"
    unfolding lexed_back_def by blast
  have pr: "print_tokens (t # ts) = c # s' @ CHR '' '' # print_tokens ts" by (simp add: print_tokens_def tt)
  let ?sp = "\<lparr>sp_token = t, sp_line = fst p, sp_col = snd p\<rparr>"
  have "tokenize_loop n (print_tokens (t # ts)) p out
      = tokenize_loop (Suc m) (print_tokens ts) (advance (CHR '' '') q) (out @ [?sp])"
    unfolding n pr tokenize_loop.simps(2) [of "Suc m"] skip_ws_token [OF c] prod.case list.case lx
    by (simp only: bindO_simps prod.case tokenize_loop_blank)
  moreover obtain sps where "tokenize_loop (Suc m) (print_tokens ts) (advance (CHR '' '') q) (out @ [?sp])
      = Ok ((out @ [?sp]) @ sps)" "map sp_token sps = ts"
    using Cons.IH [of "Suc m" "advance (CHR '' '') q" "out @ [?sp]"] Cons.prems n by auto
  ultimately show ?case by (intro exI [of _ "?sp # sps"]) simp
qed

lemma length_print_tokens: "length ts \<le> length (print_tokens ts)"
  by (induction ts) (auto simp: print_tokens_def)

section \<open>Properties\<close>

text \<open>
  C28: the lexer ends on every input. \<open>tokenize\<close> returns the tokens or a positioned error for any
  source text; no input makes it loop or panic.
\<close>

theorem tokenize_total:
  "(\<exists>ts. tokenize input = Ok ts) \<or> (\<exists>e. tokenize input = Err e)"
  unfolding tokenize_def by (rule returnsE [OF tokenize_loop_returns]) auto

text \<open>
  Printing and lexing are inverse. Keywords, operators, non-negative integers, strings with
  quotes, backslashes, line breaks and any UTF-8 in them, and backtick-quoted identifiers (also
  those spelled like keywords) come back from the lexer as the tokens they were printed from,
  in order, with nothing added: no string value can break out of its quotes.
\<close>

theorem tokenize_print_tokens:
  assumes "\<forall>t \<in> set ts. printable t"
  shows "\<exists>sps. tokenize (print_tokens ts) = Ok sps \<and> map sp_token sps = ts"
  using tokenize_loop_print [OF assms, of "Suc (length (print_tokens ts))" "(1, 1)" "[]"] length_print_tokens [of ts]
  by (simp add: tokenize_def del: tokenize_loop.simps split_paired_Ex)

theorem tokenize_print_tokens_witness:
  "\<exists>sps. tokenize (print_tokens [TFrom, Ident ''order'', TWhere, Ident ''a'', GtEq, IntLit 42, Pipe, StringLit [CHR 0x22, CHR ''x'']])
    = Ok sps \<and> map sp_token sps = [TFrom, Ident ''order'', TWhere, Ident ''a'', GtEq, IntLit 42, Pipe, StringLit [CHR 0x22, CHR ''x'']]"
  by (rule tokenize_print_tokens) (simp add: utf8_valid_def)

end
