(* ===== verification/Asl_Parser.thy ===== *)
theory Asl_Parser
  imports Asl_Lexer Asl_Ast "HOL-Library.Sublist"
begin

text \<open>
  \<open>asl/parser.rs\<close>: tokens to a statement, by recursive descent.

  The parser's \<open>tokens\<close> and \<open>pos\<close> are kept as the tokens from \<open>pos\<close> on and the position of the
  last token, which is all the code reads of them. A \<open>ParseError\<close> has the line and column of the
  source; its message is a value of \<open>parse_message\<close>, one constructor per format string with the
  arguments of the format, so the \<open>Debug\<close> text of a token is not spelled out.

  The expression parser calls itself through \<open>parse_primary\<close> and \<open>parse_doc_field\<close>: the levels
  below take the recursive parser as an argument, and \<open>parse_expr\<close> ties the knot with fuel. A loop
  over tokens takes the number of tokens left and one more as its fuel (\<open>looped\<close>), and so does the
  nesting of expressions; \<open>parse_total\<close> shows that this is enough for every input.
\<close>

section \<open>Errors and the cursor\<close>

datatype parse_message =
    MsgTrailing
  | MsgExpected token "token option"
  | MsgExpectedIdent "token option"
  | MsgExpectedInt "token option"
  | MsgExpectedString "token option"
  | MsgExpectedStatement
  | MsgEmptyInput
  | MsgIndexAfterUnique
  | MsgAfterDrop "token option"
  | MsgMixedIndex string string
  | MsgUnknownType string
  | MsgExpectedType "token option"
  | MsgExpectedStage "token option"
  | MsgLimitNegative
  | MsgOffsetNegative
  | MsgAfterInsert "token option"
  | MsgExpectedExpr
  | MsgUnexpectedInExpr token
  | MsgExpectedLit "token option"
  | MsgRequireField expr

record parse_error =
  pe_message :: parse_message
  pe_line :: nat
  pe_col :: nat

record parser =
  p_rest :: "spanned list"
  p_last :: pos

type_synonym 'a parse = "(parser, parse_error, 'a) prog"

definition parser_new :: "spanned list \<Rightarrow> parser" where
  "parser_new tokens = \<lparr>p_rest = tokens,
     p_last = (if tokens = [] then (1, 1) else (sp_line (last tokens), sp_col (last tokens)))\<rparr>"

definition peek_token_at :: "nat \<Rightarrow> parser \<Rightarrow> token option" where
  "peek_token_at k p = (case drop k (p_rest p) of [] \<Rightarrow> None | s # _ \<Rightarrow> Some (sp_token s))"

definition peek_token :: "parser \<Rightarrow> token option" where
  "peek_token p = (case p_rest p of [] \<Rightarrow> None | s # _ \<Rightarrow> Some (sp_token s))"

definition advance_token :: "spanned option parse" where
  "advance_token = (\<lambda>p. case p_rest p of
     [] \<Rightarrow> (Ok None, p) | s # rest \<Rightarrow> (Ok (Some s), p\<lparr>p_rest := rest\<rparr>))"

definition is_eof :: "parser \<Rightarrow> bool" where
  "is_eof p \<longleftrightarrow> p_rest p = []"

definition error_here :: "parse_message \<Rightarrow> 'a parse" where
  "error_here m = (\<lambda>p. (Err (case p_rest p of
       s # _ \<Rightarrow> \<lparr>pe_message = m, pe_line = sp_line s, pe_col = sp_col s\<rparr>
     | [] \<Rightarrow> \<lparr>pe_message = m, pe_line = fst (p_last p), pe_col = snd (p_last p)\<rparr>), p))"

definition looped :: "(nat \<Rightarrow> 'a parse) \<Rightarrow> 'a parse" where
  "looped body = (\<lambda>p. body (Suc (length (p_rest p))) p)"

definition expect :: "token \<Rightarrow> unit parse" where
  "expect want = bindP (readP peek_token) (\<lambda>t.
     if t = Some want then bindP advance_token (\<lambda>_. returnP ()) else error_here (MsgExpected want t))"

definition ident_of :: "token \<Rightarrow> string option" where
  "ident_of t = (case t of Ident name \<Rightarrow> Some name | _ \<Rightarrow> None)"

definition int_of_token :: "token \<Rightarrow> i64 option" where
  "int_of_token t = (case t of IntLit n \<Rightarrow> Some n | _ \<Rightarrow> None)"

definition string_of_token :: "token \<Rightarrow> string option" where
  "string_of_token t = (case t of StringLit s \<Rightarrow> Some s | _ \<Rightarrow> None)"

definition float_of_token :: "token \<Rightarrow> f64 option" where
  "float_of_token t = (case t of FloatLit x \<Rightarrow> Some x | _ \<Rightarrow> None)"

text \<open>
  The three methods that take a token with a payload differ in the variant they accept and in
  their message.
\<close>

definition expect_payload :: "(token \<Rightarrow> 'a option) \<Rightarrow> (token option \<Rightarrow> parse_message) \<Rightarrow> 'a parse" where
  "expect_payload f msg = bindP (readP peek_token) (\<lambda>t.
     case Option.bind t f of
       Some x \<Rightarrow> bindP advance_token (\<lambda>_. returnP x)
     | None \<Rightarrow> error_here (msg t))"

definition expect_ident :: "string parse" where
  "expect_ident = expect_payload ident_of MsgExpectedIdent"

definition expect_int_lit :: "i64 parse" where
  "expect_int_lit = expect_payload int_of_token MsgExpectedInt"

definition expect_string_lit :: "string parse" where
  "expect_string_lit = expect_payload string_of_token MsgExpectedString"

text \<open>\<open>if self.peek_token() == Some(&t) { self.advance(); true } else { false }\<close>\<close>

definition accept :: "token \<Rightarrow> bool parse" where
  "accept want = bindP (readP peek_token) (\<lambda>t.
     if t = Some want then bindP advance_token (\<lambda>_. returnP True) else returnP False)"

text \<open>
  A comma-separated list: \<open>while cont { advance; push(item) }\<close> after a first item, and the form
  that may be empty when the closing token follows at once.
\<close>

primrec more_items :: "nat \<Rightarrow> (parser \<Rightarrow> bool) \<Rightarrow> 'a parse \<Rightarrow> 'a list \<Rightarrow> 'a list parse" where
  "more_items 0 cont item acc = hangP"
| "more_items (Suc n) cont item acc = bindP (readP cont) (\<lambda>b.
     if b then bindP advance_token (\<lambda>_. bindP item (\<lambda>x. more_items n cont item (acc @ [x])))
     else returnP acc)"

definition item_list :: "(parser \<Rightarrow> bool) \<Rightarrow> 'a parse \<Rightarrow> 'a list parse" where
  "item_list cont item = bindP item (\<lambda>x. looped (\<lambda>n. more_items n cont item [x]))"

definition at_comma :: "parser \<Rightarrow> bool" where
  "at_comma p \<longleftrightarrow> peek_token p = Some Comma"

definition item_list_until :: "token \<Rightarrow> 'a parse \<Rightarrow> 'a list parse" where
  "item_list_until closing item = bindP (readP peek_token) (\<lambda>t.
     if t \<noteq> Some closing then item_list at_comma item else returnP [])"

section \<open>Expressions\<close>

definition parse_doc_field :: "expr parse \<Rightarrow> (string \<times> expr) parse" where
  "parse_doc_field pe = bindP expect_ident (\<lambda>key. bindP (expect Colon) (\<lambda>_. bindP pe (\<lambda>v. returnP (key, v))))"

text \<open>The rest of a ternary after \<open>if\<close>, in \<open>parse_ternary\<close> and in \<open>parse_primary\<close>.\<close>

definition ternary_rest :: "expr parse \<Rightarrow> expr parse" where
  "ternary_rest pe = bindP pe (\<lambda>cond. bindP (expect TThen) (\<lambda>_. bindP pe (\<lambda>then_branch.
     bindP (expect TElse) (\<lambda>_. bindP pe (\<lambda>else_branch. returnP (ETernary cond then_branch else_branch))))))"

definition literal_token :: "token \<Rightarrow> expr option" where
  "literal_token t =
     (case int_of_token t of Some n \<Rightarrow> Some (ELit (LInt n)) | None \<Rightarrow>
      case float_of_token t of Some x \<Rightarrow> Some (ELit (LFloat x)) | None \<Rightarrow>
      case string_of_token t of Some s \<Rightarrow> Some (ELit (LString s)) | None \<Rightarrow>
      if t = TTrue then Some (ELit (LBool True)) else if t = TFalse then Some (ELit (LBool False))
      else if t = TNull then Some (ELit LNull)
      else case ident_of t of Some name \<Rightarrow> Some (EField name) | None \<Rightarrow> None)"

definition parse_primary :: "expr parse \<Rightarrow> expr parse" where
  "parse_primary pe = bindP advance_token (\<lambda>s.
     case s of
       None \<Rightarrow> error_here MsgExpectedExpr
     | Some sp \<Rightarrow>
        let t = sp_token sp in
        (case literal_token t of
           Some e \<Rightarrow> returnP e
         | None \<Rightarrow>
           if t = LParen then bindP pe (\<lambda>inner. bindP (expect RParen) (\<lambda>_. returnP inner))
           else if t = LBracket then
             bindP (item_list_until RBracket pe) (\<lambda>items. bindP (expect RBracket) (\<lambda>_. returnP (EArrayLit items)))
           else if t = LBrace then
             bindP (item_list_until RBrace (parse_doc_field pe)) (\<lambda>fs.
             bindP (expect RBrace) (\<lambda>_. returnP (EDocLit fs)))
           else if t = TIf then ternary_rest pe
           else failP \<lparr>pe_message = MsgUnexpectedInExpr t, pe_line = sp_line sp, pe_col = sp_col sp\<rparr>))"

primrec prefixed :: "nat \<Rightarrow> token \<Rightarrow> unary_op \<Rightarrow> expr parse \<Rightarrow> expr parse" where
  "prefixed 0 t op sub = hangP"
| "prefixed (Suc n) t op sub = bindP (accept t) (\<lambda>b.
     if b then bindP (prefixed n t op sub) (\<lambda>inner. returnP (EUnaryOp op inner)) else sub)"

definition parse_unary :: "expr parse \<Rightarrow> expr parse" where
  "parse_unary pe = looped (\<lambda>n. prefixed n Minus OpNeg (parse_primary pe))"

text \<open>
  The left-associative loops of \<open>parse_or\<close>, \<open>parse_and\<close>, \<open>parse_add\<close> and \<open>parse_mul\<close>, with the
  operators of their level.
\<close>

primrec binop_loop :: "nat \<Rightarrow> (token \<times> bin_op) list \<Rightarrow> expr parse \<Rightarrow> expr \<Rightarrow> expr parse" where
  "binop_loop 0 ops sub lhs = hangP"
| "binop_loop (Suc n) ops sub lhs = bindP (readP peek_token) (\<lambda>t.
     case Option.bind t (map_of ops) of
       Some op \<Rightarrow> bindP advance_token (\<lambda>_. bindP sub (\<lambda>rhs. binop_loop n ops sub (EBinOp op lhs rhs)))
     | None \<Rightarrow> returnP lhs)"

definition binop_level :: "(token \<times> bin_op) list \<Rightarrow> expr parse \<Rightarrow> expr parse" where
  "binop_level ops sub = bindP sub (\<lambda>lhs. looped (\<lambda>n. binop_loop n ops sub lhs))"

definition mul_ops :: "(token \<times> bin_op) list" where
  "mul_ops = [(Star, OpMul), (Slash, OpDiv), (Percent, OpMod)]"

definition add_ops :: "(token \<times> bin_op) list" where
  "add_ops = [(Plus, OpAdd), (Minus, OpSub)]"

definition cmp_ops :: "(token \<times> bin_op) list" where
  "cmp_ops = [(EqEq, OpEq), (BangEq, OpNotEq), (Gt, OpGt), (GtEq, OpGtEq), (Lt, OpLt), (LtEq, OpLtEq)]"

definition match_ops :: "(token \<times> string_match_op) list" where
  "match_ops = [(TContains, Contains), (TStarts, Starts), (TEnds, Ends)]"

definition parse_mul :: "expr parse \<Rightarrow> expr parse" where
  "parse_mul pe = binop_level mul_ops (parse_unary pe)"

definition parse_add :: "expr parse \<Rightarrow> expr parse" where
  "parse_add pe = binop_level add_ops (parse_mul pe)"

definition require_field :: "expr \<Rightarrow> string parse" where
  "require_field e = (case e of EField name \<Rightarrow> returnP name | other \<Rightarrow> error_here (MsgRequireField other))"

definition I64_MIN :: i64 where
  "I64_MIN = 0x8000000000000000"

text \<open>The unary minus of an \<open>i64\<close> panics on its least value; that of a float flips the sign bit.\<close>

definition parse_lit_value :: "lit_value parse" where
  "parse_lit_value = bindP (accept Minus) (\<lambda>negate. bindP advance_token (\<lambda>s.
     case s of
       None \<Rightarrow> error_here (MsgExpectedLit None)
     | Some sp \<Rightarrow>
        let t = sp_token sp;
            other = failP \<lparr>pe_message = MsgExpectedLit (Some t), pe_line = sp_line sp, pe_col = sp_col sp\<rparr> in
        (case int_of_token t of
           Some n \<Rightarrow>
             if negate then
               (if n = I64_MIN then panicP ''attempt to negate with overflow'' else returnP (LInt (- n)))
             else returnP (LInt n)
         | None \<Rightarrow>
         (case float_of_token t of
           Some x \<Rightarrow> returnP (LFloat (if negate then flip_bit 63 x else x))
         | None \<Rightarrow>
           if negate then other
           else (case string_of_token t of
             Some str \<Rightarrow> returnP (LString str)
           | None \<Rightarrow>
             if t = TTrue then returnP (LBool True) else if t = TFalse then returnP (LBool False)
             else if t = TNull then returnP LNull else other)))))"

definition parse_lit_array :: "lit_value list parse" where
  "parse_lit_array = bindP (expect LBracket) (\<lambda>_. bindP (item_list_until RBracket parse_lit_value) (\<lambda>vs.
     bindP (expect RBracket) (\<lambda>_. returnP vs)))"

definition predicate_tail :: "expr parse \<Rightarrow> expr \<Rightarrow> expr parse" where
  "predicate_tail pe lhs = bindP (readP peek_token) (\<lambda>t. bindP (readP (peek_token_at 1)) (\<lambda>t1.
     case Option.bind t (map_of cmp_ops) of
       Some op \<Rightarrow> bindP advance_token (\<lambda>_. bindP (parse_add pe) (\<lambda>rhs. returnP (EBinOp op lhs rhs)))
     | None \<Rightarrow>
     if t = Some TIn then
       bindP (require_field lhs) (\<lambda>f. bindP advance_token (\<lambda>_.
       bindP parse_lit_array (\<lambda>vs. returnP (EIn f vs False))))
     else if t = Some TNot \<and> t1 = Some TIn then
       bindP (require_field lhs) (\<lambda>f. bindP advance_token (\<lambda>_. bindP advance_token (\<lambda>_.
       bindP parse_lit_array (\<lambda>vs. returnP (EIn f vs True)))))
     else (case Option.bind t (map_of match_ops) of
       Some op \<Rightarrow> bindP (require_field lhs) (\<lambda>f. bindP advance_token (\<lambda>_.
         bindP expect_string_lit (\<lambda>pattern. returnP (EStringMatch f op pattern))))
     | None \<Rightarrow> returnP lhs)))"

definition parse_predicate :: "expr parse \<Rightarrow> expr parse" where
  "parse_predicate pe = bindP (accept TExists) (\<lambda>ex.
     if ex then bindP expect_ident (\<lambda>name. returnP (EExists name))
     else bindP (accept TMissing) (\<lambda>mi.
     if mi then bindP expect_ident (\<lambda>name. returnP (EMissing name))
     else bindP (parse_add pe) (predicate_tail pe)))"

definition parse_not :: "expr parse \<Rightarrow> expr parse" where
  "parse_not pe = looped (\<lambda>n. prefixed n TNot OpNot (parse_predicate pe))"

definition parse_and :: "expr parse \<Rightarrow> expr parse" where
  "parse_and pe = binop_level [(TAnd, OpAnd)] (parse_not pe)"

definition parse_or :: "expr parse \<Rightarrow> expr parse" where
  "parse_or pe = binop_level [(TOr, OpOr)] (parse_and pe)"

definition parse_ternary :: "expr parse \<Rightarrow> expr parse" where
  "parse_ternary pe = bindP (expect TIf) (\<lambda>_. ternary_rest pe)"

primrec parse_expr_fuel :: "nat \<Rightarrow> expr parse" where
  "parse_expr_fuel 0 = hangP"
| "parse_expr_fuel (Suc n) = bindP (readP peek_token) (\<lambda>t.
     if t = Some TIf then parse_ternary (parse_expr_fuel n) else parse_or (parse_expr_fuel n))"

definition parse_expr :: "expr parse" where
  "parse_expr = looped parse_expr_fuel"

section \<open>Stages\<close>

definition stage_keywords :: "token list" where
  "stage_keywords = [TFrom, TWhere, TSelect, TDrop, TOrder, TLimit, TOffset, TGroup, TJoin, TInsert,
     TUpdate, TUpsert, TDelete]"

definition stage_keyword_at :: "nat \<Rightarrow> parser \<Rightarrow> bool" where
  "stage_keyword_at k p \<longleftrightarrow> (case peek_token_at k p of Some t \<Rightarrow> t \<in> set stage_keywords | None \<Rightarrow> False)"

definition at_list_continuation :: "parser \<Rightarrow> bool" where
  "at_list_continuation p \<longleftrightarrow> peek_token p = Some Comma \<and>
     \<not> (case peek_token_at 1 p of Some t \<Rightarrow> t \<in> set stage_keywords | None \<Rightarrow> False)"

definition parse_from_stage :: "stage parse" where
  "parse_from_stage = bindP (expect TFrom) (\<lambda>_. bindP expect_ident (\<lambda>collection. bindP (accept TUse) (\<lambda>use.
     if use then bindP (expect TIndex) (\<lambda>_. bindP expect_ident (\<lambda>hint. returnP (SFrom collection (Some hint))))
     else returnP (SFrom collection None))))"

definition parse_where_stage :: "stage parse" where
  "parse_where_stage = bindP (expect TWhere) (\<lambda>_. bindP parse_expr (\<lambda>e. returnP (SWhere e)))"

definition parse_select_expr :: "expr parse" where
  "parse_select_expr = bindP (readP peek_token) (\<lambda>t. bindP (readP (peek_token_at 1)) (\<lambda>next_kind.
     case Option.bind t ident_of of
       Some n \<Rightarrow>
         if n = ''count'' \<and> next_kind \<in> {Some Comma, Some TAs, Some Pipe, None} then
           bindP advance_token (\<lambda>_. returnP (EAggCall n None))
         else if n \<in> {''sum'', ''avg'', ''min'', ''max'', ''collect''} \<and> Option.bind next_kind ident_of \<noteq> None then
           bindP advance_token (\<lambda>_. bindP expect_ident (\<lambda>f. returnP (EAggCall n (Some f))))
         else parse_expr
     | None \<Rightarrow> parse_expr))"

definition parse_select_item :: "select_item parse" where
  "parse_select_item = bindP parse_select_expr (\<lambda>e. bindP (accept TAs) (\<lambda>b.
     if b then bindP expect_ident (\<lambda>a. returnP \<lparr>si_expr = e, si_alias = Some a\<rparr>)
     else returnP \<lparr>si_expr = e, si_alias = None\<rparr>))"

definition parse_select_stage :: "stage parse" where
  "parse_select_stage = bindP (expect TSelect) (\<lambda>_. bindP (accept Star) (\<lambda>star.
     if star then returnP (SSelect None)
     else bindP (item_list at_list_continuation parse_select_item) (\<lambda>items. returnP (SSelect (Some items)))))"

definition parse_drop_stage :: "stage parse" where
  "parse_drop_stage = bindP (expect TDrop) (\<lambda>_.
     bindP (item_list at_list_continuation expect_ident) (\<lambda>fs. returnP (SDrop fs)))"

definition parse_order_key :: "order_key parse" where
  "parse_order_key = bindP expect_ident (\<lambda>field. bindP (readP peek_token) (\<lambda>t.
     if t = Some TAsc then bindP advance_token (\<lambda>_. returnP \<lparr>ok_field = field, ok_direction = Asc\<rparr>)
     else if t = Some TDesc then bindP advance_token (\<lambda>_. returnP \<lparr>ok_field = field, ok_direction = Desc\<rparr>)
     else returnP \<lparr>ok_field = field, ok_direction = Asc\<rparr>))"

definition parse_order_stage :: "stage parse" where
  "parse_order_stage = bindP (expect TOrder) (\<lambda>_.
     bindP (item_list at_list_continuation parse_order_key) (\<lambda>ks. returnP (SOrder ks)))"

definition parse_limit_stage :: "stage parse" where
  "parse_limit_stage = bindP (expect TLimit) (\<lambda>_. bindP expect_int_lit (\<lambda>n.
     if sint n < 0 then error_here MsgLimitNegative else returnP (SLimit n)))"

definition parse_offset_stage :: "stage parse" where
  "parse_offset_stage = bindP (expect TOffset) (\<lambda>_. bindP expect_int_lit (\<lambda>n.
     if sint n < 0 then error_here MsgOffsetNegative else returnP (SOffset n)))"

definition parse_group_stage :: "stage parse" where
  "parse_group_stage = bindP (expect TGroup) (\<lambda>_.
     bindP (item_list at_list_continuation expect_ident) (\<lambda>fs. returnP (SGroup fs)))"

definition parse_join_stage :: "stage parse" where
  "parse_join_stage = bindP (expect TJoin) (\<lambda>_. bindP expect_ident (\<lambda>collection. bindP (expect TOn) (\<lambda>_.
     bindP expect_ident (\<lambda>l. bindP (expect EqEq) (\<lambda>_. bindP expect_ident (\<lambda>r.
     returnP (SJoin collection l r)))))))"

definition parse_doc_literal :: "doc_literal parse" where
  "parse_doc_literal = bindP (expect LBrace) (\<lambda>_. bindP (item_list_until RBrace (parse_doc_field parse_expr)) (\<lambda>fs.
     bindP (expect RBrace) (\<lambda>_. returnP fs)))"

definition parse_upsert_stage :: "stage parse" where
  "parse_upsert_stage = bindP (expect TUpsert) (\<lambda>_. bindP parse_doc_literal (\<lambda>doc. returnP (SUpsert doc)))"

definition parse_insert_stage :: "stage parse" where
  "parse_insert_stage = bindP (expect TInsert) (\<lambda>_. bindP (readP peek_token) (\<lambda>t.
     if t = Some LBrace then bindP parse_doc_literal (\<lambda>doc. returnP (SInsert [doc]))
     else if t = Some LBracket then
       bindP advance_token (\<lambda>_. bindP (item_list_until RBracket parse_doc_literal) (\<lambda>docs.
       bindP (expect RBracket) (\<lambda>_. returnP (SInsert docs))))
     else error_here (MsgAfterInsert t)))"

definition parse_assignment :: "assignment parse" where
  "parse_assignment = bindP expect_ident (\<lambda>field. bindP (expect EqSign) (\<lambda>_. bindP parse_expr (\<lambda>v.
     returnP \<lparr>as_field = field, as_value = v\<rparr>)))"

definition parse_update_stage :: "stage parse" where
  "parse_update_stage = bindP (expect TUpdate) (\<lambda>_. bindP (expect TSet) (\<lambda>_.
     bindP (item_list at_list_continuation parse_assignment) (\<lambda>asg. returnP (SUpdate asg))))"

definition parse_stage :: "stage parse" where
  "parse_stage = bindP (readP peek_token) (\<lambda>t.
     if t = Some TWhere then parse_where_stage
     else if t = Some TSelect then parse_select_stage
     else if t = Some TDrop then parse_drop_stage
     else if t = Some TOrder then parse_order_stage
     else if t = Some TLimit then parse_limit_stage
     else if t = Some TOffset then parse_offset_stage
     else if t = Some TGroup then parse_group_stage
     else if t = Some TJoin then parse_join_stage
     else if t = Some TInsert then parse_insert_stage
     else if t = Some TUpdate then parse_update_stage
     else if t = Some TUpsert then parse_upsert_stage
     else if t = Some TDelete then bindP advance_token (\<lambda>_. returnP SDelete)
     else error_here (MsgExpectedStage t))"

text \<open>The separator before a stage: consumed only when a stage keyword follows it.\<close>

definition next_stage :: "bool parse" where
  "next_stage = bindP (readP peek_token) (\<lambda>t.
     if t \<in> {Some Pipe, Some Comma} then bindP (readP (stage_keyword_at 1)) (\<lambda>b.
       if b then bindP advance_token (\<lambda>_. returnP True) else returnP False)
     else readP (stage_keyword_at 0))"

primrec pipeline_loop :: "nat \<Rightarrow> stage list \<Rightarrow> stage list parse" where
  "pipeline_loop 0 stages = hangP"
| "pipeline_loop (Suc n) stages = bindP next_stage (\<lambda>b.
     if b then bindP parse_stage (\<lambda>s. pipeline_loop n (stages @ [s])) else returnP stages)"

definition parse_pipeline :: "pipeline parse" where
  "parse_pipeline = bindP parse_from_stage (\<lambda>s. looped (\<lambda>n. pipeline_loop n [s]))"

section \<open>Statements\<close>

definition parse_if_not_exists :: "bool parse" where
  "parse_if_not_exists = bindP (accept TIf) (\<lambda>b.
     if b then bindP (expect TNot) (\<lambda>_. bindP (expect TExists) (\<lambda>_. returnP True)) else returnP False)"

definition parse_if_exists :: "bool parse" where
  "parse_if_exists = bindP (accept TIf) (\<lambda>b.
     if b then bindP (expect TExists) (\<lambda>_. returnP True) else returnP False)"

definition parse_qualified_field :: "(string \<times> string) parse" where
  "parse_qualified_field = bindP expect_ident (\<lambda>coll. bindP (expect Dot) (\<lambda>_.
     bindP expect_ident (\<lambda>field. returnP (coll, field))))"

definition index_target_item :: "string \<Rightarrow> string parse" where
  "index_target_item collection = bindP parse_qualified_field (\<lambda>(c, f).
     if c \<noteq> collection then error_here (MsgMixedIndex collection c) else returnP f)"

definition parse_index_target :: "(string \<times> string list) parse" where
  "parse_index_target = bindP parse_qualified_field (\<lambda>(collection, first).
     bindP (looped (\<lambda>n. more_items n at_comma (index_target_item collection) [first])) (\<lambda>fs.
     returnP (collection, fs)))"

definition parse_schema_type :: "schema_type parse" where
  "parse_schema_type = bindP (readP peek_token) (\<lambda>t.
     let take_it = (\<lambda>ty. bindP advance_token (\<lambda>_. returnP ty)) in
     if t = Some TAnyKw then take_it TAny
     else (case Option.bind t ident_of of
       Some name \<Rightarrow>
         if name = ''int'' then take_it TInt
         else if name = ''float'' then take_it TFloat
         else if name = ''string'' then take_it TString
         else if name = ''bool'' then take_it TBool
         else error_here (MsgUnknownType name)
     | None \<Rightarrow> error_here (MsgExpectedType t)))"

primrec schema_flags :: "nat \<Rightarrow> bool \<Rightarrow> bool \<Rightarrow> (bool \<times> bool) parse" where
  "schema_flags 0 required unique = hangP"
| "schema_flags (Suc n) required unique = bindP (readP peek_token) (\<lambda>t.
     if t = Some TRequired then bindP advance_token (\<lambda>_. schema_flags n True unique)
     else if t = Some TUnique then bindP advance_token (\<lambda>_. schema_flags n required True)
     else returnP (required, unique))"

definition parse_schema_field :: "schema_field parse" where
  "parse_schema_field = bindP expect_ident (\<lambda>name. bindP (expect Colon) (\<lambda>_. bindP parse_schema_type (\<lambda>ty.
     bindP (looped (\<lambda>n. schema_flags n False False)) (\<lambda>(required, unique).
     returnP \<lparr>sf_name = name, sf_ty = ty, sf_required = required, sf_unique = unique\<rparr>))))"

definition parse_schema_field_list :: "schema_field list parse" where
  "parse_schema_field_list = item_list_until RBrace parse_schema_field"

definition parse_create :: "stmt parse" where
  "parse_create = bindP (expect TCreate) (\<lambda>_. bindP (accept TUnique) (\<lambda>unique. bindP (accept TIndex) (\<lambda>index.
     if index then
       bindP parse_if_not_exists (\<lambda>ine. bindP (expect TOn) (\<lambda>_. bindP parse_index_target (\<lambda>(collection, fs).
       returnP (CreateIndex collection fs ine unique))))
     else if unique then error_here MsgIndexAfterUnique
     else bindP parse_if_not_exists (\<lambda>ine. bindP expect_ident (\<lambda>name. bindP (expect LBrace) (\<lambda>_.
       bindP parse_schema_field_list (\<lambda>schema. bindP (expect RBrace) (\<lambda>_.
       returnP (CreateCollection name schema ine)))))))))"

definition parse_drop_statement :: "stmt parse" where
  "parse_drop_statement = bindP (expect TDrop) (\<lambda>_. bindP (readP peek_token) (\<lambda>t.
     if t = Some TIndex then
       bindP advance_token (\<lambda>_. bindP parse_if_exists (\<lambda>ie. bindP (expect TOn) (\<lambda>_.
       bindP parse_index_target (\<lambda>(collection, fs). returnP (DropIndex collection fs ie)))))
     else if t = Some (Ident ''collection'') then
       bindP advance_token (\<lambda>_. bindP parse_if_exists (\<lambda>ie. bindP expect_ident (\<lambda>name.
       returnP (DropCollection name ie))))
     else error_here (MsgAfterDrop t)))"

definition parse_statement :: "stmt parse" where
  "parse_statement = bindP (readP peek_token) (\<lambda>t.
     if t = Some TCreate then parse_create
     else if t = Some TDrop then parse_drop_statement
     else if t = Some TFrom then bindP parse_pipeline (\<lambda>p. returnP (Pipeline p))
     else if t \<noteq> None then error_here MsgExpectedStatement
     else error_here MsgEmptyInput)"

definition parse :: "spanned list \<Rightarrow> (parse_error, stmt) outcome" where
  "parse tokens = fst (bindP parse_statement (\<lambda>s. bindP (readP is_eof) (\<lambda>e.
     if e then returnP s else error_here MsgTrailing)) (parser_new tokens))"

section \<open>Cursor moves\<close>

lemma payload_iff [simp]:
  "int_of_token t = Some n \<longleftrightarrow> t = IntLit n" "float_of_token t = Some x \<longleftrightarrow> t = FloatLit x"
  "string_of_token t = Some s \<longleftrightarrow> t = StringLit s" "ident_of t = Some s \<longleftrightarrow> t = Ident s"
  by (cases t; simp add: int_of_token_def float_of_token_def string_of_token_def ident_of_def)+

lemma bind_advance [prog_simps]:
  "p_rest p = s # rest \<Longrightarrow> bindP advance_token k p = k (Some s) (p\<lparr>p_rest := rest\<rparr>)"
  "p_rest p = [] \<Longrightarrow> bindP advance_token k p = k None p"
  by (simp_all add: advance_token_def bindP_def)

section \<open>Every token list is parsed\<close>

text \<open>
  \<open>parses d N m\<close>: on a cursor with at most \<open>N\<close> tokens left, none of them a literal that cannot
  be negated, \<open>m\<close> gives a result or an error, and with a result at least \<open>d\<close> tokens are gone.
\<close>

definition negatable :: "parser \<Rightarrow> bool" where
  "negatable p \<longleftrightarrow> (\<forall>s \<in> set (p_rest p). sp_token s \<noteq> IntLit I64_MIN)"

definition parsed_ok :: "nat \<Rightarrow> parser \<Rightarrow> (parse_error, 'a) outcome \<times> parser \<Rightarrow> bool" where
  "parsed_ok d p r \<longleftrightarrow> (case r of
     (Ok a, p') \<Rightarrow> suffix (p_rest p') (p_rest p) \<and> length (p_rest p') + d \<le> length (p_rest p)
   | (Err e, p') \<Rightarrow> True | _ \<Rightarrow> False)"

definition parses_on :: "(parser \<Rightarrow> bool) \<Rightarrow> nat \<Rightarrow> nat \<Rightarrow> 'a parse \<Rightarrow> bool" where
  "parses_on P d N m \<longleftrightarrow> (\<forall>p. P p \<longrightarrow> length (p_rest p) \<le> N \<longrightarrow> negatable p \<longrightarrow> parsed_ok d p (m p))"

abbreviation parses :: "nat \<Rightarrow> nat \<Rightarrow> 'a parse \<Rightarrow> bool" where
  "parses \<equiv> parses_on (\<lambda>_. True)"

abbreviation peeked :: "token option \<Rightarrow> parser \<Rightarrow> bool" where
  "peeked t \<equiv> (\<lambda>p. peek_token p = t)"

lemma parsed_ok_simps [simp]:
  "parsed_ok d p (Ok a, p') \<longleftrightarrow> suffix (p_rest p') (p_rest p) \<and> length (p_rest p') + d \<le> length (p_rest p)"
  "parsed_ok d p (Err e, p')" "\<not> parsed_ok d p (Panic x, p')" "\<not> parsed_ok d p (Hang, p')"
  by (simp_all add: parsed_ok_def)

lemma parses_onI:
  "(\<And>p. P p \<Longrightarrow> length (p_rest p) \<le> N \<Longrightarrow> negatable p \<Longrightarrow> parsed_ok d p (m p)) \<Longrightarrow> parses_on P d N m"
  by (simp add: parses_on_def)

lemma parses_onD:
  "parses_on P d N m \<Longrightarrow> P p \<Longrightarrow> length (p_rest p) \<le> N \<Longrightarrow> negatable p \<Longrightarrow> parsed_ok d p (m p)"
  by (simp add: parses_on_def)

lemma parses_weaken: "parses e M m \<Longrightarrow> d \<le> e \<Longrightarrow> N \<le> M \<Longrightarrow> parses_on P d N m"
  by (fastforce simp: parses_on_def parsed_ok_def split: prod.splits outcome.splits)

lemma parses_weaken_on: "parses_on P e N m \<Longrightarrow> d \<le> e \<Longrightarrow> parses_on P d N m"
  by (fastforce simp: parses_on_def parsed_ok_def split: prod.splits outcome.splits)

lemma negatable_suffix: "suffix (p_rest p') (p_rest p) \<Longrightarrow> negatable p \<Longrightarrow> negatable p'"
  using set_mono_suffix by (auto simp: negatable_def)

lemma parses_bind:
  assumes m: "parses_on P d N m" and k: "\<And>a. d \<le> N \<Longrightarrow> parses e (N - d) (k a)" and f: "f \<le> d + e"
  shows "parses_on P f N (bindP m k)"
proof (rule parses_onI)
  fix p assume p: "P p" "length (p_rest p) \<le> N" "negatable p"
  note mp = parses_onD [OF m p]
  obtain r p' where r: "m p = (r, p')" by (cases "m p") blast
  show "parsed_ok f p (bindP m k p)"
  proof (cases r)
    case (Ok a)
    with mp r have s: "suffix (p_rest p') (p_rest p)" "length (p_rest p') + d \<le> length (p_rest p)" by simp_all
    with p have "parsed_ok e p' (k a p')" by (intro parses_onD [OF k]) (auto intro: negatable_suffix)
    then show ?thesis
      using s f suffix_order.trans by (fastforce simp: r Ok bindP_def parsed_ok_def split: prod.splits outcome.splits)
  qed (use mp r in \<open>simp_all add: bindP_def\<close>)
qed

lemmas parses_bind1 = parses_bind [where d = "Suc 0" and e = 0 and f = "Suc 0", simplified]
lemmas parses_bind0 = parses_bind [where d = 0 and e = 0 and f = 0, simplified]

lemma parses_return: "parses_on P 0 N (returnP a)"
  by (rule parses_onI) simp

lemma parses_error: "parses_on P d N (error_here m)"
  by (rule parses_onI) (simp add: error_here_def split: list.split)

lemma parses_fail: "parses_on P d N (failP e)"
  by (rule parses_onI) simp

lemma parses_read: "(\<And>x. parses_on P d N (k x)) \<Longrightarrow> parses_on P d N (bindP (readP f) k)"
  by (simp add: parses_on_def)

lemma parses_peek: "(\<And>t. parses_on (peeked t) d N (k t)) \<Longrightarrow> parses d N (bindP (readP peek_token) k)"
  by (simp add: parses_on_def)

lemma parses_forget: "parses d N m \<Longrightarrow> parses_on (peeked t) d N m"
  by (simp add: parses_on_def)

lemma parses_option:
  "(\<And>x. c = Some x \<Longrightarrow> parses_on P d N (f x)) \<Longrightarrow> (c = None \<Longrightarrow> parses_on P d N m) \<Longrightarrow>
    parses_on P d N (case c of Some x \<Rightarrow> f x | None \<Rightarrow> m)"
  by (cases c) simp_all

lemma parses_if:
  "(b \<Longrightarrow> parses_on P d N m) \<Longrightarrow> (\<not> b \<Longrightarrow> parses_on P d N m') \<Longrightarrow> parses_on P d N (if b then m else m')"
  by simp

lemma parses_advance: "parses_on P 0 N advance_token"
  by (rule parses_onI) (auto simp: advance_token_def suffix_ConsI split: list.split)

lemma parses_peeked_advance:
  "t \<noteq> None \<Longrightarrow> (\<And>s. 0 < N \<Longrightarrow> parses 0 (N - Suc 0) (k s)) \<Longrightarrow> parses_on (peeked t) (Suc 0) N (bindP advance_token k)"
  by (rule parses_bind1)
     (auto intro!: parses_onI simp: advance_token_def peek_token_def suffix_ConsI split: list.splits)

lemma parses_accept:
  assumes t: "0 < N \<Longrightarrow> parses (d - Suc 0) (N - Suc 0) (k True)" and f: "parses d N (k False)"
  shows "parses d N (bindP (accept want) k)"
proof (rule parses_onI)
  fix p assume p: "length (p_rest p) \<le> N" "negatable p"
  show "parsed_ok d p (bindP (accept want) k p)"
  proof (cases "peek_token p = Some want")
    case False
    then have "bindP (accept want) k p = k False p" by (simp add: accept_def bindP_def)
    with parses_onD [OF f] p show ?thesis by simp
  next
    case True
    then obtain s rest where r: "p_rest p = s # rest" by (auto simp: peek_token_def split: list.splits)
    let ?p = "p\<lparr>p_rest := rest\<rparr>"
    have "bindP (accept want) k p = k True ?p"
      using True r by (simp add: accept_def bindP_def advance_token_def)
    moreover have "parsed_ok (d - Suc 0) ?p (k True ?p)"
      using p r by (intro parses_onD [OF t]) (auto simp: negatable_def)
    ultimately show ?thesis
      using r by (fastforce simp: parsed_ok_def split: prod.splits outcome.splits intro: suffix_ConsI)
  qed
qed

lemma parses_expect: "d \<le> Suc 0 \<Longrightarrow> parses d N (expect t)"
  unfolding expect_def
  by (rule parses_weaken [where e = "Suc 0" and M = N])
     (auto intro!: parses_peek parses_peeked_advance parses_return parses_error)

lemma parses_payload: "d \<le> Suc 0 \<Longrightarrow> parses d N (expect_payload f msg)"
  unfolding expect_payload_def
  by (rule parses_weaken [where e = "Suc 0" and M = N])
     (auto intro!: parses_peek parses_peeked_advance parses_return parses_error
        simp: bind_eq_Some_conv split: option.split)

lemma parses_payloads:
  "d \<le> Suc 0 \<Longrightarrow> parses d N expect_ident" "d \<le> Suc 0 \<Longrightarrow> parses d N expect_int_lit" "d \<le> Suc 0 \<Longrightarrow> parses d N expect_string_lit"
  by (simp_all add: expect_ident_def expect_int_lit_def expect_string_lit_def parses_payload)

lemma parses_looped: "(\<And>M. M \<le> N \<Longrightarrow> parses d M (body (Suc M))) \<Longrightarrow> parses d N (looped body)"
  by (simp add: parses_on_def looped_def)

lemma parses_more_items: "parses (Suc 0) N item \<Longrightarrow> parses 0 N (more_items (Suc N) cont item acc)"
proof (induction N arbitrary: acc)
  case (Suc N)
  have "parses 0 N (more_items (Suc N) cont item (acc @ [x]))" for x
    by (rule Suc.IH) (rule parses_weaken [OF Suc.prems], simp_all)
  then have "parses 0 (Suc N) (bindP item (\<lambda>x. more_items (Suc N) cont item (acc @ [x])))"
    by (intro parses_bind [OF Suc.prems, where e = 0]) simp_all
  then show ?case
    unfolding more_items.simps(2) [of "Suc N"]
    by (intro parses_read) (auto intro!: parses_return parses_bind0 [OF parses_advance] simp del: more_items.simps)
next
  case 0
  have "parses 0 0 (bindP item (\<lambda>x. more_items 0 cont item (acc @ [x])))"
    by (rule parses_bind [OF "0.prems", where e = 0]) simp_all
  then show ?case
    unfolding more_items.simps(2) [of 0]
    by (intro parses_read) (auto intro!: parses_return parses_bind0 [OF parses_advance] simp del: more_items.simps)
qed

lemma parses_items:
  assumes "parses (Suc 0) N item"
  shows "parses (Suc 0) N (item_list cont item)" and "parses 0 N (item_list_until closing item)"
proof -
  have m: "parses (Suc 0) M item" if "M \<le> N" for M by (rule parses_weaken [OF assms]) (simp_all add: that)
  show l: "parses (Suc 0) N (item_list cont item)" for cont
    unfolding item_list_def
    by (rule parses_bind1 [OF assms]) (auto intro!: parses_looped parses_more_items m)
  show "parses 0 N (item_list_until closing item)"
    unfolding item_list_until_def
    by (rule parses_read) (auto intro!: parses_return parses_weaken [OF l [of at_comma]])
qed

lemma parses_prefixed: "parses (Suc 0) N sub \<Longrightarrow> parses (Suc 0) N (prefixed (Suc N) t op sub)"
proof (induction N)
  case (Suc N)
  have "parses 0 N (bindP (prefixed (Suc N) t op sub) (\<lambda>inner. returnP (EUnaryOp op inner)))"
    by (rule parses_bind [OF Suc.IH, where e = 0]) (auto intro: parses_weaken [OF Suc.prems] parses_return)
  then show ?case
    unfolding prefixed.simps(2) [of "Suc N"]
    by (intro parses_accept) (simp_all add: Suc.prems [simplified] del: prefixed.simps)
qed (simp add: parses_accept)

lemma parses_binop_loop: "parses (Suc 0) N sub \<Longrightarrow> parses 0 N (binop_loop (Suc N) ops sub lhs)"
proof (induction N arbitrary: lhs)
  case (Suc N)
  have "parses 0 N (binop_loop (Suc N) ops sub e)" for e
    by (rule Suc.IH) (rule parses_weaken [OF Suc.prems], simp_all)
  then have "parses 0 (Suc N) (bindP sub (\<lambda>rhs. binop_loop (Suc N) ops sub (EBinOp op lhs rhs)))" for op
    by (intro parses_bind [OF Suc.prems, where e = 0]) simp_all
  then show ?case
    unfolding binop_loop.simps(2) [of "Suc N"]
    by (intro parses_read)
       (auto intro!: parses_return parses_bind0 [OF parses_advance] split: option.split simp del: binop_loop.simps)
next
  case 0
  have "parses 0 0 (bindP sub (\<lambda>rhs. binop_loop 0 ops sub (EBinOp op lhs rhs)))" for op
    by (rule parses_bind [OF "0.prems", where e = 0]) simp_all
  then show ?case
    unfolding binop_loop.simps(2) [of 0]
    by (intro parses_read)
       (auto intro!: parses_return parses_bind0 [OF parses_advance] split: option.split simp del: binop_loop.simps)
qed

lemma parses_levels:
  assumes "parses (Suc 0) N sub"
  shows "parses (Suc 0) N (looped (\<lambda>n. prefixed n t op sub))" and "parses (Suc 0) N (binop_level ops sub)"
proof -
  have m: "parses (Suc 0) M sub" if "M \<le> N" for M by (rule parses_weaken [OF assms]) (simp_all add: that)
  then show "parses (Suc 0) N (looped (\<lambda>n. prefixed n t op sub))"
    by (intro parses_looped parses_prefixed)
  show "parses (Suc 0) N (binop_level ops sub)"
    unfolding binop_level_def
    by (rule parses_bind1 [OF assms]) (auto intro!: parses_looped parses_binop_loop m)
qed

text \<open>The recursive parser is only called after a token has been consumed.\<close>

definition inner :: "nat \<Rightarrow> expr parse \<Rightarrow> bool" where
  "inner N pe \<longleftrightarrow> (0 < N \<longrightarrow> parses (Suc 0) (N - Suc 0) pe)"

lemma innerD: "inner N pe \<Longrightarrow> d \<le> Suc 0 \<Longrightarrow> 0 < N \<Longrightarrow> M \<le> N - Suc 0 \<Longrightarrow> parses_on P d M pe"
  unfolding inner_def by (blast intro: parses_weaken)

lemma parses_doc_field: "parses (Suc 0) N pe \<Longrightarrow> d \<le> Suc 0 \<Longrightarrow> parses d N (parse_doc_field pe)"
  unfolding parse_doc_field_def
  by (rule parses_weaken [where e = "Suc 0" and M = N])
     (auto intro!: parses_bind1 [OF parses_payloads(1)] parses_bind0 [OF parses_expect] parses_bind0 [where m = pe] parses_return
        intro: parses_weaken)

lemma parses_ternary_rest: "parses (Suc 0) N pe \<Longrightarrow> parses 0 N (ternary_rest pe)"
  unfolding ternary_rest_def
  by (auto intro!: parses_bind0 [where m = pe] parses_bind0 [OF parses_expect] parses_return intro: parses_weaken)

lemma parses_primary:
  assumes "inner N pe"
  shows "parses (Suc 0) N (parse_primary pe)"
proof -
  have pe: "parses (Suc 0) (N - Suc 0) pe" if "0 < N" using assms that by (simp add: inner_def)
  have k: "parses 0 (N - Suc 0)
     (case literal_token t of
           Some e \<Rightarrow> returnP e
         | None \<Rightarrow>
           if t = LParen then bindP pe (\<lambda>inner. bindP (expect RParen) (\<lambda>_. returnP inner))
           else if t = LBracket then
             bindP (item_list_until RBracket pe) (\<lambda>items. bindP (expect RBracket) (\<lambda>_. returnP (EArrayLit items)))
           else if t = LBrace then
             bindP (item_list_until RBrace (parse_doc_field pe)) (\<lambda>fs.
             bindP (expect RBrace) (\<lambda>_. returnP (EDocLit fs)))
           else if t = TIf then ternary_rest pe
           else failP e)" if "0 < N" for t e
    using pe [OF that]
    by (auto intro!: parses_return parses_fail parses_bind0 [OF parses_expect] parses_bind0 [where m = pe]
        parses_bind0 [OF parses_items(2)] parses_doc_field parses_ternary_rest intro: parses_weaken split: option.split)
  show ?thesis
  proof (rule parses_onI)
    fix p assume p: "length (p_rest p) \<le> N" "negatable p"
    show "parsed_ok (Suc 0) p (parse_primary pe p)"
    proof (cases "p_rest p")
      case Nil
      then show ?thesis by (simp add: parse_primary_def bind_advance error_here_def)
    next
      case (Cons s rest)
      let ?p = "p\<lparr>p_rest := rest\<rparr>"
      have "0 < N" using p Cons by simp
      from parses_onD [OF k [OF this], of ?p] p Cons
      have "parsed_ok 0 ?p (parse_primary pe p)"
        by (simp add: parse_primary_def bind_advance Let_def negatable_def)
      then show ?thesis
        using Cons by (fastforce simp: parsed_ok_def split: prod.splits outcome.splits intro: suffix_ConsI)
    qed
  qed
qed


lemma innerD2: "inner N pe \<Longrightarrow> M \<le> N \<Longrightarrow> inner M pe"
  unfolding inner_def by (auto intro: parses_weaken)

lemma parses_unary: "inner N pe \<Longrightarrow> parses (Suc 0) N (parse_unary pe)"
  unfolding parse_unary_def by (intro parses_levels parses_primary)

lemma parses_add: "inner N pe \<Longrightarrow> parses (Suc 0) N (parse_add pe)"
  unfolding parse_add_def parse_mul_def by (intro parses_levels parses_unary)

lemma parses_require_field: "parses 0 N (require_field e)"
  by (simp add: require_field_def parses_return parses_error split: expr.split)

text \<open>\<open>parse_lit_value\<close> after the optional minus.\<close>

lemma parses_lit_value_rest:
  assumes "\<And>sp. sp_token sp \<noteq> IntLit I64_MIN \<Longrightarrow> parses 0 N (k (Some sp))" and "parses (Suc 0) N (k None)"
  shows "parses (Suc 0) N (bindP advance_token k)"
proof (rule parses_onI)
  fix p assume p: "length (p_rest p) \<le> N" "negatable p"
  show "parsed_ok (Suc 0) p (bindP advance_token k p)"
  proof (cases "p_rest p")
    case Nil
    then show ?thesis using parses_onD [OF assms(2)] p by (simp add: bind_advance)
  next
    case (Cons s rest)
    then have "parsed_ok 0 (p\<lparr>p_rest := rest\<rparr>) (k (Some s) (p\<lparr>p_rest := rest\<rparr>))"
      using p by (intro parses_onD [OF assms(1)]) (auto simp: negatable_def)
    then show ?thesis
      using Cons by (fastforce simp: bind_advance parsed_ok_def split: prod.splits outcome.splits intro: suffix_ConsI)
  qed
qed

lemma parses_lit_value: "parses (Suc 0) N parse_lit_value"
  unfolding parse_lit_value_def Let_def
proof (rule parses_accept, goal_cases)
  case 1
  show ?case
    by (rule parses_weaken [where e = "Suc 0" and M = N], rule parses_lit_value_rest)
       (auto intro!: parses_return parses_fail parses_error split: option.split)
next
  case 2
  show ?case
    by (rule parses_lit_value_rest) (auto intro!: parses_return parses_fail parses_error split: option.split)
qed

lemma parses_lit_array: "parses (Suc 0) N parse_lit_array"
  unfolding parse_lit_array_def
  by (intro parses_bind1 [OF parses_expect] parses_bind0 [OF parses_items(2)] parses_lit_value
      parses_bind0 [OF parses_expect] parses_return) simp_all

lemma parses_predicate_tail: "inner N pe \<Longrightarrow> parses 0 N (predicate_tail pe lhs)"
  unfolding predicate_tail_def
  by (intro parses_read)
     (auto intro!: parses_return parses_bind0 [OF parses_advance] parses_bind0 [OF parses_require_field]
        parses_bind0 [OF parses_payloads(3)] parses_bind0 [where m = parse_lit_array] parses_weaken [OF parses_lit_array]
        parses_bind0 [where m = "parse_add pe"] intro: parses_weaken [OF parses_add] split: option.split)

lemma parses_predicate: "inner N pe \<Longrightarrow> parses (Suc 0) N (parse_predicate pe)"
  unfolding parse_predicate_def
  by (auto intro!: parses_accept parses_if parses_bind0 [OF parses_payloads(1)] parses_return parses_bind1 [OF parses_add]
        parses_predicate_tail intro: innerD2)

lemma parses_or: "inner N pe \<Longrightarrow> parses (Suc 0) N (parse_or pe)"
  unfolding parse_or_def parse_and_def parse_not_def by (intro parses_levels parses_predicate)

lemma parses_expr_fuel: "parses (Suc 0) N (parse_expr_fuel (Suc N))"
proof (induction N)
  case 0
  show ?case
    unfolding parse_expr_fuel.simps(2)
    by (rule parses_peek)
       (auto intro!: parses_forget parses_or parses_bind1 [OF parses_expect]
          simp: parse_ternary_def inner_def simp del: parse_expr_fuel.simps)
next
  case (Suc N)
  then have "inner (Suc N) (parse_expr_fuel (Suc N))" by (simp add: inner_def del: parse_expr_fuel.simps)
  with Suc show ?case
    unfolding parse_expr_fuel.simps(2) [of "Suc N"]
    by (intro parses_peek parses_forget)
       (auto intro!: parses_or parses_bind1 [OF parses_expect] parses_ternary_rest
          simp: parse_ternary_def simp del: parse_expr_fuel.simps)
qed

lemma parses_expr: "d \<le> Suc 0 \<Longrightarrow> parses d N parse_expr"
  unfolding parse_expr_def
  by (rule parses_weaken [where e = "Suc 0" and M = N]) (intro parses_looped parses_expr_fuel, simp_all)

text \<open>The stages and statements.\<close>

lemmas parses_steps =
  parses_return parses_error parses_bind1 [OF parses_expect, simplified] parses_bind0 [OF parses_expect, simplified]
  parses_bind1 [OF parses_payloads(1), simplified] parses_bind0 [OF parses_payloads(1), simplified]
  parses_bind1 [OF parses_payloads(2), simplified] parses_bind0 [OF parses_payloads(2), simplified]
  parses_bind1 [OF parses_expr, simplified] parses_bind0 [OF parses_expr, simplified]
  parses_peeked_advance parses_bind0 [OF parses_advance]

lemma parses_item_list: "parses (Suc 0) N item \<Longrightarrow> d \<le> Suc 0 \<Longrightarrow> parses d N (item_list cont item)"
  by (rule parses_weaken [OF parses_items(1)], assumption) simp_all

lemma parses_doc_literal: "d \<le> Suc 0 \<Longrightarrow> parses d N parse_doc_literal"
  unfolding parse_doc_literal_def
  by (rule parses_weaken [where e = "Suc 0" and M = N])
     (auto intro!: parses_steps parses_bind0 [OF parses_items(2)] parses_doc_field parses_expr)

lemma parses_select_item: "parses (Suc 0) N parse_select_item"
proof -
  have "parses (Suc 0) N parse_select_expr"
    unfolding parse_select_expr_def
    by (intro parses_peek parses_read parses_option parses_if parses_peeked_advance parses_steps
        parses_forget [OF parses_expr]) (auto simp: bind_eq_Some_conv)
  then show ?thesis
    unfolding parse_select_item_def
    by (rule parses_bind1) (auto intro!: parses_accept parses_steps)
qed

lemma parses_order_key: "parses (Suc 0) N parse_order_key"
  unfolding parse_order_key_def
  by (intro parses_steps parses_read) (auto intro!: parses_steps)

lemma parses_assignment: "parses (Suc 0) N parse_assignment"
  unfolding parse_assignment_def by (intro parses_steps)

lemma parses_stage: "parses (Suc 0) N parse_stage"
  unfolding parse_stage_def parse_where_stage_def parse_select_stage_def parse_drop_stage_def parse_order_stage_def
    parse_limit_stage_def parse_offset_stage_def parse_group_stage_def parse_join_stage_def parse_insert_stage_def
    parse_update_stage_def parse_upsert_stage_def
  by (rule parses_peek)
     (auto intro!: parses_forget [where m = "bindP (expect _) _"] parses_steps parses_if parses_accept parses_read
        parses_bind0 [OF parses_item_list] parses_payloads parses_order_key parses_assignment parses_select_item
        parses_bind0 [OF parses_doc_literal] parses_bind0 [OF parses_items(2)] parses_doc_literal)


lemma parses_from_stage: "parses (Suc 0) N parse_from_stage"
  unfolding parse_from_stage_def by (auto intro!: parses_steps parses_accept parses_if)

lemma parses_next_stage: "parses 0 N next_stage"
proof (rule parses_onI)
  fix p show "parsed_ok 0 p (next_stage p)"
    by (cases "p_rest p") (simp_all add: next_stage_def bindP_def advance_token_def suffix_ConsI)
qed

lemma parses_pipeline_loop: "parses 0 N (pipeline_loop (Suc N) acc)"
proof (induction N arbitrary: acc)
  case (Suc N)
  have "parses 0 (Suc N) (bindP parse_stage (\<lambda>s. pipeline_loop (Suc N) (acc @ [s])))"
    by (rule parses_bind [OF parses_stage, where e = 0]) (use Suc.IH in simp_all)
  then show ?case
    unfolding pipeline_loop.simps(2) [of "Suc N"]
    by (intro parses_bind0 [OF parses_next_stage] parses_if parses_return)
next
  case 0
  have "parses 0 0 (bindP parse_stage (\<lambda>s. pipeline_loop 0 (acc @ [s])))"
    by (rule parses_bind [OF parses_stage, where e = 0]) simp_all
  then show ?case
    unfolding pipeline_loop.simps(2) [of 0]
    by (intro parses_bind0 [OF parses_next_stage] parses_if parses_return)
qed

lemma parses_pipeline: "parses (Suc 0) N parse_pipeline"
  unfolding parse_pipeline_def
  by (intro parses_bind1 [OF parses_from_stage] parses_looped parses_pipeline_loop)

lemma parses_prod: "(\<And>x y. parses_on P d N (f x y)) \<Longrightarrow> parses_on P d N (case z of (x, y) \<Rightarrow> f x y)"
  by (cases z) simp

lemma parses_qualified_field: "d \<le> Suc 0 \<Longrightarrow> parses d N parse_qualified_field"
  unfolding parse_qualified_field_def
  by (rule parses_weaken [where e = "Suc 0" and M = N], intro parses_steps) simp_all

lemma parses_index_target: "parses 0 N parse_index_target"
  unfolding parse_index_target_def index_target_item_def
  by (intro parses_bind0 [OF parses_qualified_field] parses_prod parses_bind0 [OF parses_looped] parses_more_items
      parses_bind1 [OF parses_qualified_field] parses_if parses_steps) simp_all

lemma parses_schema_flags: "parses 0 N (schema_flags (Suc N) r u)"
proof (induction N arbitrary: r u)
  case 0
  show ?case by (rule parses_onI) (simp add: peek_token_def)
next
  case (Suc N)
  have "parses_on (peeked (Some t)) 0 (Suc N) (bindP advance_token (\<lambda>_. schema_flags (Suc N) r' u'))" for t r' u'
    by (rule parses_weaken_on [where e = "Suc 0"], intro parses_peeked_advance)
       (use Suc.IH in \<open>simp_all del: schema_flags.simps\<close>)
  then show ?case
    unfolding schema_flags.simps(2) [of "Suc N"]
    by (intro parses_peek) (auto intro!: parses_if parses_return simp del: schema_flags.simps)
qed


lemma parses_schema_field: "parses (Suc 0) N parse_schema_field"
proof -
  have "parses 0 M parse_schema_type" for M
    unfolding parse_schema_type_def Let_def
    by (intro parses_peek parses_forget parses_if parses_option parses_steps)
  then show ?thesis
    unfolding parse_schema_field_def
    by (intro parses_steps parses_bind0 [where m = parse_schema_type] parses_bind0 [OF parses_looped] parses_schema_flags
        parses_prod)
qed

lemma parses_if_exists: "parses 0 N parse_if_not_exists" "parses 0 N parse_if_exists"
  unfolding parse_if_not_exists_def parse_if_exists_def by (auto intro!: parses_accept parses_steps parses_if)

lemma parses_statement: "parses 0 N parse_statement"
  unfolding parse_statement_def parse_create_def parse_drop_statement_def parse_schema_field_list_def
  by (rule parses_peek)
     (auto intro!: parses_forget parses_if parses_steps parses_accept parses_read parses_prod parses_schema_field
        parses_bind0 [OF parses_if_exists(1)] parses_bind0 [OF parses_if_exists(2)] parses_bind0 [OF parses_index_target]
        parses_bind0 [OF parses_items(2)] parses_bind0 [OF parses_weaken [OF parses_pipeline]])

lemma parse_returns:
  assumes "\<forall>s \<in> set ts. sp_token s \<noteq> IntLit I64_MIN"
  shows "returns (parse ts)"
proof -
  have "parsed_ok 0 (parser_new ts) (parse_statement (parser_new ts))"
    by (rule parses_onD [OF parses_statement]) (use assms in \<open>auto simp: parser_new_def negatable_def\<close>)
  then show ?thesis
    by (auto simp: parse_def parsed_ok_def bindP_def error_here_def split: prod.splits outcome.splits)
qed


section \<open>What the lexer hands over\<close>

definition negatable_token :: "token \<Rightarrow> bool" where
  "negatable_token t \<longleftrightarrow> t \<noteq> IntLit I64_MIN"

lemma lex_table_tokens:
  "list_all (\<lambda>(c, t). negatable_token t) single_table" "list_all (\<lambda>(c, t). negatable_token t) keyword_table"
  "list_all (\<lambda>(c, w, alone). negatable_token w \<and> (\<forall>t. alone = Some t \<longrightarrow> negatable_token t)) double_table"
  by (simp_all add: single_table_def keyword_table_def double_table_def negatable_token_def)

lemma read_quoted_ident_token:
  "read_quoted_ident op s p out = Ok (t, rest, q) \<Longrightarrow> negatable_token t"
  by (induction op s p out rule: read_quoted_ident.induct) (auto simp: negatable_token_def split: if_splits)

lemma read_string_lit_token:
  "read_string_lit op s p out = Ok (t, rest, q) \<Longrightarrow> negatable_token t"
  by (induction op s p out rule: read_string_lit.induct)
     (auto simp: negatable_token_def Let_def split: if_splits list.splits option.splits)

lemma int_token_negatable: "v < 2 ^ 63 \<Longrightarrow> negatable_token (IntLit (word_of_nat v))"
proof -
  assume v: "v < 2 ^ 63"
  have "unat (word_of_nat v :: i64) = v" using v by (simp add: unat_of_nat)
  moreover have "unat I64_MIN = 2 ^ 63" by (simp add: I64_MIN_def)
  ultimately show ?thesis using v by (auto simp: negatable_token_def)
qed

lemma lex_token_negatable:
  assumes "lex_token c s p = Ok (t, rest, q)"
  shows "negatable_token t"
proof -
  have "negatable_token t" if "map_of single_table c = Some t"
    using lex_table_tokens(1) map_of_SomeD [OF that] by (auto simp: list_all_iff)
  moreover have "negatable_token t" if "map_of double_table c = Some (w, alone)" "t = w \<or> alone = Some t" for w alone
    using lex_table_tokens(3) map_of_SomeD [OF that(1)] that(2) by (auto simp: list_all_iff)
  moreover have "negatable_token t" if "map_of keyword_table k = Some t" for k
    using lex_table_tokens(2) map_of_SomeD [OF that] by (auto simp: list_all_iff)
  moreover have "negatable_token (Ident i)" "negatable_token (FloatLit x)" for i x by (simp_all add: negatable_token_def)
  ultimately show ?thesis
    using assms read_quoted_ident_token read_string_lit_token int_token_negatable
    by (auto simp: lex_token_def read_number_def read_ident_or_keyword_def Let_def
        split: option.splits if_splits list.splits prod.splits)
qed

lemma tokenize_negatable:
  assumes "tokenize input = Ok ts"
  shows "\<forall>s \<in> set ts. sp_token s \<noteq> IntLit I64_MIN"
proof -
  have "\<forall>s \<in> set ts. negatable_token (sp_token s)"
    if "tokenize_loop n s p out = Ok ts" "\<forall>s \<in> set out. negatable_token (sp_token s)" for n s p out
    using that
  proof (induction n s p out rule: tokenize_loop.induct)
    case (2 n s p out)
    then show ?case
      using lex_token_negatable by (fastforce simp: bindO_Ok_iff split: prod.splits list.splits)
  qed simp
  with assms show ?thesis unfolding tokenize_def negatable_token_def by fastforce
qed

section \<open>Properties\<close>

text \<open>
  C31: the parser ends on everything the lexer produces. For every source text that lexes, \<open>parse\<close>
  returns a statement or a positioned error: no nesting of expressions and no list makes it run
  forever, and the unchecked \<open>-n\<close> on a literal of an \<open>in\<close> list never overflows, because the lexer
  produces no literal above \<open>i64::MAX\<close>.
\<close>

theorem parse_total:
  assumes "tokenize input = Ok ts"
  shows "(\<exists>s. parse ts = Ok s) \<or> (\<exists>e. parse ts = Err e)"
  by (rule returnsE [OF parse_returns [OF tokenize_negatable [OF assms]]]) auto

theorem parse_total_witness:
  "\<exists>ts. tokenize ''from c'' = Ok ts \<and> ((\<exists>s. parse ts = Ok s) \<or> (\<exists>e. parse ts = Err e))"
proof -
  have "tokenize ''from c'' = Ok [\<lparr>sp_token = TFrom, sp_line = 1, sp_col = 1\<rparr>, \<lparr>sp_token = Ident ''c'', sp_line = 1, sp_col = 6\<rparr>]"
    by (simp add: tokenize_def lex_token_def single_table_def double_table_def is_digit_def is_ident_start_def is_alpha_def
        is_ident_char_def is_space_def read_ident_or_keyword_def keyword_table_def advance_def char_code_def
        numeral_nat)
  with parse_total show ?thesis by blast
qed

end
