(* ===== verification/Asl_Printer.thy ===== *)
theory Asl_Printer
  imports Asl_Parser
begin

text \<open>
  The grammar of \<open>asl/parser.rs\<close> stated from the other side: a printer from syntax trees to
  tokens that writes parentheses only where the precedence levels ask for them, and the proof
  that \<open>parse\<close> inverts it. The levels are those of the comment at the head of the parser: a
  ternary 0, \<open>or\<close> 1, \<open>and\<close> 2, \<open>not\<close> 3, a predicate 4, sums 5, products 6, the unary minus 7, a
  primary 8. \<open>or\<close>, \<open>and\<close>, sums and products associate to the left; a comparison does not
  associate.
\<close>

section \<open>Printing\<close>

fun lit_token :: "lit_value \<Rightarrow> token" where
  "lit_token (LInt n) = IntLit n"
| "lit_token (LFloat x) = FloatLit x"
| "lit_token (LString s) = StringLit s"
| "lit_token (LBool b) = (if b then TTrue else TFalse)"
| "lit_token LNull = TNull"

fun op_token :: "bin_op \<Rightarrow> token" where
  "op_token OpEq = EqEq" | "op_token OpNotEq = BangEq" | "op_token OpGt = Gt" | "op_token OpGtEq = GtEq"
| "op_token OpLt = Lt" | "op_token OpLtEq = LtEq" | "op_token OpAnd = TAnd" | "op_token OpOr = TOr"
| "op_token OpAdd = Plus" | "op_token OpSub = Minus" | "op_token OpMul = Star" | "op_token OpDiv = Slash"
| "op_token OpMod = Percent"

fun match_token :: "string_match_op \<Rightarrow> token" where
  "match_token Contains = TContains" | "match_token Starts = TStarts" | "match_token Ends = TEnds"

definition op_level :: "bin_op \<Rightarrow> nat" where
  "op_level op = (if op = OpOr then 1 else if op = OpAnd then 2 else if op \<in> {OpAdd, OpSub} then 5
     else if op \<in> {OpMul, OpDiv, OpMod} then 6 else 4)"

definition left_level :: "bin_op \<Rightarrow> nat" where
  "left_level op = (if op_level op = 4 then 5 else op_level op)"

definition right_level :: "bin_op \<Rightarrow> nat" where
  "right_level op = Suc (op_level op)"

fun level :: "expr \<Rightarrow> nat" where
  "level (EBinOp op l r) = op_level op"
| "level (EUnaryOp OpNot e) = 3"
| "level (EUnaryOp OpNeg e) = 7"
| "level (EIn f vs n) = 4"
| "level (EExists f) = 4"
| "level (EMissing f) = 4"
| "level (EStringMatch f op s) = 4"
| "level (ETernary c t e) = 0"
| "level _ = 8"

fun commas :: "token list list \<Rightarrow> token list" where
  "commas [] = []"
| "commas [ts] = ts"
| "commas (ts # tss) = ts @ Comma # commas tss"

definition at_level :: "nat \<Rightarrow> expr \<Rightarrow> token list \<Rightarrow> token list" where
  "at_level k e ts = (if level e < k then LParen # ts @ [RParen] else ts)"

fun print_expr :: "expr \<Rightarrow> token list" where
  "print_expr (EField f) = [Ident f]"
| "print_expr (ELit l) = [lit_token l]"
| "print_expr (EBinOp op l r) =
     at_level (left_level op) l (print_expr l) @ op_token op # at_level (right_level op) r (print_expr r)"
| "print_expr (EUnaryOp op e) =
     (if op = OpNot then TNot # at_level 3 e (print_expr e) else Minus # at_level 7 e (print_expr e))"
| "print_expr (EIn f vs negated) =
     Ident f # (if negated then [TNot, TIn] else [TIn]) @ LBracket # commas (map (\<lambda>v. [lit_token v]) vs) @ [RBracket]"
| "print_expr (EExists f) = [TExists, Ident f]"
| "print_expr (EMissing f) = [TMissing, Ident f]"
| "print_expr (EStringMatch f op s) = [Ident f, match_token op, StringLit s]"
| "print_expr (ETernary c t e) = TIf # print_expr c @ TThen # print_expr t @ TElse # print_expr e"
| "print_expr (EArrayLit es) = LBracket # commas (map print_expr es) @ [RBracket]"
| "print_expr (EDocLit fs) = LBrace # commas (map (\<lambda>(k, e). Ident k # Colon # print_expr e) fs) @ [RBrace]"
| "print_expr (EAggCall n arg) = []"

text \<open>The expressions of the grammar: an aggregate call only exists as a select item.\<close>

fun no_agg :: "expr \<Rightarrow> bool" where
  "no_agg (EBinOp op l r) = (no_agg l \<and> no_agg r)"
| "no_agg (EUnaryOp op e) = no_agg e"
| "no_agg (ETernary c t e) = (no_agg c \<and> no_agg t \<and> no_agg e)"
| "no_agg (EArrayLit es) = list_all no_agg es"
| "no_agg (EDocLit fs) = list_all (\<lambda>(k, e). no_agg e) fs"
| "no_agg (EAggCall n arg) = False"
| "no_agg _ = True"

section \<open>Reading back\<close>

text \<open>
  \<open>reads N m ts F a\<close>: with at most \<open>N\<close> tokens left, \<open>m\<close> consumes exactly the tokens \<open>ts\<close> and
  gives \<open>a\<close>, whatever follows as long as it satisfies \<open>F\<close>.
\<close>

abbreviation cur :: "spanned list \<Rightarrow> pos \<Rightarrow> parser" where
  "cur xs l \<equiv> \<lparr>p_rest = xs, p_last = l\<rparr>"

abbreviation toks :: "spanned list \<Rightarrow> token list" where
  "toks xs \<equiv> map sp_token xs"

definition reads :: "nat \<Rightarrow> 'a parse \<Rightarrow> token list \<Rightarrow> (token list \<Rightarrow> bool) \<Rightarrow> 'a \<Rightarrow> bool" where
  "reads N m ts F a \<longleftrightarrow> (\<forall>l xs rest. length ts + length rest \<le> N \<and> toks xs = ts
     \<and> F (toks rest) \<longrightarrow> m (cur (xs @ rest) l) = (Ok a, cur rest l))"

definition stop :: "token set \<Rightarrow> token list \<Rightarrow> bool" where
  "stop S w \<longleftrightarrow> (case w of [] \<Rightarrow> True | t # _ \<Rightarrow> t \<notin> S)"

abbreviation anything :: "token list \<Rightarrow> bool" where
  "anything \<equiv> (\<lambda>_. True)"

lemma stop_simps [simp]: "stop S []" "stop S (t # w) \<longleftrightarrow> t \<notin> S" "stop {} w"
  by (simp_all add: stop_def split: list.split)

lemma stop_mono: "stop S w \<Longrightarrow> T \<subseteq> S \<Longrightarrow> stop T w"
  by (auto simp: stop_def split: list.splits)

lemma readsI:
  "(\<And>l xs rest. length ts + length rest \<le> N \<Longrightarrow> toks xs = ts \<Longrightarrow> F (toks rest)
     \<Longrightarrow> m (cur (xs @ rest) l) = (Ok a, cur rest l)) \<Longrightarrow> reads N m ts F a"
  unfolding reads_def by blast

lemma readsD:
  "reads N m ts F a \<Longrightarrow> length ts + length rest \<le> N \<Longrightarrow> toks xs = ts \<Longrightarrow> F (toks rest)
     \<Longrightarrow> m (cur (xs @ rest) l) = (Ok a, cur rest l)"
  unfolding reads_def by blast

lemma reads_weaken: "reads M m ts G a \<Longrightarrow> N \<le> M \<Longrightarrow> (\<And>w. F w \<Longrightarrow> G w) \<Longrightarrow> reads N m ts F a"
  by (auto simp: reads_def)

lemma reads_bind:
  assumes m: "reads N m ts F a" and k: "length ts \<le> N \<Longrightarrow> reads (N - length ts) (k a) us G b"
    and FG: "\<And>w. G w \<Longrightarrow> F (us @ w)"
  shows "reads N (bindP m k) (ts @ us) G b"
proof (rule readsI)
  fix l xs rest
  assume p: "length (ts @ us) + length rest \<le> N" "toks xs = ts @ us" "G (toks rest)"
  then obtain ys zs where xs: "xs = ys @ zs" "toks ys = ts" "toks zs = us"
    by (auto simp: map_eq_append_conv)
  have "m (cur (ys @ zs @ rest) l) = (Ok a, cur (zs @ rest) l)"
    by (rule readsD [OF m]) (use p xs FG in auto)
  moreover have "k a (cur (zs @ rest) l) = (Ok b, cur rest l)"
    by (rule readsD [OF k]) (use p xs in auto)
  ultimately show "bindP m k (cur (xs @ rest) l) = (Ok b, cur rest l)" by (simp add: prog_simps xs)
qed

lemma reads_return: "reads N (returnP a) [] F a"
  by (rule readsI) simp

lemma reads_expect: "reads N (expect t) [t] F ()"
  by (rule readsI) (auto simp: expect_def peek_token_def bind_advance)

text \<open>One token consumed by \<open>advance\<close>, \<open>accept\<close> or \<open>expect\<close>, then the rest.\<close>

lemma reads_advance:
  "(0 < N \<Longrightarrow> (\<And>s. sp_token s = t \<Longrightarrow> reads (N - 1) (k (Some s)) us G b)) \<Longrightarrow> reads N (bindP advance_token k) (t # us) G b"
  by (rule readsI, clarsimp simp: bind_advance map_eq_Cons_conv) (rule readsD [where N = "N - 1" and F = G], auto)

lemma reads_accept_yes:
  "(0 < N \<Longrightarrow> reads (N - 1) (k True) us G b) \<Longrightarrow> reads N (bindP (accept t) k) (t # us) G b"
  by (rule readsI, clarsimp simp: accept_def bindP_assoc bind_advance peek_token_def map_eq_Cons_conv)
     (rule readsD [where N = "N - 1" and F = G], auto)

lemma reads_accept_no:
  assumes "\<And>w. G w \<Longrightarrow> stop {t} (us @ w)" and "reads N (k False) us G b"
  shows "reads N (bindP (accept t) k) us G b"
proof (rule readsI)
  fix l xs rest
  assume p: "length us + length rest \<le> N" "toks xs = us" "G (toks rest)"
  have "stop {t} (toks (xs @ rest))" using assms(1) [OF p(3)] p(2) by simp
  then have "peek_token (cur (xs @ rest) l) \<noteq> Some t"
    by (cases "xs @ rest") (simp_all add: peek_token_def)
  then have "bindP (accept t) k (cur (xs @ rest) l) = k False (cur (xs @ rest) l)"
    by (simp add: accept_def bindP_assoc)
  with readsD [OF assms(2) p] show "bindP (accept t) k (cur (xs @ rest) l) = (Ok b, cur rest l)" by simp
qed

lemma reads_payload: "f t = Some x \<Longrightarrow> reads N (expect_payload f msg) [t] F x"
  by (rule readsI) (auto simp: expect_payload_def peek_token_def bind_advance)

lemma reads_payloads:
  "reads N expect_ident [Ident s] F s" "reads N expect_int_lit [IntLit n] F n" "reads N expect_string_lit [StringLit s] F s"
  by (simp_all add: expect_ident_def expect_int_lit_def expect_string_lit_def reads_payload)

lemma reads_peek:
  "reads N (k (Some t)) (t # us) G b \<Longrightarrow> reads N (bindP (readP peek_token) k) (t # us) G b"
  by (rule readsI, drule readsD) (auto simp: peek_token_def)

text \<open>At the end of what is consumed, the next tokens are only known to satisfy the condition.\<close>

lemma reads_peek_end:
  assumes "\<And>t. stop S (case t of None \<Rightarrow> [] | Some x \<Rightarrow> [x]) \<Longrightarrow> k t = returnP b"
  shows "reads N (bindP (readP peek_token) k) [] (stop S) b"
proof (rule readsI)
  fix l xs rest assume "toks xs = []" "stop S (toks rest)"
  then show "bindP (readP peek_token) k (cur (xs @ rest) l) = (Ok b, cur rest l)"
    using assms [of "peek_token (cur rest l)"] by (cases rest) (simp_all add: peek_token_def)
qed

lemma reads_read:
  assumes "\<And>l xs rest. toks xs = us \<Longrightarrow> G (toks rest) \<Longrightarrow> f (cur (xs @ rest) l) = v"
    and "reads N (k v) us G b"
  shows "reads N (bindP (readP f) k) us G b"
  by (rule readsI) (simp add: assms(1) readsD [OF assms(2)])

lemma reads_looped:
  assumes "\<And>L. L \<le> N \<Longrightarrow> reads L (body (Suc L)) ts F a"
  shows "reads N (looped body) ts F a"
proof (rule readsI)
  fix l xs rest assume p: "length ts + length rest \<le> N" "toks xs = ts" "F (toks rest)"
  have "length xs = length ts" using p(2) by auto
  then show "looped body (cur (xs @ rest) l) = (Ok a, cur rest l)"
    using p by (simp add: looped_def readsD [OF assms [of "length ts + length rest"]])
qed

section \<open>Lists\<close>

lemma commas_Cons: "commas (ts # map pr xs) = ts @ concat (map (\<lambda>y. Comma # pr y) xs)"
  by (induction xs arbitrary: ts) simp_all

text \<open>\<open>C\<close> is the loop's condition as a condition on the tokens that follow.\<close>

lemma reads_more_items:
  assumes cont: "\<And>p. cont p \<longleftrightarrow> C (toks (p_rest p))"
    and item: "\<And>x M. x \<in> set xs \<Longrightarrow> M < N \<Longrightarrow> reads M item (pr x) (F x) x"
    and C: "\<And>x w. x \<in> set xs \<Longrightarrow> C (Comma # pr x @ w)" "\<And>w. G w \<Longrightarrow> \<not> C w"
    and F: "\<And>x w. F x (Comma # w)" "\<And>w. G w \<Longrightarrow> xs \<noteq> [] \<Longrightarrow> F (last xs) w"
    and n: "N < n"
  shows "reads N (more_items n cont item acc) (concat (map (\<lambda>x. Comma # pr x) xs)) G (acc @ xs)"
  using item C(1) n F(2)
proof (induction xs arbitrary: N n acc)
  case Nil
  then obtain m where n: "n = Suc m" by (cases n) auto
  show ?case
    unfolding n more_items.simps
    by (rule reads_read [where v = False]) (use C(2) cont in \<open>auto intro: reads_return\<close>)
next
  case (Cons x xs)
  from Cons.prems(3) obtain m where n: "n = Suc m" by (cases n) auto
  have 1: "reads (N - 1 - length (pr x)) (more_items m cont item (acc @ [x])) (concat (map (\<lambda>x. Comma # pr x) xs)) G ((acc @ [x]) @ xs)"
    if "0 < N"
    by (rule Cons.IH) (use Cons.prems n that in auto)
  have 2: "reads (N - 1) (bindP item (\<lambda>y. more_items m cont item (acc @ [y]))) (pr x @ concat (map (\<lambda>x. Comma # pr x) xs)) G (acc @ x # xs)"
    if "0 < N"
  proof (rule reads_bind [where F = "F x"])
    show "reads (N - 1) item (pr x) (F x) x" using Cons.prems(1) that by simp
    show "F x (concat (map (\<lambda>x. Comma # pr x) xs) @ w)" if "G w" for w
      using F(1) Cons.prems(4) [OF that] by (cases xs) auto
  qed (use 1 that in simp)
  show ?case
    unfolding n more_items.simps
    by (rule reads_read [where v = True]) (use 2 cont Cons.prems(2) in \<open>auto intro!: reads_advance\<close>)
qed

lemma reads_item_list:
  assumes cont: "\<And>p. cont p \<longleftrightarrow> C (toks (p_rest p))"
    and item: "\<And>x M. x \<in> set xs \<Longrightarrow> M \<le> N \<Longrightarrow> reads M item (pr x) (F x) x"
    and C: "\<And>x w. x \<in> set xs \<Longrightarrow> C (Comma # pr x @ w)" "\<And>w. G w \<Longrightarrow> \<not> C w"
    and F: "\<And>x w. F x (Comma # w)" "\<And>w. G w \<Longrightarrow> F (last xs) w"
    and xs: "xs \<noteq> []"
  shows "reads N (item_list cont item) (commas (map pr xs)) G xs"
proof -
  from xs obtain y ys where xs: "xs = y # ys" by (cases xs) auto
  show ?thesis
    unfolding xs list.map commas_Cons item_list_def
  proof (rule reads_bind [where F = "F y"])
    show "reads N item (pr y) (F y) y" using item xs by simp
    show "F y (concat (map (\<lambda>y. Comma # pr y) ys) @ w)" if "G w" for w
      using F that xs by (cases ys) auto
    show "reads (N - length (pr y)) (looped (\<lambda>n. more_items n cont item [y])) (concat (map (\<lambda>y. Comma # pr y) ys)) G (y # ys)"
      by (rule reads_looped, rule reads_more_items [where acc = "[y]" and F = F and C = C, simplified])
         (use assms xs in \<open>auto simp: less_imp_le split: if_splits\<close>)
  qed
qed

definition closing :: "token \<Rightarrow> token list \<Rightarrow> bool" where
  "closing t w \<longleftrightarrow> (\<exists>v. w = t # v)"

lemma at_comma_toks: "at_comma p \<longleftrightarrow> closing Comma (toks (p_rest p))"
  by (auto simp: at_comma_def peek_token_def closing_def split: list.split)

lemma reads_item_list_until:
  assumes item: "\<And>x M. x \<in> set xs \<Longrightarrow> M \<le> N \<Longrightarrow> reads M item (pr x) F x"
    and head: "\<And>x. x \<in> set xs \<Longrightarrow> pr x \<noteq> [] \<and> hd (pr x) \<noteq> t"
    and F: "\<And>w. F (Comma # w)" "\<And>w. F (t # w)" and t: "t \<noteq> Comma"
  shows "reads N (item_list_until t item) (commas (map pr xs)) (closing t) xs"
proof (cases xs)
  case Nil
  show ?thesis
    unfolding item_list_until_def Nil
    by (rule reads_read [where v = "Some t"])
       (auto simp: peek_token_def closing_def reads_return split: list.splits)
next
  case (Cons y ys)
  have "\<exists>x v. commas (map pr xs) = x # v \<and> x \<noteq> t"
    using head [of y] Cons by (cases "pr y") (auto simp: commas_Cons)
  then obtain x v where x: "commas (map pr xs) = x # v" "x \<noteq> t" by blast
  have "reads N (item_list at_comma item) (commas (map pr xs)) (closing t) xs"
    by (rule reads_item_list [where C = "closing Comma" and F = "\<lambda>_. F"])
       (use assms Cons in \<open>auto simp: at_comma_toks closing_def\<close>)
  with x show ?thesis unfolding item_list_until_def by (simp add: reads_peek)
qed

section \<open>Precedence levels\<close>

text \<open>A chain of operators parsed so far, with the loop about to look at what follows.\<close>

definition chains :: "nat \<Rightarrow> (token \<times> bin_op) list \<Rightarrow> expr parse \<Rightarrow> token list \<Rightarrow> (token list \<Rightarrow> bool) \<Rightarrow> expr \<Rightarrow> bool" where
  "chains N ops sub ts F e \<longleftrightarrow> (\<forall>l xs rest. length ts + length rest \<le> N \<and> toks xs = ts \<and> F (toks rest) \<longrightarrow>
     (\<exists>n > length rest. binop_level ops sub (cur (xs @ rest) l) = binop_loop n ops sub e (cur rest l)))"

lemma chains_base: "reads N sub ts F e \<Longrightarrow> chains N ops sub ts F e"
  unfolding chains_def
  by (auto simp: binop_level_def looped_def prog_simps readsD simp del: binop_loop.simps intro!: exI [of _ "Suc (length _)"])

lemma chains_step:
  assumes c: "chains N ops sub ts F l" and op: "map_of ops t = Some op" and F: "\<And>w. F (t # w)"
    and r: "reads N sub us F r"
  shows "chains N ops sub (ts @ t # us) F (EBinOp op l r)"
  unfolding chains_def
proof (intro allI impI, elim conjE)
  fix l' xs rest
  assume p: "length (ts @ t # us) + length rest \<le> N" "toks xs = ts @ t # us" "F (toks rest)"
  then obtain ys s zs where xs: "xs = ys @ s # zs" "toks ys = ts" "sp_token s = t" "toks zs = us"
    by (auto simp: map_eq_append_conv map_eq_Cons_conv)
  have lz: "length zs = length us" using xs(4) by auto
  obtain n where n: "length (s # zs @ rest) < n"
    "binop_level ops sub (cur (ys @ s # zs @ rest) l') = binop_loop n ops sub l (cur (s # zs @ rest) l')"
    using c [unfolded chains_def, rule_format, of "s # zs @ rest" ys l'] p xs F lz by auto
  then obtain m where m: "n = Suc m" "length rest < m" by (cases n) auto
  have "sub (cur (zs @ rest) l') = (Ok r, cur rest l')"
    by (rule readsD [OF r]) (use p xs lz in auto)
  then have "binop_loop n ops sub l (cur (s # zs @ rest) l') = binop_loop m ops sub (EBinOp op l r) (cur rest l')"
    using op xs by (simp add: m peek_token_def bind_advance prog_simps)
  with n m show "\<exists>n > length rest. binop_level ops sub (cur (xs @ rest) l') = binop_loop n ops sub (EBinOp op l r) (cur rest l')"
    by (intro exI [of _ m]) (simp add: xs del: binop_loop.simps)
qed

lemma chains_reads:
  assumes c: "chains N ops sub ts F e" and G: "\<And>w. G w \<Longrightarrow> F w \<and> stop (fst ` set ops) w"
  shows "reads N (binop_level ops sub) ts G e"
proof (rule readsI)
  fix l xs rest
  assume p: "length ts + length rest \<le> N" "toks xs = ts" "G (toks rest)"
  then obtain n where n: "length rest < n" "binop_level ops sub (cur (xs @ rest) l) = binop_loop n ops sub e (cur rest l)"
    using c G unfolding chains_def by blast
  then obtain m where m: "n = Suc m" by (cases n) auto
  have "stop (fst ` set ops) (toks rest)" using G p(3) by blast
  then have "Option.bind (peek_token (cur rest l)) (map_of ops) = None"
    by (cases rest) (simp_all add: peek_token_def map_of_eq_None_iff)
  then show "binop_level ops sub (cur (xs @ rest) l) = (Ok e, cur rest l)" by (simp add: n m)
qed


text \<open>The tokens that continue an expression of each level.\<close>

definition mul_next :: "token set" where "mul_next = {Star, Slash, Percent}"
definition add_next :: "token set" where "add_next = mul_next \<union> {Plus, Minus}"
definition pred_next :: "token set" where
  "pred_next = add_next \<union> {EqEq, BangEq, Gt, GtEq, Lt, LtEq, TIn, TNot, TContains, TStarts, TEnds}"
definition and_next :: "token set" where "and_next = pred_next \<union> {TAnd}"
definition expr_next :: "token set" where "expr_next = and_next \<union> {TOr}"

lemmas next_defs = mul_next_def add_next_def pred_next_def and_next_def expr_next_def

text \<open>The first token of an expression printed at a level is none of those that would be read differently there.\<close>

definition closers :: "token set" where
  "closers = {RParen, RBracket, RBrace, Comma, Colon, TAs, Star} \<union> set stage_keywords"

definition bad_head :: "nat \<Rightarrow> token set" where
  "bad_head k = closers \<union> (if 8 \<le> k then {Minus} else {}) \<union> (if 5 \<le> k then {TExists, TMissing} else {})
     \<union> (if 4 \<le> k then {TNot} else {}) \<union> (if 1 \<le> k then {TIf} else {})"

lemma bad_head_mono: "j \<le> k \<Longrightarrow> bad_head j \<subseteq> bad_head k"
  by (auto simp: bad_head_def)

lemma good_heads:
  "Ident f \<notin> bad_head k" "lit_token l \<notin> bad_head k" "LParen \<notin> bad_head k" "LBracket \<notin> bad_head k"
  "LBrace \<notin> bad_head k" "k \<le> 7 \<Longrightarrow> Minus \<notin> bad_head k" "k \<le> 3 \<Longrightarrow> TNot \<notin> bad_head k"
  "k \<le> 4 \<Longrightarrow> TExists \<notin> bad_head k" "k \<le> 4 \<Longrightarrow> TMissing \<notin> bad_head k" "k = 0 \<Longrightarrow> TIf \<notin> bad_head k"
  by (auto simp: bad_head_def closers_def stage_keywords_def split: if_splits) (cases l; auto split: if_splits)+

lemma op_level_le: "op_level op \<le> left_level op"
  by (simp add: left_level_def)

lemma print_head:
  assumes "no_agg e"
  shows "\<exists>t us. at_level k e (print_expr e) = t # us \<and> t \<notin> bad_head k"
  using assms
proof (induction e arbitrary: k)
  case (EBinOp op l r)
  obtain t us where t: "at_level (left_level op) l (print_expr l) = t # us" "t \<notin> bad_head (left_level op)"
    using EBinOp.IH(1) [of "left_level op"] EBinOp.prems by auto
  show ?case
  proof (cases "op_level op < k")
    case False
    then have "bad_head k \<subseteq> bad_head (left_level op)" using op_level_le [of op] by (intro bad_head_mono) simp
    with t False show ?thesis by (auto simp: at_level_def)
  qed (simp add: at_level_def good_heads)
next
  case (EUnaryOp op e)
  then show ?case by (cases op) (auto simp: at_level_def good_heads)
qed (auto simp: at_level_def good_heads)

lemma at_level_same: "level e \<noteq> k \<Longrightarrow> at_level k e ts = at_level (Suc k) e ts"
  by (auto simp: at_level_def)

lemma at_level_0 [simp]: "at_level 0 e ts = ts"
  by (simp add: at_level_def)

definition inner_reads :: "nat \<Rightarrow> expr parse \<Rightarrow> bool" where
  "inner_reads N pe \<longleftrightarrow> (\<forall>e. no_agg e \<longrightarrow> 0 < N \<longrightarrow> reads (N - 1) pe (print_expr e) (stop expr_next) e)"

lemma inner_readsD:
  "inner_reads N pe \<Longrightarrow> no_agg e \<Longrightarrow> 0 < N \<Longrightarrow> M \<le> N - 1 \<Longrightarrow> (\<And>w. F w \<Longrightarrow> stop expr_next w)
    \<Longrightarrow> reads M pe (print_expr e) F e"
  unfolding inner_reads_def by (blast intro: reads_weaken)

lemma literal_token_lit [simp]: "literal_token (lit_token l) = Some (ELit l)"
  by (cases l) (auto simp: literal_token_def int_of_token_def float_of_token_def string_of_token_def)

lemma literal_token_simps [simp]:
  "literal_token (Ident f) = Some (EField f)" "literal_token LParen = None" "literal_token LBracket = None"
  "literal_token LBrace = None"
  by (simp_all add: literal_token_def int_of_token_def float_of_token_def string_of_token_def ident_of_def)

text \<open>A printed document literal, and a list of expressions in brackets.\<close>

abbreviation print_fields :: "(string \<times> expr) list \<Rightarrow> token list" where
  "print_fields fs \<equiv> commas (map (\<lambda>(k, e). Ident k # Colon # print_expr e) fs)"

lemma expr_next_closers: "Comma \<notin> expr_next" "RBracket \<notin> expr_next" "RBrace \<notin> expr_next" "RParen \<notin> expr_next"
  "TThen \<notin> expr_next" "TElse \<notin> expr_next" "TAs \<notin> expr_next" "Pipe \<notin> expr_next"
  by (simp_all add: next_defs)

lemma reads_fields:
  assumes "\<And>M e. e \<in> snd ` set fs \<Longrightarrow> M \<le> N \<Longrightarrow> reads M pe (print_expr e) (stop expr_next) e"
  shows "reads N (item_list_until RBrace (parse_doc_field pe)) (print_fields fs) (closing RBrace) fs"
proof (rule reads_item_list_until [where F = "stop expr_next"])
  fix x M assume x: "x \<in> set fs" "M \<le> N"
  obtain k e where ke: "x = (k, e)" by (cases x)
  have e: "reads (M - 1 - 1) pe (print_expr e) (stop expr_next) e" using assms x ke by force
  have "reads M (parse_doc_field pe) ([Ident k] @ [Colon] @ print_expr e @ []) (stop expr_next) (k, e)"
    unfolding parse_doc_field_def
    by (rule reads_bind [OF reads_payloads(1)], rule reads_bind [OF reads_expect],
        rule reads_bind [where F = "stop expr_next"])
       (use e in \<open>auto intro: reads_return\<close>)
  then show "reads M (parse_doc_field pe) (case x of (k, e) \<Rightarrow> Ident k # Colon # print_expr e) (stop expr_next) x"
    by (simp add: ke)
qed (auto simp: expr_next_closers)


lemma reads_parens:
  assumes "reads M pe ts (stop expr_next) e" and "N = Suc M"
  shows "reads N (parse_primary pe) (LParen # ts @ [RParen]) anything e"
proof -
  have "reads M (bindP pe (\<lambda>inner. bindP (expect RParen) (\<lambda>_. returnP inner))) (ts @ [RParen] @ []) anything e"
    by (rule reads_bind [OF assms(1)], rule reads_bind [OF reads_expect]) (auto intro: reads_return simp: expr_next_closers)
  then show ?thesis
    unfolding parse_primary_def by (intro reads_advance) (simp add: assms(2))
qed

lemma reads_ternary_rest:
  assumes "\<And>e M. e \<in> {c, t, f} \<Longrightarrow> M \<le> N \<Longrightarrow> reads M pe (print_expr e) (stop expr_next) e"
  shows "reads N (ternary_rest pe) (print_expr c @ TThen # print_expr t @ TElse # print_expr f) (stop expr_next) (ETernary c t f)"
proof -
  have "reads N (ternary_rest pe) (print_expr c @ [TThen] @ print_expr t @ [TElse] @ print_expr f @ []) (stop expr_next) (ETernary c t f)"
    unfolding ternary_rest_def
    by (rule reads_bind [OF assms [of c]], simp, simp, rule reads_bind [OF reads_expect],
        rule reads_bind [OF assms [of t]], simp, simp, rule reads_bind [OF reads_expect],
        rule reads_bind [OF assms [of f]])
       (auto simp: expr_next_closers intro: reads_return)
  then show ?thesis by simp
qed

lemma reads_primary:
  assumes pe: "inner_reads N pe" and e: "no_agg e"
  shows "reads N (parse_primary pe) (at_level 8 e (print_expr e)) anything e"
proof (cases "N = 0")
  case True
  obtain t us where "at_level 8 e (print_expr e) = t # us" using print_head [OF e] by blast
  then show ?thesis using True by (simp add: reads_def)
next
  case False
  then have N: "0 < N" "Suc (N - 1) = N" by simp_all
  have sub: "reads M pe (print_expr x) (stop expr_next) x" if "no_agg x" "M \<le> N - 1" for x M
    by (rule inner_readsD [OF pe that(1) N(1) that(2)])
  show ?thesis
  proof (cases "level e = 8")
    case False
    then have "at_level 8 e (print_expr e) = LParen # print_expr e @ [RParen]"
      by (cases e rule: level.cases) (auto simp: at_level_def op_level_def)
    then show ?thesis using reads_parens [OF sub [OF e] N(2) [symmetric]] by simp
  next
    case True
    then have at: "at_level 8 e (print_expr e) = print_expr e" by (simp add: at_level_def)
    have op: "op_level op \<noteq> 8" for op by (simp add: op_level_def)
    have l: "reads N (parse_primary pe) [t] anything x" if "literal_token t = Some x" for t x
      unfolding parse_primary_def by (intro reads_advance) (simp add: that reads_return)
    have arr: "reads N (parse_primary pe) (LBracket # commas (map print_expr es) @ [RBracket]) anything (EArrayLit es)"
      if "list_all no_agg es" for es
    proof -
      have "reads (N - 1) (item_list_until RBracket pe) (commas (map print_expr es)) (closing RBracket) es"
      proof (rule reads_item_list_until [where F = "stop expr_next"])
        fix x assume "x \<in> set es"
        then show "print_expr x \<noteq> [] \<and> hd (print_expr x) \<noteq> RBracket"
          using that print_head [of x 0] by (auto simp: list_all_iff bad_head_def closers_def)
      qed (use that sub in \<open>auto simp: list_all_iff expr_next_closers\<close>)
      then have "reads (N - 1) (bindP (item_list_until RBracket pe) (\<lambda>items. bindP (expect RBracket) (\<lambda>_. returnP (EArrayLit items))))
          (commas (map print_expr es) @ [RBracket] @ []) anything (EArrayLit es)"
        by (rule reads_bind) (auto intro!: reads_bind [OF reads_expect, where us = "[]", simplified] reads_return simp: closing_def)
      then show ?thesis unfolding parse_primary_def by (intro reads_advance) simp
    qed
    have doc: "reads N (parse_primary pe) (LBrace # print_fields fs @ [RBrace]) anything (EDocLit fs)"
      if "list_all (\<lambda>(k, e). no_agg e) fs" for fs
    proof -
      have "reads (N - 1) (item_list_until RBrace (parse_doc_field pe)) (print_fields fs) (closing RBrace) fs"
        by (rule reads_fields) (use that sub in \<open>auto simp: list_all_iff\<close>)
      then have "reads (N - 1) (bindP (item_list_until RBrace (parse_doc_field pe)) (\<lambda>fs. bindP (expect RBrace) (\<lambda>_. returnP (EDocLit fs))))
          (print_fields fs @ [RBrace] @ []) anything (EDocLit fs)"
        by (rule reads_bind) (auto intro!: reads_bind [OF reads_expect, where us = "[]", simplified] reads_return simp: closing_def)
      then show ?thesis unfolding parse_primary_def by (intro reads_advance) simp
    qed
    show ?thesis
      unfolding at using True e op l arr doc by (cases e rule: level.cases) auto
  qed
qed


text \<open>
  From the primary upwards, each level passes through what the level below reads, and reads its own
  operators.
\<close>

lemma reads_prefixed_pass:
  assumes "reads N sub ts F e" and "N < n" and "ts = s # us" and "s \<noteq> t"
  shows "reads N (prefixed n t op sub) ts F e"
proof -
  obtain m where "n = Suc m" using assms(2) by (cases n) auto
  with assms show ?thesis by (auto intro!: reads_accept_no)
qed

lemma reads_prefixed_op:
  assumes "\<And>M m. M \<le> N \<Longrightarrow> M < m \<Longrightarrow> reads M (prefixed m t op sub) ts F e" and "N < n"
  shows "reads N (prefixed n t op sub) (t # ts) F (EUnaryOp op e)"
proof -
  obtain m where m: "n = Suc m" "N \<le> m" using assms(2) by (cases n) auto
  have "reads (N - 1) (bindP (prefixed m t op sub) (\<lambda>inner. returnP (EUnaryOp op inner))) (ts @ []) F (EUnaryOp op e)" if "0 < N"
    by (rule reads_bind [OF assms(1)]) (use m that in \<open>auto intro: reads_return\<close>)
  then show ?thesis by (auto simp: m intro!: reads_accept_yes)
qed

lemma level_cases:
  "level e = 7 \<Longrightarrow> \<exists>e'. e = EUnaryOp OpNeg e'"
  "level e = 3 \<Longrightarrow> \<exists>e'. e = EUnaryOp OpNot e'"
  "level e \<in> {1, 2, 5, 6} \<Longrightarrow> \<exists>op l r. e = EBinOp op l r \<and> op_level op = level e"
  by (cases e rule: level.cases; simp add: op_level_def split: if_splits)+

lemma reads_unary_fuel:
  assumes pe: "inner_reads N pe" and e: "no_agg e" and "M \<le> N" "M < n"
  shows "reads M (prefixed n Minus OpNeg (parse_primary pe)) (at_level 7 e (print_expr e)) anything e"
  using e assms(3,4)
proof (induction e arbitrary: M n rule: measure_induct_rule [where f = size])
  case (less e)
  show ?case
  proof (cases "level e = 7")
    case True
    then obtain e' where e': "e = EUnaryOp OpNeg e'" using level_cases(1) by blast
    have "reads M (prefixed n Minus OpNeg (parse_primary pe)) (Minus # at_level 7 e' (print_expr e')) anything (EUnaryOp OpNeg e')"
      by (rule reads_prefixed_op) (use less e' in auto)
    then show ?thesis by (simp add: e' at_level_def [of _ "EUnaryOp OpNeg e'"])
  next
    case False
    obtain t us where t: "at_level 8 e (print_expr e) = t # us" "t \<noteq> Minus"
      using print_head [OF less.prems(1), of 8] by (auto simp: bad_head_def)
    show ?thesis
      unfolding at_level_same [OF False, simplified]
      by (rule reads_prefixed_pass) (use reads_primary [OF pe less.prems(1)] less.prems t in \<open>auto intro: reads_weaken\<close>)
  qed
qed

lemma reads_unary:
  assumes "inner_reads N pe" and "no_agg e"
  shows "reads N (parse_unary pe) (at_level 7 e (print_expr e)) anything e"
  unfolding parse_unary_def by (rule reads_looped, rule reads_unary_fuel [OF assms]) auto

text \<open>The four left-associative levels follow one pattern.\<close>

lemma chains_level:
  assumes k: "k \<in> {1, 2, 5, 6}" and e: "no_agg e"
    and ops: "\<And>op. op_level op = k \<Longrightarrow> map_of ops (op_token op) = Some op"
    and F: "\<And>op w. op_level op = k \<Longrightarrow> F (op_token op # w)"
    and sub: "\<And>e. no_agg e \<Longrightarrow> reads N sub (at_level (Suc k) e (print_expr e)) F e"
  shows "chains N ops sub (at_level k e (print_expr e)) F e"
  using e
proof (induction e rule: measure_induct_rule [where f = size])
  case (less e)
  show ?case
  proof (cases "level e = k")
    case True
    then obtain op l r where e: "e = EBinOp op l r" and op: "op_level op = k" using level_cases(3) [of e] k by auto
    have lv: "left_level op = k" "right_level op = Suc k" using op k by (auto simp: left_level_def right_level_def)
    have "chains N ops sub (at_level k l (print_expr l) @ op_token op # at_level (Suc k) r (print_expr r)) F (EBinOp op l r)"
      by (rule chains_step) (use less e op ops F sub in auto)
    then show ?thesis by (simp add: e lv op at_level_def [of _ "EBinOp op l r"])
  next
    case False
    show ?thesis
      unfolding at_level_same [OF False] by (rule chains_base) (rule sub [OF less.prems])
  qed
qed

lemma op_level_ops:
  "op_level op = 6 \<Longrightarrow> map_of mul_ops (op_token op) = Some op"
  "op_level op = 5 \<Longrightarrow> map_of add_ops (op_token op) = Some op \<and> op_token op \<notin> mul_next"
  "op_level op = 4 \<Longrightarrow> map_of cmp_ops (op_token op) = Some op \<and> op_token op \<notin> add_next"
  "op_level op = 2 \<Longrightarrow> map_of [(TAnd, OpAnd)] (op_token op) = Some op \<and> op_token op \<notin> pred_next"
  "op_level op = 1 \<Longrightarrow> map_of [(TOr, OpOr)] (op_token op) = Some op \<and> op_token op \<notin> and_next"
  by (cases op; simp add: op_level_def mul_ops_def add_ops_def cmp_ops_def next_defs)+

lemma reads_mul:
  assumes "inner_reads N pe" and "no_agg e"
  shows "reads N (parse_mul pe) (at_level 6 e (print_expr e)) (stop mul_next) e"
  unfolding parse_mul_def
  by (rule chains_reads [OF chains_level [where F = anything]])
     (use assms reads_unary op_level_ops(1) in \<open>auto simp: mul_ops_def mul_next_def\<close>)

lemma reads_add:
  assumes "inner_reads N pe" and "no_agg e"
  shows "reads N (parse_add pe) (at_level 5 e (print_expr e)) (stop add_next) e"
  unfolding parse_add_def
  by (rule chains_reads [OF chains_level [where F = "stop mul_next"]])
     (use assms reads_mul op_level_ops(2) in \<open>auto simp: add_ops_def add_next_def elim: stop_mono\<close>)


lemma reads_read_any: "(\<And>v. reads N (k v) us G b) \<Longrightarrow> reads N (bindP (readP f) k) us G b"
  by (rule readsI) (auto intro: readsD)

lemma reads_tail_none: "reads N (predicate_tail pe lhs) [] (stop pred_next) lhs"
  unfolding predicate_tail_def
proof (rule reads_peek_end, goal_cases)
  case (1 t)
  then have "t \<noteq> Some TIn" "t \<noteq> Some TNot" "Option.bind t (map_of cmp_ops) = None" "Option.bind t (map_of match_ops) = None"
    by (cases t; simp add: pred_next_def cmp_ops_def match_ops_def)+
  then show ?case by (auto simp: fun_eq_iff)
qed

lemma reads_tail_cmp:
  assumes "op_level op = 4" and "reads N (parse_add pe) ts (stop add_next) r"
  shows "reads N (predicate_tail pe l) (op_token op # ts) (stop pred_next) (EBinOp op l r)"
proof -
  have "reads (N - 1) (bindP (parse_add pe) (\<lambda>rhs. returnP (EBinOp op l rhs))) (ts @ []) (stop pred_next) (EBinOp op l r)"
    by (rule reads_bind [where F = "stop add_next"])
       (auto intro: reads_return reads_weaken [OF assms(2)] stop_mono simp: pred_next_def)
  then show ?thesis
    unfolding predicate_tail_def using op_level_ops(3) [OF assms(1)]
    by (intro reads_peek reads_read_any) (auto intro!: reads_advance)
qed

lemma reads_lit_value: "reads N parse_lit_value [lit_token v] anything v"
proof -
  have "lit_token v \<noteq> Minus" by (cases v) auto
  then show ?thesis
    unfolding parse_lit_value_def
    by (cases v) (auto simp: int_of_token_def float_of_token_def string_of_token_def
        intro!: reads_accept_no reads_advance reads_return)
qed

lemma reads_lit_array:
  "reads N parse_lit_array (LBracket # commas (map (\<lambda>v. [lit_token v]) vs) @ [RBracket]) anything vs"
proof -
  have h: "lit_token v \<noteq> RBracket" for v by (cases v) auto
  have "reads M (item_list_until RBracket parse_lit_value) (commas (map (\<lambda>v. [lit_token v]) vs)) (closing RBracket) vs" for M
    by (rule reads_item_list_until [where F = anything]) (auto intro: reads_lit_value simp: h)
  then have "reads N parse_lit_array ([LBracket] @ commas (map (\<lambda>v. [lit_token v]) vs) @ [RBracket] @ []) anything vs"
    unfolding parse_lit_array_def
    by (intro reads_bind [OF reads_expect] reads_bind [where F = "closing RBracket"])
       (auto intro: reads_return simp: closing_def)
  then show ?thesis by simp
qed

lemma require_field_bind [simp]: "bindP (require_field (EField f)) k = k f"
  by (simp add: fun_eq_iff require_field_def)

lemma reads_tail_in:
  "reads N (predicate_tail pe (EField f)) ((if neg then [TNot, TIn] else [TIn]) @ LBracket # commas (map (\<lambda>v. [lit_token v]) vs) @ [RBracket])
     F (EIn f vs neg)"
proof -
  let ?ts = "LBracket # commas (map (\<lambda>v. [lit_token v]) vs) @ [RBracket]"
  have arr: "reads M (bindP parse_lit_array (\<lambda>vs. returnP (EIn f vs neg))) ?ts F (EIn f vs neg)" for M neg
    using reads_bind [OF reads_lit_array, where us = "[]" and G = F and k = "\<lambda>vs. returnP (EIn f vs neg)"] by (simp add: reads_return)
  show ?thesis
  proof (cases neg)
    case True
    have "reads N (predicate_tail pe (EField f)) (TNot # TIn # ?ts) F (EIn f vs True)"
      unfolding predicate_tail_def
      by (intro reads_peek reads_read [where v = "Some TIn"])
         (auto simp: peek_token_at_def cmp_ops_def map_eq_Cons_conv intro!: reads_advance arr)
    with True show ?thesis by simp
  next
    case False
    have "reads N (predicate_tail pe (EField f)) (TIn # ?ts) F (EIn f vs False)"
      unfolding predicate_tail_def
      by (intro reads_peek reads_read_any)
         (auto simp: cmp_ops_def intro!: reads_advance arr)
    with False show ?thesis by simp
  qed
qed


lemma reads_tail_match:
  "reads N (predicate_tail pe (EField f)) [match_token op, StringLit s] F (EStringMatch f op s)"
proof -
  have "map_of cmp_ops (match_token op) = None" "match_token op \<noteq> TIn" "match_token op \<noteq> TNot"
    "map_of match_ops (match_token op) = Some op"
    by (cases op; simp add: cmp_ops_def match_ops_def)+
  moreover have "reads M (bindP expect_string_lit (\<lambda>pattern. returnP (EStringMatch f op pattern))) [StringLit s] F (EStringMatch f op s)" for M
    using reads_bind [OF reads_payloads(3), where us = "[]" and G = F and k = "\<lambda>x. returnP (EStringMatch f op x)"]
    by (simp add: reads_return)
  ultimately show ?thesis
    unfolding predicate_tail_def by (intro reads_peek reads_read_any) (auto intro!: reads_advance)
qed

text \<open>An operand and a tail make a predicate.\<close>

lemma reads_operand_tail:
  assumes pe: "inner_reads N pe" and l: "no_agg l"
    and tail: "\<And>M. M \<le> N \<Longrightarrow> reads M (predicate_tail pe l) us (stop pred_next) e"
    and us: "us = [] \<or> hd us \<notin> add_next"
  shows "reads N (parse_predicate pe) (at_level 5 l (print_expr l) @ us) (stop pred_next) e"
proof -
  obtain t vs where t: "at_level 5 l (print_expr l) = t # vs" "t \<noteq> TExists" "t \<noteq> TMissing"
    using print_head [OF l, of 5] by (auto simp: bad_head_def)
  have "stop add_next (us @ w)" if "stop pred_next w" for w
    using us that by (cases us) (auto simp: pred_next_def elim: stop_mono)
  then have "reads N (bindP (parse_add pe) (predicate_tail pe)) (at_level 5 l (print_expr l) @ us) (stop pred_next) e"
    by (intro reads_bind [OF reads_add [OF pe l]] tail) auto
  then show ?thesis
    unfolding parse_predicate_def using t by (auto intro!: reads_accept_no)
qed

lemma reads_predicate:
  assumes pe: "inner_reads N pe" and e: "no_agg e"
  shows "reads N (parse_predicate pe) (at_level 4 e (print_expr e)) (stop pred_next) e"
proof (cases "level e = 4")
  case False
  show ?thesis
    using reads_operand_tail [OF pe e reads_tail_none] by (simp add: at_level_same [OF False, simplified])
next
  case True
  then have at: "at_level 4 e (print_expr e) = print_expr e" by (simp add: at_level_def)
  have cmp_ok: "reads N (parse_predicate pe) (print_expr (EBinOp op l r)) (stop pred_next) (EBinOp op l r)"
    if "op_level op = 4" "no_agg l" "no_agg r" for op l r
  proof -
    have lv: "left_level op = 5" "right_level op = 5" using that(1) by (simp_all add: left_level_def right_level_def)
    have "reads M (predicate_tail pe l) (op_token op # at_level 5 r (print_expr r)) (stop pred_next) (EBinOp op l r)" if "M \<le> N" for M
      by (rule reads_weaken [OF reads_tail_cmp]) (use that reads_add [OF pe \<open>no_agg r\<close>] \<open>op_level op = 4\<close> in auto)
    then show ?thesis
      using reads_operand_tail [OF pe that(2)] op_level_ops(3) [OF that(1)] by (simp add: lv)
  qed
  have field: "reads N (parse_predicate pe) (Ident f # us) (stop pred_next) x"
    if "\<And>M. reads M (predicate_tail pe (EField f)) us (stop pred_next) x" "us \<noteq> []" "hd us \<notin> add_next" for f us x
    using reads_operand_tail [OF pe, of "EField f" us x] that by (simp add: at_level_def)
  have ident_ok: "reads M (bindP expect_ident (\<lambda>name. returnP (g name))) [Ident f] F (g f)" for M f F and g :: "string \<Rightarrow> expr"
    using reads_bind [OF reads_payloads(1), where us = "[]" and G = F and k = "\<lambda>x. returnP (g x)"] by (simp add: reads_return)
  have mt: "match_token op \<notin> add_next" for op by (cases op) (simp_all add: next_defs)
  consider (cmp) op l r where "e = EBinOp op l r" "op_level op = 4" | (isin) f vs neg where "e = EIn f vs neg"
    | (ex) f where "e = EExists f" | (mi) f where "e = EMissing f" | (sm) f op s where "e = EStringMatch f op s"
    using True by (cases e rule: level.cases) auto
  then have "reads N (parse_predicate pe) (print_expr e) (stop pred_next) e"
  proof cases
    case cmp
    then show ?thesis using cmp_ok e by simp
  next
    case isin
    show ?thesis unfolding isin print_expr.simps by (rule field [OF reads_tail_in]) (simp_all add: next_defs)
  next
    case ex
    then show ?thesis
      unfolding parse_predicate_def by (auto intro!: reads_accept_yes ident_ok)
  next
    case mi
    then show ?thesis
      unfolding parse_predicate_def by (auto intro!: reads_accept_yes reads_accept_no ident_ok)
  next
    case sm
    then show ?thesis using field [OF reads_tail_match] mt by simp
  qed
  then show ?thesis by (simp only: at)
qed


lemma reads_not_fuel:
  assumes pe: "inner_reads N pe" and e: "no_agg e" and "M \<le> N" "M < n"
  shows "reads M (prefixed n TNot OpNot (parse_predicate pe)) (at_level 3 e (print_expr e)) (stop pred_next) e"
  using e assms(3,4)
proof (induction e arbitrary: M n rule: measure_induct_rule [where f = size])
  case (less e)
  show ?case
  proof (cases "level e = 3")
    case True
    then obtain e' where e': "e = EUnaryOp OpNot e'" using level_cases(2) by blast
    have "reads M (prefixed n TNot OpNot (parse_predicate pe)) (TNot # at_level 3 e' (print_expr e')) (stop pred_next) (EUnaryOp OpNot e')"
      by (rule reads_prefixed_op) (use less e' in auto)
    then show ?thesis by (simp add: e' at_level_def [of _ "EUnaryOp OpNot e'"])
  next
    case False
    obtain t us where t: "at_level 4 e (print_expr e) = t # us" "t \<noteq> TNot"
      using print_head [OF less.prems(1), of 4] by (auto simp: bad_head_def)
    show ?thesis
      unfolding at_level_same [OF False, simplified]
      by (rule reads_prefixed_pass) (use reads_predicate [OF pe less.prems(1)] less.prems t in \<open>auto intro: reads_weaken\<close>)
  qed
qed

lemma reads_not:
  assumes "inner_reads N pe" and "no_agg e"
  shows "reads N (parse_not pe) (at_level 3 e (print_expr e)) (stop pred_next) e"
  unfolding parse_not_def by (rule reads_looped, rule reads_not_fuel [OF assms]) auto

lemma reads_and:
  assumes "inner_reads N pe" and "no_agg e"
  shows "reads N (parse_and pe) (at_level 2 e (print_expr e)) (stop and_next) e"
  unfolding parse_and_def
  by (rule chains_reads [OF chains_level [where F = "stop pred_next"]])
     (use assms reads_not op_level_ops(4) in \<open>auto simp: numeral_3_eq_3 and_next_def elim: stop_mono\<close>)

lemma reads_or:
  assumes "inner_reads N pe" and "no_agg e"
  shows "reads N (parse_or pe) (at_level 1 e (print_expr e)) (stop expr_next) e"
  unfolding parse_or_def
  by (rule chains_reads [OF chains_level [where F = "stop and_next"]])
     (use assms reads_and op_level_ops(5) in \<open>auto simp: numeral_2_eq_2 expr_next_def elim: stop_mono\<close>)

lemma reads_expr_step:
  assumes pe: "inner_reads N (parse_expr_fuel N)" and e: "no_agg e"
  shows "reads N (parse_expr_fuel (Suc N)) (print_expr e) (stop expr_next) e"
proof (cases "level e = 0")
  case True
  then obtain c t f where e': "e = ETernary c t f" by (cases e rule: level.cases) (auto simp: op_level_def split: if_splits)
  have "reads M (parse_expr_fuel N) (print_expr x) (stop expr_next) x" if "x \<in> {c, t, f}" "M \<le> N - 1" "0 < N" for x M
    by (rule inner_readsD [OF pe]) (use that e e' in auto)
  then have "reads N (bindP (expect TIf) (\<lambda>_. ternary_rest (parse_expr_fuel N)))
      ([TIf] @ (print_expr c @ TThen # print_expr t @ TElse # print_expr f)) (stop expr_next) e"
    unfolding e' by (intro reads_bind [OF reads_expect] reads_ternary_rest) auto
  then show ?thesis by (simp add: e' parse_ternary_def reads_peek)
next
  case False
  obtain t us where t: "at_level 1 e (print_expr e) = t # us" "t \<noteq> TIf"
    using print_head [OF e, of 1] by (auto simp: bad_head_def)
  have "at_level 1 e (print_expr e) = print_expr e" using False by (simp add: at_level_def)
  with t have p: "print_expr e = t # us" by simp
  show ?thesis
    unfolding p parse_expr_fuel.simps
    by (rule reads_peek) (use reads_or [OF pe e] t in simp)
qed

lemma inner_reads_fuel: "inner_reads N (parse_expr_fuel N)"
proof (induction N)
  case (Suc N)
  show ?case
    unfolding inner_reads_def diff_Suc_1 using reads_expr_step [OF Suc.IH] by blast
qed (simp add: inner_reads_def)

lemma reads_expr: "no_agg e \<Longrightarrow> reads N parse_expr (print_expr e) (stop expr_next) e"
  unfolding parse_expr_def by (rule reads_looped) (rule reads_expr_step [OF inner_reads_fuel])

end
