(* ===== verification/Asl_Roundtrip.thy ===== *)
theory Asl_Roundtrip
  imports Asl_Printer
begin

text \<open>
  Printing and parsing of whole statements. A pipeline is printed with a choice of separator
  between every two stages: a pipe, a comma, or nothing. The parser's comment promises that the
  choice makes no difference; \<open>parse_print_stmt\<close> shows it for every statement, with the one
  exception the code has: a bare \<open>count\<close> at the end of a select list needs a separator after it
  (\<open>count_before_stage_keyword\<close>).
\<close>

section \<open>Printing stages and statements\<close>

datatype separator = SepPipe | SepComma | SepNone

fun sep_tokens :: "separator \<Rightarrow> token list" where
  "sep_tokens SepPipe = [Pipe]" | "sep_tokens SepComma = [Comma]" | "sep_tokens SepNone = []"

definition print_doc :: "doc_literal \<Rightarrow> token list" where
  "print_doc d = LBrace # print_fields d @ [RBrace]"

fun print_item_expr :: "expr \<Rightarrow> token list" where
  "print_item_expr (EAggCall n None) = [Ident n]"
| "print_item_expr (EAggCall n (Some f)) = [Ident n, Ident f]"
| "print_item_expr e = (if e = EField ''count'' then [LParen, Ident ''count'', RParen] else print_expr e)"

definition print_item :: "select_item \<Rightarrow> token list" where
  "print_item it = print_item_expr (si_expr it) @ (case si_alias it of Some a \<Rightarrow> [TAs, Ident a] | None \<Rightarrow> [])"

definition print_key :: "order_key \<Rightarrow> token list" where
  "print_key k = [Ident (ok_field k), if ok_direction k = Asc then TAsc else TDesc]"

definition print_assignment :: "assignment \<Rightarrow> token list" where
  "print_assignment a = Ident (as_field a) # EqSign # print_expr (as_value a)"

abbreviation idents :: "string list \<Rightarrow> token list" where
  "idents fs \<equiv> commas (map (\<lambda>f. [Ident f]) fs)"

fun print_stage :: "stage \<Rightarrow> token list" where
  "print_stage (SFrom c hint) = TFrom # Ident c # (case hint of Some h \<Rightarrow> [TUse, TIndex, Ident h] | None \<Rightarrow> [])"
| "print_stage (SWhere e) = TWhere # print_expr e"
| "print_stage (SSelect items) = TSelect # (case items of None \<Rightarrow> [Star] | Some its \<Rightarrow> commas (map print_item its))"
| "print_stage (SDrop fs) = TDrop # idents fs"
| "print_stage (SOrder ks) = TOrder # commas (map print_key ks)"
| "print_stage (SLimit n) = [TLimit, IntLit n]"
| "print_stage (SOffset n) = [TOffset, IntLit n]"
| "print_stage (SGroup fs) = TGroup # idents fs"
| "print_stage (SJoin c l r) = [TJoin, Ident c, TOn, Ident l, EqEq, Ident r]"
| "print_stage (SInsert docs) = TInsert # LBracket # commas (map print_doc docs) @ [RBracket]"
| "print_stage (SUpdate asg) = TUpdate # TSet # commas (map print_assignment asg)"
| "print_stage (SUpsert d) = TUpsert # print_doc d"
| "print_stage SDelete = [TDelete]"

definition print_stages :: "(separator \<times> stage) list \<Rightarrow> token list" where
  "print_stages ss = concat (map (\<lambda>(sep, s). sep_tokens sep @ print_stage s) ss)"

fun type_token :: "schema_type \<Rightarrow> token" where
  "type_token TInt = Ident ''int''" | "type_token TFloat = Ident ''float''" | "type_token TString = Ident ''string''"
| "type_token TBool = Ident ''bool''" | "type_token TAny = TAnyKw"

definition print_schema_field :: "schema_field \<Rightarrow> token list" where
  "print_schema_field f = Ident (sf_name f) # Colon # type_token (sf_ty f) #
     (if sf_required f then [TRequired] else []) @ (if sf_unique f then [TUnique] else [])"

abbreviation index_target :: "string \<Rightarrow> string list \<Rightarrow> token list" where
  "index_target c fs \<equiv> commas (map (\<lambda>f. [Ident c, Dot, Ident f]) fs)"

fun print_stmt :: "separator list \<Rightarrow> stmt \<Rightarrow> token list" where
  "print_stmt seps (Pipeline []) = []"
| "print_stmt seps (Pipeline (s # ss)) = print_stage s @ print_stages (zip seps ss)"
| "print_stmt seps (CreateCollection name schema ine) =
     TCreate # (if ine then [TIf, TNot, TExists] else []) @ Ident name # LBrace #
     commas (map print_schema_field schema) @ [RBrace]"
| "print_stmt seps (DropCollection name ie) =
     TDrop # Ident ''collection'' # (if ie then [TIf, TExists] else []) @ [Ident name]"
| "print_stmt seps (CreateIndex c fs ine unique) =
     TCreate # (if unique then [TUnique] else []) @ TIndex # (if ine then [TIf, TNot, TExists] else []) @
     TOn # index_target c fs"
| "print_stmt seps (DropIndex c fs ie) = TDrop # TIndex # (if ie then [TIf, TExists] else []) @ TOn # index_target c fs"

section \<open>What can be printed\<close>

abbreviation doc_ok :: "doc_literal \<Rightarrow> bool" where
  "doc_ok d \<equiv> list_all (\<lambda>(k, e). no_agg e) d"

fun item_expr_ok :: "expr \<Rightarrow> bool" where
  "item_expr_ok (EAggCall n None) = (n = ''count'')"
| "item_expr_ok (EAggCall n (Some f)) = (n \<in> {''sum'', ''avg'', ''min'', ''max'', ''collect''})"
| "item_expr_ok e = no_agg e"

fun stage_ok :: "stage \<Rightarrow> bool" where
  "stage_ok (SFrom c hint) = False"
| "stage_ok (SWhere e) = no_agg e"
| "stage_ok (SSelect items) = (case items of None \<Rightarrow> True | Some its \<Rightarrow> its \<noteq> [] \<and> list_all (\<lambda>it. item_expr_ok (si_expr it)) its)"
| "stage_ok (SDrop fs) = (fs \<noteq> [])"
| "stage_ok (SOrder ks) = (ks \<noteq> [])"
| "stage_ok (SLimit n) = (0 \<le> sint n)"
| "stage_ok (SOffset n) = (0 \<le> sint n)"
| "stage_ok (SGroup fs) = (fs \<noteq> [])"
| "stage_ok (SInsert docs) = list_all doc_ok docs"
| "stage_ok (SUpdate asg) = (asg \<noteq> [] \<and> list_all (\<lambda>a. no_agg (as_value a)) asg)"
| "stage_ok (SUpsert d) = doc_ok d"
| "stage_ok _ = True"

text \<open>A select list that ends in a \<open>count\<close> without an alias.\<close>

definition bare_count :: "select_item \<Rightarrow> bool" where
  "bare_count it \<longleftrightarrow> si_expr it = EAggCall ''count'' None \<and> si_alias it = None"

fun ends_in_count :: "stage \<Rightarrow> bool" where
  "ends_in_count (SSelect (Some its)) = (its \<noteq> [] \<and> bare_count (last its))"
| "ends_in_count _ = False"

fun seps_ok :: "stage \<Rightarrow> (separator \<times> stage) list \<Rightarrow> bool" where
  "seps_ok s [] = True"
| "seps_ok s ((sep, t) # ss) = (\<not> (ends_in_count s \<and> sep = SepNone) \<and> stage_ok t \<and> seps_ok t ss)"

fun stmt_ok :: "separator list \<Rightarrow> stmt \<Rightarrow> bool" where
  "stmt_ok seps (Pipeline []) = False"
| "stmt_ok seps (Pipeline (s # ss)) =
     ((case s of SFrom c h \<Rightarrow> True | _ \<Rightarrow> False) \<and> length seps = length ss \<and> seps_ok s (zip seps ss))"
| "stmt_ok seps (CreateIndex c fs ine unique) = (fs \<noteq> [])"
| "stmt_ok seps (DropIndex c fs ie) = (fs \<noteq> [])"
| "stmt_ok seps _ = True"

section \<open>Reading stages\<close>

definition stage_end :: "token list \<Rightarrow> bool" where
  "stage_end w \<longleftrightarrow> (case w of [] \<Rightarrow> True
     | t # v \<Rightarrow> t \<in> set stage_keywords \<or> t = Pipe
         \<or> t = Comma \<and> (case v of u # _ \<Rightarrow> u \<in> set stage_keywords | [] \<Rightarrow> False))"

lemma stage_end_stop: "stage_end w \<Longrightarrow> stop expr_next w" "stage_end w \<Longrightarrow> stop {TUse} w" "stage_end w \<Longrightarrow> stop {TAs} w"
  "stage_end w \<Longrightarrow> stop (range Ident) w"
  by (auto simp: stage_end_def stage_keywords_def next_defs split: list.splits)

definition list_next :: "token list \<Rightarrow> bool" where
  "list_next w \<longleftrightarrow> (\<exists>v. w = Comma # v \<and> (case v of u # _ \<Rightarrow> u \<notin> set stage_keywords | [] \<Rightarrow> True))"

lemma at_list_continuation_toks: "at_list_continuation p \<longleftrightarrow> list_next (toks (p_rest p))"
  by (cases "p_rest p")
     (auto simp: at_list_continuation_def list_next_def peek_token_def peek_token_at_def split: list.splits)

lemma stage_end_list: "stage_end w \<Longrightarrow> \<not> list_next w"
  by (auto simp: stage_end_def list_next_def stage_keywords_def split: list.splits)

lemma reads_stage_list:
  assumes "\<And>x M. x \<in> set xs \<Longrightarrow> reads M item (pr x) (F x) x"
    and "\<And>x. x \<in> set xs \<Longrightarrow> \<exists>t us. pr x = t # us \<and> t \<notin> set stage_keywords"
    and "\<And>x w. F x (Comma # w)" "\<And>w. G w \<Longrightarrow> F (last xs) w" and "xs \<noteq> []" and "\<And>w. G w \<Longrightarrow> stage_end w"
  shows "reads N (item_list at_list_continuation item) (commas (map pr xs)) G xs"
  by (rule reads_item_list [where C = list_next and F = F])
     (use assms in \<open>fastforce simp: at_list_continuation_toks list_next_def dest: stage_end_list\<close>)+

lemma reads_bind_last:
  "reads N m ts F a \<Longrightarrow> k a = returnP b \<Longrightarrow> reads N (bindP m k) ts F b"
  using reads_bind [of N m ts F a k "[]" F b] by (simp add: reads_return)

lemma reads_then:
  "reads (N - 1) (k ()) us G b \<Longrightarrow> reads N (bindP (expect t) k) (t # us) G b"
  using reads_bind [OF reads_expect [of N t anything], of k us G b] by simp

lemma reads_ident_then:
  "reads (N - 1) (k s) us G b \<Longrightarrow> reads N (bindP expect_ident k) (Ident s # us) G b"
  using reads_bind [OF reads_payloads(1) [of N s anything], of k us G b] by simp

lemmas reads_seq = reads_then reads_ident_then reads_return reads_accept_yes

lemma reads_doc_literal:
  assumes "doc_ok d"
  shows "reads N parse_doc_literal (print_doc d) anything d"
proof -
  have "reads M (item_list_until RBrace (parse_doc_field parse_expr)) (print_fields d) (closing RBrace) d" for M
    by (rule reads_fields) (use assms reads_expr in \<open>fastforce simp: list_all_iff\<close>)
  then have "reads M (bindP (item_list_until RBrace (parse_doc_field parse_expr)) (\<lambda>fs. bindP (expect RBrace) (\<lambda>_. returnP fs)))
      (print_fields d @ [RBrace]) anything d" for M
    by (rule reads_bind) (auto simp: closing_def intro: reads_seq)
  then show ?thesis unfolding parse_doc_literal_def print_doc_def by (intro reads_then)
qed

lemma reads_from_stage: "reads N parse_from_stage (print_stage (SFrom c h)) stage_end (SFrom c h)"
  unfolding parse_from_stage_def
  by (cases h) (auto intro!: reads_seq reads_accept_no dest: stage_end_stop(2))

lemma reads_order_key: "reads N parse_order_key (print_key k) F k"
  unfolding parse_order_key_def print_key_def
  by (cases k, cases "ok_direction k") (auto intro!: reads_seq reads_peek reads_advance)

lemma reads_assignment:
  "no_agg (as_value a) \<Longrightarrow> reads N parse_assignment (print_assignment a) (stop expr_next) a"
  unfolding parse_assignment_def print_assignment_def by (auto intro!: reads_seq reads_bind_last [OF reads_expr])

text \<open>A select item, and what may follow it.\<close>

definition item_end :: "select_item \<Rightarrow> token list \<Rightarrow> bool" where
  "item_end it w \<longleftrightarrow> stop expr_next w \<and> stop {TAs} w \<and> stop (range Ident) w
     \<and> (bare_count it \<longrightarrow> w = [] \<or> hd w \<in> {Comma, Pipe})"

definition no_select_end :: "token list \<Rightarrow> bool" where
  "no_select_end us \<longleftrightarrow> (\<exists>u v. us = u # v \<and> u \<notin> {Comma, TAs, Pipe} \<and> ident_of u = None)"

lemma ident_of_None: "ident_of t = None \<longleftrightarrow> (\<forall>s. t \<noteq> Ident s)"
  by (cases "ident_of t") (auto, metis option.distinct(1) payload_iff(4))

lemma ident_of_simps [simp]:
  "ident_of (Ident s) = Some s" "ident_of TIn = None" "ident_of TNot = None"
  "ident_of (match_token m) = None"
  by (simp, simp_all add: ident_of_None) (cases m; simp)+

lemma ident_of_op [simp]: "ident_of (op_token op) = None"
  unfolding ident_of_None by (cases op) simp_all

lemma op_token_plain:
  "op_token op \<noteq> Comma" "op_token op \<noteq> TAs" "op_token op \<noteq> Pipe"
  "match_token m \<noteq> Comma" "match_token m \<noteq> TAs" "match_token m \<noteq> Pipe"
  by (cases op; simp)+ (cases m; simp)+

lemma lit_token_no_ident: "lit_token l \<noteq> Ident n"
  by (cases l) auto

lemma second_token:
  "no_agg e \<Longrightarrow> at_level k e (print_expr e) = Ident n # us \<Longrightarrow> us = [] \<and> e = EField n \<or> no_select_end us"
proof (induction e arbitrary: k us)
  case (EBinOp op l r)
  then have "at_level (left_level op) l (print_expr l) @ op_token op # at_level (right_level op) r (print_expr r) = Ident n # us"
    by (auto simp: at_level_def [of k] split: if_splits)
  then obtain us' where "at_level (left_level op) l (print_expr l) = Ident n # us'"
    "us = us' @ op_token op # at_level (right_level op) r (print_expr r)"
    using print_head [of l "left_level op"] EBinOp.prems by (auto simp: append_eq_Cons_conv)
  then show ?case
    using EBinOp.IH(1) [of "left_level op" us'] EBinOp.prems op_token_plain by (auto simp: no_select_end_def)
qed (auto simp: at_level_def lit_token_no_ident no_select_end_def op_token_plain split: if_splits)

lemma reads_select_expr_plain:
  assumes "no_agg e" and "e \<noteq> EField ''count''"
  shows "reads N parse_select_expr (print_expr e) (\<lambda>w. stop expr_next w \<and> stop (range Ident) w) e"
proof -
  obtain t us where t: "print_expr e = t # us" "t \<notin> bad_head 0" using print_head [OF assms(1), of 0] by auto
  have e: "reads N parse_expr (t # us) (\<lambda>w. stop expr_next w \<and> stop (range Ident) w) e"
    by (rule reads_weaken [OF reads_expr [OF assms(1), unfolded t]]) auto
  show ?thesis
  proof (cases "ident_of t")
    case None
    with e t(1) show ?thesis unfolding parse_select_expr_def by (simp add: reads_peek reads_read_any)
  next
    case (Some n)
    then have us: "us = [] \<and> e = EField n \<or> no_select_end us"
      using second_token [OF assms(1), of 0 n us] t(1) by simp
    show ?thesis
    proof (cases us)
      case Nil
      with us assms(2) have "n \<noteq> ''count''" by (auto simp: no_select_end_def)
      have "reads N parse_select_expr [t] (\<lambda>w. stop expr_next w \<and> stop (range Ident) w) e"
        unfolding parse_select_expr_def
      proof (rule reads_peek, rule readsI)
        fix l xs rest
        assume p: "length [t] + length rest \<le> N" "toks xs = [t]" "stop expr_next (toks rest) \<and> stop (range Ident) (toks rest)"
        from p(2) obtain x where x: "xs = [x]" "sp_token x = t" by (auto simp: map_eq_Cons_conv)
        from p(3) have "Option.bind (peek_token_at 1 (cur (xs @ rest) l)) ident_of = None"
          by (cases rest) (auto simp: peek_token_at_def x ident_of_None)
        with Some \<open>n \<noteq> ''count''\<close> show "bindP (readP (peek_token_at 1)) (\<lambda>next_kind. case Option.bind (Some t) ident_of of
           Some n \<Rightarrow>
             if n = ''count'' \<and> next_kind \<in> {Some Comma, Some TAs, Some Pipe, None} then
               bindP advance_token (\<lambda>_. returnP (EAggCall n None))
             else if n \<in> {''sum'', ''avg'', ''min'', ''max'', ''collect''} \<and> Option.bind next_kind ident_of \<noteq> None then
               bindP advance_token (\<lambda>_. bindP expect_ident (\<lambda>f. returnP (EAggCall n (Some f))))
             else parse_expr
         | None \<Rightarrow> parse_expr) (cur (xs @ rest) l) = (Ok e, cur rest l)"
          using readsD [OF e [unfolded Nil] p] by (simp del: payload_iff)
      qed
      then show ?thesis by (simp add: t Nil)
    next
      case (Cons u v)
      with us have u: "u \<notin> {Comma, TAs, Pipe}" "ident_of u = None" by (auto simp: no_select_end_def)
      show ?thesis
        unfolding parse_select_expr_def t Cons
        by (intro reads_peek reads_read [where v = "Some u"])
           (use u Some e Cons in \<open>auto simp: peek_token_at_def map_eq_Cons_conv\<close>)
    qed
  qed
qed


lemma reads_select_expr_agg:
  "reads N parse_select_expr [Ident ''count''] (\<lambda>w. w = [] \<or> hd w \<in> {Comma, TAs, Pipe}) (EAggCall ''count'' None)"
  "n \<in> {''sum'', ''avg'', ''min'', ''max'', ''collect''} \<Longrightarrow>
    reads N parse_select_expr [Ident n, Ident f] F (EAggCall n (Some f))"
proof -
  show "reads N parse_select_expr [Ident ''count''] (\<lambda>w. w = [] \<or> hd w \<in> {Comma, TAs, Pipe}) (EAggCall ''count'' None)"
  proof (rule readsI)
    fix l xs rest
    assume p: "toks xs = [Ident ''count'']" "toks rest = [] \<or> hd (toks rest) \<in> {Comma, TAs, Pipe}"
    then obtain x where "xs = [x]" "sp_token x = Ident ''count''" by (auto simp: map_eq_Cons_conv)
    with p(2) show "parse_select_expr (cur (xs @ rest) l) = (Ok (EAggCall ''count'' None), cur rest l)"
      by (cases rest) (auto simp: parse_select_expr_def peek_token_def peek_token_at_def bind_advance)
  qed
next
  assume "n \<in> {''sum'', ''avg'', ''min'', ''max'', ''collect''}"
  then show "reads N parse_select_expr [Ident n, Ident f] F (EAggCall n (Some f))"
    unfolding parse_select_expr_def
    by (intro reads_peek reads_read [where v = "Some (Ident f)"])
       (auto simp: peek_token_at_def map_eq_Cons_conv intro!: reads_advance reads_seq)
qed

text \<open>Parentheses around an expression change nothing, at every level.\<close>

lemma reads_parens_or:
  assumes pe: "inner_reads N pe" and e: "no_agg e"
  shows "reads N (parse_or pe) (LParen # print_expr e @ [RParen]) (stop expr_next) e"
proof -
  let ?ts = "LParen # print_expr e @ [RParen]"
  have p: "reads N (parse_primary pe) ?ts anything e"
  proof (cases N)
    case (Suc M)
    then show ?thesis by (intro reads_parens [OF inner_readsD [OF pe e]]) auto
  qed (simp add: reads_def)
  have u: "reads N (parse_unary pe) ?ts anything e"
    unfolding parse_unary_def by (intro reads_looped reads_prefixed_pass [OF reads_weaken [OF p]]) auto
  have m: "reads N (parse_mul pe) ?ts (stop mul_next) e"
    unfolding parse_mul_def by (rule chains_reads [OF chains_base [OF u]]) (simp add: mul_ops_def mul_next_def)
  have a: "reads N (parse_add pe) ?ts (stop add_next) e"
    unfolding parse_add_def
    by (rule chains_reads [OF chains_base [OF m]]) (auto simp: add_ops_def add_next_def elim: stop_mono)
  have "reads N (bindP (parse_add pe) (predicate_tail pe)) (?ts @ []) (stop pred_next) e"
    by (rule reads_bind [OF a reads_tail_none]) (auto simp: pred_next_def elim: stop_mono)
  then have q: "reads N (parse_predicate pe) ?ts (stop pred_next) e"
    unfolding parse_predicate_def by (auto intro!: reads_accept_no)
  have n: "reads N (parse_not pe) ?ts (stop pred_next) e"
    unfolding parse_not_def by (intro reads_looped reads_prefixed_pass [OF reads_weaken [OF q]]) auto
  have c: "reads N (parse_and pe) ?ts (stop and_next) e"
    unfolding parse_and_def by (rule chains_reads [OF chains_base [OF n]]) (auto simp: and_next_def elim: stop_mono)
  show ?thesis
    unfolding parse_or_def by (rule chains_reads [OF chains_base [OF c]]) (auto simp: expr_next_def elim: stop_mono)
qed

lemma reads_parens_expr: "no_agg e \<Longrightarrow> reads N parse_expr (LParen # print_expr e @ [RParen]) (stop expr_next) e"
  unfolding parse_expr_def
  by (rule reads_looped) (auto intro!: reads_peek reads_parens_or inner_reads_fuel)

lemma reads_item_expr:
  assumes "item_expr_ok e"
  shows "reads N parse_select_expr (print_item_expr e)
    (\<lambda>w. stop expr_next w \<and> stop (range Ident) w \<and> (e = EAggCall ''count'' None \<longrightarrow> w = [] \<or> hd w \<in> {Comma, TAs, Pipe})) e"
proof -
  consider (count) "e = EAggCall ''count'' None"
    | (agg) n f where "e = EAggCall n (Some f)" "n \<in> {''sum'', ''avg'', ''min'', ''max'', ''collect''}"
    | (field) "e = EField ''count''"
    | (plain) "no_agg e" "e \<noteq> EField ''count''" "print_item_expr e = print_expr e"
    using assms by (cases e rule: item_expr_ok.cases) auto
  then show ?thesis
  proof cases
    case count
    then show ?thesis by (auto intro: reads_weaken [OF reads_select_expr_agg(1)])
  next
    case agg
    then show ?thesis using reads_select_expr_agg(2) by simp
  next
    case field
    have "reads N parse_expr [LParen, Ident ''count'', RParen] (stop expr_next) e"
      using reads_parens_expr [of "EField ''count''"] field by simp
    then have "reads N parse_select_expr [LParen, Ident ''count'', RParen] (stop expr_next) e"
      unfolding parse_select_expr_def by (simp add: reads_peek reads_read_any ident_of_def)
    then show ?thesis using field by (auto intro: reads_weaken)
  next
    case plain
    then show ?thesis by (auto intro: reads_weaken [OF reads_select_expr_plain])
  qed
qed


lemma reads_select_item:
  assumes "item_expr_ok (si_expr it)"
  shows "reads N parse_select_item (print_item it) (item_end it) it"
proof -
  obtain e a where it: "it = \<lparr>si_expr = e, si_alias = a\<rparr>" by (cases it)
  have e: "item_expr_ok e" using assms by (simp add: it)
  show ?thesis
  proof (cases a)
    case None
    have "reads N parse_select_item (print_item_expr e @ []) (item_end it) it"
      unfolding parse_select_item_def
      by (rule reads_bind [OF reads_item_expr [OF e]])
         (auto simp: it None item_end_def bare_count_def intro!: reads_accept_no reads_return)
    then show ?thesis by (simp add: print_item_def it None)
  next
    case (Some b)
    have "reads N parse_select_item (print_item_expr e @ [TAs, Ident b]) (item_end it) it"
      unfolding parse_select_item_def
      by (rule reads_bind [OF reads_item_expr [OF e]])
         (auto simp: it Some next_defs intro!: reads_seq)
    then show ?thesis by (simp add: print_item_def it Some)
  qed
qed

lemma print_item_head:
  assumes "item_expr_ok (si_expr it)"
  shows "\<exists>t us. print_item it = t # us \<and> t \<notin> set stage_keywords \<and> t \<noteq> Star"
proof -
  have "\<exists>t us. print_item_expr e = t # us \<and> t \<notin> set stage_keywords \<and> t \<noteq> Star" if "item_expr_ok e" for e
  proof (cases "print_item_expr e = print_expr e \<and> no_agg e")
    case True
    then show ?thesis using print_head [of e 0] by (auto simp: bad_head_def closers_def)
  next
    case False
    then show ?thesis using that by (cases e rule: item_expr_ok.cases) (auto simp: stage_keywords_def)
  qed
  from this [OF assms] show ?thesis by (auto simp: print_item_def)
qed

text \<open>What may follow a stage.\<close>

definition after_stage :: "stage \<Rightarrow> token list \<Rightarrow> bool" where
  "after_stage s w \<longleftrightarrow> stage_end w \<and> (ends_in_count s \<longrightarrow> w = [] \<or> hd w \<in> {Comma, Pipe})"

lemma after_stageD: "after_stage s w \<Longrightarrow> stage_end w"
  by (simp add: after_stage_def)

lemma reads_select_stage:
  assumes "its \<noteq> []" and "list_all (\<lambda>it. item_expr_ok (si_expr it)) its"
  shows "reads N parse_select_stage (print_stage (SSelect (Some its))) (after_stage (SSelect (Some its))) (SSelect (Some its))"
proof -
  have 1: "reads M (bindP (item_list at_list_continuation parse_select_item) (\<lambda>items. returnP (SSelect (Some items))))
      (commas (map print_item its)) (after_stage (SSelect (Some its))) (SSelect (Some its))" for M
  proof (rule reads_bind_last, rule reads_stage_list [where F = item_end])
    fix x assume "x \<in> set its"
    then show "\<exists>t us. print_item x = t # us \<and> t \<notin> set stage_keywords"
      using print_item_head assms by (fastforce simp: list_all_iff)
  qed (use assms in \<open>auto simp: list_all_iff reads_select_item item_end_def next_defs after_stage_def dest: stage_end_stop\<close>)
  obtain t us where t: "commas (map print_item its) = t # us" "t \<noteq> Star"
    using print_item_head [of "hd its"] assms by (cases its) (auto simp: commas_Cons)
  show ?thesis
    unfolding parse_select_stage_def using 1 t by (auto intro!: reads_then reads_accept_no)
qed

lemma reads_idents: "fs \<noteq> [] \<Longrightarrow> (\<And>w. G w \<Longrightarrow> stage_end w) \<Longrightarrow>
    reads N (item_list at_list_continuation expect_ident) (idents fs) G fs"
  by (rule reads_stage_list [where F = "\<lambda>_. anything"]) (auto intro: reads_payloads simp: stage_keywords_def)

lemma print_heads:
  "\<exists>t us. print_key k = t # us \<and> t \<notin> set stage_keywords"
  "\<exists>t us. print_assignment a = t # us \<and> t \<notin> set stage_keywords"
  "print_doc d \<noteq> []" "hd (print_doc d) \<noteq> RBracket"
  by (simp_all add: print_key_def print_assignment_def print_doc_def stage_keywords_def)

lemma reads_expr_end:
  "no_agg e \<Longrightarrow> (\<And>w. G w \<Longrightarrow> stage_end w) \<Longrightarrow> reads N parse_expr (print_expr e) G e"
  by (rule reads_weaken [OF reads_expr, of _ N]) (auto intro: stage_end_stop)

lemma reads_order_keys: "ks \<noteq> [] \<Longrightarrow> (\<And>w. G w \<Longrightarrow> stage_end w) \<Longrightarrow>
    reads N (item_list at_list_continuation parse_order_key) (commas (map print_key ks)) G ks"
  by (rule reads_stage_list [where F = "\<lambda>_. anything"])
     (use print_heads(1) in \<open>auto intro: reads_order_key\<close>)

lemma reads_assignments: "asg \<noteq> [] \<Longrightarrow> list_all (\<lambda>a. no_agg (as_value a)) asg \<Longrightarrow> (\<And>w. G w \<Longrightarrow> stage_end w) \<Longrightarrow>
    reads N (item_list at_list_continuation parse_assignment) (commas (map print_assignment asg)) G asg"
  by (rule reads_stage_list [where F = "\<lambda>_. stop expr_next"])
     (use print_heads(2) in \<open>auto intro: reads_assignment stage_end_stop simp: list_all_iff expr_next_closers\<close>)

lemma reads_docs:
  assumes "list_all doc_ok docs"
  shows "reads N (bindP (item_list_until RBracket parse_doc_literal) (\<lambda>docs. bindP (expect RBracket) (\<lambda>_. returnP (SInsert docs))))
    (commas (map print_doc docs) @ [RBracket]) F (SInsert docs)"
proof -
  have "reads M (item_list_until RBracket parse_doc_literal) (commas (map print_doc docs)) (closing RBracket) docs" for M
    by (rule reads_item_list_until [where F = anything])
       (use assms print_heads in \<open>auto intro: reads_doc_literal simp: list_all_iff\<close>)
  then show ?thesis by (rule reads_bind) (auto simp: closing_def intro: reads_seq)
qed

lemma reads_int_then:
  "reads (N - 1) (k n) us G b \<Longrightarrow> reads N (bindP expect_int_lit k) (IntLit n # us) G b"
  using reads_bind [OF reads_payloads(2) [of N n anything], of k us G b] by simp

lemma reads_stage:
  assumes "stage_ok s"
  shows "reads N parse_stage (print_stage s) (after_stage s) s"
proof (cases s)
  case (SSelect items)
  show ?thesis
  proof (cases items)
    case None
    show ?thesis
      unfolding SSelect None parse_stage_def
      by (auto intro!: reads_peek reads_then reads_accept_yes reads_return simp: parse_select_stage_def)
  next
    case (Some its)
    show ?thesis
      unfolding SSelect Some parse_stage_def
      using assms reads_select_stage [of its N] by (auto intro!: reads_peek simp: SSelect Some)
  qed
next
  case (SWhere e)
  then show ?thesis
    using assms by (auto intro!: reads_peek reads_then reads_bind_last [OF reads_expr_end]
        simp: parse_stage_def parse_where_stage_def dest: after_stageD)
qed (use assms in \<open>auto intro!: reads_peek reads_seq reads_int_then reads_advance reads_docs reads_bind_last [OF reads_idents]
       reads_bind_last [OF reads_order_keys] reads_bind_last [OF reads_assignments] reads_bind_last [OF reads_weaken [OF reads_doc_literal]]
     dest: after_stageD
     simp: parse_stage_def parse_drop_stage_def parse_order_stage_def parse_limit_stage_def
       parse_offset_stage_def parse_group_stage_def parse_join_stage_def parse_insert_stage_def parse_update_stage_def
       parse_upsert_stage_def\<close>)


section \<open>Reading pipelines and statements\<close>

lemma stage_ok_head:
  "stage_ok s \<Longrightarrow> \<exists>t us. print_stage s = t # us \<and> t \<in> set stage_keywords"
  by (cases s) (simp_all add: stage_keywords_def)

lemma print_stages_Cons: "print_stages ((sep, s) # ss) = sep_tokens sep @ print_stage s @ print_stages ss"
  by (simp add: print_stages_def)

lemma reads_next_stage:
  "reads N next_stage (sep_tokens sep) (\<lambda>w. \<exists>t us. w = t # us \<and> t \<in> set stage_keywords) True"
  "reads N next_stage [] (\<lambda>w. w = []) False"
proof -
  have kw: "t \<noteq> Pipe \<and> t \<noteq> Comma" if "t \<in> set stage_keywords" for t using that by (auto simp: stage_keywords_def)
  show "reads N next_stage (sep_tokens sep) (\<lambda>w. \<exists>t us. w = t # us \<and> t \<in> set stage_keywords) True"
    by (rule readsI, cases sep)
       (auto simp: next_stage_def peek_token_def peek_token_at_def stage_keyword_at_def bind_advance map_eq_Cons_conv dest: kw)
  show "reads N next_stage [] (\<lambda>w. w = []) False"
    by (rule readsI) (simp add: next_stage_def peek_token_def peek_token_at_def stage_keyword_at_def)
qed

text \<open>What is printed after a stage may follow it.\<close>

lemma after_stage_printed:
  assumes "seps_ok s ss"
  shows "after_stage s (print_stages ss)"
proof (cases ss)
  case (Cons x ss')
  obtain sep t where x: "x = (sep, t)" by (cases x)
  have t: "stage_ok t" "\<not> (ends_in_count s \<and> sep = SepNone)" using assms by (simp_all add: Cons x)
  obtain u us where "print_stage t = u # us" "u \<in> set stage_keywords" using stage_ok_head [OF t(1)] by blast
  with t(2) show ?thesis
    by (cases sep) (auto simp: Cons x print_stages_Cons after_stage_def stage_end_def)
qed (simp add: print_stages_def after_stage_def stage_end_def)

lemma reads_pipeline_loop:
  "seps_ok s ss \<Longrightarrow> N < n \<Longrightarrow>
    reads N (pipeline_loop n acc) (print_stages ss) (\<lambda>w. w = []) (acc @ map snd ss)"
proof (induction ss arbitrary: s N n acc)
  case Nil
  then obtain m where n: "n = Suc m" by (cases n) auto
  have "reads N (pipeline_loop n acc) ([] @ []) (\<lambda>w. w = []) acc"
    unfolding n pipeline_loop.simps by (rule reads_bind [OF reads_next_stage(2)]) (auto intro: reads_return)
  then show ?case by (simp add: print_stages_def)
next
  case (Cons x ss)
  obtain sep t where x: "x = (sep, t)" by (cases x)
  from Cons.prems obtain m where n: "n = Suc m" by (cases n) auto
  have t: "stage_ok t" "seps_ok t ss" using Cons.prems by (simp_all add: x)
  obtain u us where u: "print_stage t = u # us" "u \<in> set stage_keywords" using stage_ok_head [OF t(1)] by blast
  have 1: "reads M (bindP parse_stage (\<lambda>s. pipeline_loop m (acc @ [s]))) (print_stage t @ print_stages ss) (\<lambda>w. w = [])
      ((acc @ [t]) @ map snd ss)" if "M \<le> N" for M
  proof (rule reads_bind [OF reads_stage [OF t(1)]])
    assume "length (print_stage t) \<le> M"
    with u Cons.prems n that show "reads (M - length (print_stage t)) (pipeline_loop m (acc @ [t])) (print_stages ss)
        (\<lambda>w. w = []) ((acc @ [t]) @ map snd ss)"
      by (intro Cons.IH [OF t(2)]) simp
  qed (use t after_stage_printed in auto)
  have "reads N (pipeline_loop n acc) (sep_tokens sep @ print_stage t @ print_stages ss) (\<lambda>w. w = []) ((acc @ [t]) @ map snd ss)"
    unfolding n pipeline_loop.simps
    by (rule reads_bind [OF reads_next_stage(1)]) (use u 1 in simp_all)
  then show ?case by (simp add: x print_stages_Cons)
qed

lemma reads_pipeline:
  assumes "seps_ok (SFrom c h) ss"
  shows "reads N parse_pipeline (print_stage (SFrom c h) @ print_stages ss) (\<lambda>w. w = []) (SFrom c h # map snd ss)"
  unfolding parse_pipeline_def
  by (rule reads_bind [OF reads_from_stage], rule reads_looped,
      rule reads_pipeline_loop [where acc = "[SFrom c h]", OF assms, simplified])
     (use after_stage_printed [OF assms] in \<open>auto dest: after_stageD\<close>)

lemma reads_schema_flags:
  assumes n: "N < n"
  shows "reads N (schema_flags n r u) ((if r' then [TRequired] else []) @ (if u' then [TUnique] else []))
     (stop {TRequired, TUnique}) (r \<or> r', u \<or> u')"
proof -
  have none: "reads M (schema_flags m r u) [] (stop {TRequired, TUnique}) (r, u)" if "M < m" for M m r u
  proof -
    obtain k where "m = Suc k" using \<open>M < m\<close> by (cases m) auto
    then show ?thesis by (auto intro!: reads_peek_end)
  qed
  have uq: "reads M (schema_flags m r u) [TUnique] (stop {TRequired, TUnique}) (r, True)" if "M < m" for M m r u
  proof -
    obtain k where "m = Suc k" "M \<le> k" using \<open>M < m\<close> by (cases m) auto
    then show ?thesis by (auto intro!: reads_peek reads_advance none)
  qed
  from n obtain k where k: "n = Suc k" "N \<le> k" by (cases n) auto
  have rq: "reads N (schema_flags n r u) (TRequired # ts) (stop {TRequired, TUnique}) b"
    if "\<And>M. M < k \<Longrightarrow> reads M (schema_flags k True u) ts (stop {TRequired, TUnique}) b" for ts b
    using that k by (auto intro!: reads_peek reads_advance)
  show ?thesis using none [OF n] uq [OF n] rq none uq by (cases r'; cases u') auto
qed

lemma reads_schema_type: "reads N parse_schema_type [type_token ty] F ty"
  unfolding parse_schema_type_def Let_def
  by (cases ty) (auto intro!: reads_peek reads_advance reads_return simp: ident_of_def)

lemma reads_schema_field: "reads N parse_schema_field (print_schema_field f) (stop {TRequired, TUnique}) f"
proof -
  obtain n ty r u where f: "f = \<lparr>sf_name = n, sf_ty = ty, sf_required = r, sf_unique = u\<rparr>" by (cases f)
  have "reads M (bindP parse_schema_type (\<lambda>ty. bindP (looped (\<lambda>n. schema_flags n False False)) (\<lambda>(required, unique).
      returnP \<lparr>sf_name = n, sf_ty = ty, sf_required = required, sf_unique = unique\<rparr>)))
      ([type_token ty] @ ((if r then [TRequired] else []) @ (if u then [TUnique] else []))) (stop {TRequired, TUnique}) f" for M
    by (rule reads_bind [OF reads_schema_type [where F = anything]], rule reads_bind_last, rule reads_looped, rule reads_schema_flags)
       (simp_all add: f)
  then show ?thesis
    unfolding parse_schema_field_def print_schema_field_def f by (auto intro!: reads_seq)
qed


lemma reads_qualified_field: "reads N parse_qualified_field [Ident c, Dot, Ident f] F (c, f)"
  unfolding parse_qualified_field_def by (auto intro!: reads_seq)

lemma reads_index_target:
  assumes "fs \<noteq> []"
  shows "reads N parse_index_target (index_target c fs) (\<lambda>w. w = []) (c, fs)"
proof -
  obtain f fs' where fs: "fs = f # fs'" using assms by (cases fs) auto
  have item: "reads M (index_target_item c) [Ident c, Dot, Ident g] anything g" for M g
    unfolding index_target_item_def by (rule reads_bind_last [OF reads_qualified_field]) simp
  have "reads M (looped (\<lambda>n. more_items n at_comma (index_target_item c) [f])) (concat (map (\<lambda>f. Comma # [Ident c, Dot, Ident f]) fs'))
      (\<lambda>w. w = []) (f # fs')" for M
    by (rule reads_looped, rule reads_more_items [where acc = "[f]" and F = "\<lambda>_. anything" and C = "closing Comma", simplified])
       (auto simp: at_comma_toks closing_def item)
  then have "reads N parse_index_target ([Ident c, Dot, Ident f] @ concat (map (\<lambda>f. Comma # [Ident c, Dot, Ident f]) fs'))
      (\<lambda>w. w = []) (c, fs)"
    unfolding parse_index_target_def
    by (intro reads_bind [OF reads_qualified_field [where F = anything]]) (auto intro: reads_bind_last simp: fs)
  then show ?thesis by (simp add: fs commas_Cons)
qed

lemma print_schema_head: "print_schema_field f \<noteq> [] \<and> hd (print_schema_field f) \<noteq> RBrace"
  by (simp add: print_schema_field_def)

lemma bind_return [simp]: "bindP (returnP a) k = k a"
  by (simp add: fun_eq_iff)

lemma reads_schema:
  "reads N (bindP parse_schema_field_list (\<lambda>schema. bindP (expect RBrace) (\<lambda>_. returnP (CreateCollection name schema ine))))
     (commas (map print_schema_field schema) @ [RBrace]) F (CreateCollection name schema ine)"
  unfolding parse_schema_field_list_def
  by (rule reads_bind, rule reads_item_list_until [where F = "stop {TRequired, TUnique}"])
     (use print_schema_head in \<open>auto intro!: reads_schema_field reads_seq simp: closing_def\<close>)

lemma reads_if_not_exists:
  "stop {TIf} us \<Longrightarrow> us \<noteq> [] \<Longrightarrow> (\<And>M. reads M (k ine) us F a) \<Longrightarrow>
    reads N (bindP parse_if_not_exists k) ((if ine then [TIf, TNot, TExists] else []) @ us) F a"
  unfolding parse_if_not_exists_def bindP_assoc
  by (cases us) (auto simp: bindP_assoc intro!: reads_accept_yes reads_accept_no reads_then)

lemma reads_if_exists:
  "stop {TIf} us \<Longrightarrow> us \<noteq> [] \<Longrightarrow> (\<And>M. reads M (k ie) us F a) \<Longrightarrow>
    reads N (bindP parse_if_exists k) ((if ie then [TIf, TExists] else []) @ us) F a"
  unfolding parse_if_exists_def bindP_assoc
  by (cases us) (auto simp: bindP_assoc intro!: reads_accept_yes reads_accept_no reads_then)


lemma reads_statement:
  assumes "stmt_ok seps s"
  shows "reads N parse_statement (print_stmt seps s) (\<lambda>w. w = []) s"
proof (cases s)
  case (Pipeline p)
  from assms obtain c h ss where p: "p = SFrom c h # ss" "length seps = length ss" "seps_ok (SFrom c h) (zip seps ss)"
    unfolding Pipeline by (cases p) (auto split: stage.splits)
  have "reads N parse_pipeline (print_stage (SFrom c h) @ print_stages (zip seps ss)) (\<lambda>w. w = []) p"
    using reads_pipeline [OF p(3), of N] p(1,2) by simp
  then show ?thesis
    unfolding Pipeline p(1) by (auto intro!: reads_peek reads_bind_last simp: parse_statement_def p(1))
next
  case (CreateCollection name schema ine)
  have "reads M (bindP parse_if_not_exists (\<lambda>ine. bindP expect_ident (\<lambda>name. bindP (expect LBrace) (\<lambda>_.
       bindP parse_schema_field_list (\<lambda>schema. bindP (expect RBrace) (\<lambda>_. returnP (CreateCollection name schema ine)))))))
      ((if ine then [TIf, TNot, TExists] else []) @ Ident name # LBrace # commas (map print_schema_field schema) @ [RBrace])
      (\<lambda>w. w = []) s" for M
    unfolding CreateCollection by (rule reads_if_not_exists) (auto intro!: reads_seq reads_schema)
  then show ?thesis
    unfolding CreateCollection parse_statement_def
    by (auto intro!: reads_peek reads_then reads_accept_no simp: parse_create_def)
next
  case (DropCollection name ie)
  have "reads M (bindP parse_if_exists (\<lambda>ie. bindP expect_ident (\<lambda>name. returnP (DropCollection name ie))))
      ((if ie then [TIf, TExists] else []) @ [Ident name]) (\<lambda>w. w = []) s" for M
    unfolding DropCollection by (rule reads_if_exists) (auto intro!: reads_seq)
  then show ?thesis
    unfolding DropCollection parse_statement_def
    by (auto intro!: reads_peek reads_then reads_advance simp: parse_drop_statement_def)
next
  case (CreateIndex c fs ine unique)
  have "reads M (bindP parse_if_not_exists (\<lambda>ine. bindP (expect TOn) (\<lambda>_. bindP parse_index_target (\<lambda>(collection, fs).
       returnP (CreateIndex collection fs ine unique)))))
      ((if ine then [TIf, TNot, TExists] else []) @ TOn # index_target c fs) (\<lambda>w. w = []) s" for M
    unfolding CreateIndex
    by (rule reads_if_not_exists) (use assms in \<open>auto intro!: reads_seq reads_bind_last [OF reads_index_target] simp: CreateIndex\<close>)
  then show ?thesis
    unfolding CreateIndex parse_statement_def
    by (auto intro!: reads_peek reads_then reads_accept_no reads_accept_yes simp: parse_create_def)
next
  case (DropIndex c fs ie)
  have "reads M (bindP parse_if_exists (\<lambda>ie. bindP (expect TOn) (\<lambda>_. bindP parse_index_target (\<lambda>(collection, fs).
       returnP (DropIndex collection fs ie)))))
      ((if ie then [TIf, TExists] else []) @ TOn # index_target c fs) (\<lambda>w. w = []) s" for M
    unfolding DropIndex
    by (rule reads_if_exists) (use assms in \<open>auto intro!: reads_seq reads_bind_last [OF reads_index_target] simp: DropIndex\<close>)
  then show ?thesis
    unfolding DropIndex parse_statement_def
    by (auto intro!: reads_peek reads_then reads_advance simp: parse_drop_statement_def)
qed

lemma parse_printed:
  assumes "stmt_ok seps s" and "map sp_token sps = print_stmt seps s"
  shows "parse sps = Ok s"
proof -
  let ?l = "p_last (parser_new sps)"
  have "parse_statement (cur (sps @ []) ?l) = (Ok s, cur [] ?l)"
    by (rule readsD [OF reads_statement [OF assms(1), of "length sps"]])
       (use assms(2) in \<open>auto dest: arg_cong [of _ _ length]\<close>)
  moreover have "parser_new sps = cur (sps @ []) ?l" by (simp add: parser_new_def)
  ultimately show ?thesis by (simp add: parse_def prog_simps is_eof_def)
qed


section \<open>Properties\<close>

definition spans :: "token list \<Rightarrow> spanned list" where
  "spans ts = map (\<lambda>t. \<lparr>sp_token = t, sp_line = 1, sp_col = 1\<rparr>) ts"

lemma toks_spans [simp]: "map sp_token (spans ts) = ts"
  by (simp add: spans_def comp_def)

text \<open>
  C29: the parser inverts the printer. Every statement that the grammar can express (a pipeline, or a
  create or drop statement: \<open>stmt_ok\<close>) is read back from its tokens exactly: operators bind and
  associate as the grammar says, parentheses are needed only where the levels ask for them, and a
  pipe, a comma or nothing between two stages gives the same pipeline, with one exception. Behind a
  select list that ends in a bare \<open>count\<close> the separator cannot be left out: \<open>count_before_stage_keyword\<close>
  shows that the parser then takes \<open>count\<close> for a field.
\<close>

theorem parse_print_stmt:
  assumes "stmt_ok seps s" and "map sp_token sps = print_stmt seps s"
  shows "parse sps = Ok s"
  using assms by (rule parse_printed)

theorem parse_print_stmt_witness:
  "parse (spans (print_stmt [SepNone, SepComma]
     (Pipeline [SFrom ''users'' None,
        SWhere (EBinOp OpGt (EBinOp OpMul (EBinOp OpAdd (EField ''a'') (ELit (LInt 1))) (EField ''b'')) (ELit (LInt 18))),
        SSelect (Some [\<lparr>si_expr = EField ''name'', si_alias = Some ''n''\<rparr>])])))
   = Ok (Pipeline [SFrom ''users'' None,
        SWhere (EBinOp OpGt (EBinOp OpMul (EBinOp OpAdd (EField ''a'') (ELit (LInt 1))) (EField ''b'')) (ELit (LInt 18))),
        SSelect (Some [\<lparr>si_expr = EField ''name'', si_alias = Some ''n''\<rparr>])])"
  by (rule parse_print_stmt [where seps = "[SepNone, SepComma]"]) simp_all

text \<open>
  C30: from text to syntax tree. A statement without float literals whose names, strings and integers
  can be written down is recovered from its source text by the lexer and the parser together, under
  the separator condition of the round trip of tokens.
\<close>

theorem parse_printed_text:
  assumes "stmt_ok seps s" and "\<forall>t \<in> set (print_stmt seps s). printable t"
  shows "\<exists>sps. tokenize (print_tokens (print_stmt seps s)) = Ok sps \<and> parse sps = Ok s"
proof -
  obtain sps where "tokenize (print_tokens (print_stmt seps s)) = Ok sps" "map sp_token sps = print_stmt seps s"
    using tokenize_loop_print [OF assms(2), of "Suc (length (print_tokens (print_stmt seps s)))" "(1, 1)" "[]"]
      length_print_tokens [of "print_stmt seps s"]
    by (auto simp: tokenize_def simp del: tokenize_loop.simps)
  with parse_printed [OF assms(1)] show ?thesis by blast
qed

theorem parse_printed_text_witness:
  "\<exists>sps. tokenize (print_tokens (print_stmt [SepPipe] (Pipeline [SFrom ''order'' None, SDrop [''limit'']]))) = Ok sps
     \<and> parse sps = Ok (Pipeline [SFrom ''order'' None, SDrop [''limit'']])"
  by (rule parse_printed_text) (simp_all add: utf8_valid_def print_stages_def)

text \<open>
  Where the separator is not decoration. The comment of \<open>parse_pipeline\<close> says that a missing
  separator costs nothing; after \<open>select count\<close> it does: with a pipe the item is the aggregate,
  without one it is read as a field named \<open>count\<close>, and the query silently changes its meaning.
\<close>

theorem count_before_stage_keyword:
  "parse (spans [TFrom, Ident ''c'', TSelect, Ident ''count'', Pipe, TLimit, IntLit 5])
     = Ok (Pipeline [SFrom ''c'' None, SSelect (Some [\<lparr>si_expr = EAggCall ''count'' None, si_alias = None\<rparr>]), SLimit 5])
   \<and> parse (spans [TFrom, Ident ''c'', TSelect, Ident ''count'', TLimit, IntLit 5])
     = Ok (Pipeline [SFrom ''c'' None, SSelect (Some [\<lparr>si_expr = EField ''count'', si_alias = None\<rparr>]), SLimit 5])"
proof
  show "parse (spans [TFrom, Ident ''c'', TSelect, Ident ''count'', Pipe, TLimit, IntLit 5])
     = Ok (Pipeline [SFrom ''c'' None, SSelect (Some [\<lparr>si_expr = EAggCall ''count'' None, si_alias = None\<rparr>]), SLimit 5])"
    by (rule parse_printed [where seps = "[SepNone, SepPipe]"]) (simp_all add: print_stages_def print_item_def)
  show "parse (spans [TFrom, Ident ''c'', TSelect, Ident ''count'', TLimit, IntLit 5])
     = Ok (Pipeline [SFrom ''c'' None, SSelect (Some [\<lparr>si_expr = EField ''count'', si_alias = None\<rparr>]), SLimit 5])"
    by (simp add: spans_def parse_def parser_new_def parse_statement_def parse_pipeline_def parse_from_stage_def
        expect_def expect_ident_def expect_int_lit_def expect_payload_def accept_def peek_token_def peek_token_at_def advance_token_def
        bindP_def looped_def next_stage_def stage_keyword_at_def stage_keywords_def parse_stage_def parse_select_stage_def
        item_list_def parse_select_item_def parse_select_expr_def parse_expr_def parse_or_def parse_and_def parse_not_def
        binop_level_def parse_predicate_def parse_add_def parse_mul_def parse_unary_def parse_primary_def literal_token_def
        int_of_token_def float_of_token_def string_of_token_def mul_ops_def add_ops_def predicate_tail_def cmp_ops_def
        match_ops_def at_list_continuation_def parse_limit_stage_def is_eof_def)
qed

end
