(* ===== verification/Doc_Collection.thy ===== *)
theory Doc_Collection
  imports Storage_Heap Doc_Codec
begin

text \<open>
  \<open>document/collection.rs\<close>: documents over a heap file. The state of a method is the collection
  and the buffer pool it is given; heap errors become \<open>CollIo\<close>, decoding errors \<open>CollDecode\<close>.

  \<open>document_store\<close> is the contract the layers above rely on, a finite map from document ids to
  documents; it is interpreted on the operations of this file, its laws following from those of
  the heap and the round trip of the document codec.
\<close>

section \<open>Operations\<close>

datatype collection_error = CollIo io_error | CollDecode decode_error

record collection =
  col_heap :: heap_file

type_synonym 'a coll_prog = "(collection \<times> buffer_pool, collection_error, 'a) prog"

definition collection_create :: "heap_file \<Rightarrow> collection" where
  "collection_create h = \<lparr>col_heap = h\<rparr>"

definition collection_open :: "heap_file \<Rightarrow> collection" where
  "collection_open h = \<lparr>col_heap = h\<rparr>"

definition collection_root :: "collection \<Rightarrow> page_id" where
  "collection_root c = hf_root (col_heap c)"

definition collection_first_page :: "collection \<Rightarrow> page_id" where
  "collection_first_page c = hf_root (col_heap c)"

text \<open>A call on the collection's heap, with \<open>?\<close> converting its error.\<close>

definition on_heap :: "'a heap_prog \<Rightarrow> 'a coll_prog" where
  "on_heap m = (\<lambda>(c, s). case m (col_heap c, s) of (r, (h, s')) \<Rightarrow> (map_err CollIo r, (c\<lparr>col_heap := h\<rparr>, s')))"

definition collection_insert :: "document \<Rightarrow> doc_id coll_prog" where
  "collection_insert doc = on_heap (heap_insert (serialize_document doc))"

definition collection_get :: "doc_id \<Rightarrow> document option coll_prog" where
  "collection_get doc_id = bindP (on_heap (heap_read doc_id)) (\<lambda>r.
     case r of None \<Rightarrow> returnP None
     | Some bytes \<Rightarrow> bindP (liftO (map_err CollDecode (deserialize_document bytes))) (\<lambda>doc. returnP (Some doc)))"

definition collection_delete :: "doc_id \<Rightarrow> unit coll_prog" where
  "collection_delete doc_id = on_heap (heap_delete doc_id)"

definition decode_record :: "doc_id \<times> byte list \<Rightarrow> (collection_error, doc_id \<times> document) outcome" where
  "decode_record rec = (case rec of (doc_id, bytes) \<Rightarrow>
     bindO (map_err CollDecode (deserialize_document bytes)) (\<lambda>doc. Ok (doc_id, doc)))"

definition collection_scan_page :: "page_id \<Rightarrow> ((doc_id \<times> document) list \<times> page_id option) coll_prog" where
  "collection_scan_page page_id = bindP (on_heap (scan_page page_id)) (\<lambda>(records, next).
     bindP (liftO (mapO decode_record records)) (\<lambda>docs. returnP (docs, next)))"

definition collection_scan :: "(doc_id \<times> document) list coll_prog" where
  "collection_scan = bindP (on_heap scan_all) (\<lambda>records. liftO (mapO decode_record records))"

definition collection_flush :: "unit coll_prog" where
  "collection_flush = on_heap heap_flush"

section \<open>The interface of a document store\<close>

locale document_store = store_logic inv view budget
  for inv :: "'s \<Rightarrow> bool" and view :: "'s \<Rightarrow> 'v" and budget :: "'s \<Rightarrow> nat" +
  fixes holds :: "'v \<Rightarrow> page_id list \<Rightarrow> (doc_id \<rightharpoonup> document) \<Rightarrow> bool"
    and storable :: "document \<Rightarrow> bool"
    and ins :: "document \<Rightarrow> ('s, 'e, doc_id) prog"
    and get :: "doc_id \<Rightarrow> ('s, 'e, document option) prog"
    and del :: "doc_id \<Rightarrow> ('s, 'e, unit) prog"
    and scan :: "('s, 'e, (doc_id \<times> document) list) prog"
  assumes holds_page: "holds v ps m \<Longrightarrow> m d = Some x \<Longrightarrow> fst d \<in> set ps"
    and ins_law: "holds (view s) ps m \<Longrightarrow> storable x \<Longrightarrow>
      total (length ps + 4) (ins x) s (\<lambda>d v. m d = None \<and> (\<exists>ps'. holds v ps' (m(d \<mapsto> x)) \<and> set ps \<subseteq> set ps' \<and> length ps' \<le> Suc (length ps)))"
    and get_law: "holds (view s) ps m \<Longrightarrow> fst d \<in> set ps \<Longrightarrow> total 1 (get d) s (\<lambda>r v. r = m d \<and> v = view s)"
    and del_law: "holds (view s) ps m \<Longrightarrow> fst d \<in> set ps \<Longrightarrow> total 1 (del d) s (\<lambda>_ v. holds v ps (m(d := None)))"
    and scan_law: "holds (view s) ps m \<Longrightarrow>
      total (length ps) scan s (\<lambda>r v. v = view s \<and> map_of r = m \<and> distinct (map fst r))"
begin

text \<open>
  Replacing a document the way the executor does: the old version is deleted, the new one is
  inserted, possibly at another id.
\<close>

lemma replace_law:
  assumes "holds (view s) ps m" and "m d = Some y" and "storable x"
  shows "total (1 + (length ps + 4)) (bindP (del d) (\<lambda>_. ins x)) s
    (\<lambda>e v. \<exists>ps'. (e = d \<or> m e = None) \<and> holds v ps' (m(d := None, e \<mapsto> x)))"
proof (rule total_bind [OF del_law [OF assms(1) holds_page [OF assms(1,2)]]])
  fix u s' assume "holds (view s') ps (m(d := None))"
  then show "total (length ps + 4) (ins x) s' (\<lambda>e v. \<exists>ps'. (e = d \<or> m e = None) \<and> holds v ps' (m(d := None, e \<mapsto> x)))"
    by (rule total_conseq [OF ins_law [OF _ assms(3)]]) (auto split: if_splits)
qed

lemma insert_then_read:
  assumes "holds (view s) ps m" and "storable x" and "fst q \<in> set ps"
  shows "total (length ps + 4 + Suc (Suc (Suc (length ps))))
      (bindP (ins x) (\<lambda>d. bindP (get d) (\<lambda>y. bindP (get q) (\<lambda>z. bindP scan (\<lambda>r. returnP (d, y, z, r)))))) s
    (\<lambda>(d, y, z, r) v. m d = None \<and> y = Some x \<and> z = (m(d \<mapsto> x)) q \<and> map_of r = m(d \<mapsto> x) \<and> distinct (map fst r))"
proof (rule total_bind [OF ins_law [OF assms(1,2)]], elim conjE exE)
  fix d s' ps' assume n: "m d = None" and h: "holds (view s') ps' (m(d \<mapsto> x))"
    and ps': "set ps \<subseteq> set ps'" "length ps' \<le> Suc (length ps)"
  have d: "fst d \<in> set ps'" by (rule holds_page [OF h]) simp
  have q: "fst q \<in> set ps'" using assms(3) ps'(1) by blast
  let ?Q = "\<lambda>(d, y, z, r) v. m d = None \<and> y = Some x \<and> z = (m(d \<mapsto> x)) q \<and> map_of r = m(d \<mapsto> x) \<and> distinct (map fst r)"
  have "total (1 + (1 + (length ps' + 0))) (bindP (get d) (\<lambda>y. bindP (get q) (\<lambda>z. bindP scan (\<lambda>r. returnP (d, y, z, r))))) s' ?Q"
  proof (rule total_bind [OF get_law [OF h d]])
    fix y s1 assume s1: "y = (m(d \<mapsto> x)) d \<and> view s1 = view s'"
    then have h1: "holds (view s1) ps' (m(d \<mapsto> x))" using h by simp
    show "total (1 + (length ps' + 0)) (bindP (get q) (\<lambda>z. bindP scan (\<lambda>r. returnP (d, y, z, r)))) s1 ?Q"
    proof (rule total_bind [OF get_law [OF h1 q]])
      fix z s2 assume s2: "z = (m(d \<mapsto> x)) q \<and> view s2 = view s1"
      then have h2: "holds (view s2) ps' (m(d \<mapsto> x))" using h1 by simp
      show "total (length ps' + 0) (bindP scan (\<lambda>r. returnP (d, y, z, r))) s2 ?Q"
        by (rule total_bind [OF scan_law [OF h2]], rule total_return) (use n s1 s2 in auto)
    qed
  qed
  from total_conseq [OF this] ps'(2)
  show "total (Suc (Suc (Suc (length ps)))) (bindP (get d) (\<lambda>y. bindP (get q) (\<lambda>z. bindP scan (\<lambda>r. returnP (d, y, z, r))))) s' ?Q"
    by simp
qed

end


section \<open>Collections are document stores\<close>

text \<open>A document the collection can keep: it fits a page, and its lengths fit the codec.\<close>

definition storable :: "document \<Rightarrow> bool" where
  "storable d \<longleftrightarrow> document_ok d \<and> value_fits (VDocument d) \<and> length (serialize_document d) \<le> MAX_RECORD_SIZE"

definition encoded :: "(doc_id \<rightharpoonup> document) \<Rightarrow> doc_id \<rightharpoonup> byte list" where
  "encoded m = (\<lambda>d. map_option serialize_document (m d))"

definition collection_holds :: "collection \<times> (page_id \<rightharpoonup> page) \<Rightarrow> page_id list \<Rightarrow> (doc_id \<rightharpoonup> document) \<Rightarrow> bool" where
  "collection_holds = (\<lambda>(c, V) ps m. heap_holds (col_heap c, V) ps (encoded m) \<and> (\<forall>x \<in> ran m. storable x))"

abbreviation coll_view :: "collection \<times> buffer_pool \<Rightarrow> collection \<times> (page_id \<rightharpoonup> page)" where
  "coll_view \<equiv> (\<lambda>(c, s). (c, pool_view s))"

interpretation collst: store_logic "\<lambda>(c, s). pool_inv s" coll_view "\<lambda>(c, s). pool_budget s" .

lemma serialize_nonempty: "serialize_document d \<noteq> []"
  using length_le_bytes [of 4 "length d"] by (auto simp: serialize_document_def write_document_def write_len_def simp del: length_le_bytes)

lemma decode_storable: "storable d \<Longrightarrow> deserialize_document (serialize_document d) = Ok d"
  using document_codec.dec_enc [of d "[]"]
  by (simp add: storable_def deserialize_document_eq serialize_document_def)

lemma encoded_upd [simp]: "encoded (m(d \<mapsto> x)) = (encoded m)(d \<mapsto> serialize_document x)"
  "encoded (m(d := None)) = (encoded m)(d := None)"
  by (auto simp: encoded_def fun_eq_iff)

lemma encoded_None [simp]: "encoded m d = None \<longleftrightarrow> m d = None"
  by (simp add: encoded_def)

text \<open>What holds of a heap operation holds of the call through the collection.\<close>

lemma on_heap_total:
  assumes "heapst.total n m (col_heap c, s) (\<lambda>r (h, V). Q r (c\<lparr>col_heap := h\<rparr>, V))"
  shows "collst.total n (on_heap m) (c, s) Q"
  using assms by (fastforce simp: heapst.total_def collst.total_def on_heap_def split: prod.splits)

lemma decode_all:
  assumes "map_of rs = encoded m" and "distinct (map fst rs)" and "\<forall>x \<in> ran m. storable x"
  obtains ds where "mapO decode_record rs = Ok ds" and "map_of ds = m" and "distinct (map fst ds)"
proof -
  let ?ds = "map (\<lambda>(d, b). (d, the (m d))) rs"
  have "decode_record x = Ok (case x of (d, b) \<Rightarrow> (d, the (m d)))" if "x \<in> set rs" for x
  proof -
    obtain d b where x: "x = (d, b)" by (cases x)
    have "encoded m d = Some b" using that assms(1,2) x by (metis map_of_eq_Some_iff)
    then obtain y where y: "m d = Some y" "b = serialize_document y" by (auto simp: encoded_def)
    then have "storable y" using assms(3) by (blast intro: ranI)
    with y show ?thesis by (simp add: x decode_record_def decode_storable)
  qed
  then have "mapO decode_record rs = Ok ?ds" by (rule mapO_Ok_map)
  moreover have "map_of ?ds = m"
  proof
    fix d
    have "map_of ?ds d = map_option (\<lambda>_. the (m d)) (map_of rs d)"
      by (induction rs) auto
    with assms(1) show "map_of ?ds d = m d" by (cases "m d") (auto simp: encoded_def)
  qed
  moreover have "distinct (map fst ?ds)" using assms(2) by (simp add: comp_def case_prod_unfold)
  ultimately show ?thesis by (rule that)
qed

interpretation colls: document_store "\<lambda>(c, s). pool_inv s" coll_view "\<lambda>(c, s). pool_budget s"
  collection_holds storable collection_insert collection_get collection_delete collection_scan
proof
  show "fst d \<in> set ps" if "collection_holds v ps m" "m d = Some x" for v ps m d x
    using that heap.rep_page [of "(col_heap (fst v), snd v)" ps "encoded m" d "serialize_document x"]
    by (cases v) (simp add: collection_holds_def encoded_def)
next
  fix cs ps m x assume h: "collection_holds (coll_view cs) ps m" and x: "storable x"
  obtain c s where cs: "cs = (c, s)" by (cases cs)
  have hh: "heap_holds (heap_view (col_heap c, s)) ps (encoded m)" "\<forall>x \<in> ran m. storable x"
    using h by (simp_all add: cs collection_holds_def)
  have l: "length (serialize_document x) \<le> MAX_RECORD_SIZE" using x by (simp add: storable_def)
  show "collst.total (length ps + 4) (collection_insert x) cs (\<lambda>d v. m d = None
      \<and> (\<exists>ps'. collection_holds v ps' (m(d \<mapsto> x)) \<and> set ps \<subseteq> set ps' \<and> length ps' \<le> Suc (length ps)))"
    unfolding cs collection_insert_def
    by (rule on_heap_total, rule heapst.total_conseq [OF heap.ins_law [OF hh(1) serialize_nonempty l]])
       (use hh(2) x in \<open>auto simp: collection_holds_def ran_def split: prod.splits\<close>)
next
  fix cs ps m and d :: doc_id assume h: "collection_holds (coll_view cs) ps m" and d: "fst d \<in> set ps"
  obtain c s where cs: "cs = (c, s)" by (cases cs)
  have hh: "heap_holds (heap_view (col_heap c, s)) ps (encoded m)" "\<forall>x \<in> ran m. storable x"
    using h by (simp_all add: cs collection_holds_def)
  have "collst.total (1 + 0) (collection_get d) cs (\<lambda>r v. r = m d \<and> v = coll_view cs)"
    unfolding cs collection_get_def
  proof (rule collst.total_bind, rule on_heap_total, rule heapst.total_conseq [OF heap.get_law [OF hh(1) d]])
    fix r and cs' :: "collection \<times> buffer_pool"
    assume "r = encoded m d \<and> coll_view cs' = (c, pool_view s)"
    then show "collst.total 0 (case r of None \<Rightarrow> returnP None | Some bytes \<Rightarrow>
        bindP (liftO (map_err CollDecode (deserialize_document bytes))) (\<lambda>doc. returnP (Some doc))) cs'
        (\<lambda>r v. r = m d \<and> v = (case (c, s) of (c, s) \<Rightarrow> (c, pool_view s)))"
      using decode_storable hh(2) ranI [of m d] by (cases "m d") (auto simp: encoded_def collst.total_def)
  qed auto
  then show "collst.total 1 (collection_get d) cs (\<lambda>r v. r = m d \<and> v = coll_view cs)" by simp
  show "collst.total 1 (collection_delete d) cs (\<lambda>_ v. collection_holds v ps (m(d := None)))"
    unfolding cs collection_delete_def
    by (rule on_heap_total, rule heapst.total_conseq [OF heap.del_law [OF hh(1) d]])
       (use hh(2) in \<open>auto simp: collection_holds_def ran_def split: prod.splits\<close>)
next
  fix cs ps m assume h: "collection_holds (coll_view cs) ps m"
  obtain c s where cs: "cs = (c, s)" by (cases cs)
  have hh: "heap_holds (heap_view (col_heap c, s)) ps (encoded m)" "\<forall>x \<in> ran m. storable x"
    using h by (simp_all add: cs collection_holds_def)
  have "collst.total (length ps + 0) collection_scan cs (\<lambda>r v. v = coll_view cs \<and> map_of r = m \<and> distinct (map fst r))"
    unfolding cs collection_scan_def
  proof (rule collst.total_bind, rule on_heap_total, rule heapst.total_conseq [OF heap.scan_law [OF hh(1)]])
    fix rs and cs' :: "collection \<times> buffer_pool"
    assume r: "coll_view cs' = (c, pool_view s) \<and> map_of rs = encoded m \<and> distinct (map fst rs)"
    then obtain ds where "mapO decode_record rs = Ok ds" "map_of ds = m" "distinct (map fst ds)"
      using decode_all hh(2) by blast
    with r show "collst.total 0 (liftO (mapO decode_record rs)) cs'
        (\<lambda>r v. v = (case (c, s) of (c, s) \<Rightarrow> (c, pool_view s)) \<and> map_of r = m \<and> distinct (map fst r))"
      by (simp add: collst.total_lift)
  qed auto
  then show "collst.total (length ps) collection_scan cs (\<lambda>r v. v = coll_view cs \<and> map_of r = m \<and> distinct (map fst r))" by simp
qed


section \<open>Properties\<close>

lemma example_collection:
  obtains h s where "heap_create example_pool = (Ok h, s)" and "pool_inv s" and "1023 \<le> pool_budget s"
    and "collection_holds (collection_create h, pool_view s) [hf_root h] Map.empty"
proof -
  obtain h s where e: "heap_create example_pool = (Ok h, s)" "pool_inv s"
    "heap_rep (pool_view s) h [hf_root h]" "heap_map (pool_view s) [hf_root h] = Map.empty" "1023 \<le> pool_budget s"
    by (rule example_heap)
  moreover have "encoded Map.empty = Map.empty" by (simp add: encoded_def fun_eq_iff)
  ultimately show ?thesis
    using that by (simp add: collection_holds_def heap_holds_def collection_create_def)
qed

lemma example_storable: "storable [(''a'', VInt n)]"
  by (simp add: storable_def document_ok_def utf8_valid_def serialize_document_def write_document_def write_len_def
      write_bytes_def MAX_RECORD_SIZE_def heap_consts PAGE_SIZE_def)

text \<open>
  C19: a collection is a map from ids to documents. Inserting a document that fits a page succeeds
  at an id that was free; afterwards \<open>get\<close> of that id returns exactly the document inserted, \<open>get\<close> of
  any id on a page of the collection returns what the map of before and the new document say, and a
  scan returns the documents of before and the new one, each once and under its id.
\<close>

theorem collection_insert_then_read:
  assumes "pool_inv s" and "2 * length ps + 7 \<le> pool_budget s" and "collection_holds (c, pool_view s) ps m"
    and "storable x" and "fst q \<in> set ps"
  shows "\<exists>d y z r c' s'. bindP (collection_insert x) (\<lambda>d. bindP (collection_get d) (\<lambda>y. bindP (collection_get q) (\<lambda>z.
        bindP collection_scan (\<lambda>r. returnP (d, y, z, r))))) (c, s) = (Ok (d, y, z, r), (c', s'))
    \<and> pool_inv s' \<and> m d = None \<and> y = Some x \<and> z = (m(d \<mapsto> x)) q \<and> map_of r = m(d \<mapsto> x) \<and> distinct (map fst r)"
proof -
  have h: "collection_holds (coll_view (c, s)) ps m" using assms(3) by simp
  have b: "length ps + 4 + Suc (Suc (Suc (length ps))) \<le> (case (c, s) of (c, s) \<Rightarrow> pool_budget s)" using assms(2) by simp
  have i: "case (c, s) of (c, s) \<Rightarrow> pool_inv s" using assms(1) by simp
  show ?thesis
    by (rule collst.totalE [OF colls.insert_then_read [OF h assms(4,5)] i b]) (auto split: prod.splits)
qed

theorem collection_insert_then_read_witness:
  "\<exists>h s d r c' s'. heap_create example_pool = (Ok h, s)
    \<and> bindP (collection_insert [(''a'', VInt 1)]) (\<lambda>d. bindP (collection_get d) (\<lambda>y. bindP (collection_get (hf_root h, 7)) (\<lambda>z.
        bindP collection_scan (\<lambda>r. returnP (d, y, z, r))))) (collection_create h, s)
      = (Ok (d, Some [(''a'', VInt 1)], [d \<mapsto> [(''a'', VInt 1)]] (hf_root h, 7), r), (c', s'))
    \<and> map_of r = [d \<mapsto> [(''a'', VInt 1)]]"
proof -
  obtain h s where e: "heap_create example_pool = (Ok h, s)" "pool_inv s" "1023 \<le> pool_budget s"
    "collection_holds (collection_create h, pool_view s) [hf_root h] Map.empty" by (rule example_collection)
  have "2 * length [hf_root h] + 7 \<le> pool_budget s" "fst (hf_root h, 7) \<in> set [hf_root h]" using e(3) by simp_all
  with example_storable show ?thesis
    using collection_insert_then_read [OF e(2) _ e(4), of _ "(hf_root h, 7)"] e(1) by blast
qed

text \<open>
  C20: replacing a document. Deleting a stored document and inserting its new version, as an update
  does, leaves the collection with the new version in place of the old and every other document
  unchanged.
\<close>

theorem collection_replace:
  assumes "pool_inv s" and "length ps + 5 \<le> pool_budget s" and "collection_holds (c, pool_view s) ps m"
    and "m d = Some y" and "storable x"
  shows "\<exists>e ps' c' s'. bindP (collection_delete d) (\<lambda>_. collection_insert x) (c, s) = (Ok e, (c', s'))
    \<and> pool_inv s' \<and> (e = d \<or> m e = None) \<and> collection_holds (c', pool_view s') ps' (m(d := None, e \<mapsto> x))"
proof -
  have h: "collection_holds (coll_view (c, s)) ps m" using assms(3) by simp
  have b: "1 + (length ps + 4) \<le> (case (c, s) of (c, s) \<Rightarrow> pool_budget s)" using assms(2) by simp
  have i: "case (c, s) of (c, s) \<Rightarrow> pool_inv s" using assms(1) by simp
  show ?thesis
    by (rule collst.totalE [OF colls.replace_law [OF h assms(4,5)] i b]) (auto split: prod.splits)
qed


theorem collection_replace_witness:
  "\<exists>c s d e ps' c' s'. bindP (collection_delete d) (\<lambda>_. collection_insert [(''a'', VInt 2)]) (c, s) = (Ok e, (c', s'))
    \<and> collection_holds (c', pool_view s') ps' [e \<mapsto> [(''a'', VInt 2)]]"
proof -
  obtain h s where e: "heap_create example_pool = (Ok h, s)" "pool_inv s" "1023 \<le> pool_budget s"
    "collection_holds (collection_create h, pool_view s) [hf_root h] Map.empty" by (rule example_collection)
  have h: "collection_holds (coll_view (collection_create h, s)) [hf_root h] Map.empty" using e(4) by simp
  obtain d c s1 ps where s1: "pool_inv s1" "collection_holds (c, pool_view s1) ps [d \<mapsto> [(''a'', VInt 1)]]"
    "length ps \<le> Suc (Suc 0)" "1018 \<le> pool_budget s1"
    by (rule collst.totalE [OF colls.ins_law [OF h example_storable [of 1]]]) (use e in auto)
  have "length ps + 5 \<le> pool_budget s1" using s1 by simp
  from collection_replace [OF s1(1) this s1(2) _ example_storable, of d "[(''a'', VInt 1)]" 2]
  show ?thesis by (simp del: split_paired_Ex) blast
qed

end
