(* ===== verification/Doc_Catalog.thy ===== *)
theory Doc_Catalog
  imports Doc_Collection "HOL-Library.Product_Lexorder" "HOL-Library.Multiset"
begin

text \<open>
  \<open>document/catalog.rs\<close>: the metadata chain that starts at page 0.

  A hash map is an association list with distinct keys, in the order its iteration visits them,
  which nothing below depends on; a hash set is a list without repetitions. The catalog's
  \<open>path\<close> names the database file, so a method that opens its own \<open>DiskManager\<close> works on the
  bytes of the file; where a buffer pool is around, that is the file under the pool
  (\<open>on_own_disk\<close>), whose in-memory page count such a method does not change.

  The encoder writes into a buffer at a moving position, as the code does; \<open>encode_catalog_bytes\<close>
  shows that no write panics and what the buffer holds. The walk over the chain carries fuel, one
  step more than the file has pages; every step of the walk visits a new page.
\<close>

section \<open>State\<close>

datatype catalog_error =
    CatIo io_error
  | InvalidCatalog
  | CatalogFull
  | DuplicateKey string string
  | CollectionAlreadyExists string
  | IndexAlreadyExists string
  | IndexNotFound string
  | CollectionNotFound string
  | CatCollection collection_error

type_synonym index_name = "string \<times> string"

record catalog =
  cat_collections :: "(string \<times> page_id) list"
  cat_indexes :: "(index_name \<times> page_id) list"
  cat_unique :: "index_name list"
  cat_overflow :: "page_id list"

definition CATALOG_PAGE_ID :: page_id where "CATALOG_PAGE_ID = 0"
definition CATALOG_MAGIC :: "byte list" where "CATALOG_MAGIC = string_bytes ''ASDBCAT1''"
definition COUNT_OFFSET :: nat where "COUNT_OFFSET = 8"
definition ENTRIES_OFFSET :: nat where "ENTRIES_OFFSET = 12"
definition NEXT_POINTER_SIZE :: nat where "NEXT_POINTER_SIZE = 8"

lemmas catalog_consts = CATALOG_PAGE_ID_def COUNT_OFFSET_def ENTRIES_OFFSET_def NEXT_POINTER_SIZE_def

text \<open>\<open>HashMap::insert\<close>, \<open>remove\<close> and \<open>contains_key\<close> for any key.\<close>

fun map_put :: "'k \<Rightarrow> 'v \<Rightarrow> ('k \<times> 'v) list \<Rightarrow> ('k \<times> 'v) list" where
  "map_put k v [] = [(k, v)]"
| "map_put k v ((k', v') # d) = (if k' = k then (k, v) # d else (k', v') # map_put k v d)"

definition map_remove :: "'k \<Rightarrow> ('k \<times> 'v) list \<Rightarrow> ('k \<times> 'v) list" where
  "map_remove k d = filter (\<lambda>(k', v). k' \<noteq> k) d"

definition set_put :: "'k \<Rightarrow> 'k list \<Rightarrow> 'k list" where
  "set_put k xs = (if k \<in> set xs then xs else xs @ [k])"

section \<open>Encoding\<close>

definition write_u32 :: "byte list \<Rightarrow> nat \<Rightarrow> nat \<Rightarrow> ('e, byte list) outcome" where
  "write_u32 buf offset val = write_range buf offset (le_bytes 4 val)"

definition read_u32_at :: "byte list \<Rightarrow> nat \<Rightarrow> ('e, nat) outcome" where
  "read_u32_at buf offset = bindO (index_range buf offset 4) (\<lambda>b. Ok (le_val b))"

text \<open>\<open>GrowBuf::sized\<close>: the buffer is as long as everything that will be written into it.\<close>

definition grow_buf_sized :: "(string \<times> page_id) list \<Rightarrow> (index_name \<times> page_id) list \<Rightarrow> index_name list \<Rightarrow> byte list" where
  "grow_buf_sized collections indexes unique =
     replicate (ENTRIES_OFFSET + sum_list (map (\<lambda>(name, _). 2 + length name + 8) collections) + 4
       + sum_list (map (\<lambda>((c, f), _). 2 + length c + 2 + length f + 8) indexes) + 4
       + sum_list (map (\<lambda>(c, f). 2 + length c + 2 + length f) unique)) 0"

text \<open>A write at the position, and the position moved past it.\<close>

type_synonym cursor = "byte list \<times> nat"

definition emit :: "byte list \<Rightarrow> cursor \<Rightarrow> (catalog_error, cursor) outcome" where
  "emit bs cur = (case cur of (buf, pos) \<Rightarrow> bindO (write_range buf pos bs) (\<lambda>buf'. Ok (buf', pos + length bs)))"

fun emit_each :: "('a \<Rightarrow> cursor \<Rightarrow> (catalog_error, cursor) outcome) \<Rightarrow> 'a list \<Rightarrow> cursor \<Rightarrow> (catalog_error, cursor) outcome" where
  "emit_each f [] cur = Ok cur"
| "emit_each f (x # xs) cur = bindO (f x cur) (emit_each f xs)"

definition emit_name :: "string \<Rightarrow> cursor \<Rightarrow> (catalog_error, cursor) outcome" where
  "emit_name name cur = bindO (emit (le_bytes 2 (length name)) cur) (emit (string_bytes name))"

definition emit_collection :: "string \<times> page_id \<Rightarrow> cursor \<Rightarrow> (catalog_error, cursor) outcome" where
  "emit_collection e cur = (case e of (name, root) \<Rightarrow> bindO (emit_name name cur) (emit (le_bytes 8 root)))"

definition emit_unique :: "index_name \<Rightarrow> cursor \<Rightarrow> (catalog_error, cursor) outcome" where
  "emit_unique e cur = (case e of (c, f) \<Rightarrow> bindO (emit_name c cur) (emit_name f))"

definition emit_index :: "index_name \<times> page_id \<Rightarrow> cursor \<Rightarrow> (catalog_error, cursor) outcome" where
  "emit_index e cur = (case e of (cf, root) \<Rightarrow> bindO (emit_unique cf cur) (emit (le_bytes 8 root)))"

definition encode_catalog :: "(string \<times> page_id) list \<Rightarrow> (index_name \<times> page_id) list \<Rightarrow> index_name list \<Rightarrow>
    (catalog_error, byte list) outcome" where
  "encode_catalog collections indexes unique =
     bindO (write_range (grow_buf_sized collections indexes unique) 0 CATALOG_MAGIC) (\<lambda>buf.
     bindO (write_u32 buf COUNT_OFFSET (length collections)) (\<lambda>buf.
     bindO (emit_each emit_collection (sort_key fst collections) (buf, ENTRIES_OFFSET)) (\<lambda>cur.
     bindO (emit (le_bytes 4 (length indexes)) cur) (\<lambda>cur.
     bindO (emit_each emit_index indexes cur) (\<lambda>cur.
     bindO (emit (le_bytes 4 (length unique)) cur) (\<lambda>cur.
     bindO (emit_each emit_unique (sort unique) cur) (\<lambda>cur. Ok (fst cur))))))))"

section \<open>Decoding\<close>

primrec iterO :: "nat \<Rightarrow> ('s \<Rightarrow> ('e, 's) outcome) \<Rightarrow> 's \<Rightarrow> ('e, 's) outcome" where
  "iterO 0 f s = Ok s"
| "iterO (Suc n) f s = bindO (f s) (iterO n f)"

definition check :: "bool \<Rightarrow> (catalog_error, unit) outcome" where
  "check b = (if b then Ok () else Err InvalidCatalog)"

definition catalog_string :: "byte list \<Rightarrow> nat \<Rightarrow> nat \<Rightarrow> (catalog_error, string) outcome" where
  "catalog_string buf offset len = bindO (index_range buf offset len) (\<lambda>b.
     if utf8_valid (bytes_string b) then Ok (bytes_string b) else Err InvalidCatalog)"

text \<open>A length-prefixed name at a position, with \<open>extra\<close> bytes that must follow it.\<close>

definition decode_name :: "byte list \<Rightarrow> nat \<Rightarrow> nat \<Rightarrow> (catalog_error, string \<times> nat) outcome" where
  "decode_name data extra pos =
     bindO (check (pos + 2 \<le> length data)) (\<lambda>_.
     bindO (read_u16 data pos) (\<lambda>name_len.
     bindO (check (pos + 2 + name_len + extra \<le> length data)) (\<lambda>_.
     bindO (catalog_string data (pos + 2) name_len) (\<lambda>name. Ok (name, pos + 2 + name_len)))))"

definition decode_collection :: "byte list \<Rightarrow> (string \<times> page_id) list \<times> nat \<Rightarrow>
    (catalog_error, (string \<times> page_id) list \<times> nat) outcome" where
  "decode_collection data st = (case st of (m, pos) \<Rightarrow>
     bindO (decode_name data 8 pos) (\<lambda>(name, pos).
     bindO (read_u64 data pos) (\<lambda>root. Ok (map_put name root m, pos + 8))))"

definition decode_pair :: "byte list \<Rightarrow> nat \<Rightarrow> (catalog_error, index_name \<times> nat) outcome" where
  "decode_pair data pos =
     bindO (decode_name data 0 pos) (\<lambda>(c, pos).
     bindO (decode_name data 0 pos) (\<lambda>(f, pos). Ok ((c, f), pos)))"

definition decode_index :: "byte list \<Rightarrow> (index_name \<times> page_id) list \<times> nat \<Rightarrow>
    (catalog_error, (index_name \<times> page_id) list \<times> nat) outcome" where
  "decode_index data st = (case st of (m, pos) \<Rightarrow>
     bindO (decode_pair data pos) (\<lambda>(cf, pos).
     bindO (check (pos + 8 \<le> length data)) (\<lambda>_.
     bindO (read_u64 data pos) (\<lambda>root. Ok (map_put cf root m, pos + 8)))))"

definition decode_unique :: "byte list \<Rightarrow> index_name list \<times> nat \<Rightarrow> (catalog_error, index_name list \<times> nat) outcome" where
  "decode_unique data st = (case st of (m, pos) \<Rightarrow>
     bindO (decode_pair data pos) (\<lambda>(cf, pos). Ok (set_put cf m, pos)))"

text \<open>\<open>decode_catalog\<close> asks for a hash map with room for each of the first two counts before it reads
  an entry; \<open>alloc\<close> says which requests the machine serves.\<close>

definition decode_catalog_with :: "allocator \<Rightarrow> byte list \<Rightarrow>
    (catalog_error, (string \<times> page_id) list \<times> (index_name \<times> page_id) list \<times> index_name list) outcome" where
  "decode_catalog_with alloc data =
     bindO (check (ENTRIES_OFFSET \<le> length data \<and> get_slice data 0 (length CATALOG_MAGIC) = CATALOG_MAGIC)) (\<lambda>_.
     bindO (read_u32_at data COUNT_OFFSET) (\<lambda>count.
     bindO (with_capacity alloc count) (\<lambda>_.
     bindO (iterO count (decode_collection data) ([], ENTRIES_OFFSET)) (\<lambda>(collections, pos).
     bindO (check (pos + 4 \<le> length data)) (\<lambda>_.
     bindO (read_u32_at data pos) (\<lambda>count.
     bindO (with_capacity alloc count) (\<lambda>_.
     bindO (iterO count (decode_index data) ([], pos + 4)) (\<lambda>(indexes, pos).
     if pos + 4 \<le> length data then
       bindO (read_u32_at data pos) (\<lambda>count.
       bindO (iterO count (decode_unique data) ([], pos + 4)) (\<lambda>(unique, pos).
       Ok (collections, indexes, unique)))
     else Ok (collections, indexes, [])))))))))"

definition decode_catalog :: "byte list \<Rightarrow>
    (catalog_error, (string \<times> page_id) list \<times> (index_name \<times> page_id) list \<times> index_name list) outcome" where
  "decode_catalog = decode_catalog_with ample"

section \<open>The chain of catalog pages\<close>

type_synonym 'a cat_disk_prog = "(disk_manager, catalog_error, 'a) prog"

fun read_chain_loop :: "nat \<Rightarrow> page_id \<Rightarrow> byte list \<Rightarrow> page_id list \<Rightarrow> (byte list \<times> page_id list) cat_disk_prog" where
  "read_chain_loop 0 pid bytes overflow = hangP"
| "read_chain_loop (Suc n) pid bytes overflow =
     bindP (map_errP CatIo (disk_read_page pid)) (\<lambda>pg.
     let bytes' = bytes @ get_slice pg 0 (PAGE_SIZE - NEXT_POINTER_SIZE) in
     bindP (liftO (read_u64 pg (PAGE_SIZE - NEXT_POINTER_SIZE))) (\<lambda>next.
     if next = 0 then returnP (bytes', overflow)
     else bindP (readP dm_num_pages) (\<lambda>num.
       if num \<le> next \<or> next \<in> set overflow then failP InvalidCatalog
       else read_chain_loop n next bytes' (overflow @ [next]))))"

definition read_catalog_chain :: "(byte list \<times> page_id list) cat_disk_prog" where
  "read_catalog_chain = bindP (readP dm_num_pages) (\<lambda>n. read_chain_loop (Suc n) CATALOG_PAGE_ID [] [])"

text \<open>\<open>DiskManager::open\<close> on the catalog's path, then a program on it; the file keeps what it wrote.\<close>

type_synonym 'a file_prog = "(byte list, catalog_error, 'a) prog"

definition with_disk :: "'a cat_disk_prog \<Rightarrow> 'a file_prog" where
  "with_disk m = (\<lambda>file. case disk_open file of
     Ok d \<Rightarrow> (case m d of (r, d') \<Rightarrow> (r, dm_file d'))
   | Err e \<Rightarrow> (Err (CatIo e), file) | Panic p \<Rightarrow> (Panic p, file) | Hang \<Rightarrow> (Hang, file))"

definition catalog_open_with :: "allocator \<Rightarrow> catalog file_prog" where
  "catalog_open_with alloc = with_disk (
     bindP (readP dm_num_pages) (\<lambda>n.
     if n = 0 then failP InvalidCatalog
     else bindP read_catalog_chain (\<lambda>(bytes, overflow).
       bindP (liftO (decode_catalog_with alloc bytes)) (\<lambda>(collections, indexes, unique).
       returnP \<lparr>cat_collections = collections, cat_indexes = indexes, cat_unique = unique, cat_overflow = overflow\<rparr>))))"

definition catalog_open :: "catalog file_prog" where
  "catalog_open = catalog_open_with ample"

lemmas catalog_open_defs = catalog_open_def catalog_open_with_def decode_catalog_def [symmetric]

definition catalog_create :: "catalog file_prog" where
  "catalog_create = bindP (with_disk (
     bindP (readP dm_num_pages) (\<lambda>n.
     if n = 0 then
       bindP (map_errP CatIo disk_allocate_page) (\<lambda>pid.
       bindP (assertP (pid = CATALOG_PAGE_ID) ''assertion failed'') (\<lambda>_.
       bindP (liftO (encode_catalog [] [] [])) (\<lambda>bytes.
       bindP (liftO (write_range new_page_bytes 0 bytes)) (\<lambda>pg.
       map_errP CatIo (disk_write_page CATALOG_PAGE_ID pg)))))
     else returnP ()))) (\<lambda>_. catalog_open)"

definition catalog_collection_root :: "catalog \<Rightarrow> string \<Rightarrow> page_id option" where
  "catalog_collection_root c name = map_of (cat_collections c) name"

definition catalog_collection_names :: "catalog \<Rightarrow> string list" where
  "catalog_collection_names c = sort (map fst (cat_collections c))"

definition catalog_has_index :: "catalog \<Rightarrow> string \<Rightarrow> string \<Rightarrow> bool" where
  "catalog_has_index c collection field \<longleftrightarrow> (collection, field) \<in> fst ` set (cat_indexes c)"

definition catalog_is_unique_index :: "catalog \<Rightarrow> string \<Rightarrow> string \<Rightarrow> bool" where
  "catalog_is_unique_index c collection field \<longleftrightarrow> (collection, field) \<in> set (cat_unique c)"

definition catalog_unique_index_fields :: "catalog \<Rightarrow> string \<Rightarrow> string list" where
  "catalog_unique_index_fields c collection = sort (map snd (filter (\<lambda>(col, _). col = collection) (cat_unique c)))"

definition catalog_index_fields :: "catalog \<Rightarrow> string \<Rightarrow> string list" where
  "catalog_index_fields c collection = sort (map snd (filter (\<lambda>(col, _). col = collection) (map fst (cat_indexes c))))"

text \<open>\<open>bytes.chunks(n)\<close>\<close>

function chunks :: "nat \<Rightarrow> 'a list \<Rightarrow> 'a list list" where
  "chunks n xs = (if xs = [] \<or> n = 0 then [] else take n xs # chunks n (drop n xs))"
  by auto
termination by (relation "measure (\<lambda>(n, xs). length xs)") auto

declare chunks.simps [simp del]

definition chunk_page :: "byte list \<Rightarrow> page_id \<Rightarrow> (catalog_error, page) outcome" where
  "chunk_page chunk next = bindO (write_range new_page_bytes 0 chunk) (\<lambda>pg.
     write_u64 pg (PAGE_SIZE - NEXT_POINTER_SIZE) next)"

text \<open>\<open>Catalog::flush\<close> between the opening of its own \<open>DiskManager\<close> and the end: the catalog and that disk.\<close>

type_synonym 'a cat_flush_prog = "(catalog \<times> disk_manager, catalog_error, 'a) prog"

definition on_catalog_disk :: "'a cat_disk_prog \<Rightarrow> 'a cat_flush_prog" where
  "on_catalog_disk m = (\<lambda>(c, d). case m d of (r, d') \<Rightarrow> (r, (c, d')))"

definition grow_overflow :: "unit cat_flush_prog" where
  "grow_overflow = bindP (on_catalog_disk (map_errP CatIo disk_allocate_page)) (\<lambda>pid.
     modifyP (\<lambda>(c, d). (c\<lparr>cat_overflow := cat_overflow c @ [pid]\<rparr>, d)))"

text \<open>Every index into the overflow list is below its length once the loop has grown it.\<close>

definition write_chunk :: "nat \<Rightarrow> nat \<times> byte list \<Rightarrow> unit cat_flush_prog" where
  "write_chunk n ic = (case ic of (i, chunk) \<Rightarrow>
     bindP (readP (\<lambda>(c, d). cat_overflow c)) (\<lambda>overflow.
     let page_id = (if i = 0 then CATALOG_PAGE_ID else overflow ! (i - 1));
         next = (if i + 1 < n then overflow ! i else 0)
     in bindP (liftO (chunk_page chunk next)) (\<lambda>pg. on_catalog_disk (map_errP CatIo (disk_write_page page_id pg)))))"

definition flush_chunks :: "byte list list \<Rightarrow> unit cat_flush_prog" where
  "flush_chunks cs =
     bindP (readP (\<lambda>(c, d). length (cat_overflow c))) (\<lambda>have.
     bindP (repeatP (length cs - 1 - have) grow_overflow) (\<lambda>_.
     bindP (mapP (write_chunk (length cs)) (enumerate 0 cs)) (\<lambda>_. returnP ())))"

definition with_own_disk :: "'a cat_flush_prog \<Rightarrow> (catalog \<times> byte list, catalog_error, 'a) prog" where
  "with_own_disk m = (\<lambda>(c, file). case disk_open file of
     Ok d \<Rightarrow> (case m (c, d) of (r, (c', d')) \<Rightarrow> (r, (c', dm_file d')))
   | Err e \<Rightarrow> (Err (CatIo e), (c, file)) | Panic p \<Rightarrow> (Panic p, (c, file)) | Hang \<Rightarrow> (Hang, (c, file)))"

definition catalog_flush :: "(catalog \<times> byte list, catalog_error, unit) prog" where
  "catalog_flush =
     bindP (readP (\<lambda>(c, file). encode_catalog (cat_collections c) (cat_indexes c) (cat_unique c))) (\<lambda>r.
     bindP (liftO r) (\<lambda>bytes.
     with_own_disk (flush_chunks (chunks (PAGE_SIZE - NEXT_POINTER_SIZE) bytes))))"

type_synonym 'a cat_prog = "(catalog \<times> buffer_pool, catalog_error, 'a) prog"

definition on_own_disk :: "(catalog \<times> byte list, catalog_error, 'a) prog \<Rightarrow> 'a cat_prog" where
  "on_own_disk m = (\<lambda>(c, s). case m (c, dm_file (bp_disk s)) of
     (r, (c', file)) \<Rightarrow> (r, (c', s\<lparr>bp_disk := (bp_disk s)\<lparr>dm_file := file\<rparr>\<rparr>)))"

definition on_shared_pool :: "'a pool_prog \<Rightarrow> 'a cat_prog" where
  "on_shared_pool m = (\<lambda>(c, s). case m s of (r, s') \<Rightarrow> (map_err CatIo r, (c, s')))"

definition catalog_create_collection :: "string \<Rightarrow> collection cat_prog" where
  "catalog_create_collection name =
     bindP (readP (\<lambda>(c, s). name \<in> fst ` set (cat_collections c))) (\<lambda>known.
     if known then failP (CollectionAlreadyExists name)
     else bindP (on_shared_pool heap_create) (\<lambda>h.
       let col = collection_create h in
       bindP (modifyP (\<lambda>(c, s). (c\<lparr>cat_collections := map_put name (collection_root col) (cat_collections c)\<rparr>, s))) (\<lambda>_.
       bindP (on_own_disk catalog_flush) (\<lambda>_. returnP col))))"

definition catalog_open_collection :: "string \<Rightarrow> collection cat_prog" where
  "catalog_open_collection name =
     bindP (readP (\<lambda>(c, s). map_of (cat_collections c) name)) (\<lambda>r.
     case r of
       None \<Rightarrow> failP (CollectionNotFound name)
     | Some root \<Rightarrow> bindP (on_shared_pool (heap_open root)) (\<lambda>h. returnP (collection_open h)))"

definition catalog_drop_collection :: "string \<Rightarrow> unit cat_prog" where
  "catalog_drop_collection name =
     bindP (readP (\<lambda>(c, s). name \<in> fst ` set (cat_collections c))) (\<lambda>known.
     if \<not> known then failP (CollectionNotFound name)
     else bindP (modifyP (\<lambda>(c, s). (c\<lparr>cat_collections := map_remove name (cat_collections c)\<rparr>, s))) (\<lambda>_.
       on_own_disk catalog_flush))"


section \<open>What the encoder writes\<close>

definition enc_name :: "string \<Rightarrow> byte list" where
  "enc_name name = le_bytes 2 (length name) @ string_bytes name"

definition enc_collection :: "string \<times> page_id \<Rightarrow> byte list" where
  "enc_collection e = enc_name (fst e) @ le_bytes 8 (snd e)"

definition enc_unique :: "index_name \<Rightarrow> byte list" where
  "enc_unique e = enc_name (fst e) @ enc_name (snd e)"

definition enc_index :: "index_name \<times> page_id \<Rightarrow> byte list" where
  "enc_index e = enc_unique (fst e) @ le_bytes 8 (snd e)"

definition enc_catalog :: "(string \<times> page_id) list \<Rightarrow> (index_name \<times> page_id) list \<Rightarrow> index_name list \<Rightarrow> byte list" where
  "enc_catalog collections indexes unique =
     CATALOG_MAGIC @ le_bytes 4 (length collections) @ concat (map enc_collection (sort_key fst collections))
     @ le_bytes 4 (length indexes) @ concat (map enc_index indexes)
     @ le_bytes 4 (length unique) @ concat (map enc_unique (sort unique))"

lemma length_encs [simp]:
  "length (enc_name n) = 2 + length n" "length (enc_collection e) = 2 + length (fst e) + 8"
  "length (enc_unique u) = 2 + length (fst u) + 2 + length (snd u)"
  "length (enc_index x) = 2 + length (fst (fst x)) + 2 + length (snd (fst x)) + 8"
  by (simp_all add: enc_name_def enc_collection_def enc_unique_def enc_index_def)

text \<open>\<open>emits f bs\<close>: whatever stands at the position is overwritten by \<open>bs\<close>.\<close>

definition emits :: "(cursor \<Rightarrow> (catalog_error, cursor) outcome) \<Rightarrow> byte list \<Rightarrow> bool" where
  "emits f bs \<longleftrightarrow> (\<forall>pre mid post. length mid = length bs \<longrightarrow>
     f (pre @ mid @ post, length pre) = Ok (pre @ bs @ post, length (pre @ bs)))"

lemma emits_emit: "emits (emit bs) bs"
  by (simp add: emits_def emit_def write_range_def put_slice_def)

lemma emits_bind:
  assumes "emits f as" and "emits g bs"
  shows "emits (\<lambda>cur. bindO (f cur) g) (as @ bs)"
  unfolding emits_def
proof (intro allI impI)
  fix pre mid post :: "byte list" assume l: "length mid = length (as @ bs)"
  then obtain a b where m: "mid = a @ b" and la: "length a = length as" "length b = length bs"
    by (metis append_take_drop_id add_diff_cancel_left' length_append length_drop length_take le_add1 min.absorb2)
  have "f (pre @ a @ b @ post, length pre) = Ok (pre @ as @ b @ post, length (pre @ as))"
    using assms(1) la(1) unfolding emits_def by blast
  moreover have "g ((pre @ as) @ b @ post, length (pre @ as)) = Ok ((pre @ as) @ bs @ post, length ((pre @ as) @ bs))"
    using assms(2) la(2) unfolding emits_def by blast
  ultimately show "bindO (f (pre @ mid @ post, length pre)) g = Ok (pre @ (as @ bs) @ post, length (pre @ as @ bs))"
    by (simp add: m)
qed

lemma emits_each:
  "(\<And>x. x \<in> set xs \<Longrightarrow> emits (f x) (enc x)) \<Longrightarrow> emits (emit_each f xs) (concat (map enc xs))"
proof (induction xs)
  case (Cons x xs)
  then have "emits (\<lambda>cur. bindO (f x cur) (emit_each f xs)) (enc x @ concat (map enc xs))" by (intro emits_bind) simp_all
  then show ?case by (simp add: emits_def)
qed (simp add: emits_def)

lemma emits_entries:
  "emits (emit_name n) (enc_name n)" "emits (emit_collection e) (enc_collection e)"
  "emits (emit_unique u) (enc_unique u)" "emits (emit_index x) (enc_index x)"
proof -
  show n: "emits (emit_name n) (enc_name n)" for n
    using emits_bind [OF emits_emit emits_emit] by (simp add: emit_name_def [abs_def] enc_name_def)
  show "emits (emit_collection e) (enc_collection e)"
    using emits_bind [OF n emits_emit, of "fst e" "le_bytes 8 (snd e)"]
    by (simp add: emit_collection_def [abs_def] enc_collection_def case_prod_unfold)
  show u: "emits (emit_unique u) (enc_unique u)" for u
    using emits_bind [OF n n, of "fst u" "snd u"] by (simp add: emit_unique_def [abs_def] enc_unique_def case_prod_unfold)
  show "emits (emit_index x) (enc_index x)"
    using emits_bind [OF u emits_emit, of "fst x" "le_bytes 8 (snd x)"]
    by (simp add: emit_index_def [abs_def] enc_index_def case_prod_unfold)
qed

lemma sum_list_sort: "sum_list (map f (sort_key g xs)) = sum_list (map (f :: 'a \<Rightarrow> nat) xs)"
  by (metis mset_map mset_sort sum_mset_sum_list)

lemma length_grow_buf: "length (grow_buf_sized cs is us) = length (enc_catalog cs is us)"
  by (simp add: grow_buf_sized_def enc_catalog_def length_concat comp_def sum_list_sort case_prod_unfold
      CATALOG_MAGIC_def ENTRIES_OFFSET_def)

lemma encode_catalog_bytes: "encode_catalog cs is us = Ok (enc_catalog cs is us)"
proof -
  let ?A = "concat (map enc_collection (sort_key fst cs))" and ?B = "concat (map enc_index is)"
    and ?C = "concat (map enc_unique (sort us))"
  let ?z = "grow_buf_sized cs is us"
  let ?rest = "drop 12 ?z"
  have lz: "length ?z = 12 + length (?A @ le_bytes 4 (length is) @ ?B @ le_bytes 4 (length us) @ ?C)"
    unfolding length_grow_buf enc_catalog_def by (simp add: CATALOG_MAGIC_def)
  have e: "emits (\<lambda>cur. bindO (emit_each emit_collection (sort_key fst cs) cur) (\<lambda>cur.
      bindO (emit (le_bytes 4 (length is)) cur) (\<lambda>cur. bindO (emit_each emit_index is cur) (\<lambda>cur.
      bindO (emit (le_bytes 4 (length us)) cur) (emit_each emit_unique (sort us))))))
      (?A @ le_bytes 4 (length is) @ ?B @ le_bytes 4 (length us) @ ?C)"
    by (intro emits_bind emits_each emits_emit emits_entries)
  let ?pre = "CATALOG_MAGIC @ le_bytes 4 (length cs)"
  have pre: "put_slice (put_slice ?z 0 CATALOG_MAGIC) COUNT_OFFSET (le_bytes 4 (length cs)) = ?pre @ ?rest @ []" "length ?pre = ENTRIES_OFFSET"
    using lz by (simp_all add: put_slice_def CATALOG_MAGIC_def catalog_consts)
  have "encode_catalog cs is us = bindO (bindO (emit_each emit_collection (sort_key fst cs) (?pre @ ?rest @ [], length ?pre)) (\<lambda>cur.
      bindO (emit (le_bytes 4 (length is)) cur) (\<lambda>cur. bindO (emit_each emit_index is cur) (\<lambda>cur.
      bindO (emit (le_bytes 4 (length us)) cur) (emit_each emit_unique (sort us)))))) (\<lambda>cur. Ok (fst cur))"
    unfolding encode_catalog_def pre(1) [symmetric] pre(2)
    using lz by (simp add: write_range_def write_u32_def CATALOG_MAGIC_def catalog_consts bindO_assoc)
  also have "\<dots> = Ok (enc_catalog cs is us)"
    using e [unfolded emits_def, rule_format, of ?rest ?pre "[]"] lz by (simp add: enc_catalog_def)
  finally show ?thesis .
qed

section \<open>What the decoder reads back\<close>

lemma le_bytes_zero: "le_bytes k 0 = replicate k 0"
  by (induction k) simp_all

definition name_ok :: "string \<Rightarrow> bool" where
  "name_ok n \<longleftrightarrow> utf8_valid n \<and> length n < 65536"

lemma get_slice_mid: "k = length pre \<Longrightarrow> n = length x \<Longrightarrow> get_slice (pre @ x @ post) k n = x"
  by (simp add: get_slice_def)

lemma decode_name_enc:
  assumes "name_ok n" and "extra \<le> length post" and d: "data = pre @ enc_name n @ post"
  shows "decode_name data extra (length pre) = Ok (n, length (pre @ enc_name n))"
proof -
  let ?len = "le_bytes 2 (length n)"
  have l: "get_slice data (length pre) 2 = ?len"
    unfolding d enc_name_def append_assoc by (rule get_slice_mid) simp_all
  have d2: "data = (pre @ ?len) @ string_bytes n @ post" by (simp add: d enc_name_def)
  have s: "get_slice data (length pre + 2) (length n) = string_bytes n"
    unfolding d2 by (rule get_slice_mid) simp_all
  have v: "le_val ?len = length n" "utf8_valid n" using assms(1) by (simp_all add: name_ok_def)
  have len: "length data = length pre + (2 + length n) + length post" by (simp add: d)
  show ?thesis
    using assms(2) by (simp add: decode_name_def check_def u16_at_def catalog_string_def len l s [simplified] v)
qed

lemma decode_collection_enc:
  assumes "name_ok (fst e)" "snd e < 2 ^ 64" and d: "data = pre @ enc_collection e @ post"
  shows "decode_collection data (m, length pre) = Ok (map_put (fst e) (snd e) m, length (pre @ enc_collection e))"
proof -
  have "decode_name data 8 (length pre) = Ok (fst e, length (pre @ enc_name (fst e)))"
    using assms by (intro decode_name_enc [where post = "le_bytes 8 (snd e) @ post"]) (simp_all add: enc_collection_def)
  moreover have "get_slice data (length pre + (2 + length (fst e))) 8 = le_bytes 8 (snd e)"
    using get_slice_mid [of _ "pre @ enc_name (fst e)" 8 "le_bytes 8 (snd e)" post] by (simp add: d enc_collection_def)
  ultimately show ?thesis using assms by (simp add: decode_collection_def d)
qed

lemma decode_pair_enc:
  assumes "name_ok (fst e)" "name_ok (snd e)" and d: "data = pre @ enc_unique e @ post"
  shows "decode_pair data (length pre) = Ok (e, length (pre @ enc_unique e))"
proof -
  have "decode_name data 0 (length pre) = Ok (fst e, length (pre @ enc_name (fst e)))"
    using assms by (intro decode_name_enc [where post = "enc_name (snd e) @ post"]) (simp_all add: enc_unique_def)
  moreover have "decode_name data 0 (length (pre @ enc_name (fst e))) =
      Ok (snd e, length ((pre @ enc_name (fst e)) @ enc_name (snd e)))"
    using assms by (intro decode_name_enc [where post = post]) (simp_all add: enc_unique_def)
  ultimately show ?thesis by (simp add: decode_pair_def)
qed

lemma decode_index_enc:
  assumes "name_ok (fst (fst e))" "name_ok (snd (fst e))" "snd e < 2 ^ 64" and d: "data = pre @ enc_index e @ post"
  shows "decode_index data (m, length pre) = Ok (map_put (fst e) (snd e) m, length (pre @ enc_index e))"
proof -
  have "decode_pair data (length pre) = Ok (fst e, length (pre @ enc_unique (fst e)))"
    using assms by (intro decode_pair_enc [where post = "le_bytes 8 (snd e) @ post"]) (simp_all add: enc_index_def)
  moreover have "get_slice data (length (pre @ enc_unique (fst e))) 8 = le_bytes 8 (snd e)"
    using get_slice_mid [of _ "pre @ enc_unique (fst e)" 8 "le_bytes 8 (snd e)" post] by (simp add: d enc_index_def)
  ultimately show ?thesis using assms by (simp add: decode_index_def d check_def)
qed

lemma decode_unique_enc:
  assumes "name_ok (fst e)" "name_ok (snd e)" and "data = pre @ enc_unique e @ post"
  shows "decode_unique data (m, length pre) = Ok (set_put e m, length (pre @ enc_unique e))"
  using decode_pair_enc [OF assms] by (simp add: decode_unique_def)

lemma iterO_entries:
  assumes "\<And>m pre x post. x \<in> set xs \<Longrightarrow> data = pre @ enc x @ post \<Longrightarrow>
      step (m, length pre) = Ok (upd x m, length (pre @ enc x))"
    and "data = pre @ concat (map enc xs) @ post"
  shows "iterO (length xs) step (m, length pre) = Ok (fold upd xs m, length (pre @ concat (map enc xs)))"
  using assms
proof (induction xs arbitrary: m pre)
  case (Cons x xs)
  have "step (m, length pre) = Ok (upd x m, length (pre @ enc x))"
    using Cons.prems(2) by (intro Cons.prems(1) [where post = "concat (map enc xs) @ post"]) simp_all
  moreover have "iterO (length xs) step (upd x m, length (pre @ enc x)) =
      Ok (fold upd xs (upd x m), length ((pre @ enc x) @ concat (map enc xs)))"
    by (rule Cons.IH; (rule Cons.prems(1))?) (use Cons.prems(2) in auto)
  ultimately show ?case by simp
qed simp

lemma map_put_fresh: "k \<notin> fst ` set d \<Longrightarrow> map_put k v d = d @ [(k, v)]"
  by (induction d) (auto split: prod.splits)

lemma fold_map_put:
  "distinct (map fst (m @ xs)) \<Longrightarrow> fold (\<lambda>e. map_put (fst e) (snd e)) xs m = m @ xs"
proof (induction xs arbitrary: m)
  case (Cons x xs)
  then have "map_put (fst x) (snd x) m = m @ [x]" by (intro map_put_fresh [THEN trans]) auto
  with Cons show ?case by simp
qed simp

lemma fold_set_put: "distinct (m @ xs) \<Longrightarrow> fold set_put xs m = m @ xs"
  by (induction xs arbitrary: m) (simp_all add: set_put_def)

lemma distinct_map_sort_key: "distinct (map f xs) \<Longrightarrow> distinct (map f (sort_key g xs))"
  by (metis mset_map mset_sort mset_eq_imp_distinct_iff)

text \<open>What a catalog must satisfy to be written without truncating a length or a count.\<close>

definition catalog_fits :: "catalog \<Rightarrow> bool" where
  "catalog_fits c \<longleftrightarrow>
     distinct (map fst (cat_collections c)) \<and> distinct (map fst (cat_indexes c)) \<and> distinct (cat_unique c)
     \<and> length (cat_collections c) < 2 ^ 32 \<and> length (cat_indexes c) < 2 ^ 32 \<and> length (cat_unique c) < 2 ^ 32
     \<and> list_all (\<lambda>(n, r). name_ok n \<and> r < 2 ^ 64) (cat_collections c)
     \<and> list_all (\<lambda>((c, f), r). name_ok c \<and> name_ok f \<and> r < 2 ^ 64) (cat_indexes c)
     \<and> list_all (\<lambda>(c, f). name_ok c \<and> name_ok f) (cat_unique c)"

lemma u32_mid:
  "n < 2 ^ 32 \<Longrightarrow> data = pre @ le_bytes 4 n @ post \<Longrightarrow> read_u32_at data (length pre) = Ok n"
  by (simp add: read_u32_at_def get_slice_mid)

lemma decode_encoded_catalog:
  assumes "catalog_fits c"
  shows "decode_catalog (enc_catalog (cat_collections c) (cat_indexes c) (cat_unique c) @ post) =
    Ok (sort_key fst (cat_collections c), cat_indexes c, sort (cat_unique c))"
proof -
  let ?cs = "sort_key fst (cat_collections c)" and ?is = "cat_indexes c" and ?us = "sort (cat_unique c)"
  let ?A = "concat (map enc_collection ?cs)" and ?B = "concat (map enc_index ?is)" and ?C = "concat (map enc_unique ?us)"
  let ?p1 = "CATALOG_MAGIC @ le_bytes 4 (length ?cs)"
  let ?p2 = "?p1 @ ?A" let ?p3 = "?p2 @ le_bytes 4 (length ?is)" let ?p4 = "?p3 @ ?B"
  let ?p5 = "?p4 @ le_bytes 4 (length ?us)"
  define data where "data = enc_catalog (cat_collections c) ?is (cat_unique c) @ post"
  have d: "data = ?p5 @ ?C @ post" by (simp add: data_def enc_catalog_def)
  note fits = assms [unfolded catalog_fits_def list_all_iff case_prod_unfold]
  have m: "length CATALOG_MAGIC = COUNT_OFFSET" and p1: "length ?p1 = ENTRIES_OFFSET"
    by (simp_all add: CATALOG_MAGIC_def catalog_consts)
  have head: "ENTRIES_OFFSET \<le> length data" "get_slice data 0 (length CATALOG_MAGIC) = CATALOG_MAGIC"
    unfolding d using p1 by (simp_all add: get_slice_def)
  have n1: "read_u32_at data COUNT_OFFSET = (Ok (length ?cs) :: (catalog_error, nat) outcome)"
    unfolding m [symmetric] by (rule u32_mid) (use fits in \<open>simp_all add: d\<close>)
  have s1: "iterO (length ?cs) (decode_collection data) ([], length ?p1) = Ok (?cs, length ?p2)"
    using iterO_entries [of ?cs data enc_collection "decode_collection data" "\<lambda>e. map_put (fst e) (snd e)" ?p1 _ "[]"]
      decode_collection_enc fits fold_map_put [of "[]" ?cs] distinct_map_sort_key [of fst "cat_collections c" fst]
    by (simp add: d)
  have n2: "read_u32_at data (length ?p2) = (Ok (length ?is) :: (catalog_error, nat) outcome)"
    by (rule u32_mid [where post = "?B @ le_bytes 4 (length ?us) @ ?C @ post"]) (use fits in \<open>simp_all add: d\<close>)
  have s2: "iterO (length ?is) (decode_index data) ([], length ?p3) = Ok (?is, length ?p4)"
    using iterO_entries [of ?is data enc_index "decode_index data" "\<lambda>e. map_put (fst e) (snd e)" ?p3 _ "[]"]
      decode_index_enc fits fold_map_put [of "[]" ?is] by (simp add: d)
  have n3: "read_u32_at data (length ?p4) = (Ok (length ?us) :: (catalog_error, nat) outcome)"
    by (rule u32_mid) (use fits in \<open>simp_all add: d\<close>)
  have s3: "iterO (length ?us) (decode_unique data) ([], length ?p5) = Ok (?us, length (?p5 @ ?C))"
    using iterO_entries [of ?us data enc_unique "decode_unique data" set_put ?p5 post "[]"]
      decode_unique_enc fits fold_set_put [of "[]" ?us] by (simp add: d)
  have len: "length ?p3 = length ?p2 + 4" "length ?p5 = length ?p4 + 4" by simp_all
  have room: "length ?p3 \<le> length data" "length ?p5 \<le> length data" unfolding d by simp_all
  have "decode_catalog data = Ok (?cs, ?is, ?us)"
    unfolding decode_catalog_def decode_catalog_with_def with_capacity_ample check_def p1 [symmetric]
    by (simp only: head p1 [unfolded p1] n1 s1 n2 s2 n3 s3 len [symmetric] room bindO_simps prod.case if_True simp_thms p1 [symmetric] head [unfolded p1 [symmetric]])
  then show ?thesis by (simp add: data_def)
qed

section \<open>Pages of the chain\<close>

abbreviation (input) CHUNK :: nat where "CHUNK \<equiv> PAGE_SIZE - NEXT_POINTER_SIZE"

definition pad_chunk :: "byte list \<Rightarrow> byte list" where
  "pad_chunk ch = ch @ replicate (CHUNK - length ch) 0"

lemma chunks_spec:
  "0 < n \<Longrightarrow> (\<forall>ch \<in> set (chunks n xs). length ch \<le> n)"
  "0 < n \<Longrightarrow> length (chunks n xs) \<le> length xs"
  "0 < n \<Longrightarrow> xs \<noteq> [] \<Longrightarrow> chunks n xs \<noteq> []"
proof (induction n xs rule: chunks.induct)
  case (1 n xs)
  { case 1 then show ?case using "1.IH"(1) by (subst chunks.simps) auto
  next
    case 2 then show ?case using "1.IH"(2) by (subst chunks.simps) (auto simp: Suc_le_eq intro: le_less_trans)
  next
    case 3 then show ?case by (subst chunks.simps) auto }
qed

lemma CHUNK_pos: "0 < CHUNK"
  by (simp add: PAGE_SIZE_def NEXT_POINTER_SIZE_def)

lemma concat_pad_chunks: "\<exists>z. concat (map pad_chunk (chunks CHUNK xs)) = xs @ z"
proof (induction CHUNK xs rule: chunks.induct)
  case (1 xs)
  show ?case
  proof (cases "length xs \<le> CHUNK")
    case True
    moreover have "chunks CHUNK [] = []" by (subst chunks.simps) simp
    ultimately show ?thesis using CHUNK_pos by (subst chunks.simps) (simp add: pad_chunk_def)
  next
    case False
    then have ne: "\<not> (xs = [] \<or> CHUNK = 0)" using CHUNK_pos by auto
    from "1.hyps" [OF ne] obtain z where "concat (map pad_chunk (chunks CHUNK (drop CHUNK xs))) = drop CHUNK xs @ z" by blast
    with ne False show ?thesis by (subst chunks.simps) (simp add: pad_chunk_def flip: append_assoc)
  qed
qed

definition chunk_bytes :: "byte list \<Rightarrow> page_id \<Rightarrow> page" where
  "chunk_bytes ch next = pad_chunk ch @ le_bytes 8 next"

lemma chunk_bytes_simps:
  assumes "length ch \<le> CHUNK"
  shows "length (chunk_bytes ch next) = PAGE_SIZE"
    and "get_slice (chunk_bytes ch next) 0 CHUNK = pad_chunk ch"
    and "get_slice (chunk_bytes ch next) CHUNK 8 = le_bytes 8 next"
  using assms
  by (simp_all add: chunk_bytes_def pad_chunk_def get_slice_def PAGE_SIZE_def NEXT_POINTER_SIZE_def)

lemma chunk_page_Ok:
  assumes "length ch \<le> CHUNK"
  shows "chunk_page ch next = Ok (chunk_bytes ch next)"
proof -
  have "put_slice new_page_bytes 0 ch = ch @ replicate (PAGE_SIZE - length ch) 0"
    by (simp add: put_slice_def new_page_bytes_def)
  also have "\<dots> = pad_chunk ch @ replicate NEXT_POINTER_SIZE 0"
    using assms by (simp add: pad_chunk_def NEXT_POINTER_SIZE_def PAGE_SIZE_def replicate_add [symmetric])
  finally have p: "put_slice new_page_bytes 0 ch = pad_chunk ch @ replicate NEXT_POINTER_SIZE 0" .
  have "length (pad_chunk ch) = CHUNK" "length ch \<le> PAGE_SIZE" using assms by (simp_all add: pad_chunk_def)
  then show ?thesis
    by (simp add: chunk_page_def p write_u64_def chunk_bytes_def)
      (simp add: put_slice_def NEXT_POINTER_SIZE_def PAGE_SIZE_def)
qed

text \<open>A disk as \<open>DiskManager::open\<close> leaves it: nothing freed, every page of the file counted.\<close>

definition disk_fresh :: "disk_manager \<Rightarrow> bool" where
  "disk_fresh d \<longleftrightarrow> dm_free_list d = [] \<and> length (dm_file d) = dm_num_pages d * PAGE_SIZE"

lemma disk_fresh_inv: "disk_fresh d \<Longrightarrow> disk_inv d"
  by (simp add: disk_fresh_def disk_inv_def)

lemma disk_open_fresh:
  assumes "length file mod PAGE_SIZE = 0"
  obtains d where "disk_open file = Ok d" and "disk_fresh d" and "dm_file d = file"
    and "dm_num_pages d = length file div PAGE_SIZE"
proof
  let ?d = "\<lparr>dm_file = file, dm_num_pages = length file div PAGE_SIZE, dm_free_list = []\<rparr>"
  show "disk_open file = Ok ?d" "disk_fresh ?d" using assms by (auto simp: disk_open_def disk_fresh_def)
qed simp_all

definition grown :: "disk_manager \<Rightarrow> nat \<Rightarrow> disk_manager" where
  "grown d k = d\<lparr>dm_file := dm_file d @ replicate (k * PAGE_SIZE) 0, dm_num_pages := dm_num_pages d + k\<rparr>"

lemma grow_overflow_step:
  "disk_fresh d \<Longrightarrow> grow_overflow (c, d) = (Ok (), (c\<lparr>cat_overflow := cat_overflow c @ [dm_num_pages d]\<rparr>, grown d 1))"
  by (simp add: disk_fresh_def grow_overflow_def on_catalog_disk_def map_errP_def disk_allocate_page_def bindP_def
      write_all_at_def put_slice_append [symmetric] new_page_bytes_def grown_def flip: put_slice_append)

lemma disk_fresh_grown: "disk_fresh d \<Longrightarrow> disk_fresh (grown d k)"
  by (simp add: disk_fresh_def grown_def algebra_simps)

lemma repeat_grow:
  "disk_fresh d \<Longrightarrow> \<exists>us. repeatP k grow_overflow (c, d) =
     (Ok us, (c\<lparr>cat_overflow := cat_overflow c @ [dm_num_pages d..<dm_num_pages d + k]\<rparr>, grown d k))"
proof (induction k arbitrary: c d)
  case 0
  then show ?case by (simp add: grown_def)
next
  case (Suc k)
  from Suc.IH [OF disk_fresh_grown [OF Suc.prems, of 1], of "c\<lparr>cat_overflow := cat_overflow c @ [dm_num_pages d]\<rparr>"]
  obtain us where us: "repeatP k grow_overflow (c\<lparr>cat_overflow := cat_overflow c @ [dm_num_pages d]\<rparr>, grown d 1) =
     (Ok us, (c\<lparr>cat_overflow := cat_overflow c @ dm_num_pages d # [dm_num_pages d + 1..<dm_num_pages d + 1 + k]\<rparr>, grown (grown d 1) k))"
    by (auto simp: grown_def)
  have "[dm_num_pages d..<dm_num_pages d + Suc k] = dm_num_pages d # [dm_num_pages d + 1..<dm_num_pages d + 1 + k]"
    by (simp add: upt_conv_Cons)
  moreover have "grown (grown d 1) k = grown d (Suc k)" by (simp add: grown_def replicate_add [symmetric])
  ultimately show ?case
    using us grow_overflow_step [OF Suc.prems, of c] by (simp add: prog_simps)
qed

text \<open>A run of page writes.\<close>

definition put_pages :: "(page_id \<times> page) list \<Rightarrow> disk_manager \<Rightarrow> disk_manager" where
  "put_pages ps d = fold (\<lambda>(p, pg) d. disk_put d p pg) ps d"

lemma disk_fresh_put:
  assumes "disk_fresh d" and "p < dm_num_pages d" and "length pg = PAGE_SIZE"
  shows "disk_fresh (disk_put d p pg)"
  using assms page_in_file [OF disk_fresh_inv, of d p] by (simp add: disk_fresh_def disk_put_def write_inside)

lemma put_pages_spec:
  assumes "disk_fresh d" and "\<forall>(p, pg) \<in> set ps. p < dm_num_pages d \<and> length pg = PAGE_SIZE" and "distinct (map fst ps)"
  shows "disk_fresh (put_pages ps d) \<and> dm_num_pages (put_pages ps d) = dm_num_pages d
    \<and> (\<forall>q < dm_num_pages d. disk_page (put_pages ps d) q = (case map_of ps q of Some pg \<Rightarrow> pg | None \<Rightarrow> disk_page d q))"
  using assms
proof (induction ps arbitrary: d)
  case (Cons e ps)
  obtain p pg where e: "e = (p, pg)" by (cases e)
  let ?d = "disk_put d p pg"
  have p: "p < dm_num_pages d" "length pg = PAGE_SIZE" "p \<notin> fst ` set ps" using Cons.prems by (auto simp: e)
  have IH: "disk_fresh (put_pages ps ?d) \<and> dm_num_pages (put_pages ps ?d) = dm_num_pages d
    \<and> (\<forall>q < dm_num_pages d. disk_page (put_pages ps ?d) q = (case map_of ps q of Some pg \<Rightarrow> pg | None \<Rightarrow> disk_page ?d q))"
    using Cons.IH [of ?d] Cons.prems disk_fresh_put [OF Cons.prems(1) p(1,2)] by simp
  have "map_of ps p = None" using p(3) by (simp add: map_of_eq_None_iff)
  moreover have "put_pages (e # ps) d = put_pages ps ?d" by (simp add: put_pages_def e)
  ultimately show ?case
    using IH disk_page_put [OF disk_fresh_inv [OF Cons.prems(1)] p(1,2)] by (auto simp: e split: option.splits)
qed (simp add: put_pages_def)


section \<open>Flush, then open\<close>

text \<open>The id of the page the \<open>i\<close>-th chunk goes to, and the pointer that page carries.\<close>

definition chunk_id :: "page_id list \<Rightarrow> nat \<Rightarrow> page_id" where
  "chunk_id os i = (0 # os) ! i"

definition chunk_next :: "page_id list \<Rightarrow> nat \<Rightarrow> nat \<Rightarrow> page_id" where
  "chunk_next os n i = (if i + 1 < n then os ! i else 0)"

definition chunk_pages :: "page_id list \<Rightarrow> nat \<Rightarrow> nat \<Rightarrow> byte list list \<Rightarrow> (page_id \<times> page) list" where
  "chunk_pages os n i cs = map (\<lambda>(j, ch). (chunk_id os j, chunk_bytes ch (chunk_next os n j))) (enumerate i cs)"

lemma write_chunk_step:
  assumes "length ch \<le> CHUNK" and "chunk_id (cat_overflow c) i < dm_num_pages d"
  shows "write_chunk n (i, ch) (c, d) =
    (Ok (), (c, disk_put d (chunk_id (cat_overflow c) i) (chunk_bytes ch (chunk_next (cat_overflow c) n i))))"
  using assms
  by (cases i) (simp_all add: write_chunk_def Let_def chunk_page_Ok chunk_id_def chunk_next_def on_catalog_disk_def
      disk_write_page_Ok map_errP_step CATALOG_PAGE_ID_def)

lemma write_chunks:
  assumes "\<forall>ch \<in> set cs. length ch \<le> CHUNK" and "\<forall>j \<in> {i..<i + length cs}. chunk_id (cat_overflow c) j < dm_num_pages d"
  shows "\<exists>us. mapP (write_chunk n) (enumerate i cs) (c, d) = (Ok us, (c, put_pages (chunk_pages (cat_overflow c) n i cs) d))"
  using assms
proof (induction cs arbitrary: i d)
  case Nil
  then show ?case by (simp add: put_pages_def chunk_pages_def)
next
  case (Cons ch cs)
  let ?d = "disk_put d (chunk_id (cat_overflow c) i) (chunk_bytes ch (chunk_next (cat_overflow c) n i))"
  obtain us where "mapP (write_chunk n) (enumerate (Suc i) cs) (c, ?d) =
      (Ok us, (c, put_pages (chunk_pages (cat_overflow c) n (Suc i) cs) ?d))"
    using Cons.IH [of "Suc i" ?d] Cons.prems by auto
  then show ?case
    using Cons.prems write_chunk_step [of ch c i d n] by (simp add: prog_simps put_pages_def chunk_pages_def)
qed

text \<open>Page 0 and the overflow pages are different pages of the file.\<close>

definition links_ok :: "page_id list \<Rightarrow> nat \<Rightarrow> bool" where
  "links_ok os num \<longleftrightarrow> distinct (0 # os) \<and> list_all (\<lambda>p. p < num) (0 # os)"

lemma read_chain_from:
  assumes links: "links_ok os (dm_num_pages d)" and d: "disk_fresh d" and num: "dm_num_pages d \<le> 2 ^ 64"
    and pages: "\<forall>j < length cs. disk_page d (chunk_id os j) = chunk_bytes (cs ! j) (chunk_next os (length cs) j)"
    and small: "\<forall>ch \<in> set cs. length ch \<le> CHUNK" and os: "length cs \<le> Suc (length os)"
    and i: "i < length cs" "length cs - i \<le> fuel"
  shows "read_chain_loop fuel (chunk_id os i) bytes (take i os) d =
    (Ok (bytes @ concat (map pad_chunk (drop i cs)), take (length cs - 1) os), d)"
  using i
proof (induction fuel arbitrary: i bytes)
  case (Suc fuel)
  let ?pg = "chunk_bytes (cs ! i) (chunk_next os (length cs) i)"
  have ch: "length (cs ! i) \<le> CHUNK" using small Suc.prems by simp
  have lt: "chunk_id os j < dm_num_pages d" if "j < length cs" for j
    using links os that by (cases j) (auto simp: links_ok_def chunk_id_def list_all_iff)
  have rd: "map_errP CatIo (disk_read_page (chunk_id os i)) d = (Ok ?pg, d)"
    using disk_read_page_Ok [OF disk_fresh_inv [OF d] lt [OF Suc.prems(1)]] pages Suc.prems(1)
    by (simp add: map_errP_step)
  have fits: "CHUNK + 8 \<le> PAGE_SIZE" by (simp add: NEXT_POINTER_SIZE_def PAGE_SIZE_def)
  have pg: "read_u64 ?pg CHUNK = (Ok (le_val (get_slice ?pg CHUNK 8)) :: (catalog_error, nat) outcome)" "get_slice ?pg 0 CHUNK = pad_chunk (cs ! i)"
    "get_slice ?pg CHUNK 8 = le_bytes 8 (chunk_next os (length cs) i)"
    using chunk_bytes_simps [OF ch, of "chunk_next os (length cs) i"] fits by simp_all
  have drop: "drop i cs = cs ! i # drop (Suc i) cs" using Suc.prems(1) by (rule Cons_nth_drop_Suc [symmetric])
  show ?case
  proof (cases "i + 1 < length cs")
    case False
    with Suc.prems have "i = length cs - 1" "drop (Suc i) cs = []" by simp_all
    with False show ?thesis
      using rd drop pg by (simp add: prog_simps Let_def chunk_next_def)
  next
    case True
    have next_lt: "os ! i < dm_num_pages d" "os ! i = chunk_id os (Suc i)" using lt [of "Suc i"] True by (simp_all add: chunk_id_def)
    have i_os: "i < length os" using True os by simp
    have ne: "os ! i \<noteq> 0" using links i_os by (metis links_ok_def distinct.simps(2) nth_mem)
    have new: "os ! i \<notin> set (take i os)"
      using links i_os by (auto simp: links_ok_def in_set_conv_nth nth_eq_iff_index_eq)
    have nx: "le_val (get_slice ?pg CHUNK 8) = os ! i"
      unfolding pg(3) using next_lt(1) num True by (simp add: chunk_next_def)
    have "read_chain_loop fuel (os ! i) (bytes @ pad_chunk (cs ! i)) (take i os @ [os ! i]) d =
        (Ok ((bytes @ pad_chunk (cs ! i)) @ concat (map pad_chunk (drop (Suc i) cs)), take (length cs - 1) os), d)"
      using Suc.IH [of "Suc i" "bytes @ pad_chunk (cs ! i)"] Suc.prems True i_os next_lt(2) by (simp add: take_Suc_conv_app_nth)
    then show ?thesis
      using rd drop pg(1,2) nx ne new next_lt(1) by (simp add: prog_simps Let_def)
  qed
qed simp

text \<open>The parts of the chain that \<open>flush_chunks\<close> leaves on disk.\<close>

lemma links_grown:
  assumes "links_ok os num"
  shows "links_ok (os @ [num..<num + k]) (num + k)"
  using assms by (auto simp: links_ok_def list_all_iff)

lemma chunk_pages_keys:
  "length cs \<le> Suc (length os) \<Longrightarrow> map fst (chunk_pages os n 0 cs) = take (length cs) (0 # os)"
  by (rule nth_equalityI) (simp_all add: chunk_pages_def nth_enumerate_eq chunk_id_def)

lemma chunk_pages_lookup:
  assumes "length cs \<le> Suc (length os)" and "distinct (0 # os)" and "j < length cs"
  shows "map_of (chunk_pages os n 0 cs) (chunk_id os j) = Some (chunk_bytes (cs ! j) (chunk_next os n j))"
proof (rule map_of_is_SomeI)
  show "distinct (map fst (chunk_pages os n 0 cs))"
    unfolding chunk_pages_keys [OF assms(1)] using assms(2) by (rule distinct_take)
  have "chunk_pages os n 0 cs ! j = (chunk_id os j, chunk_bytes (cs ! j) (chunk_next os n j))"
    using assms(3) by (simp add: chunk_pages_def nth_enumerate_eq)
  then show "(chunk_id os j, chunk_bytes (cs ! j) (chunk_next os n j)) \<in> set (chunk_pages os n 0 cs)"
    using assms(3) nth_mem [of j "chunk_pages os n 0 cs"] by (simp add: chunk_pages_def)
qed

lemma flush_chunks_spec:
  assumes d: "disk_fresh d" and links: "links_ok (cat_overflow c) (dm_num_pages d)"
    and small: "\<forall>ch \<in> set cs. length ch \<le> CHUNK" and num: "dm_num_pages d + length cs \<le> 2 ^ 64" and cs: "cs \<noteq> []"
  obtains os d' where "flush_chunks cs (c, d) = (Ok (), (c\<lparr>cat_overflow := os\<rparr>, d'))"
    and "disk_fresh d'" and "dm_num_pages d \<le> dm_num_pages d'" and "links_ok os (dm_num_pages d')"
    and "read_catalog_chain d' = (Ok (concat (map pad_chunk cs), take (length cs - 1) os), d')"
    and "\<And>p. p < dm_num_pages d \<Longrightarrow> p \<notin> set (0 # cat_overflow c) \<Longrightarrow> disk_page d' p = disk_page d p"
    and "length (dm_file d') \<le> length (dm_file d) + length cs * PAGE_SIZE"
proof -
  define k where "k = length cs - Suc (length (cat_overflow c))"
  define os where "os = cat_overflow c @ [dm_num_pages d..<dm_num_pages d + k]"
  let ?c = "c\<lparr>cat_overflow := os\<rparr>" and ?g = "grown d k"
  let ?ps = "chunk_pages os (length cs) 0 cs"
  let ?d = "put_pages ?ps ?g"
  have g: "disk_fresh ?g" "dm_num_pages ?g = dm_num_pages d + k" using disk_fresh_grown [OF d] by (simp_all add: grown_def)
  have los: "links_ok os (dm_num_pages ?g)" unfolding os_def g(2) by (rule links_grown [OF links])
  have len: "length cs \<le> Suc (length os)" by (simp add: os_def k_def)
  have lt: "chunk_id os j < dm_num_pages ?g" if "j < length cs" for j
    using los len that by (cases j) (auto simp: links_ok_def chunk_id_def list_all_iff)
  obtain us where "repeatP k grow_overflow (c, d) = (Ok us, (?c, ?g))" using repeat_grow [OF d, of k c] by (auto simp: os_def)
  moreover obtain vs where "mapP (write_chunk (length cs)) (enumerate 0 cs) (?c, ?g) = (Ok vs, (?c, ?d))"
    using write_chunks [OF small, of 0 ?c ?g "length cs"] lt by auto
  ultimately have run: "flush_chunks cs (c, d) = (Ok (), (?c, ?d))"
    by (simp add: flush_chunks_def k_def [symmetric] prog_simps)
  have "p < dm_num_pages ?g \<and> length pg = PAGE_SIZE" if "(p, pg) \<in> set ?ps" for p pg
  proof -
    from that obtain j where "j < length cs" "p = chunk_id os j" "pg = chunk_bytes (cs ! j) (chunk_next os (length cs) j)"
      by (auto simp: chunk_pages_def in_set_enumerate_eq)
    with lt small chunk_bytes_simps(1) show ?thesis by simp
  qed
  moreover have keys: "map fst ?ps = take (length cs) (0 # os)" by (rule chunk_pages_keys [OF len])
  moreover have "distinct (take (length cs) (0 # os))" using los by (intro distinct_take) (simp add: links_ok_def)
  ultimately have d': "disk_fresh ?d" "dm_num_pages ?d = dm_num_pages ?g"
      "\<And>q. q < dm_num_pages ?g \<Longrightarrow> disk_page ?d q = (case map_of ?ps q of Some pg \<Rightarrow> pg | None \<Rightarrow> disk_page ?g q)"
    using put_pages_spec [OF g(1), of ?ps] by auto
  have pages: "\<forall>j < length cs. disk_page ?d (chunk_id os j) = chunk_bytes (cs ! j) (chunk_next os (length cs) j)"
    using d'(3) lt chunk_pages_lookup [OF len, of _ "length cs"] los by (simp add: links_ok_def)
  have k_le: "k \<le> length cs" by (simp add: k_def)
  have "length (take (length cs) (0 # os)) = card (set (take (length cs) (0 # os)))"
    using los by (metis distinct_card distinct_take links_ok_def)
  also have "\<dots> \<le> card {..<dm_num_pages ?g}"
    using los set_take_subset [of "length cs" "0 # os"] by (intro card_mono) (auto simp: links_ok_def list_all_iff)
  finally have fuel: "length cs \<le> Suc (dm_num_pages ?d)" using len by (simp add: d'(2))
  have chain: "read_catalog_chain ?d = (Ok (concat (map pad_chunk cs), take (length cs - 1) os), ?d)"
    using read_chain_from [OF _ d'(1) _ pages small len, of 0 "Suc (dm_num_pages ?d)" "[]"] los num k_le cs fuel
    by (simp add: read_catalog_chain_def d'(2) g(2) chunk_id_def CATALOG_PAGE_ID_def del: read_chain_loop.simps)
  have old: "disk_page ?d p = disk_page d p" if p: "p < dm_num_pages d" "p \<notin> set (0 # cat_overflow c)" for p
  proof -
    have "p \<notin> set (0 # os)" using p by (simp add: os_def)
    then have "map_of ?ps p = None" using keys by (metis map_of_eq_None_iff in_set_takeD list.set_map)
    then have "disk_page ?d p = disk_page ?g p" using d'(3) p by (simp add: g(2))
    then show ?thesis using page_in_file [OF disk_fresh_inv [OF d] p(1)]
      by (simp add: disk_page_def grown_def get_slice_append_left)
  qed
  have "length (dm_file ?d) \<le> length (dm_file d) + length cs * PAGE_SIZE"
    using d'(1,2) g(2) d k_le by (simp add: disk_fresh_def distrib_right)
  with run d'(1,2) g(2) los chain old show thesis by (intro that [of os ?d]) simp_all
qed

lemma map_of_sort_key: "distinct (map fst xs) \<Longrightarrow> map_of (sort_key g xs) = map_of xs"
  by (simp add: map_of_inject_set distinct_map_sort_key)

lemma catalog_flush_spec:
  assumes fits: "catalog_fits c" and aligned: "length file mod PAGE_SIZE = 0"
    and links: "links_ok (cat_overflow c) (length file div PAGE_SIZE)"
    and room: "length file + length (enc_catalog (cat_collections c) (cat_indexes c) (cat_unique c)) \<le> 2 ^ 64"
  obtains os file' where "catalog_flush (c, file) = (Ok (), (c\<lparr>cat_overflow := os\<rparr>, file'))"
    and "length file' mod PAGE_SIZE = 0" and "length file \<le> length file'"
    and "links_ok os (length file' div PAGE_SIZE)"
    and "\<exists>n. catalog_open file' = (Ok \<lparr>cat_collections = sort_key fst (cat_collections c),
           cat_indexes = cat_indexes c, cat_unique = sort (cat_unique c), cat_overflow = take n os\<rparr>, file')"
    and "\<And>p. p < length file div PAGE_SIZE \<Longrightarrow> p \<notin> set (0 # cat_overflow c) \<Longrightarrow>
      get_slice file' (p * PAGE_SIZE) PAGE_SIZE = get_slice file (p * PAGE_SIZE) PAGE_SIZE"
proof -
  let ?b = "enc_catalog (cat_collections c) (cat_indexes c) (cat_unique c)"
  let ?cs = "chunks CHUNK ?b"
  obtain d where d: "disk_open file = Ok d" "disk_fresh d" "dm_file d = file" "dm_num_pages d = length file div PAGE_SIZE"
    by (rule disk_open_fresh [OF aligned])
  have ne: "?b \<noteq> []" by (simp add: enc_catalog_def CATALOG_MAGIC_def string_bytes_def)
  have "dm_num_pages d + length ?cs \<le> 2 ^ 64"
    using room d(4) chunks_spec(2) [OF CHUNK_pos, of ?b] div_le_dividend [of "length file" PAGE_SIZE] by linarith
  then obtain os d' where run: "flush_chunks ?cs (c, d) = (Ok (), (c\<lparr>cat_overflow := os\<rparr>, d'))"
    and d': "disk_fresh d'" "dm_num_pages d \<le> dm_num_pages d'" "links_ok os (dm_num_pages d')"
    and chain: "read_catalog_chain d' = (Ok (concat (map pad_chunk ?cs), take (length ?cs - 1) os), d')"
    and old: "\<And>p. p < dm_num_pages d \<Longrightarrow> p \<notin> set (0 # cat_overflow c) \<Longrightarrow> disk_page d' p = disk_page d p"
    using flush_chunks_spec [OF d(2) links [folded d(4)] chunks_spec(1) [OF CHUNK_pos] _ chunks_spec(3) [OF CHUNK_pos ne]]
    by metis
  let ?f = "dm_file d'"
  have num: "length ?f = dm_num_pages d' * PAGE_SIZE" "dm_free_list d' = []" using d'(1) by (simp_all add: disk_fresh_def)
  have re: "disk_open ?f = Ok d'" using num by (simp add: disk_open_def)
  have "dm_num_pages d' \<noteq> 0" using d'(3) by (auto simp: links_ok_def)
  moreover obtain z where "concat (map pad_chunk ?cs) = ?b @ z" using concat_pad_chunks by blast
  ultimately have opn: "catalog_open ?f = (Ok \<lparr>cat_collections = sort_key fst (cat_collections c),
           cat_indexes = cat_indexes c, cat_unique = sort (cat_unique c), cat_overflow = take (length ?cs - 1) os\<rparr>, ?f)"
    using chain decode_encoded_catalog [OF fits, of z] by (simp add: catalog_open_defs with_disk_def re prog_simps)
  show thesis
  proof (rule that)
    show "catalog_flush (c, file) = (Ok (), (c\<lparr>cat_overflow := os\<rparr>, ?f))"
      using run d(1) by (simp add: catalog_flush_def encode_catalog_bytes with_own_disk_def)
    show "length file \<le> length ?f" using d(2,3) d'(2) num by (simp add: disk_fresh_def)
    show "get_slice ?f (p * PAGE_SIZE) PAGE_SIZE = get_slice file (p * PAGE_SIZE) PAGE_SIZE"
      if "p < length file div PAGE_SIZE" "p \<notin> set (0 # cat_overflow c)" for p
      using old [of p] that d(3,4) by (simp add: disk_page_def)
  qed (use num d'(3) opn in auto)
qed

section \<open>Opening any file returns\<close>


lemma returns_check [simp]: "returns (check b)"
  by (simp add: check_def)

lemma check_Ok_iff [simp]: "check b = Ok u \<longleftrightarrow> b"
  by (simp add: check_def)
















section \<open>Properties\<close>

text \<open>C21: a catalog written by \<open>flush\<close> and read by \<open>open\<close> is the same catalog, however many pages it
  spills onto: the same collections, indexes and unique indexes, with the overflow pages known again,
  so that the next flush reuses them. Every page of the file that is not one of the catalog's own
  keeps its bytes.\<close>

theorem catalog_flush_then_open:
  assumes "catalog_fits c" and "length file mod PAGE_SIZE = 0"
    and "links_ok (cat_overflow c) (length file div PAGE_SIZE)"
    and "length file + length (enc_catalog (cat_collections c) (cat_indexes c) (cat_unique c)) \<le> 2 ^ 64"
  shows "\<exists>c' file' c''. catalog_flush (c, file) = (Ok (), (c', file')) \<and> catalog_open file' = (Ok c'', file')
    \<and> map_of (cat_collections c'') = map_of (cat_collections c)
    \<and> map_of (cat_indexes c'') = map_of (cat_indexes c)
    \<and> set (cat_unique c'') = set (cat_unique c)
    \<and> links_ok (cat_overflow c'') (length file' div PAGE_SIZE) \<and> catalog_fits c''
    \<and> (\<forall>p < length file div PAGE_SIZE. p \<notin> set (0 # cat_overflow c) \<longrightarrow>
         get_slice file' (p * PAGE_SIZE) PAGE_SIZE = get_slice file (p * PAGE_SIZE) PAGE_SIZE)"
proof -
  obtain os file' n where run: "catalog_flush (c, file) = (Ok (), (c\<lparr>cat_overflow := os\<rparr>, file'))"
    and links: "links_ok os (length file' div PAGE_SIZE)"
    and opn: "catalog_open file' = (Ok \<lparr>cat_collections = sort_key fst (cat_collections c),
           cat_indexes = cat_indexes c, cat_unique = sort (cat_unique c), cat_overflow = take n os\<rparr>, file')"
    and old: "\<And>p. p < length file div PAGE_SIZE \<Longrightarrow> p \<notin> set (0 # cat_overflow c) \<Longrightarrow>
      get_slice file' (p * PAGE_SIZE) PAGE_SIZE = get_slice file (p * PAGE_SIZE) PAGE_SIZE"
    using catalog_flush_spec [OF assms] by metis
  have "links_ok (take n os) (length file' div PAGE_SIZE)"
    using links by (auto simp: links_ok_def list_all_iff dest: in_set_takeD)
  with run opn old assms(1) show ?thesis
    by (simp add: map_of_sort_key catalog_fits_def distinct_map_sort_key list_all_iff)
qed

definition example_catalog :: catalog where
  "example_catalog = \<lparr>cat_collections = [(''users'', 2), (''orders'', 1)], cat_indexes = [((''users'', ''id''), 3)],
     cat_unique = [(''users'', ''id'')], cat_overflow = []\<rparr>"

lemma example_catalog_fits: "catalog_fits example_catalog"
  by (simp add: catalog_fits_def example_catalog_def name_ok_def utf8_valid_def)

theorem catalog_flush_then_open_witness:
  "\<exists>c' file' c''. catalog_flush (example_catalog, new_page_bytes) = (Ok (), (c', file')) \<and> catalog_open file' = (Ok c'', file')
    \<and> map_of (cat_collections c'') ''users'' = Some 2 \<and> map_of (cat_collections c'') ''orders'' = Some 1
    \<and> map_of (cat_indexes c'') (''users'', ''id'') = Some 3 \<and> set (cat_unique c'') = {(''users'', ''id'')}"
proof -
  have "\<exists>c' file' c''. catalog_flush (example_catalog, new_page_bytes) = (Ok (), (c', file')) \<and> catalog_open file' = (Ok c'', file')
    \<and> map_of (cat_collections c'') = map_of (cat_collections example_catalog)
    \<and> map_of (cat_indexes c'') = map_of (cat_indexes example_catalog)
    \<and> set (cat_unique c'') = set (cat_unique example_catalog)
    \<and> links_ok (cat_overflow c'') (length file' div PAGE_SIZE) \<and> catalog_fits c''
    \<and> (\<forall>p < length new_page_bytes div PAGE_SIZE. p \<notin> set (0 # cat_overflow example_catalog) \<longrightarrow>
         get_slice file' (p * PAGE_SIZE) PAGE_SIZE = get_slice new_page_bytes (p * PAGE_SIZE) PAGE_SIZE)"
    by (rule catalog_flush_then_open [OF example_catalog_fits])
      (simp_all add: links_ok_def example_catalog_def enc_catalog_def CATALOG_MAGIC_def PAGE_SIZE_def)
  then show ?thesis by (auto simp: example_catalog_def)
qed



text \<open>\<open>Catalog::create\<close> on an empty file reserves page 0 for an empty catalog, and on a file that
  already has pages it is \<open>open\<close>: the existing catalog is read, not overwritten.\<close>

theorem catalog_create_spec:
  "catalog_create file = (if file = []
     then (Ok \<lparr>cat_collections = [], cat_indexes = [], cat_unique = [], cat_overflow = []\<rparr>,
       enc_catalog [] [] [] @ replicate (PAGE_SIZE - 20) 0)
     else catalog_open file)"
proof (cases "file = []")
  case False
  then show ?thesis
    by (auto simp: catalog_create_def catalog_open_defs with_disk_def disk_open_def bindP_def div_eq_0_iff dest: dvd_imp_le)
next
  case True
  let ?e = "\<lparr>cat_collections = [], cat_indexes = [], cat_unique = [], cat_overflow = []\<rparr>"
  let ?b = "enc_catalog [] [] []" let ?f = "?b @ replicate (PAGE_SIZE - 20) 0"
  have len: "length ?b = 20" by (simp add: enc_catalog_def CATALOG_MAGIC_def)
  let ?d = "\<lparr>dm_file = ?f, dm_num_pages = 1, dm_free_list = []\<rparr>"
  have f: "length ?f = PAGE_SIZE" by (simp add: len PAGE_SIZE_def)
  have "put_slice new_page_bytes 0 ?b = ?f" by (simp add: put_slice_def new_page_bytes_def len)
  moreover have "put_slice new_page_bytes 0 ?f = ?f" using f by (simp add: put_slice_def)
  ultimately have init: "with_disk (bindP (readP dm_num_pages) (\<lambda>n.
     if n = 0 then
       bindP (map_errP CatIo disk_allocate_page) (\<lambda>pid.
       bindP (assertP (pid = CATALOG_PAGE_ID) ''assertion failed'') (\<lambda>_.
       bindP (liftO (encode_catalog [] [] [])) (\<lambda>bytes.
       bindP (liftO (write_range new_page_bytes 0 bytes)) (\<lambda>pg.
       map_errP CatIo (disk_write_page CATALOG_PAGE_ID pg)))))
     else returnP ())) [] = (Ok (), ?f)"
    by (simp add: with_disk_def disk_open_def disk_allocate_page_def disk_write_page_def map_errP_def bindP_def
        write_all_at_def put_slice_append [of "[]", simplified] CATALOG_PAGE_ID_def encode_catalog_bytes len PAGE_SIZE_def)
  have opn: "disk_open ?f = Ok ?d" using f by (simp add: disk_open_def)
  have d: "disk_fresh ?d" "disk_page ?d 0 = ?f" using f by (simp_all add: disk_fresh_def disk_page_def)
  have pg: "?f = chunk_bytes ?b 0"
    by (simp add: chunk_bytes_def pad_chunk_def len NEXT_POINTER_SIZE_def PAGE_SIZE_def le_bytes_zero replicate_add [symmetric])
  have "read_chain_loop 2 (chunk_id [] 0) [] (take 0 []) ?d =
      (Ok ([] @ concat (map pad_chunk (drop 0 [?b])), take (length [?b] - 1) []), ?d)"
    by (rule read_chain_from)
      (use d pg in \<open>simp_all add: links_ok_def len NEXT_POINTER_SIZE_def PAGE_SIZE_def chunk_id_def chunk_next_def\<close>)
  then have "read_catalog_chain ?d = (Ok (pad_chunk ?b, []), ?d)"
    by (simp add: read_catalog_chain_def CATALOG_PAGE_ID_def chunk_id_def numeral_2_eq_2 del: read_chain_loop.simps)
  then have "catalog_open ?f = (Ok ?e, ?f)"
    using decode_encoded_catalog [of ?e]
    by (simp add: catalog_open_defs with_disk_def opn prog_simps pad_chunk_def catalog_fits_def)
  then show ?thesis using init True by (simp add: catalog_create_def prog_simps)
qed


text \<open>
  \<open>Catalog::flush\<close> takes its overflow pages from a \<open>DiskManager\<close> of its own. The pool's
  \<open>DiskManager\<close> still counts the pages the file had before, so the next page the pool allocates
  is the first overflow page the catalog has just written.
\<close>

lemma grown_overflow_head:
  assumes d: "disk_fresh d" and links: "links_ok (cat_overflow c) (dm_num_pages d)"
    and small: "\<forall>ch \<in> set cs. length ch \<le> CHUNK" and more: "Suc (length (cat_overflow c)) < length cs"
  shows "\<exists>os d'. flush_chunks cs (c, d) = (Ok (), (c\<lparr>cat_overflow := cat_overflow c @ dm_num_pages d # os\<rparr>, d'))"
proof -
  define k where "k = length cs - Suc (length (cat_overflow c))"
  let ?os = "cat_overflow c @ [dm_num_pages d..<dm_num_pages d + k]"
  let ?c = "c\<lparr>cat_overflow := ?os\<rparr>" and ?g = "grown d k"
  have k: "0 < k" using more by (simp add: k_def)
  obtain us where us: "repeatP k grow_overflow (c, d) = (Ok us, (?c, ?g))" using repeat_grow [OF d, of k c] by auto
  have los: "links_ok ?os (dm_num_pages ?g)" using links_grown [OF links, of k] by (simp add: grown_def)
  have "chunk_id ?os j < dm_num_pages ?g" if "j < length cs" for j
  proof (cases j)
    case (Suc i)
    then have "?os ! i \<in> set ?os" using that by (intro nth_mem) (simp add: k_def)
    then show ?thesis using los Suc by (simp add: links_ok_def chunk_id_def list_all_iff del: set_append)
  qed (use los in \<open>simp add: links_ok_def chunk_id_def\<close>)
  then obtain vs d' where "mapP (write_chunk (length cs)) (enumerate 0 cs) (?c, ?g) = (Ok vs, (?c, d'))"
    using write_chunks [OF small, of 0 ?c ?g "length cs"] by auto
  then have "flush_chunks cs (c, d) = (Ok (), (?c, d'))"
    using us by (simp add: flush_chunks_def k_def [symmetric] prog_simps)
  then show ?thesis using k by (auto simp: upt_conv_Cons)
qed

text \<open>C37: once the catalog needs one more overflow page than it has, \<open>flush\<close> takes the page whose id
  the pool will hand out next: the pool's next allocation succeeds, returns a page of the catalog's
  own chain, and zeroes it in the file.\<close>

theorem catalog_overflow_page_reused:
  assumes "disk_fresh (bp_disk s)" and "links_ok (cat_overflow c) (dm_num_pages (bp_disk s))"
    and "Suc (length (cat_overflow c))
      < length (chunks (PAGE_SIZE - NEXT_POINTER_SIZE) (enc_catalog (cat_collections c) (cat_indexes c) (cat_unique c)))"
  shows "\<exists>c' s' pid d'. on_own_disk catalog_flush (c, s) = (Ok (), (c', s'))
    \<and> disk_allocate_page (bp_disk s') = (Ok pid, d')
    \<and> pid \<in> set (cat_overflow c') \<and> disk_page d' pid = new_page_bytes"
proof -
  let ?f = "dm_file (bp_disk s)" and ?n = "dm_num_pages (bp_disk s)"
  let ?cs = "chunks CHUNK (enc_catalog (cat_collections c) (cat_indexes c) (cat_unique c))"
  have opn: "disk_open ?f = Ok (bp_disk s)" using assms(1) by (simp add: disk_open_def disk_fresh_def)
  obtain os d where run: "flush_chunks ?cs (c, bp_disk s) = (Ok (), (c\<lparr>cat_overflow := cat_overflow c @ ?n # os\<rparr>, d))"
    using grown_overflow_head [OF assms(1,2) chunks_spec(1) [OF CHUNK_pos] assms(3)] by blast
  let ?s = "s\<lparr>bp_disk := (bp_disk s)\<lparr>dm_file := dm_file d\<rparr>\<rparr>"
  have "on_own_disk catalog_flush (c, s) = (Ok (), (c\<lparr>cat_overflow := cat_overflow c @ ?n # os\<rparr>, ?s))"
    using run by (simp add: on_own_disk_def catalog_flush_def encode_catalog_bytes with_own_disk_def opn)
  moreover have "\<exists>d'. disk_allocate_page (bp_disk ?s) = (Ok ?n, d') \<and> disk_page d' ?n = new_page_bytes"
    using assms(1) get_write_same [of "dm_file d" "?n * PAGE_SIZE" new_page_bytes]
    by (simp add: disk_fresh_def disk_allocate_page_def disk_page_def)
  ultimately show ?thesis by fastforce
qed

definition long_name :: string where
  "long_name = replicate 5000 CHR ''a''"

definition wide_catalog :: catalog where
  "wide_catalog = \<lparr>cat_collections = [(long_name, 1)], cat_indexes = [], cat_unique = [], cat_overflow = []\<rparr>"

definition one_page_pool :: buffer_pool where
  "one_page_pool = \<lparr>bp_frames = replicate 4 frame_empty, bp_page_table = Map.empty,
     bp_disk = \<lparr>dm_file = new_page_bytes, dm_num_pages = 1, dm_free_list = []\<rparr>, bp_clock = 0\<rparr>"

lemma length_chunks_two: "0 < n \<Longrightarrow> n < length xs \<Longrightarrow> Suc 0 < length (chunks n xs)"
proof -
  assume n: "0 < n" "n < length xs"
  then have "chunks n (drop n xs) \<noteq> []" by (intro chunks_spec(3)) auto
  moreover have "chunks n xs = take n xs # chunks n (drop n xs)" using n by (subst chunks.simps) auto
  ultimately show ?thesis by simp
qed

theorem catalog_overflow_page_reused_witness:
  "\<exists>c' s' pid d'. on_own_disk catalog_flush (wide_catalog, one_page_pool) = (Ok (), (c', s'))
    \<and> disk_allocate_page (bp_disk s') = (Ok pid, d')
    \<and> pid \<in> set (cat_overflow c') \<and> disk_page d' pid = new_page_bytes"
proof (rule catalog_overflow_page_reused)
  show "disk_fresh (bp_disk one_page_pool)" "links_ok (cat_overflow wide_catalog) (dm_num_pages (bp_disk one_page_pool))"
    by (simp_all add: one_page_pool_def disk_fresh_def links_ok_def wide_catalog_def)
  show "Suc (length (cat_overflow wide_catalog)) < length (chunks (PAGE_SIZE - NEXT_POINTER_SIZE)
      (enc_catalog (cat_collections wide_catalog) (cat_indexes wide_catalog) (cat_unique wide_catalog)))"
    using length_chunks_two [OF CHUNK_pos, of "enc_catalog (cat_collections wide_catalog) (cat_indexes wide_catalog) (cat_unique wide_catalog)"]
    by (simp add: wide_catalog_def enc_catalog_def CATALOG_MAGIC_def long_name_def PAGE_SIZE_def NEXT_POINTER_SIZE_def)
qed

end
