(* ===== verification/BTree_Node.thy ===== *)
theory BTree_Node
  imports Storage_Heap "HOL-Library.List_Lexorder" "HOL-Library.Product_Lexorder"
begin

text \<open>
  \<open>btree/node.rs\<close>: the page layout of B+ tree nodes. A node is a page: a type byte, the number of
  keys, the offset where the key bytes begin, one pointer (the next leaf, or the leftmost child),
  then the slot array that grows up while key bytes grow down from the end of the page.

  The methods the two node types share through \<open>BNodeSerializer\<close> take the slot width \<open>w\<close> as
  their first argument (14 bytes for a leaf, 12 for an internal node). A slot is a key offset, a key
  length and a payload: the document id of a leaf entry, the child page of an internal entry.

  \<open>node_ok\<close> is the layout invariant and \<open>leaf_view\<close>, \<open>internal_view\<close> the list of entries a page
  stands for; the lemmas show that the byte-level methods are the list operations on the views.
\<close>

section \<open>Layout\<close>

definition NODE_HEADER_SIZE :: nat where "NODE_HEADER_SIZE = 13"
definition NO_NEXT_LEAF :: page_id where "NO_NEXT_LEAF = U64_MAX"
definition LEAF_SLOT :: nat where "LEAF_SLOT = 14"
definition INTERNAL_SLOT :: nat where "INTERNAL_SLOT = 12"

type_synonym key = "byte list"

definition get_slot_start :: "nat \<Rightarrow> nat \<Rightarrow> nat" where
  "get_slot_start w i = NODE_HEADER_SIZE + i * w"

definition is_leaf_page :: "page \<Rightarrow> bool" where
  "is_leaf_page pg \<longleftrightarrow> hd pg = 0"

definition get_key_count :: "page \<Rightarrow> (io_error, nat) outcome" where
  "get_key_count pg = read_u16 pg 1"

definition set_key_count :: "nat \<Rightarrow> page \<Rightarrow> (io_error, page) outcome" where
  "set_key_count n pg = write_u16 pg 1 n"

definition get_free_offset :: "page \<Rightarrow> (io_error, nat) outcome" where
  "get_free_offset pg = read_u16 pg 3"

definition set_free_offset :: "nat \<Rightarrow> page \<Rightarrow> (io_error, page) outcome" where
  "set_free_offset n pg = write_u16 pg 3 n"

definition has_space :: "nat \<Rightarrow> nat \<Rightarrow> page \<Rightarrow> (io_error, bool) outcome" where
  "has_space w key_len pg =
     bindO (get_free_offset pg) (\<lambda>free_offset.
     bindO (get_key_count pg) (\<lambda>key_count.
     Ok (key_len + get_slot_start w (key_count + 1) \<le> free_offset)))"

definition get_key :: "nat \<Rightarrow> page \<Rightarrow> nat \<Rightarrow> (io_error, key) outcome" where
  "get_key w pg i =
     bindO (read_u16 pg (get_slot_start w i)) (\<lambda>offset.
     bindO (read_u16 pg (get_slot_start w i + 2)) (\<lambda>key_len.
     index_range pg offset key_len))"

text \<open>\<open>set_key\<close> also returns the new free offset; the subtraction panics when the key is too long.\<close>

definition set_key :: "key \<Rightarrow> page \<Rightarrow> (io_error, nat \<times> page) outcome" where
  "set_key key pg =
     bindO (get_free_offset pg) (\<lambda>free_offset.
     if free_offset < length key then Panic ''attempt to subtract with overflow''
     else bindO (write_range pg (free_offset - length key) key) (\<lambda>pg. Ok (free_offset - length key, pg)))"

definition copy_within :: "byte list \<Rightarrow> nat \<Rightarrow> nat \<Rightarrow> nat \<Rightarrow> (io_error, byte list) outcome" where
  "copy_within buf src_start src_end dst =
     (if src_start \<le> src_end \<and> src_end \<le> length buf \<and> dst + (src_end - src_start) \<le> length buf
      then Ok (put_slice buf dst (get_slice buf src_start (src_end - src_start)))
      else Panic ''slice index out of range'')"

section \<open>Binary search\<close>

function lower_bound_loop :: "(nat \<Rightarrow> (io_error, bool) outcome) \<Rightarrow> nat \<Rightarrow> nat \<Rightarrow> (io_error, nat) outcome" where
  "lower_bound_loop is_less left right =
     (if left < right then
        (let mid = left + (right - left) div 2 in
         bindO (is_less mid) (\<lambda>b.
         if b then lower_bound_loop is_less (mid + 1) right else lower_bound_loop is_less left mid))
      else Ok left)"
  by auto
termination
  by (relation "measure (\<lambda>(f, l, r). r - l)") auto

declare lower_bound_loop.simps [simp del]

definition lower_bound :: "nat \<Rightarrow> (nat \<Rightarrow> (io_error, bool) outcome) \<Rightarrow> (io_error, nat) outcome" where
  "lower_bound len is_less = lower_bound_loop is_less 0 len"

section \<open>Leaf nodes\<close>

definition get_doc_id :: "page \<Rightarrow> nat \<Rightarrow> (io_error, doc_id) outcome" where
  "get_doc_id pg i =
     bindO (read_u64 pg (get_slot_start LEAF_SLOT i + 4)) (\<lambda>page_id.
     bindO (read_u16 pg (get_slot_start LEAF_SLOT i + 12)) (\<lambda>slot_id. Ok (page_id, slot_id)))"

definition set_next_leaf :: "page_id \<Rightarrow> page \<Rightarrow> (io_error, page) outcome" where
  "set_next_leaf p pg = write_u64 pg 5 p"

definition get_next_leaf :: "page \<Rightarrow> (io_error, page_id) outcome" where
  "get_next_leaf pg = read_u64 pg 5"

definition leaf_init :: "page \<Rightarrow> (io_error, page) outcome" where
  "leaf_init pg = bindO (write_u16 (replicate (length pg) 0) 3 PAGE_SIZE) (set_next_leaf NO_NEXT_LEAF)"

definition leaf_lower_bound_key :: "key \<Rightarrow> page \<Rightarrow> (io_error, nat) outcome" where
  "leaf_lower_bound_key key pg =
     bindO (get_key_count pg) (\<lambda>n. lower_bound n (\<lambda>i. bindO (get_key LEAF_SLOT pg i) (\<lambda>k. Ok (k < key))))"

definition lower_bound_key_doc :: "key \<Rightarrow> doc_id \<Rightarrow> page \<Rightarrow> (io_error, nat) outcome" where
  "lower_bound_key_doc key doc pg =
     bindO (get_key_count pg) (\<lambda>n. lower_bound n (\<lambda>i.
       bindO (get_key LEAF_SLOT pg i) (\<lambda>mid_key.
       if mid_key < key then Ok True
       else if mid_key = key then bindO (get_doc_id pg i) (\<lambda>d. Ok (d < doc))
       else Ok False)))"

text \<open>
  The part of \<open>insert_slot\<close> after the position is known, the same code in both node types: make
  room in the slot array, store the key, write the header and the slot.
\<close>

definition node_insert_at :: "nat \<Rightarrow> nat \<Rightarrow> key \<Rightarrow> byte list \<Rightarrow> page \<Rightarrow> (io_error, page) outcome" where
  "node_insert_at w index key payload pg =
     bindO (get_key_count pg) (\<lambda>key_count.
     bindO (copy_within pg (get_slot_start w index) (get_slot_start w key_count) (get_slot_start w (index + 1))) (\<lambda>pg.
     bindO (set_key key pg) (\<lambda>(free_offset, pg).
     bindO (set_free_offset free_offset pg) (\<lambda>pg.
     bindO (set_key_count (key_count + 1) pg) (\<lambda>pg.
     bindO (write_u16 pg (get_slot_start w index) free_offset) (\<lambda>pg.
     bindO (write_u16 pg (get_slot_start w index + 2) (length key)) (\<lambda>pg.
     write_range pg (get_slot_start w index + 4) payload)))))))"

definition doc_id_bytes :: "doc_id \<Rightarrow> byte list" where
  "doc_id_bytes d = le_bytes 8 (fst d) @ le_bytes 2 (snd d)"

text \<open>The guard against a repeated entry; \<open>same\<close> compares the payload at the position.\<close>

definition already_there :: "nat \<Rightarrow> key \<Rightarrow> (io_error, bool) outcome \<Rightarrow> nat \<Rightarrow> page \<Rightarrow> (io_error, bool) outcome" where
  "already_there w key same index pg =
     bindO (get_key_count pg) (\<lambda>key_count.
     if index < key_count
     then bindO (get_key w pg index) (\<lambda>k. if k = key then same else Ok False)
     else Ok False)"

definition leaf_insert_slot :: "key \<Rightarrow> doc_id \<Rightarrow> page \<Rightarrow> (io_error, page) outcome" where
  "leaf_insert_slot key doc pg =
     bindO (lower_bound_key_doc key doc pg) (\<lambda>index.
     bindO (already_there LEAF_SLOT key (bindO (get_doc_id pg index) (\<lambda>d. Ok (d = doc))) index pg) (\<lambda>dup.
     if dup then Panic ''slot entry already exists''
     else node_insert_at LEAF_SLOT index key (doc_id_bytes doc) pg))"

definition leaf_entries :: "page \<Rightarrow> (io_error, (key \<times> doc_id) list) outcome" where
  "leaf_entries pg =
     bindO (get_key_count pg) (\<lambda>n. mapO (\<lambda>i.
       bindO (get_key LEAF_SLOT pg i) (\<lambda>k. bindO (get_doc_id pg i) (\<lambda>d. Ok (k, d)))) [0..<n])"

fun leaf_insert_all :: "(key \<times> doc_id) list \<Rightarrow> page \<Rightarrow> (io_error, page) outcome" where
  "leaf_insert_all [] pg = Ok pg"
| "leaf_insert_all ((key, doc) # es) pg = bindO (leaf_insert_slot key doc pg) (leaf_insert_all es)"

definition leaf_rebuild :: "(key \<times> doc_id) list \<Rightarrow> page_id \<Rightarrow> page \<Rightarrow> (io_error, page) outcome" where
  "leaf_rebuild entries next_leaf pg =
     bindO (leaf_init pg) (\<lambda>pg.
     bindO (set_next_leaf next_leaf pg) (leaf_insert_all entries))"

section \<open>Internal nodes\<close>

definition get_child :: "page \<Rightarrow> nat \<Rightarrow> (io_error, page_id) outcome" where
  "get_child pg i = read_u64 pg (get_slot_start INTERNAL_SLOT i + 4)"

definition get_leftmost_child :: "page \<Rightarrow> (io_error, page_id) outcome" where
  "get_leftmost_child pg = read_u64 pg 5"

definition internal_init :: "page_id \<Rightarrow> page \<Rightarrow> (io_error, page) outcome" where
  "internal_init leftmost pg =
     bindO (write_range (replicate (length pg) 0) 0 [1]) (\<lambda>pg.
     bindO (write_u16 pg 3 PAGE_SIZE) (\<lambda>pg. write_u64 pg 5 leftmost))"

definition internal_lower_bound_key :: "key \<Rightarrow> page \<Rightarrow> (io_error, nat) outcome" where
  "internal_lower_bound_key key pg =
     bindO (get_key_count pg) (\<lambda>n. lower_bound n (\<lambda>i. bindO (get_key INTERNAL_SLOT pg i) (\<lambda>k. Ok (k < key))))"

definition upper_bound_key :: "key \<Rightarrow> page \<Rightarrow> (io_error, nat) outcome" where
  "upper_bound_key key pg =
     bindO (get_key_count pg) (\<lambda>n. lower_bound n (\<lambda>i. bindO (get_key INTERNAL_SLOT pg i) (\<lambda>k. Ok (k \<le> key))))"

definition internal_insert_slot :: "key \<Rightarrow> page_id \<Rightarrow> page \<Rightarrow> (io_error, page) outcome" where
  "internal_insert_slot key child pg =
     bindO (internal_lower_bound_key key pg) (\<lambda>index.
     bindO (already_there INTERNAL_SLOT key (bindO (get_child pg index) (\<lambda>c. Ok (c = child))) index pg) (\<lambda>dup.
     if dup then Panic ''slot entry already exists''
     else node_insert_at INTERNAL_SLOT index key (le_bytes 8 child) pg))"

definition child_at :: "page \<Rightarrow> nat \<Rightarrow> (io_error, page_id) outcome" where
  "child_at pg index = (if index = 0 then get_leftmost_child pg else get_child pg (index - 1))"

fun find_child_from :: "page_id \<Rightarrow> page \<Rightarrow> nat list \<Rightarrow> (io_error, nat option) outcome" where
  "find_child_from child pg [] = Ok None"
| "find_child_from child pg (i # is) =
     bindO (get_child pg i) (\<lambda>c. if c = child then Ok (Some (i + 1)) else find_child_from child pg is)"

definition find_child_index :: "page_id \<Rightarrow> page \<Rightarrow> (io_error, nat option) outcome" where
  "find_child_index child pg =
     bindO (get_leftmost_child pg) (\<lambda>l.
     if l = child then Ok (Some 0)
     else bindO (get_key_count pg) (\<lambda>n. find_child_from child pg [0..<n]))"

definition child_for_key :: "key \<Rightarrow> page \<Rightarrow> (io_error, page_id) outcome" where
  "child_for_key key pg = bindO (upper_bound_key key pg) (child_at pg)"

definition child_for_lower_bound :: "key \<Rightarrow> page \<Rightarrow> (io_error, page_id) outcome" where
  "child_for_lower_bound key pg = bindO (internal_lower_bound_key key pg) (child_at pg)"

definition internal_entries :: "page \<Rightarrow> (io_error, (key \<times> page_id) list) outcome" where
  "internal_entries pg =
     bindO (get_key_count pg) (\<lambda>n. mapO (\<lambda>i.
       bindO (get_key INTERNAL_SLOT pg i) (\<lambda>k. bindO (get_child pg i) (\<lambda>c. Ok (k, c)))) [0..<n])"

fun internal_insert_all :: "(key \<times> page_id) list \<Rightarrow> page \<Rightarrow> (io_error, page) outcome" where
  "internal_insert_all [] pg = Ok pg"
| "internal_insert_all ((key, child) # es) pg = bindO (internal_insert_slot key child pg) (internal_insert_all es)"

definition internal_rebuild :: "page_id \<Rightarrow> (key \<times> page_id) list \<Rightarrow> page \<Rightarrow> (io_error, page) outcome" where
  "internal_rebuild leftmost entries pg = bindO (internal_init leftmost pg) (internal_insert_all entries)"

section \<open>The invariant of the layout\<close>

definition node_count :: "page \<Rightarrow> nat" where "node_count pg = u16_at pg 1"
definition node_free :: "page \<Rightarrow> nat" where "node_free pg = u16_at pg 3"
definition node_link :: "page \<Rightarrow> page_id" where "node_link pg = le_val (get_slice pg 5 8)"

definition key_offset :: "nat \<Rightarrow> page \<Rightarrow> nat \<Rightarrow> nat" where "key_offset w pg i = u16_at pg (get_slot_start w i)"
definition key_length :: "nat \<Rightarrow> page \<Rightarrow> nat \<Rightarrow> nat" where "key_length w pg i = u16_at pg (get_slot_start w i + 2)"

definition node_key :: "nat \<Rightarrow> page \<Rightarrow> nat \<Rightarrow> key" where
  "node_key w pg i = get_slice pg (key_offset w pg i) (key_length w pg i)"

definition node_payload :: "nat \<Rightarrow> page \<Rightarrow> nat \<Rightarrow> byte list" where
  "node_payload w pg i = get_slice pg (get_slot_start w i + 4) (w - 4)"

definition node_slots :: "nat \<Rightarrow> page \<Rightarrow> (key \<times> byte list) list" where
  "node_slots w pg = map (\<lambda>i. (node_key w pg i, node_payload w pg i)) [0..<node_count pg]"

definition node_ok :: "nat \<Rightarrow> page \<Rightarrow> bool" where
  "node_ok w pg \<longleftrightarrow> length pg = PAGE_SIZE \<and> get_slot_start w (node_count pg) \<le> node_free pg \<and> node_free pg \<le> PAGE_SIZE
     \<and> (\<forall>i < node_count pg. node_free pg \<le> key_offset w pg i \<and> key_offset w pg i + key_length w pg i \<le> PAGE_SIZE)"

definition node_room :: "nat \<Rightarrow> page \<Rightarrow> nat" where
  "node_room w pg = node_free pg - get_slot_start w (node_count pg)"

lemma node_okD:
  assumes "node_ok w pg"
  shows "length pg = PAGE_SIZE" "get_slot_start w (node_count pg) \<le> node_free pg" "node_free pg \<le> PAGE_SIZE"
    "i < node_count pg \<Longrightarrow> node_free pg \<le> key_offset w pg i"
    "i < node_count pg \<Longrightarrow> key_offset w pg i + key_length w pg i \<le> PAGE_SIZE"
  using assms by (auto simp: node_ok_def)

lemma length_node_slots [simp]: "length (node_slots w pg) = node_count pg"
  by (simp add: node_slots_def)

lemma nth_node_slots: "i < node_count pg \<Longrightarrow> node_slots w pg ! i = (node_key w pg i, node_payload w pg i)"
  by (simp add: node_slots_def)

lemma slot_start_mono: "i < j \<Longrightarrow> get_slot_start w i + w \<le> get_slot_start w j"
  using mult_le_mono1 [of "Suc i" j w] by (simp add: get_slot_start_def)

lemma slot_start_Suc [simp]: "get_slot_start w (Suc i) = get_slot_start w i + w"
  by (simp add: get_slot_start_def)

lemma slot_start_ge: "NODE_HEADER_SIZE \<le> get_slot_start w i" "13 \<le> get_slot_start w i"
  by (simp_all add: get_slot_start_def NODE_HEADER_SIZE_def)

lemma slot_in_page:
  assumes "node_ok w pg" and "i < node_count pg"
  shows "get_slot_start w i + w \<le> length pg"
  using slot_start_mono [OF assms(2), of w] node_okD(1-3) [OF assms(1)] by simp

lemma header_Ok:
  assumes "node_ok w pg"
  shows "get_key_count pg = Ok (node_count pg)" "get_free_offset pg = Ok (node_free pg)"
    "get_next_leaf pg = Ok (node_link pg)" "get_leftmost_child pg = Ok (node_link pg)"
  using node_okD(1) [OF assms]
  by (simp_all add: get_key_count_def get_free_offset_def get_next_leaf_def get_leftmost_child_def
      node_count_def node_free_def node_link_def PAGE_SIZE_def)

lemma get_key_Ok:
  assumes "node_ok w pg" and "i < node_count pg" and "4 \<le> w"
  shows "get_key w pg i = Ok (node_key w pg i)"
  using slot_in_page [OF assms(1,2)] node_okD(1,5) [OF assms(1)] assms(2,3)
  by (simp add: get_key_def node_key_def key_offset_def key_length_def)

lemma has_space_Ok:
  assumes "node_ok w pg"
  shows "has_space w n pg = Ok (n + w \<le> node_room w pg)"
  using node_okD(2) [OF assms] by (auto simp: has_space_def header_Ok [OF assms] node_room_def)

section \<open>Insertion at a position\<close>

lemma get_put_inside:
  assumes "off + length bs \<le> length xs" and "off \<le> off'" and "off' + n \<le> off + length bs"
  shows "get_slice (put_slice xs off bs) off' n = get_slice bs (off' - off) n"
proof -
  have "off' - off + n \<le> length bs" using assms by simp
  then show ?thesis using assms by (simp add: get_slice_def put_slice_def min_def)
qed

lemma get_get_slice: "a + n \<le> m \<Longrightarrow> get_slice (get_slice xs off m) a n = get_slice xs (off + a) n"
  by (simp add: get_slice_def take_drop min_def add.commute)

text \<open>The bytes after an insertion: the slot goes to \<open>S\<close>, the slots end at \<open>E\<close>, the key goes to \<open>off\<close>.\<close>

definition ins_bytes :: "page \<Rightarrow> nat \<Rightarrow> nat \<Rightarrow> nat \<Rightarrow> nat \<Rightarrow> key \<Rightarrow> nat \<Rightarrow> byte list \<Rightarrow> page" where
  "ins_bytes pg S E w off key n payload =
     put_slice (put_slice (put_slice (put_slice (put_slice (put_slice
       (put_slice pg (S + w) (get_slice pg S (E - S))) off key)
       3 (le_bytes 2 off)) 1 (le_bytes 2 n)) S (le_bytes 2 off)) (S + 2) (le_bytes 2 (length key))) (S + 4) payload"

definition ins_layout :: "page \<Rightarrow> nat \<Rightarrow> nat \<Rightarrow> nat \<Rightarrow> nat \<Rightarrow> key \<Rightarrow> byte list \<Rightarrow> bool" where
  "ins_layout pg S E w off key payload \<longleftrightarrow> length pg = 4096 \<and> 13 \<le> S \<and> S \<le> E \<and> E + w \<le> off \<and> off + length key \<le> 4096
     \<and> w = length payload + 4"

lemma length_ins_bytes: "ins_layout pg S E w off key payload \<Longrightarrow> length (ins_bytes pg S E w off key n payload) = 4096"
  by (simp add: ins_bytes_def ins_layout_def)

lemma ins_same:
  assumes "ins_layout pg S E w off key payload"
    and "a + k \<le> 1 \<or> 5 \<le> a \<and> a + k \<le> S \<or> off + length key \<le> a \<and> a + k \<le> 4096"
  shows "get_slice (ins_bytes pg S E w off key n payload) a k = get_slice pg a k"
  using assms(2)
proof (elim disjE)
qed (use assms(1) in \<open>simp_all add: ins_bytes_def ins_layout_def get_put_other\<close>)

lemma ins_shift:
  assumes "ins_layout pg S E w off key payload" and "S \<le> a" and "a + k \<le> E"
  shows "get_slice (ins_bytes pg S E w off key n payload) (a + w) k = get_slice pg a k"
  using assms by (simp add: ins_bytes_def ins_layout_def get_put_other get_put_inside get_get_slice)

lemma ins_fields:
  assumes "ins_layout pg S E w off key payload" and "n < 65536"
  shows "u16_at (ins_bytes pg S E w off key n payload) 1 = n"
    "u16_at (ins_bytes pg S E w off key n payload) 3 = off"
    "u16_at (ins_bytes pg S E w off key n payload) S = off"
    "u16_at (ins_bytes pg S E w off key n payload) (S + 2) = length key"
    "get_slice (ins_bytes pg S E w off key n payload) (S + 4) (length payload) = payload"
    "get_slice (ins_bytes pg S E w off key n payload) off (length key) = key"
  using assms
  by (simp_all add: ins_bytes_def ins_layout_def u16_at_put u16_at_put_same get_put_other get_put_same)

lemma ins_code:
  assumes "ins_layout pg S E w off key payload" and "u16_at pg 3 = off + length key"
  shows "bindO (copy_within pg S E (S + w)) (\<lambda>pg.
     bindO (set_key key pg) (\<lambda>(free_offset, pg).
     bindO (set_free_offset free_offset pg) (\<lambda>pg.
     bindO (set_key_count n pg) (\<lambda>pg.
     bindO (write_u16 pg S free_offset) (\<lambda>pg.
     bindO (write_u16 pg (S + 2) (length key)) (\<lambda>pg.
     write_range pg (S + 4) payload)))))) = Ok (ins_bytes pg S E w off key n payload)"
proof -
  note b = assms(1) [unfolded ins_layout_def]
  show ?thesis
    using b by (simp add: copy_within_def set_key_def get_free_offset_def u16_at_put assms(2) ins_bytes_def set_free_offset_def set_key_count_def)
qed

section \<open>Insertion on the views\<close>

definition ins_pre :: "nat \<Rightarrow> nat \<Rightarrow> key \<Rightarrow> byte list \<Rightarrow> page \<Rightarrow> bool" where
  "ins_pre w index key payload pg \<longleftrightarrow> node_ok w pg \<and> index \<le> node_count pg \<and> length key + w \<le> node_room w pg
     \<and> w = length payload + 4"

lemma ins_preD:
  assumes "ins_pre w index key payload pg"
  shows "node_ok w pg" "index \<le> node_count pg" "length key + w \<le> node_room w pg" "w = length payload + 4"
  using assms unfolding ins_pre_def by blast+

lemma node_count_bound:
  assumes "node_ok w pg" and "0 < w"
  shows "node_count pg < 65535"
proof -
  have "node_count pg * 1 \<le> node_count pg * w" using assms(2) by (intro mult_le_mono2) simp
  then have "node_count pg \<le> get_slot_start w (node_count pg)" unfolding get_slot_start_def by linarith
  with node_okD(2,3) [OF assms(1)] show ?thesis by (simp add: PAGE_SIZE_def)
qed

lemma ins_pre_layout:
  assumes "ins_pre w index key payload pg"
  shows "ins_layout pg (get_slot_start w index) (get_slot_start w (node_count pg)) w (node_free pg - length key) key payload"
    and "node_free pg - length key + length key = node_free pg" and "node_count pg + 1 < 65536"
proof -
  note ok = ins_preD(1) [OF assms] and index = ins_preD(2) [OF assms] and room = ins_preD(3) [OF assms]
    and w = ins_preD(4) [OF assms]
  have "get_slot_start w index \<le> get_slot_start w (node_count pg)"
    using index slot_start_mono [of index "node_count pg" w] by (cases "index = node_count pg") auto
  moreover have "get_slot_start w (node_count pg) + w + length key \<le> node_free pg"
    using room node_okD(2) [OF ok] by (simp add: node_room_def)
  moreover have "node_free pg \<le> 4096" "length pg = 4096" using node_okD(1,3) [OF ok] by (simp_all add: PAGE_SIZE_def)
  ultimately show "ins_layout pg (get_slot_start w index) (get_slot_start w (node_count pg)) w (node_free pg - length key) key payload"
    and "node_free pg - length key + length key = node_free pg"
    using slot_start_ge(2) [of w index] w by (auto simp: ins_layout_def)
  show "node_count pg + 1 < 65536" using node_count_bound [OF ok] w by simp
qed

definition inserted_node :: "nat \<Rightarrow> nat \<Rightarrow> key \<Rightarrow> byte list \<Rightarrow> page \<Rightarrow> page" where
  "inserted_node w index key payload pg =
     ins_bytes pg (get_slot_start w index) (get_slot_start w (node_count pg)) w (node_free pg - length key) key
       (node_count pg + 1) payload"

lemma node_insert_at_Ok:
  assumes "ins_pre w index key payload pg"
  shows "node_insert_at w index key payload pg = Ok (inserted_node w index key payload pg)"
proof -
  note ok = ins_preD(1) [OF assms]
  have "u16_at pg 3 = node_free pg - length key + length key" using ins_pre_layout(2) [OF assms] by (simp add: node_free_def)
  from ins_code [OF ins_pre_layout(1) [OF assms] this, of "node_count pg + 1"]
  show ?thesis by (simp add: node_insert_at_def header_Ok [OF ok] inserted_node_def)
qed

text \<open>The slots of the new page: those before the position, the new one, the old ones moved up.\<close>

lemma inserted_slot:
  assumes pre: "ins_pre w index key payload pg"
  defines "pg' \<equiv> inserted_node w index key payload pg"
  shows "node_count pg' = node_count pg + 1" and "node_free pg' = node_free pg - length key"
    and "node_link pg' = node_link pg" and "hd pg' = hd pg" and "length pg' = PAGE_SIZE"
    and "i < index \<Longrightarrow> get_slice pg' (get_slot_start w i) w = get_slice pg (get_slot_start w i) w"
    and "index \<le> i \<Longrightarrow> i < node_count pg \<Longrightarrow> get_slice pg' (get_slot_start w (i + 1)) w = get_slice pg (get_slot_start w i) w"
    and "key_offset w pg' index = node_free pg - length key" and "key_length w pg' index = length key"
    and "node_key w pg' index = key" and "node_payload w pg' index = payload"
    and "node_free pg \<le> a \<Longrightarrow> a + k \<le> PAGE_SIZE \<Longrightarrow> get_slice pg' a k = get_slice pg a k"
proof -
  note lay = ins_pre_layout(1) [OF pre] and fr = ins_pre_layout(2) [OF pre] and cnt = ins_pre_layout(3) [OF pre]
  note lay' = lay [unfolded ins_layout_def]
  note ok = ins_preD(1) [OF pre] and w = ins_preD(4) [OF pre]
  note f = ins_fields [OF lay cnt, folded inserted_node_def, folded pg'_def]
  note same = ins_same [OF lay, of _ _ "node_count pg + 1", folded inserted_node_def, folded pg'_def]
  show "node_count pg' = node_count pg + 1" "node_free pg' = node_free pg - length key"
    using f by (simp_all add: node_count_def node_free_def)
  show "node_link pg' = node_link pg" unfolding node_link_def by (subst same) (use lay' in auto)
  have "get_slice pg' 0 1 = get_slice pg 0 1" by (rule same) simp
  moreover show len: "length pg' = PAGE_SIZE"
    using length_ins_bytes [OF lay] by (simp add: pg'_def inserted_node_def PAGE_SIZE_def)
  ultimately show "hd pg' = hd pg" using lay' by (cases pg; cases pg') (auto simp: get_slice_def PAGE_SIZE_def)
  show ko: "key_offset w pg' index = node_free pg - length key" and kl: "key_length w pg' index = length key"
    using f by (simp_all add: key_offset_def key_length_def)
  show "node_key w pg' index = key" using f(6) by (simp add: node_key_def ko kl)
  show "node_payload w pg' index = payload" using f(5) w by (simp add: node_payload_def)
  show "get_slice pg' a k = get_slice pg a k" if "node_free pg \<le> a" "a + k \<le> PAGE_SIZE"
    by (rule same) (use that fr in \<open>simp add: PAGE_SIZE_def\<close>)
  show "get_slice pg' (get_slot_start w i) w = get_slice pg (get_slot_start w i) w" if "i < index"
    by (rule same) (use slot_start_mono [OF that, of w] slot_start_ge(2) [of w i] in simp)
  show "get_slice pg' (get_slot_start w (i + 1)) w = get_slice pg (get_slot_start w i) w" if "index \<le> i" "i < node_count pg"
  proof -
    have "get_slot_start w index \<le> get_slot_start w i" using that(1) by (simp add: get_slot_start_def)
    moreover have "get_slot_start w i + w \<le> get_slot_start w (node_count pg)" by (rule slot_start_mono [OF that(2)])
    ultimately show ?thesis using ins_shift [OF lay, of "get_slot_start w i" w] by (simp add: pg'_def inserted_node_def)
  qed
qed

text \<open>A slot's fields depend on its own bytes only, and its key on the bytes at or after the free offset.\<close>

lemma slot_fields_eq:
  assumes "get_slice pg' (get_slot_start w j) w = get_slice pg (get_slot_start w i) w" and "4 \<le> w"
  shows "key_offset w pg' j = key_offset w pg i" "key_length w pg' j = key_length w pg i" "node_payload w pg' j = node_payload w pg i"
proof -
  have "get_slice pg' (get_slot_start w j + a) n = get_slice pg (get_slot_start w i + a) n" if "a + n \<le> w" for a n
    using assms(1) get_get_slice [OF that] by metis
  from this [of 0 2] this [of 2 2] this [of 4 "w - 4"] assms(2)
  show "key_offset w pg' j = key_offset w pg i" "key_length w pg' j = key_length w pg i" "node_payload w pg' j = node_payload w pg i"
    by (simp_all add: key_offset_def key_length_def node_payload_def u16_at_def)
qed

lemma inserted_node_slots:
  assumes pre: "ins_pre w index key payload pg"
  defines "pg' \<equiv> inserted_node w index key payload pg"
  shows "node_ok w pg'"
    and "node_slots w pg' = take index (node_slots w pg) @ (key, payload) # drop index (node_slots w pg)"
proof -
  note ok = ins_preD(1) [OF pre] and idx = ins_preD(2) [OF pre]
  have w: "4 \<le> w" using ins_preD(4) [OF pre] by simp
  note sl = inserted_slot [OF pre, folded pg'_def]
  define src where "src j = (if j < index then j else j - 1)" for j
  have moved: "get_slice pg' (get_slot_start w j) w = get_slice pg (get_slot_start w (src j)) w" "src j < node_count pg"
    if "j \<noteq> index" "j < node_count pg'" for j
    using that idx sl(1) sl(6) [of j] sl(7) [of "j - 1"] by (auto simp: src_def)
  note fields = slot_fields_eq [OF moved(1) w]
  have fr: "node_free pg' + length key = node_free pg" using ins_pre_layout(2) [OF pre] sl(2) by simp
  have key_eq: "node_key w pg' j = node_key w pg (src j)" if "j \<noteq> index" "j < node_count pg'" for j
    using fields(1,2) [OF that] sl(12) node_okD(4,5) [OF ok moved(2) [OF that]] by (simp add: node_key_def)
  have lay: "get_slot_start w (node_count pg) + w \<le> node_free pg'"
    unfolding sl(2) using ins_pre_layout(1) [OF pre, unfolded ins_layout_def] by blast
  show "node_ok w pg'"
    unfolding node_ok_def
  proof (intro conjI allI impI)
    fix j assume j: "j < node_count pg'"
    show "node_free pg' \<le> key_offset w pg' j" "key_offset w pg' j + key_length w pg' j \<le> PAGE_SIZE"
      using j fields(1,2) [OF _ j] node_okD(3,4,5) [OF ok] moved(2) [OF _ j] sl(2,8,9) fr by (cases "j = index"; force)+
  qed (use sl(1,5) lay fr node_okD(3) [OF ok] in auto)
  show "node_slots w pg' = take index (node_slots w pg) @ (key, payload) # drop index (node_slots w pg)"
  proof (rule nth_equalityI)
    show "length (node_slots w pg') = length (take index (node_slots w pg) @ (key, payload) # drop index (node_slots w pg))"
      using sl(1) idx by simp
    fix j assume "j < length (node_slots w pg')"
    then have j: "j < node_count pg'" by simp
    show "node_slots w pg' ! j = (take index (node_slots w pg) @ (key, payload) # drop index (node_slots w pg)) ! j"
    proof (cases "j = index")
      case True
      then show ?thesis using j sl(10,11) idx by (simp add: nth_node_slots nth_append)
    next
      case False
      then have "node_slots w pg' ! j = node_slots w pg ! src j"
        using j key_eq fields(3) moved(2) by (simp add: nth_node_slots)
      with False j idx sl(1) show ?thesis by (auto simp: nth_append src_def nth_Cons' min_def)
    qed
  qed
qed

section \<open>Binary search finds the partition point\<close>

lemma lower_bound_loop_Ok:
  assumes f: "\<And>i. i < n \<Longrightarrow> is_less i = Ok (P i)" and mono: "\<And>i j. i \<le> j \<Longrightarrow> j < n \<Longrightarrow> P j \<Longrightarrow> P i"
    and "\<forall>i < left. P i" and "\<forall>i < n. right \<le> i \<longrightarrow> \<not> P i" and "left \<le> right" "right \<le> n"
  shows "\<exists>k \<le> n. lower_bound_loop is_less left right = Ok k \<and> (\<forall>i < n. P i \<longleftrightarrow> i < k)"
  using assms(3-)
proof (induction "right - left" arbitrary: left right rule: less_induct)
  case less
  let ?mid = "left + (right - left) div 2"
  show ?case
  proof (cases "left < right")
    case False
    then have "\<forall>i < n. P i \<longleftrightarrow> i < left" using less.prems by (metis not_le order_antisym)
    then show ?thesis using less.prems False by (subst lower_bound_loop.simps) auto
  next
    case True
    then have m: "left \<le> ?mid" "?mid < right" "?mid < n" using less.prems by linarith+
    show ?thesis
    proof (cases "P ?mid")
      case True
      have "\<exists>k \<le> n. lower_bound_loop is_less (?mid + 1) right = Ok k \<and> (\<forall>i < n. P i \<longleftrightarrow> i < k)"
      proof (rule less.hyps)
        show "right - (?mid + 1) < right - left" "?mid + 1 \<le> right" using m by linarith+
        show "\<forall>i < ?mid + 1. P i" using mono [OF _ m(3) True] by (simp add: less_Suc_eq_le)
      qed (use less.prems in simp_all)
      with True \<open>left < right\<close> f [OF m(3)] show ?thesis by (subst lower_bound_loop.simps) (simp add: Let_def)
    next
      case False
      have "\<exists>k \<le> n. lower_bound_loop is_less left ?mid = Ok k \<and> (\<forall>i < n. P i \<longleftrightarrow> i < k)"
      proof (rule less.hyps)
        show "?mid - left < right - left" "left \<le> ?mid" "?mid \<le> n" using m by linarith+
        show "\<forall>i < n. ?mid \<le> i \<longrightarrow> \<not> P i" using mono False by blast
      qed (use less.prems in simp_all)
      with False \<open>left < right\<close> f [OF m(3)] show ?thesis by (subst lower_bound_loop.simps) (simp add: Let_def)
    qed
  qed
qed

lemma lower_bound_takeWhile:
  assumes "\<And>i. i < length xs \<Longrightarrow> is_less i = Ok (Q (xs ! i))" and "sorted_wrt (\<lambda>x y. Q y \<longrightarrow> Q x) xs"
  shows "lower_bound (length xs) is_less = Ok (length (takeWhile Q xs))"
proof -
  have mono: "Q (xs ! i)" if "i \<le> j" "j < length xs" "Q (xs ! j)" for i j
    using that assms(2) unfolding sorted_wrt_iff_nth_less by (metis le_neq_implies_less)
  obtain k where k: "k \<le> length xs" "lower_bound_loop is_less 0 (length xs) = Ok k" "\<forall>i < length xs. Q (xs ! i) \<longleftrightarrow> i < k"
    using lower_bound_loop_Ok [of "length xs" is_less "\<lambda>i. Q (xs ! i)" 0 "length xs"] assms(1) mono by auto
  have "takeWhile Q xs = take k xs" by (rule takeWhile_eq_take_P_nth) (use k in auto)
  with k show ?thesis by (simp add: lower_bound_def)
qed

section \<open>Leaf pages as sorted lists\<close>

definition payload_doc :: "byte list \<Rightarrow> doc_id" where
  "payload_doc p = (le_val (get_slice p 0 8), le_val (get_slice p 8 2))"

definition leaf_view :: "page \<Rightarrow> (key \<times> doc_id) list" where
  "leaf_view pg = map (\<lambda>(k, p). (k, payload_doc p)) (node_slots LEAF_SLOT pg)"

definition leaf_ok :: "page \<Rightarrow> bool" where
  "leaf_ok pg \<longleftrightarrow> node_ok LEAF_SLOT pg \<and> is_leaf_page pg \<and> sorted_wrt (<) (leaf_view pg)"

definition doc_id_ok :: "doc_id \<Rightarrow> bool" where
  "doc_id_ok d \<longleftrightarrow> fst d < 2 ^ 64 \<and> snd d < 2 ^ 16"

lemma payload_doc_bytes [simp]: "doc_id_ok d \<Longrightarrow> payload_doc (doc_id_bytes d) = d"
  by (simp add: payload_doc_def doc_id_bytes_def doc_id_ok_def get_slice_def)

lemma length_leaf_view [simp]: "length (leaf_view pg) = node_count pg"
  by (simp add: leaf_view_def)

lemma nth_leaf_view:
  "i < node_count pg \<Longrightarrow> leaf_view pg ! i = (node_key LEAF_SLOT pg i, payload_doc (node_payload LEAF_SLOT pg i))"
  by (simp add: leaf_view_def nth_node_slots)

lemma get_doc_id_Ok:
  assumes "node_ok LEAF_SLOT pg" and "i < node_count pg"
  shows "get_doc_id pg i = Ok (snd (leaf_view pg ! i))"
proof -
  have "get_slot_start LEAF_SLOT i + 14 \<le> length pg" using slot_in_page [OF assms] by (simp add: LEAF_SLOT_def)
  then show ?thesis
    using assms(2) get_get_slice [of 0 8 10 pg "get_slot_start LEAF_SLOT i + 4"]
      get_get_slice [of 8 2 10 pg "get_slot_start LEAF_SLOT i + 4"]
    by (simp add: get_doc_id_def nth_leaf_view payload_doc_def node_payload_def LEAF_SLOT_def u16_at_def add.commute)
qed

lemma leaf_key_Ok:
  "node_ok LEAF_SLOT pg \<Longrightarrow> i < node_count pg \<Longrightarrow> get_key LEAF_SLOT pg i = Ok (fst (leaf_view pg ! i))"
  by (simp add: get_key_Ok nth_leaf_view LEAF_SLOT_def)

lemma leaf_okD:
  assumes "leaf_ok pg"
  shows "node_ok LEAF_SLOT pg" "is_leaf_page pg" "sorted_wrt (<) (leaf_view pg)"
  using assms by (simp_all add: leaf_ok_def)

lemma leaf_entries_Ok: "node_ok LEAF_SLOT pg \<Longrightarrow> leaf_entries pg = Ok (leaf_view pg)"
proof -
  assume ok: "node_ok LEAF_SLOT pg"
  have "leaf_entries pg = Ok (map (\<lambda>i. leaf_view pg ! i) [0..<node_count pg])"
    unfolding leaf_entries_def header_Ok(1) [OF ok] bindO_simps
    by (rule mapO_Ok_map) (simp add: leaf_key_Ok [OF ok] get_doc_id_Ok [OF ok])
  then show ?thesis by (metis length_leaf_view map_nth)
qed

lemma sorted_wrt_mono_test:
  "sorted_wrt (<) (xs :: 'a :: linorder list) \<Longrightarrow> (\<And>x y. x < y \<Longrightarrow> Q y \<Longrightarrow> Q x) \<Longrightarrow> sorted_wrt (\<lambda>x y. Q y \<longrightarrow> Q x) xs"
  by (erule sorted_wrt_mono_rel [rotated]) blast

lemma leaf_lower_bound_key_Ok:
  assumes "leaf_ok pg"
  shows "leaf_lower_bound_key key pg = Ok (length (takeWhile (\<lambda>e. fst e < key) (leaf_view pg)))"
proof -
  note ok = leaf_okD [OF assms]
  have "lower_bound (length (leaf_view pg)) (\<lambda>i. bindO (get_key LEAF_SLOT pg i) (\<lambda>k. Ok (k < key))) =
      Ok (length (takeWhile (\<lambda>e. fst e < key) (leaf_view pg)))"
  proof (rule lower_bound_takeWhile)
    show "sorted_wrt (\<lambda>x y. fst y < key \<longrightarrow> fst x < key) (leaf_view pg)"
      by (rule sorted_wrt_mono_test [OF ok(3)]) (auto simp: less_prod_def')
  qed (simp add: leaf_key_Ok [OF ok(1)])
  then show ?thesis by (simp add: leaf_lower_bound_key_def header_Ok(1) [OF ok(1)])
qed

lemma lower_bound_key_doc_Ok:
  assumes "leaf_ok pg"
  shows "lower_bound_key_doc key doc pg = Ok (length (takeWhile (\<lambda>e. e < (key, doc)) (leaf_view pg)))"
proof -
  note ok = leaf_okD [OF assms]
  have "lower_bound (length (leaf_view pg)) (\<lambda>i.
       bindO (get_key LEAF_SLOT pg i) (\<lambda>mid_key.
       if mid_key < key then Ok True
       else if mid_key = key then bindO (get_doc_id pg i) (\<lambda>d. Ok (d < doc))
       else Ok False)) =
      Ok (length (takeWhile (\<lambda>e. e < (key, doc)) (leaf_view pg)))"
  proof (rule lower_bound_takeWhile)
    show "sorted_wrt (\<lambda>x y. y < (key, doc) \<longrightarrow> x < (key, doc)) (leaf_view pg)"
      by (rule sorted_wrt_mono_test [OF ok(3)]) (rule less_trans)
  qed (simp add: leaf_key_Ok [OF ok(1)] get_doc_id_Ok [OF ok(1)] less_prod_def')
  then show ?thesis by (simp add: lower_bound_key_doc_def header_Ok(1) [OF ok(1)])
qed

lemma insort_split: "insort x xs = takeWhile (\<lambda>y. y < x) xs @ x # dropWhile (\<lambda>y. y < x) xs"
  by (induction xs) (auto simp: not_le)

lemma sorted_wrt_insort:
  "sorted_wrt (<) xs \<Longrightarrow> x \<notin> set xs \<Longrightarrow> sorted_wrt (<) (insort x xs)" for x :: "'a :: linorder"
  by (simp add: strict_sorted_iff sorted_insort distinct_insort)

lemma dropWhile_head_le:
  fixes x :: "'a :: linorder"
  assumes "length (takeWhile (\<lambda>y. y < x) xs) < length xs"
  shows "x \<le> xs ! length (takeWhile (\<lambda>y. y < x) xs)"
  using nth_length_takeWhile [OF assms] by (simp add: not_less)

text \<open>\<open>leaf_holds pg es next\<close>: the page is a leaf with these entries and this successor.\<close>

definition leaf_holds :: "page \<Rightarrow> (key \<times> doc_id) list \<Rightarrow> page_id \<Rightarrow> bool" where
  "leaf_holds pg es next \<longleftrightarrow> leaf_ok pg \<and> leaf_view pg = es \<and> node_link pg = next"

definition entry_size :: "nat \<Rightarrow> (key \<times> 'a) list \<Rightarrow> nat" where
  "entry_size w es = sum_list (map (\<lambda>(k, _). length k + w) es)"

lemma leaf_insert_slot_Ok:
  assumes leaf: "leaf_ok pg" and new: "(key, doc) \<notin> set (leaf_view pg)" and d: "doc_id_ok doc"
    and room: "length key + LEAF_SLOT \<le> node_room LEAF_SLOT pg"
  obtains pg' where "leaf_insert_slot key doc pg = Ok pg'" and "leaf_holds pg' (insort (key, doc) (leaf_view pg)) (node_link pg)"
    and "node_room LEAF_SLOT pg' = node_room LEAF_SLOT pg - (length key + LEAF_SLOT)"
proof -
  note ok = leaf_okD [OF leaf]
  let ?i = "length (takeWhile (\<lambda>e. e < (key, doc)) (leaf_view pg))"
  let ?pg = "inserted_node LEAF_SLOT ?i key (doc_id_bytes doc) pg"
  have i: "?i \<le> node_count pg" using length_takeWhile_le [of _ "leaf_view pg"] by simp
  have pre: "ins_pre LEAF_SLOT ?i key (doc_id_bytes doc) pg"
    using ok(1) i room by (simp add: ins_pre_def LEAF_SLOT_def doc_id_bytes_def)
  have "\<not> (fst (leaf_view pg ! ?i) = key \<and> snd (leaf_view pg ! ?i) = doc)" if "?i < node_count pg"
    using new that by (metis length_leaf_view nth_mem prod.collapse)
  then have run: "leaf_insert_slot key doc pg = Ok ?pg"
    by (auto simp: leaf_insert_slot_def lower_bound_key_doc_Ok [OF leaf] already_there_def header_Ok(1) [OF ok(1)]
        leaf_key_Ok [OF ok(1)] get_doc_id_Ok [OF ok(1)] node_insert_at_Ok [OF pre])
  note sl = inserted_slot [OF pre]
  have view: "leaf_view ?pg = insort (key, doc) (leaf_view pg)"
  proof -
    have "leaf_view ?pg = take ?i (leaf_view pg) @ (key, doc) # drop ?i (leaf_view pg)"
      using inserted_node_slots(2) [OF pre] d by (simp add: leaf_view_def take_map drop_map)
    then show ?thesis
      unfolding insort_split by (simp only: takeWhile_eq_take [symmetric] dropWhile_eq_drop [symmetric])
  qed
  have "leaf_ok ?pg"
    using inserted_node_slots(1) [OF pre] sl(4) ok(2) sorted_wrt_insort [OF ok(3) new]
    by (simp add: leaf_ok_def view is_leaf_page_def)
  moreover have "node_room LEAF_SLOT ?pg = node_room LEAF_SLOT pg - (length key + LEAF_SLOT)"
    using sl(1,2) by (simp add: node_room_def)
  ultimately show thesis using that [OF run] view sl(3) by (simp add: leaf_holds_def)
qed

lemma leaf_insert_slot_duplicate:
  assumes leaf: "leaf_ok pg" and "(key, doc) \<in> set (leaf_view pg)"
  shows "leaf_insert_slot key doc pg = Panic ''slot entry already exists''"
proof -
  note ok = leaf_okD [OF leaf]
  let ?xs = "leaf_view pg" let ?i = "length (takeWhile (\<lambda>e. e < (key, doc)) ?xs)"
  have "takeWhile (\<lambda>e. e < (key, doc)) ?xs \<noteq> ?xs" using assms(2) by (metis less_irrefl set_takeWhileD)
  then have i: "?i < length ?xs"
    by (metis length_takeWhile_le nat_less_le takeWhile_eq_take take_all_iff)
  obtain j where j: "j < length ?xs" "?xs ! j = (key, doc)" using assms(2) by (auto simp: in_set_conv_nth)
  have "\<not> j < ?i" using j by (metis less_irrefl nth_mem set_takeWhileD takeWhile_nth)
  moreover have "\<not> ?i < j"
    using ok(3) j dropWhile_head_le [OF i] by (metis leD sorted_wrt_nth_less)
  ultimately have "?i = j" by simp
  then show ?thesis using i j
    by (simp add: leaf_insert_slot_def lower_bound_key_doc_Ok [OF leaf] already_there_def header_Ok(1) [OF ok(1)]
        leaf_key_Ok [OF ok(1)] get_doc_id_Ok [OF ok(1)])
qed

lemma insort_last: "\<forall>y \<in> set xs. y < x \<Longrightarrow> insort x xs = xs @ [x]"
  by (induction xs) auto

lemma leaf_insert_all_Ok:
  assumes "leaf_ok pg" and "sorted_wrt (<) (leaf_view pg @ es)" and "\<forall>(k, d) \<in> set es. doc_id_ok d"
    and "entry_size LEAF_SLOT es \<le> node_room LEAF_SLOT pg"
  shows "\<exists>pg'. leaf_insert_all es pg = Ok pg' \<and> leaf_holds pg' (leaf_view pg @ es) (node_link pg)
    \<and> node_room LEAF_SLOT pg' = node_room LEAF_SLOT pg - entry_size LEAF_SLOT es"
  using assms
proof (induction es arbitrary: pg)
  case Nil
  then show ?case by (simp add: leaf_holds_def entry_size_def)
next
  case (Cons e es)
  obtain k d where e: "e = (k, d)" by (cases e)
  have below: "\<forall>y \<in> set (leaf_view pg). y < (k, d)" using Cons.prems(2) by (simp add: sorted_wrt_append e)
  obtain pg1 where pg1: "leaf_insert_slot k d pg = Ok pg1" "leaf_holds pg1 (insort (k, d) (leaf_view pg)) (node_link pg)"
    "node_room LEAF_SLOT pg1 = node_room LEAF_SLOT pg - (length k + LEAF_SLOT)"
    by (rule leaf_insert_slot_Ok [of pg k d]) (use Cons.prems below in \<open>auto simp: e entry_size_def\<close>)
  then have v: "leaf_view pg1 = leaf_view pg @ [(k, d)]" "leaf_ok pg1" "node_link pg1 = node_link pg"
    using insort_last [OF below] by (simp_all add: leaf_holds_def)
  have "sorted_wrt (<) (leaf_view pg1 @ es)" "\<forall>(k, d) \<in> set es. doc_id_ok d" "entry_size LEAF_SLOT es \<le> node_room LEAF_SLOT pg1"
    using Cons.prems v pg1(3) by (auto simp: e entry_size_def)
  from Cons.IH [OF v(2) this] show ?case using pg1 v by (auto simp: e entry_size_def)
qed

lemma leaf_init_Ok:
  assumes "length pg = PAGE_SIZE"
  obtains pg' where "leaf_init pg = Ok pg'" and "leaf_holds pg' [] NO_NEXT_LEAF" and "node_room LEAF_SLOT pg' = PAGE_SIZE - NODE_HEADER_SIZE"
proof -
  let ?z = "replicate PAGE_SIZE (0 :: byte)"
  let ?pg = "put_slice (put_slice ?z 3 (le_bytes 2 PAGE_SIZE)) 5 (le_bytes 8 NO_NEXT_LEAF)"
  have run: "leaf_init pg = Ok ?pg" using assms by (simp add: leaf_init_def set_next_leaf_def PAGE_SIZE_def)
  have "le_val (get_slice ?z 1 2) = 0" by (simp add: get_slice_def PAGE_SIZE_def numeral_2_eq_2)
  then have c: "node_count ?pg = 0"
    by (simp add: node_count_def u16_at_def get_put_other PAGE_SIZE_def del: One_nat_def)
  have f: "node_free ?pg = PAGE_SIZE" by (simp add: node_free_def u16_at_put u16_at_put_same PAGE_SIZE_def)
  have l: "node_link ?pg = NO_NEXT_LEAF"
    by (simp add: node_link_def get_put_same PAGE_SIZE_def NO_NEXT_LEAF_def U64_MAX_def)
  have "hd ?pg = 0" by (simp add: put_slice_def PAGE_SIZE_def numeral_3_eq_3)
  then have "leaf_holds ?pg [] NO_NEXT_LEAF"
    using c f l by (simp add: leaf_holds_def leaf_ok_def node_ok_def leaf_view_def node_slots_def is_leaf_page_def
        get_slot_start_def NODE_HEADER_SIZE_def PAGE_SIZE_def)
  moreover have "node_room LEAF_SLOT ?pg = PAGE_SIZE - NODE_HEADER_SIZE" using c f by (simp add: node_room_def get_slot_start_def)
  ultimately show thesis using that run by blast
qed

text \<open>The link of a node lies between the header fields and the slots, so writing it keeps the entries.\<close>

lemma put_link:
  assumes ok: "node_ok w pg" and w: "4 \<le> w" and p: "p < 2 ^ 64"
  defines "pg' \<equiv> put_slice pg 5 (le_bytes 8 p)"
  shows "node_ok w pg'" "node_slots w pg' = node_slots w pg" "node_link pg' = p" "hd pg' = hd pg"
    "node_room w pg' = node_room w pg"
proof -
  have len: "length pg = 4096" using node_okD(1) [OF ok] by (simp add: PAGE_SIZE_def)
  have same: "get_slice pg' a n = get_slice pg a n" if "a + n \<le> 5 \<or> 13 \<le> a" "a + n \<le> 4096" for a n
    unfolding pg'_def by (rule get_put_other) (use that len in auto)
  have hdr: "node_count pg' = node_count pg" "node_free pg' = node_free pg"
    by (simp_all add: node_count_def node_free_def u16_at_def same)
  show "node_link pg' = p" using len p by (simp add: pg'_def node_link_def get_put_same)
  show "hd pg' = hd pg" using len by (cases pg) (auto simp: pg'_def put_slice_def)
  have "get_slice pg' (get_slot_start w i) w = get_slice pg (get_slot_start w i) w" if "i < node_count pg" for i
    by (rule same) (use slot_in_page [OF ok that] slot_start_ge(2) [of w i] len in auto)
  note fields = slot_fields_eq [OF this w]
  have "13 \<le> node_free pg" using node_okD(2) [OF ok] slot_start_ge(2) [of w "node_count pg"] by simp
  then have key: "node_key w pg' i = node_key w pg i" if "i < node_count pg" for i
    unfolding node_key_def fields [OF that] using node_okD(4,5) [OF ok that] by (intro same) (auto simp: PAGE_SIZE_def)
  show "node_ok w pg'"
    using ok len fields hdr by (auto simp: node_ok_def pg'_def)
  show "node_slots w pg' = node_slots w pg"
    using key fields(3) hdr(1) by (simp add: node_slots_def)
  show "node_room w pg' = node_room w pg" using hdr by (simp add: node_room_def)
qed

lemma set_next_leaf_Ok:
  assumes "leaf_holds pg es next" and "p < 2 ^ 64"
  obtains pg' where "set_next_leaf p pg = Ok pg'" and "leaf_holds pg' es p" and "node_room LEAF_SLOT pg' = node_room LEAF_SLOT pg"
proof -
  let ?pg = "put_slice pg 5 (le_bytes 8 p)"
  have ok: "node_ok LEAF_SLOT pg" "is_leaf_page pg" "leaf_view pg = es" "sorted_wrt (<) es"
    using assms(1) by (auto simp: leaf_holds_def leaf_ok_def)
  have w: "4 \<le> LEAF_SLOT" by (simp add: LEAF_SLOT_def)
  note l = put_link [OF ok(1) w assms(2)]
  have "leaf_holds ?pg es p" using l ok by (simp add: leaf_holds_def leaf_ok_def leaf_view_def is_leaf_page_def)
  moreover have "set_next_leaf p pg = Ok ?pg" using node_okD(1) [OF ok(1)] by (simp add: set_next_leaf_def PAGE_SIZE_def)
  ultimately show thesis using that l(5) by blast
qed

lemma leaf_rebuild_Ok:
  assumes "length pg = PAGE_SIZE" and "sorted_wrt (<) es" and "\<forall>(k, d) \<in> set es. doc_id_ok d"
    and "entry_size LEAF_SLOT es \<le> PAGE_SIZE - NODE_HEADER_SIZE" and "next < 2 ^ 64"
  obtains pg' where "leaf_rebuild es next pg = Ok pg'" and "leaf_holds pg' es next"
    and "node_room LEAF_SLOT pg' = PAGE_SIZE - NODE_HEADER_SIZE - entry_size LEAF_SLOT es"
proof -
  obtain p0 where p0: "leaf_init pg = Ok p0" "leaf_holds p0 [] NO_NEXT_LEAF" "node_room LEAF_SLOT p0 = PAGE_SIZE - NODE_HEADER_SIZE"
    by (rule leaf_init_Ok [OF assms(1)])
  obtain p1 where p1: "set_next_leaf next p0 = Ok p1" "leaf_holds p1 [] next" "node_room LEAF_SLOT p1 = node_room LEAF_SLOT p0"
    by (rule set_next_leaf_Ok [OF p0(2) assms(5)])
  from leaf_insert_all_Ok [of p1 es] assms(2-4) p0 p1
  show thesis using that by (auto simp: leaf_rebuild_def leaf_holds_def)
qed

section \<open>Internal pages as sorted lists\<close>

definition internal_view :: "page \<Rightarrow> (key \<times> page_id) list" where
  "internal_view pg = map (\<lambda>(k, p). (k, le_val p)) (node_slots INTERNAL_SLOT pg)"

definition internal_keys :: "page \<Rightarrow> key list" where
  "internal_keys pg = map fst (internal_view pg)"

definition internal_children :: "page \<Rightarrow> page_id list" where
  "internal_children pg = node_link pg # map snd (internal_view pg)"

definition internal_ok :: "page \<Rightarrow> bool" where
  "internal_ok pg \<longleftrightarrow> node_ok INTERNAL_SLOT pg \<and> \<not> is_leaf_page pg \<and> sorted_wrt (<) (internal_keys pg)"

lemma length_internal [simp]: "length (internal_view pg) = node_count pg" "length (internal_keys pg) = node_count pg"
  "length (internal_children pg) = Suc (node_count pg)"
  by (simp_all add: internal_view_def internal_keys_def internal_children_def)

lemma internal_okD:
  assumes "internal_ok pg"
  shows "node_ok INTERNAL_SLOT pg" "\<not> is_leaf_page pg" "sorted_wrt (<) (internal_keys pg)"
  using assms by (simp_all add: internal_ok_def)

lemma nth_internal_view:
  "i < node_count pg \<Longrightarrow> internal_view pg ! i = (node_key INTERNAL_SLOT pg i, le_val (node_payload INTERNAL_SLOT pg i))"
  by (simp add: internal_view_def nth_node_slots)

lemma internal_key_Ok:
  "node_ok INTERNAL_SLOT pg \<Longrightarrow> i < node_count pg \<Longrightarrow> get_key INTERNAL_SLOT pg i = Ok (internal_keys pg ! i)"
  by (simp add: get_key_Ok nth_internal_view INTERNAL_SLOT_def internal_keys_def)

lemma get_child_Ok:
  assumes "node_ok INTERNAL_SLOT pg" and "i < node_count pg"
  shows "get_child pg i = Ok (snd (internal_view pg ! i))"
  using slot_in_page [OF assms] assms(2)
  by (simp add: get_child_def nth_internal_view node_payload_def INTERNAL_SLOT_def)

lemma child_at_Ok:
  assumes "node_ok INTERNAL_SLOT pg" and "i \<le> node_count pg"
  shows "child_at pg i = Ok (internal_children pg ! i)"
  using assms by (cases i) (simp_all add: child_at_def header_Ok get_child_Ok internal_children_def)

lemma internal_entries_Ok: "node_ok INTERNAL_SLOT pg \<Longrightarrow> internal_entries pg = Ok (internal_view pg)"
proof -
  assume ok: "node_ok INTERNAL_SLOT pg"
  have "internal_entries pg = Ok (map (\<lambda>i. internal_view pg ! i) [0..<node_count pg])"
    unfolding internal_entries_def header_Ok(1) [OF ok] bindO_simps
    by (rule mapO_Ok_map) (simp add: internal_key_Ok [OF ok] get_child_Ok [OF ok] internal_keys_def)
  then show ?thesis by (metis length_internal(1) map_nth)
qed

lemma find_child_from_Ok:
  assumes "node_ok INTERNAL_SLOT pg" and "\<forall>i \<in> set is. i < node_count pg"
  shows "find_child_from c pg is = Ok (map_option Suc (find (\<lambda>i. snd (internal_view pg ! i) = c) is))"
  using assms(2) by (induction "is") (auto simp: get_child_Ok [OF assms(1)])

text \<open>The child a search descends into: the one behind the last separator that is at most the key.\<close>

lemma internal_bounds_Ok:
  assumes "internal_ok pg"
  shows "internal_lower_bound_key key pg = Ok (length (takeWhile (\<lambda>k. k < key) (internal_keys pg)))"
    and "upper_bound_key key pg = Ok (length (takeWhile (\<lambda>k. k \<le> key) (internal_keys pg)))"
proof -
  note ok = internal_okD [OF assms]
  have "lower_bound (length (internal_keys pg)) (\<lambda>i. bindO (get_key INTERNAL_SLOT pg i) (\<lambda>k. Ok (k < key))) =
      Ok (length (takeWhile (\<lambda>k. k < key) (internal_keys pg)))"
    by (rule lower_bound_takeWhile) (simp_all add: internal_key_Ok [OF ok(1)] sorted_wrt_mono_test [OF ok(3)])
  then show "internal_lower_bound_key key pg = Ok (length (takeWhile (\<lambda>k. k < key) (internal_keys pg)))"
    by (simp add: internal_lower_bound_key_def header_Ok(1) [OF ok(1)])
  have "lower_bound (length (internal_keys pg)) (\<lambda>i. bindO (get_key INTERNAL_SLOT pg i) (\<lambda>k. Ok (k \<le> key))) =
      Ok (length (takeWhile (\<lambda>k. k \<le> key) (internal_keys pg)))"
    by (rule lower_bound_takeWhile) (simp_all add: internal_key_Ok [OF ok(1)] sorted_wrt_mono_test [OF ok(3)])
  then show "upper_bound_key key pg = Ok (length (takeWhile (\<lambda>k. k \<le> key) (internal_keys pg)))"
    by (simp add: upper_bound_key_def header_Ok(1) [OF ok(1)])
qed

lemma child_for_Ok:
  assumes "internal_ok pg"
  shows "child_for_key key pg = Ok (internal_children pg ! length (takeWhile (\<lambda>k. k \<le> key) (internal_keys pg)))"
    and "child_for_lower_bound key pg = Ok (internal_children pg ! length (takeWhile (\<lambda>k. k < key) (internal_keys pg)))"
  using length_takeWhile_le [of "\<lambda>k. k \<le> key" "internal_keys pg"] length_takeWhile_le [of "\<lambda>k. k < key" "internal_keys pg"]
    internal_okD(1) [OF assms]
  by (simp_all add: child_for_key_def child_for_lower_bound_def internal_bounds_Ok [OF assms] child_at_Ok)

definition internal_holds :: "page \<Rightarrow> page_id \<Rightarrow> (key \<times> page_id) list \<Rightarrow> bool" where
  "internal_holds pg leftmost es \<longleftrightarrow> internal_ok pg \<and> node_link pg = leftmost \<and> internal_view pg = es"

lemma internal_insert_slot_Ok:
  assumes int: "internal_ok pg" and new: "key \<notin> set (internal_keys pg)" and c: "child < 2 ^ 64"
    and room: "length key + INTERNAL_SLOT \<le> node_room INTERNAL_SLOT pg"
  defines "i \<equiv> length (takeWhile (\<lambda>k. k < key) (internal_keys pg))"
  obtains pg' where "internal_insert_slot key child pg = Ok pg'"
    and "internal_holds pg' (node_link pg) (take i (internal_view pg) @ (key, child) # drop i (internal_view pg))"
    and "node_room INTERNAL_SLOT pg' = node_room INTERNAL_SLOT pg - (length key + INTERNAL_SLOT)"
proof -
  note ok = internal_okD [OF int]
  let ?pg = "inserted_node INTERNAL_SLOT i key (le_bytes 8 child) pg"
  have i: "i \<le> node_count pg" using length_takeWhile_le [of _ "internal_keys pg"] by (simp add: i_def)
  have pre: "ins_pre INTERNAL_SLOT i key (le_bytes 8 child) pg"
    using ok(1) i room by (simp add: ins_pre_def INTERNAL_SLOT_def)
  have "internal_keys pg ! i \<noteq> key" if "i < node_count pg"
    using new that by (metis length_internal(2) nth_mem)
  then have run: "internal_insert_slot key child pg = Ok ?pg"
    by (auto simp: internal_insert_slot_def internal_bounds_Ok [OF int] already_there_def header_Ok(1) [OF ok(1)]
        internal_key_Ok [OF ok(1)] node_insert_at_Ok [OF pre] simp flip: i_def)
  note sl = inserted_slot [OF pre]
  have view: "internal_view ?pg = take i (internal_view pg) @ (key, child) # drop i (internal_view pg)"
    using inserted_node_slots(2) [OF pre] c by (simp add: internal_view_def take_map drop_map)
  then have "internal_keys ?pg = take i (internal_keys pg) @ key # drop i (internal_keys pg)"
    by (simp add: internal_keys_def take_map drop_map)
  also have "\<dots> = insort key (internal_keys pg)"
    unfolding insort_split i_def by (simp only: takeWhile_eq_take [symmetric] dropWhile_eq_drop [symmetric])
  finally have "sorted_wrt (<) (internal_keys ?pg)" using sorted_wrt_insort [OF ok(3) new] by simp
  then have "internal_ok ?pg"
    using inserted_node_slots(1) [OF pre] sl(4) ok(2) by (simp add: internal_ok_def is_leaf_page_def)
  moreover have "node_room INTERNAL_SLOT ?pg = node_room INTERNAL_SLOT pg - (length key + INTERNAL_SLOT)"
    using sl(1,2) by (simp add: node_room_def)
  ultimately show thesis using that [OF run] view sl(3) by (simp add: internal_holds_def)
qed

lemma takeWhile_all_less: "\<forall>y \<in> set xs. y < x \<Longrightarrow> takeWhile (\<lambda>y. y < x) xs = xs"
  by (simp add: takeWhile_eq_all_conv)

lemma internal_insert_all_Ok:
  assumes "internal_ok pg" and "sorted_wrt (<) (internal_keys pg @ map fst es)" and "\<forall>(k, c) \<in> set es. c < 2 ^ 64"
    and "entry_size INTERNAL_SLOT es \<le> node_room INTERNAL_SLOT pg"
  shows "\<exists>pg'. internal_insert_all es pg = Ok pg' \<and> internal_holds pg' (node_link pg) (internal_view pg @ es)
    \<and> node_room INTERNAL_SLOT pg' = node_room INTERNAL_SLOT pg - entry_size INTERNAL_SLOT es"
  using assms
proof (induction es arbitrary: pg)
  case Nil
  then show ?case by (simp add: internal_holds_def entry_size_def)
next
  case (Cons e es)
  obtain k c where e: "e = (k, c)" by (cases e)
  have below: "\<forall>y \<in> set (internal_keys pg). y < k" using Cons.prems(2) by (simp add: sorted_wrt_append e)
  have i: "length (takeWhile (\<lambda>y. y < k) (internal_keys pg)) = node_count pg" by (simp add: takeWhile_all_less [OF below])
  obtain pg1 where pg1: "internal_insert_slot k c pg = Ok pg1"
    "internal_holds pg1 (node_link pg) (internal_view pg @ [(k, c)])"
    "node_room INTERNAL_SLOT pg1 = node_room INTERNAL_SLOT pg - (length k + INTERNAL_SLOT)"
    by (rule internal_insert_slot_Ok [of pg k c, unfolded i]) (use Cons.prems below in \<open>auto simp: e entry_size_def\<close>)
  then have v: "internal_view pg1 = internal_view pg @ [(k, c)]" "internal_ok pg1" "node_link pg1 = node_link pg"
    by (simp_all add: internal_holds_def)
  have "sorted_wrt (<) (internal_keys pg1 @ map fst es)" "\<forall>(k, c) \<in> set es. c < 2 ^ 64"
    "entry_size INTERNAL_SLOT es \<le> node_room INTERNAL_SLOT pg1"
    using Cons.prems v pg1(3) by (auto simp: e entry_size_def internal_keys_def)
  from Cons.IH [OF v(2) this] show ?case using pg1 v by (auto simp: e entry_size_def)
qed

lemma internal_init_Ok:
  assumes "length pg = PAGE_SIZE" and "leftmost < 2 ^ 64"
  obtains pg' where "internal_init leftmost pg = Ok pg'" and "internal_holds pg' leftmost []"
    and "node_room INTERNAL_SLOT pg' = PAGE_SIZE - NODE_HEADER_SIZE"
proof -
  let ?z = "replicate PAGE_SIZE (0 :: byte)"
  let ?pg = "put_slice (put_slice (put_slice ?z 0 [1]) 3 (le_bytes 2 PAGE_SIZE)) 5 (le_bytes 8 leftmost)"
  have run: "internal_init leftmost pg = Ok ?pg" using assms by (simp add: internal_init_def PAGE_SIZE_def)
  have "le_val (get_slice ?z 1 2) = 0" by (simp add: get_slice_def PAGE_SIZE_def numeral_2_eq_2)
  then have c: "node_count ?pg = 0"
    by (simp add: node_count_def u16_at_def get_put_other PAGE_SIZE_def del: One_nat_def)
  have f: "node_free ?pg = PAGE_SIZE" by (simp add: node_free_def u16_at_put u16_at_put_same PAGE_SIZE_def)
  have l: "node_link ?pg = leftmost" using assms(2) by (simp add: node_link_def get_put_same PAGE_SIZE_def)
  have "hd ?pg = 1" by (simp add: put_slice_def PAGE_SIZE_def numeral_3_eq_3)
  then have "internal_holds ?pg leftmost []"
    using c f l by (simp add: internal_holds_def internal_ok_def node_ok_def internal_view_def internal_keys_def node_slots_def
        is_leaf_page_def get_slot_start_def NODE_HEADER_SIZE_def PAGE_SIZE_def)
  moreover have "node_room INTERNAL_SLOT ?pg = PAGE_SIZE - NODE_HEADER_SIZE" using c f by (simp add: node_room_def get_slot_start_def)
  ultimately show thesis using that run by blast
qed

lemma internal_rebuild_Ok:
  assumes "length pg = PAGE_SIZE" and "leftmost < 2 ^ 64" and "sorted_wrt (<) (map fst es)" and "\<forall>(k, c) \<in> set es. c < 2 ^ 64"
    and "entry_size INTERNAL_SLOT es \<le> PAGE_SIZE - NODE_HEADER_SIZE"
  obtains pg' where "internal_rebuild leftmost es pg = Ok pg'" and "internal_holds pg' leftmost es"
    and "node_room INTERNAL_SLOT pg' = PAGE_SIZE - NODE_HEADER_SIZE - entry_size INTERNAL_SLOT es"
proof -
  obtain p0 where p0: "internal_init leftmost pg = Ok p0" "internal_holds p0 leftmost []"
    "node_room INTERNAL_SLOT p0 = PAGE_SIZE - NODE_HEADER_SIZE"
    by (rule internal_init_Ok [OF assms(1,2)])
  from internal_insert_all_Ok [of p0 es] assms(3-5) p0
  show thesis using that by (auto simp: internal_rebuild_def internal_holds_def internal_keys_def)
qed

end
