(* ===== verification/BTree.thy ===== *)
theory BTree
  imports BTree_Node
begin

text \<open>
  \<open>btree/btree.rs\<close>: the B+ tree over the buffer pool. A \<open>BTree\<close> is its root page id and the pool
  it borrows; a method maps that pair to an outcome and the pair it leaves.

  Every visit of a node goes through \<open>with_page_mut\<close>, as in the code. The loops that follow page
  pointers carry fuel, since a page that points back makes them run forever: one step per page of
  the file for the searches (a path or a leaf chain without repetition is no longer than that),
  and many steps per page for \<open>insert\<close>, whose loop visits a node again after splitting its child.
\<close>

section \<open>The state and its visits\<close>

type_synonym 'a tree_prog = "(page_id \<times> buffer_pool, io_error, 'a) prog"

definition on_tree :: "'a pool_prog \<Rightarrow> 'a tree_prog" where
  "on_tree m = (\<lambda>(root, s). case m s of (r, s') \<Rightarrow> (r, (root, s')))"

definition tree_root :: "page_id tree_prog" where
  "tree_root = readP fst"

definition set_root :: "page_id \<Rightarrow> unit tree_prog" where
  "set_root p = modifyP (\<lambda>(root, s). (p, s))"

definition read_node :: "page_id \<Rightarrow> (page \<Rightarrow> (io_error, 'a) outcome) \<Rightarrow> 'a pool_prog" where
  "read_node pid f = with_page_mut pid (\<lambda>pg. bindO (f pg) (\<lambda>r. Ok (r, pg)))"

definition write_node :: "page_id \<Rightarrow> (page \<Rightarrow> (io_error, page) outcome) \<Rightarrow> unit pool_prog" where
  "write_node pid f = with_page_mut pid (\<lambda>pg. bindO (f pg) (\<lambda>pg'. Ok ((), pg')))"

definition alloc_node :: "(page \<Rightarrow> (io_error, page) outcome) \<Rightarrow> page_id pool_prog" where
  "alloc_node f = bindP (new_page (\<lambda>pg. bindO (f pg) (\<lambda>pg'. Ok ((), pg')))) (\<lambda>(pid, _). returnP pid)"

text \<open>\<open>match BNode::from_page(page)\<close>\<close>

definition on_node :: "(page \<Rightarrow> (io_error, 'a) outcome) \<Rightarrow> (page \<Rightarrow> (io_error, 'a) outcome) \<Rightarrow> page \<Rightarrow> (io_error, 'a) outcome" where
  "on_node leaf internal pg = (if is_leaf_page pg then leaf pg else internal pg)"

definition expected_leaf :: "page \<Rightarrow> (io_error, 'a) outcome" where
  "expected_leaf pg = Panic ''expected a leaf node''"

definition expected_internal :: "page \<Rightarrow> (io_error, 'a) outcome" where
  "expected_internal pg = Panic ''parent must be an internal node''"

definition tree_fuel :: "buffer_pool \<Rightarrow> nat" where
  "tree_fuel s = Suc (dm_num_pages (bp_disk s))"

definition btree_new :: "page_id pool_prog" where
  "btree_new = alloc_node leaf_init"

section \<open>Search\<close>

datatype search_step = Found doc_id | NotFound | SearchGoTo page_id

definition search_leaf :: "key \<Rightarrow> page \<Rightarrow> (io_error, search_step) outcome" where
  "search_leaf key pg =
     bindO (leaf_lower_bound_key key pg) (\<lambda>index.
     bindO (get_key_count pg) (\<lambda>n.
     if index < n then
       bindO (get_key LEAF_SLOT pg index) (\<lambda>k.
       if k = key then bindO (get_doc_id pg index) (\<lambda>d. Ok (Found d)) else Ok NotFound)
     else Ok NotFound))"

definition search_at :: "page_id \<Rightarrow> key \<Rightarrow> search_step pool_prog" where
  "search_at node key = read_node node (on_node (search_leaf key) (\<lambda>pg. bindO (child_for_key key pg) (\<lambda>c. Ok (SearchGoTo c))))"

fun search_loop :: "nat \<Rightarrow> page_id \<Rightarrow> key \<Rightarrow> doc_id option pool_prog" where
  "search_loop 0 cur key = hangP"
| "search_loop (Suc n) cur key =
     bindP (search_at cur key) (\<lambda>step.
     case step of
       SearchGoTo next \<Rightarrow> search_loop n next key
     | Found doc_id \<Rightarrow> returnP (Some doc_id)
     | NotFound \<Rightarrow> returnP None)"

definition btree_search :: "key \<Rightarrow> doc_id option tree_prog" where
  "btree_search key = bindP tree_root (\<lambda>root. on_tree (bindP (readP tree_fuel) (\<lambda>n. search_loop n root key)))"

section \<open>Insertion\<close>

definition is_full :: "page_id \<Rightarrow> nat \<Rightarrow> bool pool_prog" where
  "is_full node key_len = read_node node (on_node
     (\<lambda>pg. bindO (has_space LEAF_SLOT key_len pg) (\<lambda>b. Ok (\<not> b)))
     (\<lambda>pg. bindO (has_space INTERNAL_SLOT key_len pg) (\<lambda>b. Ok (\<not> b))))"

datatype split_data =
    SplitLeaf key "(key \<times> doc_id) list" "(key \<times> doc_id) list" page_id
  | SplitInternal key page_id "(key \<times> page_id) list" "(key \<times> page_id) list" page_id

fun split_separator :: "split_data \<Rightarrow> key" where
  "split_separator (SplitLeaf separator lower upper old_next) = separator"
| "split_separator (SplitInternal separator leftmost lower upper upper_leftmost) = separator"

definition split_leaf_data :: "page \<Rightarrow> (io_error, split_data) outcome" where
  "split_leaf_data pg =
     bindO (leaf_entries pg) (\<lambda>entries.
     let mid = length entries div 2 in
     if length entries \<le> mid then Panic ''index out of bounds''
     else bindO (get_next_leaf pg) (\<lambda>old_next.
       Ok (SplitLeaf (fst (entries ! mid)) (take mid entries) (drop mid entries) old_next)))"

definition split_internal_data :: "page \<Rightarrow> (io_error, split_data) outcome" where
  "split_internal_data pg =
     bindO (internal_entries pg) (\<lambda>entries.
     let mid = length entries div 2 in
     if length entries \<le> mid then Panic ''index out of bounds''
     else bindO (get_leftmost_child pg) (\<lambda>leftmost_child.
       Ok (SplitInternal (fst (entries ! mid)) leftmost_child (take mid entries) (drop (mid + 1) entries) (snd (entries ! mid)))))"

fun sibling_page :: "split_data \<Rightarrow> page \<Rightarrow> (io_error, page) outcome" where
  "sibling_page (SplitLeaf separator lower upper old_next) pg = bindO (leaf_init pg) (leaf_insert_all upper)"
| "sibling_page (SplitInternal separator leftmost lower upper upper_leftmost) pg =
     bindO (internal_init upper_leftmost pg) (internal_insert_all upper)"

fun truncate_page :: "split_data \<Rightarrow> page_id \<Rightarrow> page \<Rightarrow> (io_error, page) outcome" where
  "truncate_page (SplitLeaf separator lower upper old_next) sibling_id pg =
     (if is_leaf_page pg then leaf_rebuild lower sibling_id pg else Panic ''split data does not match node type'')"
| "truncate_page (SplitInternal separator leftmost lower upper upper_leftmost) sibling_id pg =
     (if is_leaf_page pg then Panic ''split data does not match node type'' else internal_rebuild leftmost lower pg)"

fun link_sibling :: "split_data \<Rightarrow> page_id \<Rightarrow> unit pool_prog" where
  "link_sibling (SplitLeaf separator lower upper old_next) sibling_id = write_node sibling_id (set_next_leaf old_next)"
| "link_sibling (SplitInternal separator leftmost lower upper upper_leftmost) sibling_id = returnP ()"

definition split_node :: "page_id \<Rightarrow> page_id option \<Rightarrow> unit tree_prog" where
  "split_node node parent =
     bindP (on_tree (read_node node (on_node split_leaf_data split_internal_data))) (\<lambda>data.
     bindP (on_tree (alloc_node (sibling_page data))) (\<lambda>sibling_id.
     bindP (on_tree (write_node node (truncate_page data sibling_id))) (\<lambda>_.
     bindP (on_tree (link_sibling data sibling_id)) (\<lambda>_.
     case parent of
       Some parent \<Rightarrow> on_tree (write_node parent (on_node expected_internal (internal_insert_slot (split_separator data) sibling_id)))
     | None \<Rightarrow>
         bindP (on_tree (alloc_node (\<lambda>pg. bindO (internal_init node pg) (internal_insert_slot (split_separator data) sibling_id)))) (\<lambda>new_root.
         set_root new_root)))))"

datatype insert_step = InsertDone | InsertGoTo page_id

definition insert_at_node :: "page_id \<Rightarrow> key \<Rightarrow> doc_id \<Rightarrow> insert_step pool_prog" where
  "insert_at_node cur key doc = with_page_mut cur (on_node
     (\<lambda>pg. bindO (leaf_insert_slot key doc pg) (\<lambda>pg'. Ok (InsertDone, pg')))
     (\<lambda>pg. bindO (child_for_key key pg) (\<lambda>c. Ok (InsertGoTo c, pg))))"

fun insert_loop :: "nat \<Rightarrow> page_id \<Rightarrow> key \<Rightarrow> doc_id \<Rightarrow> unit tree_prog" where
  "insert_loop 0 cur key doc = hangP"
| "insert_loop (Suc n) cur key doc =
     bindP (on_tree (insert_at_node cur key doc)) (\<lambda>step.
     case step of
       InsertDone \<Rightarrow> returnP ()
     | InsertGoTo child \<Rightarrow>
         bindP (on_tree (is_full child (length key))) (\<lambda>full.
         if full then bindP (split_node child (Some cur)) (\<lambda>_. insert_loop n cur key doc)
         else insert_loop n child key doc))"

definition insert_fuel :: "buffer_pool \<Rightarrow> nat" where
  "insert_fuel s = PAGE_SIZE * Suc (dm_num_pages (bp_disk s))"

definition btree_insert :: "key \<Rightarrow> doc_id \<Rightarrow> unit tree_prog" where
  "btree_insert key doc =
     bindP tree_root (\<lambda>root.
     bindP (on_tree (is_full root (length key))) (\<lambda>full.
     bindP (if full then split_node root None else returnP ()) (\<lambda>_.
     bindP tree_root (\<lambda>root.
     bindP (on_tree (readP insert_fuel)) (\<lambda>n. insert_loop n root key doc)))))"

section \<open>Range scans\<close>

fun find_leaf_loop :: "nat \<Rightarrow> page_id \<Rightarrow> key \<Rightarrow> page_id pool_prog" where
  "find_leaf_loop 0 cur key = hangP"
| "find_leaf_loop (Suc n) cur key =
     bindP (read_node cur (on_node (\<lambda>pg. Ok None) (\<lambda>pg. bindO (child_for_lower_bound key pg) (\<lambda>c. Ok (Some c))))) (\<lambda>next.
     case next of None \<Rightarrow> returnP cur | Some child \<Rightarrow> find_leaf_loop n child key)"

text \<open>The loop over one leaf: the ids collected, and whether a key above the range was seen.\<close>

fun collect_from :: "nat list \<Rightarrow> key \<Rightarrow> page \<Rightarrow> (io_error, doc_id list \<times> bool) outcome" where
  "collect_from [] high pg = Ok ([], False)"
| "collect_from (i # is) high pg =
     bindO (get_key LEAF_SLOT pg i) (\<lambda>k.
     if high < k then Ok ([], True)
     else bindO (get_doc_id pg i) (\<lambda>d.
       bindO (collect_from is high pg) (\<lambda>(collected, finished). Ok (d # collected, finished))))"

definition scan_leaf :: "key \<Rightarrow> key \<Rightarrow> page \<Rightarrow> (io_error, doc_id list \<times> page_id \<times> bool) outcome" where
  "scan_leaf low high pg =
     bindO (get_key_count pg) (\<lambda>n.
     bindO (leaf_lower_bound_key low pg) (\<lambda>left.
     bindO (collect_from [left..<n] high pg) (\<lambda>(collected, finished).
     bindO (get_next_leaf pg) (\<lambda>next. Ok (collected, next, finished)))))"

fun range_scan_loop :: "nat \<Rightarrow> page_id \<Rightarrow> key \<Rightarrow> key \<Rightarrow> doc_id list pool_prog" where
  "range_scan_loop 0 cur low high = hangP"
| "range_scan_loop (Suc n) cur low high =
     bindP (read_node cur (on_node (scan_leaf low high) expected_leaf)) (\<lambda>(collected, next, finished).
     if finished \<or> next = NO_NEXT_LEAF then returnP collected
     else bindP (range_scan_loop n next low high) (\<lambda>rest. returnP (collected @ rest)))"

definition btree_range_scan :: "key \<Rightarrow> key \<Rightarrow> doc_id list tree_prog" where
  "btree_range_scan low high =
     bindP tree_root (\<lambda>root. on_tree (
     bindP (readP tree_fuel) (\<lambda>n.
     bindP (find_leaf_loop n root low) (\<lambda>leaf. range_scan_loop n leaf low high))))"

section \<open>Deletion\<close>

datatype delete_step = DeleteDone | DeleteGoTo page_id | DeleteNotFound

definition delete_leaf :: "key \<Rightarrow> doc_id \<Rightarrow> page \<Rightarrow> (io_error, delete_step \<times> page) outcome" where
  "delete_leaf key doc pg =
     bindO (lower_bound_key_doc key doc pg) (\<lambda>index.
     bindO (already_there LEAF_SLOT key (bindO (get_doc_id pg index) (\<lambda>d. Ok (d = doc))) index pg) (\<lambda>here.
     if here then
       bindO (leaf_entries pg) (\<lambda>entries.
       bindO (get_next_leaf pg) (\<lambda>next_leaf.
       bindO (leaf_rebuild (take index entries @ drop (index + 1) entries) next_leaf pg) (\<lambda>pg'. Ok (DeleteDone, pg'))))
     else Ok (DeleteNotFound, pg)))"

definition delete_at_node :: "page_id \<Rightarrow> key \<Rightarrow> doc_id \<Rightarrow> delete_step pool_prog" where
  "delete_at_node node key doc = with_page_mut node (on_node (delete_leaf key doc)
     (\<lambda>pg. bindO (child_for_key key pg) (\<lambda>c. Ok (DeleteGoTo c, pg))))"

text \<open>The descent: the node where the entry was removed and the path to it, innermost parent first.\<close>

fun delete_descend :: "nat \<Rightarrow> page_id \<Rightarrow> page_id list \<Rightarrow> key \<Rightarrow> doc_id \<Rightarrow> (page_id \<times> page_id list) option pool_prog" where
  "delete_descend 0 cur path key doc = hangP"
| "delete_descend (Suc n) cur path key doc =
     bindP (delete_at_node cur key doc) (\<lambda>step.
     case step of
       DeleteGoTo child \<Rightarrow> delete_descend n child (cur # path) key doc
     | DeleteDone \<Rightarrow> returnP (Some (cur, path))
     | DeleteNotFound \<Rightarrow> returnP None)"

definition node_key_count :: "page_id \<Rightarrow> nat pool_prog" where
  "node_key_count node = read_node node (on_node get_key_count get_key_count)"

definition leaf_entries_of :: "page_id \<Rightarrow> (key \<times> doc_id) list pool_prog" where
  "leaf_entries_of node = read_node node (on_node leaf_entries expected_leaf)"

definition leaf_next :: "page_id \<Rightarrow> page_id pool_prog" where
  "leaf_next node = read_node node (on_node get_next_leaf expected_leaf)"

definition rebuild_leaf :: "page_id \<Rightarrow> (key \<times> doc_id) list \<Rightarrow> page_id \<Rightarrow> unit pool_prog" where
  "rebuild_leaf node entries next_leaf = write_node node (on_node (leaf_rebuild entries next_leaf) expected_leaf)"

definition replace_parent_separator :: "page_id \<Rightarrow> nat \<Rightarrow> key \<Rightarrow> unit pool_prog" where
  "replace_parent_separator parent separator_index key = write_node parent (on_node expected_internal (\<lambda>pg.
     bindO (get_leftmost_child pg) (\<lambda>leftmost.
     bindO (internal_entries pg) (\<lambda>entries.
     if length entries \<le> separator_index then Panic ''index out of bounds''
     else internal_rebuild leftmost (entries[separator_index := (key, snd (entries ! separator_index))]) pg))))"

definition remove_parent_separator :: "page_id \<Rightarrow> nat \<Rightarrow> unit pool_prog" where
  "remove_parent_separator parent separator_index = write_node parent (on_node expected_internal (\<lambda>pg.
     bindO (get_leftmost_child pg) (\<lambda>leftmost.
     bindO (internal_entries pg) (\<lambda>entries.
     if length entries \<le> separator_index then Panic ''removal index out of bounds''
     else internal_rebuild leftmost (take separator_index entries @ drop (separator_index + 1) entries) pg))))"

definition try_redistribute_from_left :: "page_id \<Rightarrow> page_id \<Rightarrow> page_id \<Rightarrow> nat \<Rightarrow> bool pool_prog" where
  "try_redistribute_from_left left node parent separator_index =
     bindP (leaf_entries_of left) (\<lambda>left_entries.
     if length left_entries \<le> 1 then returnP False
     else bindP (leaf_entries_of node) (\<lambda>node_entries.
       let moved = last left_entries; node_entries = moved # node_entries in
       bindP (leaf_next left) (\<lambda>left_next.
       bindP (leaf_next node) (\<lambda>node_next.
       bindP (rebuild_leaf left (butlast left_entries) left_next) (\<lambda>_.
       bindP (rebuild_leaf node node_entries node_next) (\<lambda>_.
       bindP (replace_parent_separator parent separator_index (fst moved)) (\<lambda>_. returnP True)))))))"

definition try_redistribute_from_right :: "page_id \<Rightarrow> page_id \<Rightarrow> page_id \<Rightarrow> nat \<Rightarrow> bool pool_prog" where
  "try_redistribute_from_right node right parent separator_index =
     bindP (leaf_entries_of right) (\<lambda>right_entries.
     if length right_entries \<le> 1 then returnP False
     else bindP (leaf_entries_of node) (\<lambda>node_entries.
       let new_right = tl right_entries; node_entries = node_entries @ [hd right_entries] in
       bindP (leaf_next node) (\<lambda>node_next.
       bindP (leaf_next right) (\<lambda>right_next.
       bindP (rebuild_leaf node node_entries node_next) (\<lambda>_.
       bindP (rebuild_leaf right new_right right_next) (\<lambda>_.
       bindP (replace_parent_separator parent separator_index (fst (hd new_right))) (\<lambda>_. returnP True)))))))"

definition merge_nodes :: "page_id \<Rightarrow> page_id \<Rightarrow> page_id \<Rightarrow> nat \<Rightarrow> unit pool_prog" where
  "merge_nodes left right parent separator_index =
     bindP (leaf_entries_of left) (\<lambda>l.
     bindP (leaf_entries_of right) (\<lambda>r.
     bindP (leaf_next right) (\<lambda>right_next.
     bindP (rebuild_leaf left (l @ r) right_next) (\<lambda>_.
     remove_parent_separator parent separator_index))))"

definition siblings :: "page_id \<Rightarrow> page \<Rightarrow> (io_error, nat \<times> page_id option \<times> page_id option) outcome" where
  "siblings node pg =
     bindO (find_child_index node pg) (\<lambda>found.
     case found of
       None \<Rightarrow> Panic ''child must exist''
     | Some child_index \<Rightarrow>
         bindO (if 0 < child_index then bindO (child_at pg (child_index - 1)) (\<lambda>c. Ok (Some c)) else Ok None) (\<lambda>left.
         bindO (get_key_count pg) (\<lambda>n.
         bindO (if child_index < n then bindO (child_at pg (child_index + 1)) (\<lambda>c. Ok (Some c)) else Ok None) (\<lambda>right.
         Ok (child_index, left, right)))))"

definition fix_underflow :: "page_id \<Rightarrow> page_id \<Rightarrow> unit pool_prog" where
  "fix_underflow node parent =
     bindP (read_node parent (on_node expected_internal (siblings node))) (\<lambda>(child_index, left, right).
     bindP (case left of None \<Rightarrow> returnP False
            | Some l \<Rightarrow> try_redistribute_from_left l node parent (child_index - 1)) (\<lambda>done_left.
     if done_left then returnP ()
     else bindP (case right of None \<Rightarrow> returnP False
            | Some r \<Rightarrow> try_redistribute_from_right node r parent child_index) (\<lambda>done_right.
       if done_right then returnP ()
       else case left of
           Some l \<Rightarrow> merge_nodes l node parent (child_index - 1)
         | None \<Rightarrow> (case right of Some r \<Rightarrow> merge_nodes node r parent child_index | None \<Rightarrow> returnP ()))))"

fun rebalance :: "page_id \<Rightarrow> page_id \<Rightarrow> page_id list \<Rightarrow> unit pool_prog" where
  "rebalance root cur [] = returnP ()"
| "rebalance root cur (parent # path) =
     (if cur = root then returnP ()
      else bindP (node_key_count cur) (\<lambda>n.
        if 0 < n then returnP ()
        else bindP (fix_underflow cur parent) (\<lambda>_. rebalance root parent path)))"

definition collapse_empty_root :: "unit tree_prog" where
  "collapse_empty_root =
     bindP tree_root (\<lambda>root.
     bindP (on_tree (read_node root (on_node (\<lambda>pg. Ok None) (\<lambda>pg.
       bindO (get_key_count pg) (\<lambda>n.
       if n = 0 then bindO (get_leftmost_child pg) (\<lambda>c. Ok (Some c)) else Ok None))))) (\<lambda>replacement.
     case replacement of None \<Rightarrow> returnP () | Some root \<Rightarrow> set_root root))"

definition btree_delete :: "key \<Rightarrow> doc_id \<Rightarrow> unit tree_prog" where
  "btree_delete key doc =
     bindP tree_root (\<lambda>root.
     bindP (on_tree (bindP (readP tree_fuel) (\<lambda>n. delete_descend n root [] key doc))) (\<lambda>r.
     case r of
       None \<Rightarrow> returnP ()
     | Some (cur, path) \<Rightarrow> bindP (on_tree (rebalance root cur path)) (\<lambda>_. collapse_empty_root)))"

section \<open>Freeing the pages\<close>

definition node_children :: "page \<Rightarrow> (io_error, page_id list) outcome" where
  "node_children pg =
     bindO (get_leftmost_child pg) (\<lambda>l.
     bindO (get_key_count pg) (\<lambda>n.
     bindO (mapO (get_child pg) [0..<n]) (\<lambda>cs. Ok (l # cs))))"

text \<open>The stack has its top at the head; \<open>extend\<close> pushes the children in order.\<close>

fun free_loop :: "nat \<Rightarrow> page_id list \<Rightarrow> unit pool_prog" where
  "free_loop 0 stack = hangP"
| "free_loop (Suc n) [] = returnP ()"
| "free_loop (Suc n) (page_id # stack) =
     bindP (read_node page_id (on_node (\<lambda>pg. Ok []) node_children)) (\<lambda>children.
     bindP (delete_page page_id) (\<lambda>_. free_loop n (rev children @ stack)))"

definition btree_free :: "unit tree_prog" where
  "btree_free =
     bindP tree_root (\<lambda>root. on_tree (bindP (readP tree_fuel) (\<lambda>n. free_loop (Suc n) [root])))"

end
