(* ===== verification/BTree_Rep.thy ===== *)
theory BTree_Rep
  imports BTree
begin

text \<open>
  What the pages of a B+ tree stand for. A \<open>ptree\<close> is a tree with the page id of every node;
  \<open>rep V t\<close> says that the pages of the store hold exactly that tree, each node packed without
  gaps, and \<open>ordered t\<close> that its separators keep the keys of the subtrees apart. A tree that
  satisfies both is a finite map from keys to document ids, \<open>entries t\<close>, in key order.

  Search and range scan are proved here against that map, for trees of any height.
\<close>

section \<open>Trees of pages\<close>

datatype ptree = PLeaf page_id "(key \<times> doc_id) list" page_id | PNode page_id "key list" "ptree list"

fun pid :: "ptree \<Rightarrow> page_id" where
  "pid (PLeaf p es nx) = p"
| "pid (PNode p ks ts) = p"

fun leaves :: "ptree \<Rightarrow> (page_id \<times> (key \<times> doc_id) list \<times> page_id) list" where
  "leaves (PLeaf p es nx) = [(p, es, nx)]"
| "leaves (PNode p ks ts) = concat (map leaves ts)"

fun pages :: "ptree \<Rightarrow> page_id list" where
  "pages (PLeaf p es nx) = [p]"
| "pages (PNode p ks ts) = p # concat (map pages ts)"

fun height :: "ptree \<Rightarrow> nat" where
  "height (PLeaf p es nx) = 0"
| "height (PNode p ks ts) = Suc (Max (set (map height ts)))"

fun entries :: "ptree \<Rightarrow> (key \<times> doc_id) list" where
  "entries (PLeaf p es nx) = es"
| "entries (PNode p ks ts) = concat (map entries ts)"

definition keys_of :: "ptree \<Rightarrow> key list" where
  "keys_of t = map fst (entries t)"

lemma entries_leaves: "entries t = concat (map (\<lambda>(p, es, nx). es) (leaves t))"
proof (induction t)
  case (PNode p ks ts)
  then show ?case by (induction ts) simp_all
qed simp

lemma keys_of_simps [simp]:
  "keys_of (PLeaf p es nx) = map fst es" "keys_of (PNode p ks ts) = concat (map keys_of ts)"
  by (simp_all add: keys_of_def [abs_def] map_concat comp_def)

definition packed :: "nat \<Rightarrow> page \<Rightarrow> (key \<times> 'a) list \<Rightarrow> bool" where
  "packed w pg es \<longleftrightarrow> node_room w pg + entry_size w es = PAGE_SIZE - NODE_HEADER_SIZE"

definition leaf_at :: "page option \<Rightarrow> (key \<times> doc_id) list \<Rightarrow> page_id \<Rightarrow> bool" where
  "leaf_at v es nx \<longleftrightarrow> (\<exists>pg. v = Some pg \<and> leaf_holds pg es nx \<and> packed LEAF_SLOT pg es)"

definition internal_at :: "page option \<Rightarrow> key list \<Rightarrow> page_id list \<Rightarrow> bool" where
  "internal_at v ks cs \<longleftrightarrow> (\<exists>pg. v = Some pg \<and> internal_ok pg \<and> internal_keys pg = ks \<and> internal_children pg = cs
     \<and> packed INTERNAL_SLOT pg (internal_view pg))"

fun rep :: "(page_id \<rightharpoonup> page) \<Rightarrow> ptree \<Rightarrow> bool" where
  "rep V (PLeaf p es nx) = leaf_at (V p) es nx"
| "rep V (PNode p ks ts) = (internal_at (V p) ks (map pid ts) \<and> list_all (rep V) ts)"

definition separated :: "key list \<Rightarrow> key list list \<Rightarrow> bool" where
  "separated ks kss \<longleftrightarrow> length kss = Suc (length ks) \<and> (\<forall>i < length kss. \<forall>x \<in> set (kss ! i).
     (0 < i \<longrightarrow> ks ! (i - 1) \<le> x) \<and> (i < length ks \<longrightarrow> x < ks ! i))"

text \<open>The keys of a tree and of its separators.\<close>

fun marks :: "ptree \<Rightarrow> key list" where
  "marks (PLeaf p es nx) = map fst es"
| "marks (PNode p ks ts) = ks @ concat (map marks ts)"

fun ordered :: "ptree \<Rightarrow> bool" where
  "ordered (PLeaf p es nx) = sorted_wrt (<) (map fst es)"
| "ordered (PNode p ks ts) = (sorted_wrt (<) ks \<and> separated ks (map marks ts) \<and> list_all ordered ts)"

lemma keys_of_marks: "set (keys_of t) \<subseteq> set (marks t)"
  by (induction t) auto

lemma ordered_node:
  assumes "ordered (PNode p ks ts)"
  shows "sorted_wrt (<) ks" "separated ks (map keys_of ts)" "list_all ordered ts" "length ts = Suc (length ks)"
proof -
  show o: "sorted_wrt (<) ks" "list_all ordered ts" using assms by simp_all
  have sep: "separated ks (map marks ts)" using assms by simp
  then show len: "length ts = Suc (length ks)" by (simp add: separated_def)
  show "separated ks (map keys_of ts)"
    unfolding separated_def
  proof (intro conjI allI impI ballI)
    fix i x assume i: "i < length (map keys_of ts)" "x \<in> set (map keys_of ts ! i)"
    then have x: "x \<in> set (map marks ts ! i)" using keys_of_marks by fastforce
    show "ks ! (i - 1) \<le> x" if "0 < i" using sep i(1) x that unfolding separated_def by simp
    show "x < ks ! i" if "i < length ks" using sep i(1) x that unfolding separated_def by simp
  qed (use len in simp)
qed

section \<open>Order\<close>

text \<open>The child a key belongs to: behind the last separator that is at most the key.\<close>

definition child_index :: "key \<Rightarrow> key list \<Rightarrow> nat" where
  "child_index key ks = length (takeWhile (\<lambda>k. k \<le> key) ks)"

lemma child_index_le: "child_index key ks \<le> length ks"
  by (simp add: child_index_def length_takeWhile_le)

lemma child_index_bounds:
  assumes "sorted_wrt (<) ks"
  shows "i < child_index key ks \<Longrightarrow> ks ! i \<le> key" and "child_index key ks \<le> i \<Longrightarrow> i < length ks \<Longrightarrow> key < ks ! i"
proof -
  show "ks ! i \<le> key" if "i < child_index key ks"
    using that set_takeWhileD [of "ks ! i" "\<lambda>k. k \<le> key" ks] nth_mem [of i "takeWhile (\<lambda>k. k \<le> key) ks"]
    by (simp add: child_index_def takeWhile_nth)
  assume i: "child_index key ks \<le> i" "i < length ks"
  then have "key < ks ! child_index key ks"
    using nth_length_takeWhile [of "\<lambda>k. k \<le> key" ks] by (simp add: child_index_def)
  also have "\<dots> \<le> ks ! i" using i assms by (metis le_less order.order_iff_strict sorted_wrt_nth_less)
  finally show "key < ks ! i" .
qed

lemma separated_other:
  assumes "sorted_wrt (<) ks" and "separated ks kss" and "j < length kss" and "key \<in> set (kss ! j)"
  shows "j = child_index key ks"
proof -
  let ?i = "child_index key ks"
  from assms(2-) have b: "0 < j \<Longrightarrow> ks ! (j - 1) \<le> key" "j < length ks \<Longrightarrow> key < ks ! j" "length kss = Suc (length ks)"
    unfolding separated_def by blast+
  have "\<not> j < ?i"
  proof
    assume j: "j < ?i"
    then have "j < length ks" using child_index_le [of key ks] by simp
    with b(2) child_index_bounds(1) [OF assms(1) j] show False by simp
  qed
  moreover have "\<not> ?i < j"
  proof
    assume j: "?i < j"
    then have "?i \<le> j - 1" "j - 1 < length ks" "0 < j" using assms(3) b(3) by auto
    with b(1) child_index_bounds(2) [OF assms(1)] show False by (metis leD)
  qed
  ultimately show ?thesis by simp
qed

lemma map_of_concat_None: "\<forall>xs \<in> set xss. key \<notin> fst ` set xs \<Longrightarrow> map_of (concat xss) key = None"
  by (auto simp: map_of_eq_None_iff)

lemma map_of_concat:
  assumes "i < length xss" and "\<And>j. j < length xss \<Longrightarrow> j \<noteq> i \<Longrightarrow> key \<notin> fst ` set (xss ! j)"
  shows "map_of (concat xss) key = map_of (xss ! i) key"
proof -
  have "xss = take i xss @ xss ! i # drop (Suc i) xss" using assms(1) by (rule id_take_nth_drop)
  then have "concat xss = concat (take i xss) @ xss ! i @ concat (drop (Suc i) xss)" by (metis concat.simps(2) concat_append)
  moreover have "map_of (concat (take i xss)) key = None"
  proof (rule map_of_concat_None, rule ballI)
    fix xs assume "xs \<in> set (take i xss)"
    then obtain j where "j < i" "xs = xss ! j" using assms(1) by (auto simp: in_set_conv_nth)
    then show "key \<notin> fst ` set xs" using assms(2) [of j] assms(1) by simp
  qed
  moreover have "map_of (concat (drop (Suc i) xss)) key = None"
  proof (rule map_of_concat_None, rule ballI)
    fix xs assume "xs \<in> set (drop (Suc i) xss)"
    then obtain j where "j < length xss - Suc i" "xs = xss ! (Suc i + j)" by (auto simp: in_set_conv_nth)
    then show "key \<notin> fst ` set xs" using assms(2) [of "Suc i + j"] by simp
  qed
  ultimately show ?thesis by (simp add: map_add_def split: option.split)
qed

lemma lookup_child:
  assumes "ordered (PNode p ks ts)"
  shows "child_index key ks < length ts"
    and "map_of (entries (PNode p ks ts)) key = map_of (entries (ts ! child_index key ks)) key"
proof -
  let ?i = "child_index key ks"
  have o: "sorted_wrt (<) ks" "separated ks (map keys_of ts)" and len: "length ts = Suc (length ks)" using ordered_node [OF assms] by simp_all
  show i: "?i < length ts" using len child_index_le [of key ks] by simp
  have "map_of (concat (map entries ts)) key = map_of (map entries ts ! ?i) key"
  proof (rule map_of_concat)
    fix j assume j: "j < length (map entries ts)" "j \<noteq> ?i"
    then show "key \<notin> fst ` set (map entries ts ! j)" using separated_other [OF o, of j key] by (auto simp: keys_of_def)
  qed (use i in simp)
  with i show "map_of (entries (PNode p ks ts)) key = map_of (entries (ts ! ?i)) key" by simp
qed

lemma separated_less:
  assumes "sorted_wrt (<) ks" and "separated ks kss" and "i < j" "j < length kss" "x \<in> set (kss ! i)" "y \<in> set (kss ! j)"
  shows "x < y"
proof -
  have "x < ks ! i" "ks ! (j - 1) \<le> y" using assms unfolding separated_def by auto
  moreover have "ks ! i \<le> ks ! (j - 1)"
  proof (cases "i = j - 1")
    case False
    then have "i < j - 1" "j - 1 < length ks" using assms(2-4) by (auto simp: separated_def)
    with assms(1) show ?thesis by (intro less_imp_le) (rule sorted_wrt_nth_less)
  qed simp
  ultimately show ?thesis by simp
qed

lemma sorted_concat:
  assumes "\<forall>xs \<in> set xss. sorted_wrt (<) xs"
    and "\<And>i j x y. i < j \<Longrightarrow> j < length xss \<Longrightarrow> x \<in> set (xss ! i) \<Longrightarrow> y \<in> set (xss ! j) \<Longrightarrow> x < y"
  shows "sorted_wrt (<) (concat xss)"
  using assms
proof (induction xss)
  case (Cons xs xss)
  have "sorted_wrt (<) (concat xss)"
  proof (rule Cons.IH)
    show "x < y" if "i < j" "j < length xss" "x \<in> set (xss ! i)" "y \<in> set (xss ! j)" for i j x y
      using Cons.prems(2) [of "Suc i" "Suc j" x y] that by simp
  qed (use Cons.prems in simp)
  moreover have "x < y" if "x \<in> set xs" "y \<in> set (concat xss)" for x y
  proof -
    from that(2) obtain ys where "ys \<in> set xss" "y \<in> set ys" by auto
    then obtain j where "j < length xss" "y \<in> set (xss ! j)" by (metis in_set_conv_nth)
    then show ?thesis using Cons.prems(2) [of 0 "Suc j" x y] that(1) by simp
  qed
  ultimately show ?case using Cons.prems(1) by (simp add: sorted_wrt_append)
qed simp

lemma ordered_sorted: "ordered t \<Longrightarrow> sorted_wrt (<) (keys_of t)"
proof (induction t)
  case (PNode p ks ts)
  then have "\<forall>xs \<in> set (map keys_of ts). sorted_wrt (<) xs" by (auto simp: list_all_iff)
  moreover have "sorted_wrt (<) ks" "separated ks (map keys_of ts)" using ordered_node [OF PNode.prems] by simp_all
  ultimately show ?case using separated_less by (auto intro!: sorted_concat simp del: concat_map_singleton)
qed simp

section \<open>Visiting a node\<close>

lemma pool_returnN: "Q a (pool_view s) \<Longrightarrow> pool.total n (returnP a) s Q"
  by (simp add: pool.total_def)

lemma read_node_total:
  assumes "pool_view s p = Some pg" and "f pg = Ok r"
  shows "pool.total 1 (read_node p f) s (\<lambda>x V. x = r \<and> V = pool_view s)"
proof (rule pool.totalI)
  assume inv: "pool_inv s" and b: "1 \<le> pool_budget s"
  have "pool.total 1 (read_node p f) s (\<lambda>x V. x = r \<and> V = (pool_view s)(p \<mapsto> pg))"
    unfolding read_node_def
  proof (rule with_page_mut_total [OF assms(1)])
    show "bindO (f pg) (\<lambda>r. Ok (r, pg)) = Ok (r, pg)" by (simp add: assms(2))
  qed (rule pool_view_length [OF inv assms(1)])
  moreover have "(pool_view s)(p \<mapsto> pg) = pool_view s" using assms(1) by (simp add: fun_upd_idem)
  ultimately show "\<exists>x s'. read_node p f s = (Ok x, s') \<and> pool_inv s' \<and> (x = r \<and> pool_view s' = pool_view s) \<and> pool_budget s \<le> pool_budget s' + 1"
    using inv b by (auto elim!: pool.totalE)
qed

lemma leaf_atE:
  assumes "leaf_at v es nx"
  obtains pg where "v = Some pg" and "leaf_ok pg" and "leaf_view pg = es" and "node_link pg = nx" and "packed LEAF_SLOT pg es"
    and "node_ok LEAF_SLOT pg" and "is_leaf_page pg" and "sorted_wrt (<) es" and "node_count pg = length es"
proof -
  from assms obtain pg where "v = Some pg" "leaf_ok pg" "leaf_view pg = es" "node_link pg = nx" "packed LEAF_SLOT pg es"
    by (auto simp: leaf_at_def leaf_holds_def)
  with leaf_okD [of pg] that [of pg] show thesis by (metis length_leaf_view)
qed

lemma internal_atE:
  assumes "internal_at v ks cs"
  obtains pg where "v = Some pg" and "internal_ok pg" and "internal_keys pg = ks" and "internal_children pg = cs"
    and "packed INTERNAL_SLOT pg (internal_view pg)" and "node_ok INTERNAL_SLOT pg" and "\<not> is_leaf_page pg"
    and "sorted_wrt (<) ks" and "node_count pg = length ks" and "length cs = Suc (length ks)"
proof -
  from assms obtain pg where "v = Some pg" "internal_ok pg" "internal_keys pg = ks" "internal_children pg = cs"
    "packed INTERNAL_SLOT pg (internal_view pg)"
    by (auto simp: internal_at_def)
  with internal_okD [of pg] that [of pg] show thesis by (metis length_internal(2,3))
qed

section \<open>Search\<close>

lemma lookup_sorted:
  fixes es :: "(key \<times> doc_id) list"
  assumes "sorted_wrt (<) es"
  shows "map_of es key = (let i = length (takeWhile (\<lambda>e. fst e < key) es) in
    if i < length es \<and> fst (es ! i) = key then Some (snd (es ! i)) else None)"
  using assms
proof (induction es)
  case (Cons e es)
  show ?case
  proof (cases "fst e < key")
    case True
    then have "fst e \<noteq> key" by simp
    with True Cons show ?thesis by (simp add: Let_def)
  next
    case False
    have "map_of es key = None" if "fst e \<noteq> key"
    proof -
      have "key < fst x" if "x \<in> set es" for x
        using Cons.prems that False \<open>fst e \<noteq> key\<close> by (auto simp: less_prod_def' not_less)
      then show ?thesis by (auto simp: map_of_eq_None_iff)
    qed
    with False show ?thesis by (cases e) auto
  qed
qed simp

lemma search_leaf_Ok:
  assumes "leaf_ok pg"
  shows "search_leaf key pg = Ok (case map_of (leaf_view pg) key of None \<Rightarrow> NotFound | Some d \<Rightarrow> Found d)"
proof -
  note ok = leaf_okD [OF assms]
  show ?thesis
    using lookup_sorted [OF ok(3), of key]
    by (auto simp: search_leaf_def leaf_lower_bound_key_Ok [OF assms] header_Ok(1) [OF ok(1)] leaf_key_Ok [OF ok(1)]
        get_doc_id_Ok [OF ok(1)] Let_def)
qed

lemma search_at_total:
  "leaf_at (pool_view s p) es nx \<Longrightarrow>
     pool.total 1 (search_at p key) s (\<lambda>x V. x = (case map_of es key of None \<Rightarrow> NotFound | Some d \<Rightarrow> Found d) \<and> V = pool_view s)"
  "internal_at (pool_view s p) ks cs \<Longrightarrow>
     pool.total 1 (search_at p key) s (\<lambda>x V. x = SearchGoTo (cs ! child_index key ks) \<and> V = pool_view s)"
  unfolding search_at_def
  by (erule leaf_atE, rule read_node_total, assumption, simp add: on_node_def search_leaf_Ok)
    (erule internal_atE, rule read_node_total, assumption, simp add: on_node_def child_for_Ok child_index_def)

lemma height_child: "t \<in> set ts \<Longrightarrow> height t < height (PNode p ks ts)"
  by (simp add: less_Suc_eq_le)

lemma search_loop_total:
  assumes "rep (pool_view s) t" and "ordered t" and "height t < n"
  shows "pool.total (Suc (height t)) (search_loop n (pid t) key) s (\<lambda>x V. x = map_of (entries t) key \<and> V = pool_view s)"
  using assms
proof (induction t arbitrary: n s)
  case (PLeaf p es nx)
  then obtain m where n: "n = Suc m" by (cases n) auto
  have "pool.total (1 + 0) (search_loop n p key) s (\<lambda>x V. x = map_of es key \<and> V = pool_view s)"
    unfolding n search_loop.simps
    by (rule pool.total_bind [OF search_at_total(1)]) (use PLeaf.prems in \<open>auto intro!: pool.total_return split: option.split\<close>)
  then show ?case by simp
next
  case (PNode p ks ts)
  then obtain m where n: "n = Suc m" by (cases n) auto
  let ?i = "child_index key ks" let ?c = "ts ! ?i"
  note i = lookup_child [OF PNode.prems(2), of key]
  have c: "?c \<in> set ts" using i(1) by simp
  have h: "height ?c < height (PNode p ks ts)" by (rule height_child [OF c])
  have "pool.total (1 + height (PNode p ks ts)) (search_loop n p key) s (\<lambda>x V. x = map_of (entries ?c) key \<and> V = pool_view s)"
    unfolding n search_loop.simps
  proof (rule pool.total_bind [OF search_at_total(2)])
    show "internal_at (pool_view s p) ks (map pid ts)" using PNode.prems(1) by simp
    fix x s' assume x: "x = SearchGoTo (map pid ts ! ?i) \<and> pool_view s' = pool_view s"
    have "pool.total (Suc (height ?c)) (search_loop m (pid ?c) key) s' (\<lambda>x V. x = map_of (entries ?c) key \<and> V = pool_view s')"
      by (rule PNode.IH [OF c]) (use x PNode.prems c h n in \<open>auto simp: list_all_iff\<close>)
    then show "pool.total (height (PNode p ks ts)) (case x of SearchGoTo next \<Rightarrow> search_loop m next key
        | Found doc_id \<Rightarrow> returnP (Some doc_id) | NotFound \<Rightarrow> returnP None) s' (\<lambda>x V. x = map_of (entries ?c) key \<and> V = pool_view s)"
      using x i(1) h by (auto intro: pool.total_conseq)
  qed
  then show ?case using i(2) by simp
qed

section \<open>Range scan\<close>

fun linked :: "(page_id \<times> (key \<times> doc_id) list \<times> page_id) list \<Rightarrow> page_id \<Rightarrow> bool" where
  "linked [] e = True"
| "linked [(p, es, nx)] e = (nx = e)"
| "linked ((p, es, nx) # (q, es', nx') # ls) e = (nx = q \<and> q \<noteq> NO_NEXT_LEAF \<and> linked ((q, es', nx') # ls) e)"

lemma linked_append: "linked (xs @ ys) e \<Longrightarrow> linked ys e"
proof (induction xs)
  case (Cons x xs)
  then show ?case by (cases x; cases "xs @ ys") (auto simp: neq_Nil_conv)
qed simp

definition in_range :: "key \<Rightarrow> key \<Rightarrow> key \<times> doc_id \<Rightarrow> bool" where
  "in_range low high e \<longleftrightarrow> low \<le> fst e \<and> fst e \<le> high"

lemma collect_from_Ok:
  assumes "leaf_ok pg" and "i \<le> node_count pg"
  shows "collect_from [i..<node_count pg] high pg =
    (let rest = drop i (leaf_view pg); got = takeWhile (\<lambda>e. fst e \<le> high) rest
     in Ok (map snd got, length got < length rest))"
  using assms(2)
proof (induction "node_count pg - i" arbitrary: i)
  case 0
  then show ?case by (simp add: Let_def)
next
  case (Suc m)
  note ok = leaf_okD [OF assms(1)]
  have i: "i < node_count pg" using Suc by simp
  then have up: "[i..<node_count pg] = i # [Suc i..<node_count pg]" by (rule upt_conv_Cons)
  have d: "drop i (leaf_view pg) = leaf_view pg ! i # drop (Suc i) (leaf_view pg)"
    using i by (metis Cons_nth_drop_Suc length_leaf_view)
  have "collect_from [Suc i..<node_count pg] high pg =
    (let rest = drop (Suc i) (leaf_view pg); got = takeWhile (\<lambda>e. fst e \<le> high) rest
     in Ok (map snd got, length got < length rest))"
    using Suc i by (intro Suc.hyps(1)) simp_all
  then show ?case
    by (simp add: up d Let_def leaf_key_Ok [OF ok(1) i] get_doc_id_Ok [OF ok(1) i] not_less)
qed

lemma takeWhile_filter_sorted:
  "sorted_wrt (\<lambda>x y. P y \<longrightarrow> P x) xs \<Longrightarrow> takeWhile P xs = filter P xs"
  by (induction xs) (auto simp: filter_empty_conv dest!: sym [of "[]"] intro: filter_False [symmetric])

lemma length_filter_less_iff: "length (filter P xs) < length xs \<longleftrightarrow> (\<exists>x \<in> set xs. \<not> P x)"
  by (induction xs) (auto simp: less_Suc_eq_le)

lemma range_of_sorted:
  fixes es :: "(key \<times> doc_id) list" and low high :: key
  assumes "sorted_wrt (<) es"
  defines "rest \<equiv> drop (length (takeWhile (\<lambda>e. fst e < low) es)) es"
  shows "takeWhile (\<lambda>e. fst e \<le> high) rest = filter (in_range low high) es"
    and "length (takeWhile (\<lambda>e. fst e \<le> high) rest) < length rest \<longleftrightarrow> (\<exists>e \<in> set es. low \<le> fst e \<and> high < fst e)"
proof -
  have le: "sorted_wrt (\<lambda>x y. fst x \<le> fst y) es"
    using assms(1) by (rule sorted_wrt_mono_rel [rotated]) (auto simp: less_prod_def')
  have rest: "rest = filter (\<lambda>e. low \<le> fst e) es"
  proof -
    have "rest = dropWhile (\<lambda>e. fst e < low) es" by (simp add: rest_def dropWhile_eq_drop)
    also have "\<dots> = filter (\<lambda>e. \<not> fst e < low) es"
      using le
    proof (induction es)
      case (Cons e es)
      then show ?case by (auto intro!: filter_True [symmetric] simp: not_less) 
    qed simp
    finally show ?thesis by (simp add: not_less)
  qed
  have "sorted_wrt (\<lambda>x y. fst x \<le> fst y) rest" unfolding rest by (rule sorted_wrt_filter [OF le])
  then have "sorted_wrt (\<lambda>x y. fst y \<le> high \<longrightarrow> fst x \<le> high) rest" by (rule sorted_wrt_mono_rel [rotated]) auto
  then have tw: "takeWhile (\<lambda>e. fst e \<le> high) rest = filter (\<lambda>e. fst e \<le> high) rest" by (rule takeWhile_filter_sorted)
  then show "takeWhile (\<lambda>e. fst e \<le> high) rest = filter (in_range low high) es"
    by (simp add: rest in_range_def [abs_def] conj_commute)
  show "length (takeWhile (\<lambda>e. fst e \<le> high) rest) < length rest \<longleftrightarrow> (\<exists>e \<in> set es. low \<le> fst e \<and> high < fst e)"
    unfolding tw length_filter_less_iff by (simp add: rest not_le Bex_def conj_assoc)
qed

lemma scan_leaf_Ok:
  assumes "leaf_ok pg"
  shows "scan_leaf low high pg = Ok (map snd (filter (in_range low high) (leaf_view pg)), node_link pg,
    \<exists>e \<in> set (leaf_view pg). low \<le> fst e \<and> high < fst e)"
proof -
  note ok = leaf_okD [OF assms]
  have "length (takeWhile (\<lambda>e. fst e < low) (leaf_view pg)) \<le> node_count pg" by (metis length_leaf_view length_takeWhile_le)
  then show ?thesis
    using range_of_sorted [OF ok(3), where low = low and high = high]
    by (simp add: scan_leaf_def header_Ok [OF ok(1)] leaf_lower_bound_key_Ok [OF assms] collect_from_Ok [OF assms] Let_def)
qed

lemma scan_leaf_total:
  assumes "leaf_at (pool_view s p) es nx"
  shows "pool.total 1 (read_node p (on_node (scan_leaf low high) expected_leaf)) s
    (\<lambda>x V. x = (map snd (filter (in_range low high) es), nx, \<exists>e \<in> set es. low \<le> fst e \<and> high < fst e) \<and> V = pool_view s)"
  using assms by (rule leaf_atE) (rule read_node_total, assumption, simp add: on_node_def scan_leaf_Ok)

lemma range_scan_loop_total:
  assumes "list_all (\<lambda>(p, es, nx). leaf_at (pool_view s p) es nx) ls" and "linked ls NO_NEXT_LEAF"
    and "sorted_wrt (<) (map fst (concat (map (\<lambda>(p, es, nx). es) ls)))" and "ls \<noteq> []" and "length ls \<le> n"
  shows "pool.total (length ls) (range_scan_loop n (fst (hd ls)) low high) s
    (\<lambda>x V. x = map snd (filter (in_range low high) (concat (map (\<lambda>(p, es, nx). es) ls))) \<and> V = pool_view s)"
  using assms
proof (induction ls arbitrary: n s)
  case (Cons l ls)
  obtain p es nx where l: "l = (p, es, nx)" by (cases l)
  obtain m where n: "n = Suc m" using Cons.prems(5) by (cases n) auto
  let ?rest = "concat (map (\<lambda>(p, es, nx). es) ls)"
  let ?got = "map snd (filter (in_range low high) es)" and ?fin = "\<exists>e \<in> set es. low \<le> fst e \<and> high < fst e"
  have at: "leaf_at (pool_view s p) es nx" using Cons.prems(1) by (simp add: l)
  have above: "fst x < fst y" if "x \<in> set es" "y \<in> set ?rest" for x y
  proof -
    have "sorted_wrt (<) (map fst es @ map fst ?rest)" using Cons.prems(3) by (simp add: l)
    then have "\<forall>a \<in> set (map fst es). \<forall>b \<in> set (map fst ?rest). a < b" unfolding sorted_wrt_append by blast
    moreover have "fst x \<in> set (map fst es)" "fst y \<in> set (map fst ?rest)" using that by (simp_all only: set_map imageI)
    ultimately show ?thesis by blast
  qed
  have "pool.total (1 + length ls) (range_scan_loop n p low high) s
      (\<lambda>x V. x = ?got @ map snd (filter (in_range low high) ?rest) \<and> V = pool_view s)"
    unfolding n range_scan_loop.simps
  proof (rule pool.total_bind [OF scan_leaf_total [OF at]])
    fix x s' assume x: "x = (?got, nx, ?fin) \<and> pool_view s' = pool_view s"
    show "pool.total (length ls) (case x of (collected, next, finished) \<Rightarrow>
        if finished \<or> next = NO_NEXT_LEAF then returnP collected
        else bindP (range_scan_loop m next low high) (\<lambda>rest. returnP (collected @ rest))) s'
        (\<lambda>x V. x = ?got @ map snd (filter (in_range low high) ?rest) \<and> V = pool_view s)"
    proof (cases "?fin \<or> nx = NO_NEXT_LEAF")
      case True
      have "filter (in_range low high) ?rest = []"
      proof (cases "?fin")
        case fin: True
        then obtain e where "e \<in> set es" "high < fst e" by blast
        then have "\<not> fst y \<le> high" if "y \<in> set ?rest" for y using above [OF _ that, of e] by auto
        then show ?thesis by (auto simp: filter_empty_conv in_range_def)
      next
        case False
        then have "nx = NO_NEXT_LEAF" using True by blast
        then have "ls = []" using Cons.prems(2) by (cases ls) (auto simp: l)
        then show ?thesis by simp
      qed
      then show ?thesis using True x by (auto intro!: pool_returnN)
    next
      case False
      then have ne: "ls \<noteq> []" using Cons.prems(2) by (cases ls) (auto simp: l)
      then have nx: "nx = fst (hd ls)" "linked ls NO_NEXT_LEAF"
        using Cons.prems(2) by (cases ls; auto simp: l)+
      have "pool.total (length ls) (range_scan_loop m nx low high) s'
          (\<lambda>y V. y = map snd (filter (in_range low high) ?rest) \<and> V = pool_view s')"
        unfolding nx(1) by (rule Cons.IH) (use Cons.prems x ne nx(2) n in \<open>auto simp: l sorted_wrt_append\<close>)
      then have "pool.total (length ls + 0) (bindP (range_scan_loop m nx low high) (\<lambda>rest. returnP (?got @ rest))) s'
          (\<lambda>x V. x = ?got @ map snd (filter (in_range low high) ?rest) \<and> V = pool_view s)"
        by (rule pool.total_bind) (use x in \<open>auto intro!: pool.total_return\<close>)
      then show ?thesis using False x by auto
    qed
  qed
  then show ?case by (simp add: l)
qed simp

lemma entries_of_leaves: "concat (map (\<lambda>(p, es, nx). es) (concat (map leaves ts))) = concat (map entries ts)"
  by (induction ts) (simp_all add: entries_leaves)

text \<open>The leaf where a scan starts: every leaf before it holds smaller keys only.\<close>

definition starts_at :: "ptree \<Rightarrow> key \<Rightarrow> page_id \<Rightarrow> bool" where
  "starts_at t low p \<longleftrightarrow> (\<exists>pre l post. leaves t = pre @ l # post \<and> fst l = p
     \<and> (\<forall>x \<in> set (concat (map (\<lambda>(p, es, nx). es) pre)). fst x < low))"

definition lower_index :: "key \<Rightarrow> key list \<Rightarrow> nat" where
  "lower_index key ks = length (takeWhile (\<lambda>k. k < key) ks)"

lemma lower_index_le: "lower_index key ks \<le> length ks"
  by (simp add: lower_index_def length_takeWhile_le)

lemma lower_index_bound: "i < lower_index key ks \<Longrightarrow> ks ! i < key"
  using set_takeWhileD [of "ks ! i" "\<lambda>k. k < key" ks] nth_mem [of i "takeWhile (\<lambda>k. k < key) ks"]
  by (simp add: lower_index_def takeWhile_nth)

lemma starts_at_child:
  assumes "ordered (PNode p ks ts)" and "starts_at (ts ! lower_index low ks) low q"
  shows "starts_at (PNode p ks ts) low q"
proof -
  let ?i = "lower_index low ks"
  have o: "separated ks (map keys_of ts)" and len: "length ts = Suc (length ks)" using ordered_node [OF assms(1)] by simp_all
  then have i: "?i < length ts" using lower_index_le [of low ks] by simp
  have ts: "ts = take ?i ts @ ts ! ?i # drop (Suc ?i) ts" using i by (rule id_take_nth_drop)
  from assms(2) obtain pre l post where s: "leaves (ts ! ?i) = pre @ l # post" "fst l = q"
    "\<forall>x \<in> set (concat (map (\<lambda>(p, es, nx). es) pre)). fst x < low" by (auto simp: starts_at_def)
  let ?before = "concat (map leaves (take ?i ts))"
  have "leaves (PNode p ks ts) = (?before @ pre) @ l # post @ concat (map leaves (drop (Suc ?i) ts))"
    by (subst ts) (simp add: s(1))
  moreover have "fst x < low" if x: "x \<in> set (concat (map (\<lambda>(p, es, nx). es) ?before))" for x
  proof -
    have "concat (map (\<lambda>(p, es, nx). es) ?before) = concat (map entries (take ?i ts))"
      by (rule entries_of_leaves)
    with x obtain t where "t \<in> set (take ?i ts)" "x \<in> set (entries t)" by auto
    then obtain j where j: "j < ?i" "x \<in> set (entries (ts ! j))"
      using i by (metis in_set_conv_nth length_take min.absorb4 nth_take)
    then have "fst x \<in> set (map keys_of ts ! j)" using i by (simp add: keys_of_def)
    then have "fst x < ks ! j" using o j(1) i len lower_index_le [of low ks] unfolding separated_def by auto
    also have "\<dots> < low" by (rule lower_index_bound [OF j(1)])
    finally show ?thesis .
  qed
  ultimately show ?thesis
    using s(2,3) unfolding starts_at_def
    by (intro exI [of _ "?before @ pre"] exI [of _ l] exI [of _ "post @ concat (map leaves (drop (Suc ?i) ts))"])
      (simp only: map_append concat_append set_append ball_Un, blast)
qed

lemma starts_at_leaf: "starts_at (PLeaf p es nx) low p"
  unfolding starts_at_def by (intro exI [of _ "[]"] exI [of _ "(p, es, nx)"]) simp

lemma find_leaf_total:
  assumes "rep (pool_view s) t" and "ordered t" and "height t < n"
  shows "pool.total (Suc (height t)) (find_leaf_loop n (pid t) low) s (\<lambda>x V. starts_at t low x \<and> V = pool_view s)"
  using assms
proof (induction t arbitrary: n s)
  case (PLeaf p es nx)
  then obtain m where n: "n = Suc m" by (cases n) auto
  obtain pg where pg: "pool_view s p = Some pg" "is_leaf_page pg" using PLeaf.prems(1) by (auto elim: leaf_atE)
  have "pool.total (1 + 0) (find_leaf_loop n p low) s (\<lambda>x V. starts_at (PLeaf p es nx) low x \<and> V = pool_view s)"
    unfolding n find_leaf_loop.simps
    by (rule pool.total_bind [OF read_node_total [OF pg(1), of _ None]])
      (auto simp: on_node_def pg(2) starts_at_leaf intro!: pool.total_return)
  then show ?case by simp
next
  case (PNode p ks ts)
  then obtain m where n: "n = Suc m" by (cases n) auto
  let ?i = "lower_index low ks" let ?c = "ts ! ?i"
  obtain pg where pg: "pool_view s p = Some pg" "internal_ok pg" "internal_keys pg = ks" "internal_children pg = map pid ts" "\<not> is_leaf_page pg"
    using PNode.prems(1) by (auto elim: internal_atE)
  have i: "?i < length ts" using ordered_node(4) [OF PNode.prems(2)] lower_index_le [of low ks] by simp
  then have c: "?c \<in> set ts" by simp
  have h: "height ?c < height (PNode p ks ts)" by (rule height_child [OF c])
  have "pool.total (1 + height (PNode p ks ts)) (find_leaf_loop n p low) s (\<lambda>x V. starts_at (PNode p ks ts) low x \<and> V = pool_view s)"
    unfolding n find_leaf_loop.simps
  proof (rule pool.total_bind [OF read_node_total [OF pg(1), of _ "Some (pid ?c)"]])
    show "on_node (\<lambda>pg. Ok None) (\<lambda>pg. bindO (child_for_lower_bound low pg) (\<lambda>c. Ok (Some c))) pg = Ok (Some (pid ?c))"
      using pg(3-5) i by (simp add: on_node_def child_for_Ok [OF pg(2)] lower_index_def)
    fix x s' assume x: "x = Some (pid ?c) \<and> pool_view s' = pool_view s"
    have "pool.total (Suc (height ?c)) (find_leaf_loop m (pid ?c) low) s' (\<lambda>x V. starts_at ?c low x \<and> V = pool_view s')"
      by (rule PNode.IH [OF c]) (use x PNode.prems c h n in \<open>auto simp: list_all_iff\<close>)
    then show "pool.total (height (PNode p ks ts)) (case x of None \<Rightarrow> returnP p | Some child \<Rightarrow> find_leaf_loop m child low) s'
        (\<lambda>x V. starts_at (PNode p ks ts) low x \<and> V = pool_view s)"
      using x h starts_at_child [OF PNode.prems(2)] by (auto intro: pool.total_conseq)
  qed
  then show ?case by simp
qed

section \<open>A stored tree\<close>

text \<open>
  \<open>tree_at V t\<close>: the store holds \<open>t\<close>, on pages of its own, ordered, with its leaves linked from
  left to right. The number of accesses a search may spend is its height, a scan also its leaves.
\<close>

definition tree_at :: "(page_id \<rightharpoonup> page) \<Rightarrow> ptree \<Rightarrow> bool" where
  "tree_at V t \<longleftrightarrow> rep V t \<and> ordered t \<and> distinct (pages t) \<and> linked (leaves t) NO_NEXT_LEAF"

lemma rep_pages: "rep V t \<Longrightarrow> p \<in> set (pages t) \<Longrightarrow> V p \<noteq> None"
  by (induction t) (auto simp: leaf_at_def internal_at_def list_all_iff)

lemma pages_of_leaves: "set (map fst (leaves t)) \<subseteq> set (pages t)"
  by (induction t) auto

lemma length_leaves: "length (leaves t) \<le> length (pages t)"
proof (induction t)
  case (PNode p ks ts)
  then have "sum_list (map (length \<circ> leaves) ts) \<le> sum_list (map (length \<circ> pages) ts)" by (intro sum_list_mono) simp
  then show ?case by (simp add: length_concat)
qed simp

lemma rep_nonempty: "rep V (PNode p ks ts) \<Longrightarrow> ts \<noteq> []"
  by (auto elim: internal_atE)

lemma height_pages: "rep V t \<Longrightarrow> height t < length (pages t)"
proof (induction t)
  case (PNode p ks ts)
  have "height t < length (concat (map pages ts))" if t: "t \<in> set ts" for t
  proof -
    have "height t < length (pages t)" using PNode t by (simp add: list_all_iff)
    also have "\<dots> \<le> length (concat (map pages ts))" using t by (simp add: length_concat member_le_sum_list)
    finally show ?thesis .
  qed
  then show ?case using rep_nonempty [OF PNode.prems] by (simp add: Suc_le_eq)
qed simp

lemma leaves_nonempty: "rep V t \<Longrightarrow> leaves t \<noteq> []"
proof (induction t)
  case (PNode p ks ts)
  then show ?case using rep_nonempty [OF PNode.prems] by (cases ts) (auto simp: list_all_iff)
qed simp

lemma leaves_at: "rep V t \<Longrightarrow> list_all (\<lambda>(p, es, nx). leaf_at (V p) es nx) (leaves t)"
  by (induction t) (auto simp: list_all_iff)

lemma pages_in_file:
  assumes "tree_at (pool_view s) t"
  shows "length (pages t) \<le> dm_num_pages (bp_disk s)"
proof -
  have "set (pages t) \<subseteq> {..<dm_num_pages (bp_disk s)}"
    using assms rep_pages [of "pool_view s" t] pool_view_dom [of s] by (auto simp: tree_at_def disk_allocated_def)
  then have "card (set (pages t)) \<le> dm_num_pages (bp_disk s)" by (metis card_lessThan card_mono finite_lessThan)
  with assms show ?thesis by (simp add: tree_at_def distinct_card)
qed

lemma on_tree_total:
  assumes "pool.total n m s Q" and "pool_inv s" and "n \<le> pool_budget s"
  shows "\<exists>r s'. on_tree m (root, s) = (Ok r, (root, s')) \<and> pool_inv s' \<and> Q r (pool_view s')"
  using assms by (auto simp: on_tree_def elim!: pool.totalE)

end
