(* ===== verification/BTree_Split.thy ===== *)
theory BTree_Split
  imports BTree_Rep
begin

text \<open>
  Splitting a node of a B+ tree, for keys of one length, as an index over integers or floats has
  them: then a node that passed the space check has room for one more separator, one split of a
  full child is enough, and the two halves both have room. (With keys of different lengths the
  check of the code, which uses the length of the key being inserted, does not guarantee that.)

  \<open>split_pt\<close> is what splitting a node does to the tree; \<open>split_front_total\<close> shows that the first
  three steps of \<open>split_node\<close> do it in the pages, touching no page but the node and its new sibling.
\<close>

section \<open>Trees with keys of one length\<close>

definition node_capacity :: nat where
  "node_capacity = PAGE_SIZE - NODE_HEADER_SIZE"

fun sized :: "nat \<Rightarrow> ptree \<Rightarrow> bool" where
  "sized K (PLeaf p es nx) = (p < U64_MAX \<and> nx < 2 ^ 64 \<and> (\<forall>e \<in> set es. length (fst e) = K \<and> doc_id_ok (snd e)))"
| "sized K (PNode p ks ts) = (p < U64_MAX \<and> (\<forall>k \<in> set ks. length k = K) \<and> list_all (sized K) ts)"

fun full :: "nat \<Rightarrow> ptree \<Rightarrow> bool" where
  "full K (PLeaf p es nx) = (node_capacity < (length es + 1) * (K + LEAF_SLOT))"
| "full K (PNode p ks ts) = (node_capacity < (length ks + 1) * (K + INTERNAL_SLOT))"

lemma sized_pid: "sized K t \<Longrightarrow> pid t < U64_MAX"
  by (cases t) auto

lemma entry_size_uniform: "\<forall>e \<in> set es. length (fst e) = K \<Longrightarrow> entry_size w es = length es * (K + w)"
  by (induction es) (auto simp: entry_size_def split: prod.splits)

lemma entry_size_view:
  "\<forall>k \<in> set (internal_keys pg). length k = K \<Longrightarrow> entry_size w (internal_view pg) = node_count pg * (K + w)"
  using entry_size_uniform [of "internal_view pg" K w] by (auto simp: internal_keys_def)

section \<open>Splitting\<close>

fun split_pt :: "page_id \<Rightarrow> ptree \<Rightarrow> ptree \<times> key \<times> ptree" where
  "split_pt q (PLeaf p es nx) =
     (let m = length es div 2 in (PLeaf p (take m es) q, fst (es ! m), PLeaf q (drop m es) nx))"
| "split_pt q (PNode p ks ts) =
     (let m = length ks div 2 in (PNode p (take m ks) (take (m + 1) ts), ks ! m, PNode q (drop (m + 1) ks) (drop (m + 1) ts)))"

lemma full_length:
  assumes "full K t" and "3 * (K + LEAF_SLOT) \<le> node_capacity"
  shows "case t of PLeaf p es nx \<Rightarrow> 2 < length es | PNode p ks ts \<Rightarrow> 2 < length ks"
proof (cases t)
  case (PLeaf p es nx)
  have "\<not> length es + 1 \<le> 3"
  proof
    assume "length es + 1 \<le> 3"
    then have "(length es + 1) * (K + LEAF_SLOT) \<le> 3 * (K + LEAF_SLOT)" by (rule mult_le_mono1)
    with assms PLeaf show False by simp
  qed
  with PLeaf show ?thesis by simp
next
  case (PNode p ks ts)
  have "\<not> length ks + 1 \<le> 3"
  proof
    assume "length ks + 1 \<le> 3"
    then have "(length ks + 1) * (K + INTERNAL_SLOT) \<le> 3 * (K + LEAF_SLOT)"
      by (rule mult_le_mono) (simp add: LEAF_SLOT_def INTERNAL_SLOT_def)
    with assms PNode show False by simp
  qed
  with PNode show ?thesis by simp
qed

lemma separatedD:
  assumes "separated ks kss" and "i < length kss" and "x \<in> set (kss ! i)"
  shows "0 < i \<Longrightarrow> ks ! (i - 1) \<le> x" and "i < length ks \<Longrightarrow> x < ks ! i"
  using assms unfolding separated_def by blast+

lemma in_take_concat:
  assumes "x \<in> set (concat (map f (take n ts)))"
  obtains j where "j < n" and "j < length ts" and "x \<in> set (f (ts ! j))"
  using assms by (auto simp: set_conv_nth [of "take n ts"])

lemma in_drop_concat:
  assumes "x \<in> set (concat (map f (drop n ts)))"
  obtains j where "n + j < length ts" and "x \<in> set (f (ts ! (n + j)))"
  using assms by (auto simp: set_conv_nth [of "drop n ts"] less_diff_conv add.commute)

lemma sorted_nth_le: "sorted_wrt (<) ks \<Longrightarrow> i \<le> j \<Longrightarrow> j < length ks \<Longrightarrow> ks ! i \<le> (ks ! j :: 'a :: linorder)"
  using sorted_wrt_nth_less [of "(<)" ks i j] by (cases "i = j") auto

lemma separated_take:
  assumes "separated ks kss" and "m < length ks"
  shows "separated (take m ks) (take (Suc m) kss)"
  using assms unfolding separated_def by auto

lemma separated_drop:
  assumes "separated ks kss" and "m < length ks"
  shows "separated (drop (Suc m) ks) (drop (Suc m) kss)"
  unfolding separated_def
proof (intro conjI allI ballI impI)
  have len: "length kss = Suc (length ks)" using assms(1) by (simp add: separated_def)
  then show "length (drop (Suc m) kss) = Suc (length (drop (Suc m) ks))" using assms(2) by simp
  fix i x assume "i < length (drop (Suc m) kss)" "x \<in> set (drop (Suc m) kss ! i)"
  then have i: "Suc m + i < length kss" "x \<in> set (kss ! (Suc m + i))" using len assms(2) by simp_all
  then have b: "ks ! (m + i) \<le> x" "Suc m + i < length ks \<Longrightarrow> x < ks ! (Suc m + i)"
    using separatedD [OF assms(1) i] by simp_all
  show "drop (Suc m) ks ! (i - 1) \<le> x" if "0 < i" using b(1) that i(1) len by (cases i) (simp_all add: add.commute)
  show "x < drop (Suc m) ks ! i" if "i < length (drop (Suc m) ks)" using b(2) that by simp
qed

text \<open>A node that can be split into two nonempty halves.\<close>

definition splittable :: "ptree \<Rightarrow> bool" where
  "splittable t \<longleftrightarrow> (case t of PLeaf p es nx \<Rightarrow> 1 < length es | PNode p ks ts \<Rightarrow> 1 < length ks)"

text \<open>The mark that bounds the left half from below; it is smaller than the separator.\<close>

definition first_mark :: "ptree \<Rightarrow> key" where
  "first_mark t = (case t of PLeaf p es nx \<Rightarrow> fst (hd es) | PNode p ks ts \<Rightarrow> hd ks)"

lemma first_mark_in:
  assumes "splittable t"
  shows "first_mark t \<in> set (marks t)"
proof (cases t)
  case (PLeaf p es nx)
  then have "es \<noteq> []" using assms by (auto simp: splittable_def)
  then show ?thesis using PLeaf by (simp add: first_mark_def)
next
  case (PNode p ks ts)
  then have "ks \<noteq> []" using assms by (auto simp: splittable_def)
  then show ?thesis using PNode by (simp add: first_mark_def)
qed

lemma split_order_leaf:
  assumes "ordered (PLeaf p es nx)" and "1 < length es" and "split_pt q (PLeaf p es nx) = (l, k, r)"
  shows "ordered l \<and> ordered r \<and> entries l @ entries r = es
    \<and> (\<forall>x \<in> set (marks l). x < k) \<and> (\<forall>x \<in> set (marks r). k \<le> x) \<and> fst (hd es) < k \<and> k \<in> set (map fst es)"
proof -
  let ?m = "length es div 2"
  have m: "?m < length es" "0 < ?m" using assms(2) by simp_all
  have s: "sorted_wrt (<) (map fst es)" using assms(1) by simp
  have e: "map fst es = map fst (take ?m es) @ fst (es ! ?m) # map fst (drop (Suc ?m) es)"
    by (metis id_take_nth_drop [OF m(1)] list.simps(9) map_append)
  have d: "drop ?m es = es ! ?m # drop (Suc ?m) es" by (rule Cons_nth_drop_Suc [OF m(1), symmetric])
  have lr: "l = PLeaf p (take ?m es) q" "k = fst (es ! ?m)" "r = PLeaf q (drop ?m es) nx"
    using assms(3) by (simp_all add: Let_def)
  from s have "sorted_wrt (<) (map fst (take ?m es)) \<and> sorted_wrt (<) (fst (es ! ?m) # map fst (drop (Suc ?m) es))
    \<and> (\<forall>x \<in> set (map fst (take ?m es)). x < fst (es ! ?m))"
    by (subst (asm) e) (simp add: sorted_wrt_append)
  moreover have "take ?m es @ es ! ?m # drop (Suc ?m) es = es" by (rule id_take_nth_drop [OF m(1), symmetric])
  moreover have "fst (hd es) < fst (es ! ?m)"
    using sorted_wrt_nth_less [OF s, of 0 ?m] m by (cases es) auto
  ultimately show ?thesis using lr d m(1) by auto
qed

lemma split_order_node:
  assumes "ordered (PNode p ks ts)" and "1 < length ks" and "split_pt q (PNode p ks ts) = (l, k, r)"
  shows "ordered l \<and> ordered r \<and> entries l @ entries r = entries (PNode p ks ts)
    \<and> (\<forall>x \<in> set (marks l). x < k) \<and> (\<forall>x \<in> set (marks r). k \<le> x) \<and> hd ks < k \<and> k \<in> set ks"
proof -
  let ?m = "length ks div 2"
  have m: "?m < length ks" "0 < ?m" using assms(2) by simp_all
  have o: "sorted_wrt (<) ks" "separated ks (map marks ts)" "list_all ordered ts" using assms(1) by simp_all
  then have len: "length ts = Suc (length ks)" by (simp add: separated_def)
  have lr: "l = PNode p (take ?m ks) (take (Suc ?m) ts)" "k = ks ! ?m" "r = PNode q (drop (Suc ?m) ks) (drop (Suc ?m) ts)"
    using assms(3) by (simp_all add: Let_def)
  have "ordered l" using o separated_take [OF o(2) m(1)] by (auto simp: lr take_map list_all_iff sorted_wrt_take dest: in_set_takeD)
  moreover have "ordered r" using o separated_drop [OF o(2) m(1)] by (auto simp: lr drop_map list_all_iff sorted_wrt_drop dest: in_set_dropD)
  moreover have "entries l @ entries r = entries (PNode p ks ts)"
    unfolding lr by (simp add: take_map [symmetric] drop_map [symmetric] flip: concat_append)
  moreover have "x < k" if "x \<in> set (marks l)" for x
  proof (cases "x \<in> set (take ?m ks)")
    case True
    then obtain j where "j < ?m" "x = ks ! j" by (auto simp: in_set_conv_nth)
    then show ?thesis using sorted_wrt_nth_less [OF o(1), of j ?m] m by (simp add: lr)
  next
    case False
    then have "x \<in> set (concat (map marks (take (Suc ?m) ts)))" using that by (simp add: lr)
    then obtain j where j: "j < Suc ?m" "j < length ts" "x \<in> set (marks (ts ! j))" by (rule in_take_concat)
    then have "x < ks ! j" using separatedD(2) [OF o(2), of j x] m(1) by simp
    also have "\<dots> \<le> ks ! ?m" using j(1) m by (intro sorted_nth_le [OF o(1)]) simp_all
    finally show ?thesis by (simp add: lr)
  qed
  moreover have "k \<le> x" if "x \<in> set (marks r)" for x
  proof (cases "x \<in> set (drop (Suc ?m) ks)")
    case True
    then obtain j where "j < length ks - Suc ?m" "x = ks ! (Suc ?m + j)" by (auto simp: in_set_conv_nth)
    then show ?thesis using sorted_nth_le [OF o(1), of ?m "Suc ?m + j"] by (simp add: lr)
  next
    case False
    then have "x \<in> set (concat (map marks (drop (Suc ?m) ts)))" using that by (simp add: lr)
    then obtain j where j: "Suc ?m + j < length ts" "x \<in> set (marks (ts ! (Suc ?m + j)))" by (rule in_drop_concat)
    then have "ks ! (?m + j) \<le> x" using separatedD(1) [OF o(2), of "Suc ?m + j" x] by simp
    moreover have "ks ! ?m \<le> ks ! (?m + j)"
      using j(1) len by (intro sorted_nth_le [OF o(1)]) simp_all
    ultimately show ?thesis by (simp add: lr)
  qed
  moreover have "hd ks < k" using sorted_wrt_nth_less [OF o(1), of 0 ?m] m by (cases ks) (auto simp: lr)
  ultimately show ?thesis using m(1) by (simp add: lr)
qed

lemma split_order:
  assumes "ordered t" and "splittable t" and "split_pt q t = (l, k, r)"
  shows "ordered l" and "ordered r" and "entries l @ entries r = entries t"
    and "\<forall>x \<in> set (marks l). x < k" and "\<forall>x \<in> set (marks r). k \<le> x"
    and "first_mark t < k" and "k \<in> set (marks t)"
proof -
  have "ordered l \<and> ordered r \<and> entries l @ entries r = entries t
    \<and> (\<forall>x \<in> set (marks l). x < k) \<and> (\<forall>x \<in> set (marks r). k \<le> x) \<and> first_mark t < k \<and> k \<in> set (marks t)"
  proof (cases t)
    case (PLeaf p es nx)
    then show ?thesis using split_order_leaf [of p es nx q l k r] assms by (simp add: splittable_def first_mark_def)
  next
    case (PNode p ks ts)
    then show ?thesis using split_order_node [of p ks ts q l k r] assms by (simp add: splittable_def first_mark_def)
  qed
  then show "ordered l" "ordered r" "entries l @ entries r = entries t"
    "\<forall>x \<in> set (marks l). x < k" "\<forall>x \<in> set (marks r). k \<le> x" "first_mark t < k" "k \<in> set (marks t)" by blast+
qed

text \<open>The marks of the halves are marks of the whole.\<close>

lemma split_marks:
  assumes "split_pt q t = (l, k, r)"
  shows "set (marks l) \<subseteq> set (marks t)" "set (marks r) \<subseteq> set (marks t)"
proof -
  have "set (marks l) \<subseteq> set (marks t) \<and> set (marks r) \<subseteq> set (marks t)"
    using assms
    by (cases t) (auto simp: Let_def dest!: in_set_takeD in_set_dropD)
  then show "set (marks l) \<subseteq> set (marks t)" "set (marks r) \<subseteq> set (marks t)" by blast+
qed

lemma split_shape:
  assumes "split_pt q t = (l, k, r)"
  shows "pid l = pid t" and "pid r = q"
  using assms by (cases t; auto simp: Let_def)+

lemma ball_take_drop:
  "\<forall>x \<in> set xs. P x \<Longrightarrow> \<forall>x \<in> set (take n xs). P x" "\<forall>x \<in> set xs. P x \<Longrightarrow> \<forall>x \<in> set (drop n xs). P x"
  using in_set_takeD [of _ n xs] in_set_dropD [of _ n xs] by blast+

lemma split_sized:
  assumes "sized K t" and "q < U64_MAX" and "splittable t"
    and "split_pt q t = (l, k, r)"
  shows "sized K l" and "sized K r" and "length k = K"
proof -
  have q: "q < 2 ^ 64" using assms(2) by (simp add: U64_MAX_def)
  have "sized K l \<and> sized K r \<and> length k = K"
  proof (cases t)
    case (PLeaf p es nx)
    have "es ! (length es div 2) \<in> set es" using assms(3) PLeaf by (simp add: splittable_def)
    moreover have es: "\<forall>e \<in> set es. length (fst e) = K \<and> doc_id_ok (snd e)" using assms(1) PLeaf by simp
    note ball_take_drop [OF es]
    moreover have "l = PLeaf p (take (length es div 2) es) q" "k = fst (es ! (length es div 2))"
      "r = PLeaf q (drop (length es div 2) es) nx" using assms(4) PLeaf by (simp_all add: Let_def)
    ultimately show ?thesis using assms(1,2) PLeaf q by simp
  next
    case (PNode p ks ts)
    have "ks ! (length ks div 2) \<in> set ks" using assms(3) PNode by (simp add: splittable_def)
    moreover have ks: "\<forall>k \<in> set ks. length k = K" and ts: "\<forall>t \<in> set ts. sized K t"
      using assms(1) PNode by (simp_all add: list_all_iff)
    note ball_take_drop [OF ks] ball_take_drop [OF ts]
    moreover have "l = PNode p (take (length ks div 2) ks) (take (Suc (length ks div 2)) ts)" "k = ks ! (length ks div 2)"
      "r = PNode q (drop (Suc (length ks div 2)) ks) (drop (Suc (length ks div 2)) ts)" using assms(4) PNode by (simp_all add: Let_def)
    ultimately show ?thesis using assms(1,2) PNode by (simp add: list_all_iff)
  qed
  then show "sized K l" "sized K r" "length k = K" by blast+
qed

text \<open>\<open>fits\<close>: the entries of the node are in one page.\<close>

fun fits :: "nat \<Rightarrow> ptree \<Rightarrow> bool" where
  "fits K (PLeaf p es nx) = (length es * (K + LEAF_SLOT) \<le> node_capacity)"
| "fits K (PNode p ks ts) = (length ks * (K + INTERNAL_SLOT) \<le> node_capacity)"

lemma split_not_full:
  assumes "fits K t" and "splittable t"
    and "split_pt q t = (l, k, r)"
  shows "\<not> full K l" and "\<not> full K r"
proof -
  have small: "\<not> c < (a + 1) * b" if "n * b \<le> c" "a + 1 \<le> n" for a b c n :: nat
    using mult_le_mono1 [OF that(2), of b] that(1) by linarith
  show "\<not> full K l" "\<not> full K r"
    using assms by (cases t; force simp: Let_def splittable_def intro!: small dest: small)+
qed

lemma split_pages:
  assumes "distinct (pages t)" and "q \<notin> set (pages t)" and "split_pt q t = (l, k, r)"
  shows "distinct (pages l @ pages r)" and "set (pages l) \<union> set (pages r) = insert q (set (pages t))"
proof -
  have "distinct (pages l @ pages r) \<and> set (pages l) \<union> set (pages r) = insert q (set (pages t))"
  proof (cases t)
    case (PLeaf p es nx)
    then show ?thesis using assms by (auto simp: Let_def)
  next
    case (PNode p ks ts)
    let ?m = "Suc (length ks div 2)"
    have lr: "pages l = p # concat (map pages (take ?m ts))" "pages r = q # concat (map pages (drop ?m ts))"
      using assms(3) PNode by (auto simp: Let_def)
    have "concat (map pages (take ?m ts)) @ concat (map pages (drop ?m ts)) = concat (map pages ts)"
      by (simp flip: concat_append map_append)
    then have "distinct (p # concat (map pages (take ?m ts)) @ concat (map pages (drop ?m ts)))"
      "set (concat (map pages (take ?m ts))) \<union> set (concat (map pages (drop ?m ts))) = set (concat (map pages ts))"
      using assms(1) PNode by (simp, metis set_append)
    then show ?thesis using assms(2) PNode lr by auto
  qed
  then show "distinct (pages l @ pages r)" "set (pages l) \<union> set (pages r) = insert q (set (pages t))" by blast+
qed

lemma linked_append_iff:
  "linked (xs @ ys) e \<longleftrightarrow> (if ys = [] then linked xs e
     else linked xs (fst (hd ys)) \<and> (xs \<noteq> [] \<longrightarrow> fst (hd ys) \<noteq> NO_NEXT_LEAF) \<and> linked ys e)"
proof (induction xs)
  case (Cons x xs)
  show ?case
  proof (cases xs)
    case Nil
    then show ?thesis by (cases x; cases ys) auto
  next
    case (Cons y zs)
    then show ?thesis using Cons.IH by (cases x; cases y) auto
  qed
qed simp

lemma linked_replace:
  assumes "linked (xs @ c @ ys) e" and "c \<noteq> []" "c' \<noteq> []" and "fst (hd c') = fst (hd c)" and "\<And>e. linked c e \<Longrightarrow> linked c' e"
  shows "linked (xs @ c' @ ys) e"
  using assms(1-4) assms(5) [of e] assms(5) [of "fst (hd ys)"]
  by (auto simp: linked_append_iff [of xs] linked_append_iff [of c] linked_append_iff [of c'] hd_append split: if_splits)

lemma split_linked:
  assumes "split_pt q t = (l, k, r)" and "q \<noteq> NO_NEXT_LEAF"
    and "splittable t"
    and "list_all (\<lambda>t. leaves t \<noteq> []) (case t of PLeaf p es nx \<Rightarrow> [] | PNode p ks ts \<Rightarrow> ts)"
  shows "linked (leaves t) e \<Longrightarrow> linked (leaves l @ leaves r) e" and "fst (hd (leaves l @ leaves r)) = fst (hd (leaves t))"
proof -
  have "(linked (leaves t) e \<longrightarrow> linked (leaves l @ leaves r) e) \<and> fst (hd (leaves l @ leaves r)) = fst (hd (leaves t))"
  proof (cases t)
    case (PLeaf p es nx)
    then show ?thesis using assms by (auto simp: Let_def)
  next
    case (PNode p ks ts)
    have "leaves l @ leaves r = leaves t"
      using assms(1) PNode by (auto simp: Let_def simp flip: concat_append map_append)
    then show ?thesis by simp
  qed
  then show "linked (leaves t) e \<Longrightarrow> linked (leaves l @ leaves r) e" "fst (hd (leaves l @ leaves r)) = fst (hd (leaves t))"
    by blast+
qed

section \<open>Building the pages of the two halves\<close>

lemma length_at:
  "leaf_at (Some pg) es nx \<Longrightarrow> length pg = PAGE_SIZE" "internal_at (Some pg) ks cs \<Longrightarrow> length pg = PAGE_SIZE"
  by (auto elim!: leaf_atE internal_atE simp: node_okD)

lemma sorted_pairs: "sorted_wrt (<) (map fst es) \<Longrightarrow> sorted_wrt (<) es" for es :: "('a :: linorder \<times> 'b :: linorder) list"
  by (auto simp: sorted_wrt_map less_prod_def' elim!: sorted_wrt_mono_rel [rotated])

definition page_fit :: "nat \<Rightarrow> nat \<Rightarrow> (key \<times> 'a) list \<Rightarrow> bool" where
  "page_fit K w es \<longleftrightarrow> sorted_wrt (<) (map fst es) \<and> (\<forall>e \<in> set es. length (fst e) = K) \<and> length es * (K + w) \<le> node_capacity"

lemma page_fitD:
  assumes "page_fit K w es"
  shows "sorted_wrt (<) (map fst es)" "entry_size w es = length es * (K + w)" "entry_size w es \<le> PAGE_SIZE - NODE_HEADER_SIZE"
  using assms entry_size_uniform [of es K w] by (simp_all add: page_fit_def node_capacity_def)

lemma page_fit_parts:
  assumes "page_fit K w es"
  shows "page_fit K w (take n es)" "page_fit K w (drop n es)"
proof -
  have len: "length (take n es) \<le> length es" "length (drop n es) \<le> length es" by simp_all
  have "length (take n es) * (K + w) \<le> node_capacity" "length (drop n es) * (K + w) \<le> node_capacity"
    using assms mult_le_mono1 [OF len(1), of "K + w"] mult_le_mono1 [OF len(2), of "K + w"] unfolding page_fit_def by linarith+
  then show "page_fit K w (take n es)" "page_fit K w (drop n es)"
    using assms ball_take_drop [of es "\<lambda>e. length (fst e) = K" n]
    by (simp_all add: page_fit_def take_map [symmetric] drop_map [symmetric] sorted_wrt_take sorted_wrt_drop)
qed

lemma leaf_rebuild_at:
  assumes "length pg = PAGE_SIZE" and "page_fit K LEAF_SLOT es" and "\<forall>e \<in> set es. doc_id_ok (snd e)" and "nx < 2 ^ 64"
  obtains pg' where "leaf_rebuild es nx pg = Ok pg'" and "leaf_at (Some pg') es nx"
proof -
  obtain pg' where "leaf_rebuild es nx pg = Ok pg'" "leaf_holds pg' es nx"
    "node_room LEAF_SLOT pg' = PAGE_SIZE - NODE_HEADER_SIZE - entry_size LEAF_SLOT es"
    by (rule leaf_rebuild_Ok [OF assms(1) sorted_pairs [OF page_fitD(1) [OF assms(2)]]])
      (use assms page_fitD(3) [OF assms(2)] in \<open>auto split: prod.splits\<close>)
  then show thesis using that page_fitD(3) [OF assms(2)] by (simp add: leaf_at_def packed_def)
qed

lemma leaf_sibling_at:
  assumes "length pg = PAGE_SIZE" and "page_fit K LEAF_SLOT es" and "\<forall>e \<in> set es. doc_id_ok (snd e)"
  obtains pg' where "bindO (leaf_init pg) (leaf_insert_all es) = Ok pg'" and "leaf_at (Some pg') es NO_NEXT_LEAF"
proof -
  obtain p0 where p0: "leaf_init pg = Ok p0" "leaf_holds p0 [] NO_NEXT_LEAF" "node_room LEAF_SLOT p0 = PAGE_SIZE - NODE_HEADER_SIZE"
    by (rule leaf_init_Ok [OF assms(1)])
  have "\<exists>pg'. leaf_insert_all es p0 = Ok pg' \<and> leaf_holds pg' (leaf_view p0 @ es) (node_link p0)
    \<and> node_room LEAF_SLOT pg' = node_room LEAF_SLOT p0 - entry_size LEAF_SLOT es"
    by (rule leaf_insert_all_Ok)
      (use p0 assms(3) page_fitD [OF assms(2)] sorted_pairs in \<open>auto simp: leaf_holds_def split: prod.splits\<close>)
  then obtain pg' where pg': "leaf_insert_all es p0 = Ok pg'" "leaf_holds pg' (leaf_view p0 @ es) (node_link p0)"
    "node_room LEAF_SLOT pg' = node_room LEAF_SLOT p0 - entry_size LEAF_SLOT es" by blast
  have "leaf_view p0 = []" "node_link p0 = NO_NEXT_LEAF" using p0(2) by (simp_all add: leaf_holds_def)
  then show thesis
    using that [of pg'] p0 pg' page_fitD(3) [OF assms(2)] by (simp add: leaf_at_def packed_def)
qed

lemma set_next_leaf_at:
  assumes "leaf_at (Some pg) es nx" and "p < 2 ^ 64"
  obtains pg' where "set_next_leaf p pg = Ok pg'" and "leaf_at (Some pg') es p"
proof -
  have h: "leaf_holds pg es nx" "packed LEAF_SLOT pg es" using assms(1) by (auto simp: leaf_at_def)
  obtain pg' where "set_next_leaf p pg = Ok pg'" "leaf_holds pg' es p" "node_room LEAF_SLOT pg' = node_room LEAF_SLOT pg"
    by (rule set_next_leaf_Ok [OF h(1) assms(2)])
  with h(2) that show thesis by (simp add: leaf_at_def packed_def)
qed

lemma internal_at_of_holds:
  assumes "internal_holds pg l es" and "node_room INTERNAL_SLOT pg = PAGE_SIZE - NODE_HEADER_SIZE - entry_size INTERNAL_SLOT es"
    and "entry_size INTERNAL_SLOT es \<le> PAGE_SIZE - NODE_HEADER_SIZE"
  shows "internal_at (Some pg) (map fst es) (l # map snd es)"
  using assms by (auto simp: internal_at_def internal_holds_def internal_keys_def internal_children_def packed_def)

lemma internal_rebuild_at:
  assumes "length pg = PAGE_SIZE" and "page_fit K INTERNAL_SLOT es" and "l < 2 ^ 64" and "\<forall>e \<in> set es. snd e < 2 ^ 64"
  obtains pg' where "internal_rebuild l es pg = Ok pg'" and "internal_at (Some pg') (map fst es) (l # map snd es)"
proof -
  obtain pg' where "internal_rebuild l es pg = Ok pg'" "internal_holds pg' l es"
    "node_room INTERNAL_SLOT pg' = PAGE_SIZE - NODE_HEADER_SIZE - entry_size INTERNAL_SLOT es"
    by (rule internal_rebuild_Ok [OF assms(1,3) page_fitD(1) [OF assms(2)]])
      (use assms(4) page_fitD(3) [OF assms(2)] in \<open>auto split: prod.splits\<close>)
  then show thesis using that internal_at_of_holds page_fitD(3) [OF assms(2)] by blast
qed

lemma split_leaf_data_at:
  assumes "leaf_at (Some pg) es nx" and "es \<noteq> []"
  shows "split_leaf_data pg = Ok (let m = length es div 2 in SplitLeaf (fst (es ! m)) (take m es) (drop m es) nx)"
proof -
  have "length es div 2 < length es" using assms(2) by simp
  then have m: "\<not> length es \<le> length es div 2" by linarith
  from assms(1) show ?thesis
    by (rule leaf_atE) (use m in \<open>simp add: split_leaf_data_def leaf_entries_Ok header_Ok Let_def\<close>)
qed

lemma split_internal_data_at:
  assumes "internal_at (Some pg) ks cs" and "ks \<noteq> []"
  shows "split_internal_data pg = Ok (let m = length ks div 2; es = zip ks (tl cs) in
    SplitInternal (ks ! m) (hd cs) (take m es) (drop (m + 1) es) (cs ! (m + 1)))"
  using assms(1)
proof (rule internal_atE)
  fix p assume p: "Some pg = Some p" "internal_keys p = ks" "internal_children p = cs" "node_ok INTERNAL_SLOT p" "node_count p = length ks"
  have v: "internal_view p = zip ks (tl cs)" using p(2,3) by (auto simp: internal_keys_def internal_children_def zip_map_fst_snd)
  have "length ks div 2 < length ks" using assms(2) by simp
  then have m: "length ks div 2 < length ks" "\<not> length ks \<le> length ks div 2" by linarith+
  have "fst (internal_view p ! (length ks div 2)) = ks ! (length ks div 2)" "snd (internal_view p ! (length ks div 2)) = cs ! Suc (length ks div 2)"
    using p(2,3,5) m(1) by (auto simp: internal_keys_def internal_children_def)
  moreover have "hd cs = node_link p" using p(3) by (auto simp: internal_children_def)
  moreover have "pg = p" using p(1) by simp
  ultimately show ?thesis
    using m p(4,5) by (simp add: split_internal_data_def internal_entries_Ok header_Ok Let_def v [symmetric])
qed

section \<open>Splitting in the store\<close>

lemma write_node_total:
  assumes "pool_view s p = Some pg" and "f pg = Ok pg'" and "length pg' = PAGE_SIZE"
  shows "pool.total 1 (write_node p f) s (\<lambda>_ V. V = (pool_view s)(p \<mapsto> pg'))"
  unfolding write_node_def
  by (rule pool.total_conseq [OF with_page_mut_total [OF assms(1) _ assms(3)]]) (auto simp: assms(2))

lemma alloc_node_total:
  assumes "f new_page_bytes = Ok pg" and "length pg = PAGE_SIZE"
  shows "pool.total 1 (alloc_node f) s (\<lambda>q V. pool_view s q = None \<and> q < U64_MAX \<and> V = (pool_view s)(q \<mapsto> pg))"
proof -
  have "pool.total (1 + 0) (alloc_node f) s (\<lambda>q V. pool_view s q = None \<and> q < U64_MAX \<and> V = (pool_view s)(q \<mapsto> pg))"
    unfolding alloc_node_def
    by (rule pool.total_bind [OF new_page_total [of _ "()" pg]]) (auto simp: assms intro!: pool_returnN)
  then show ?thesis by simp
qed

lemma rep_frame: "rep V t \<Longrightarrow> (\<And>p. p \<in> set (pages t) \<Longrightarrow> V' p = V p) \<Longrightarrow> rep V' t"
  by (induction t) (auto simp: list_all_iff)

lemma rep_fits:
  assumes "rep V t" and "sized K t"
  shows "fits K t"
proof (cases t)
  case (PLeaf p es nx)
  then have "leaf_at (V p) es nx" "\<forall>e \<in> set es. length (fst e) = K" using assms by simp_all
  then show ?thesis
    using PLeaf entry_size_uniform [of es K LEAF_SLOT] by (auto simp: leaf_at_def packed_def node_capacity_def)
next
  case (PNode p ks ts)
  then have "internal_at (V p) ks (map pid ts)" "\<forall>k \<in> set ks. length k = K" using assms by simp_all
  then obtain pg where "internal_keys pg = ks" "packed INTERNAL_SLOT pg (internal_view pg)" "node_count pg = length ks"
    by (auto elim: internal_atE)
  then show ?thesis
    using PNode entry_size_view [of pg K INTERNAL_SLOT] \<open>\<forall>k \<in> set ks. length k = K\<close>
    by (simp add: packed_def node_capacity_def)
qed

definition split_front :: "page_id \<Rightarrow> (split_data \<times> page_id) pool_prog" where
  "split_front node =
     bindP (read_node node (on_node split_leaf_data split_internal_data)) (\<lambda>data.
     bindP (alloc_node (sibling_page data)) (\<lambda>sib.
     bindP (write_node node (truncate_page data sib)) (\<lambda>_.
     bindP (link_sibling data sib) (\<lambda>_. returnP (data, sib)))))"

definition split_result :: "(page_id \<rightharpoonup> page) \<Rightarrow> ptree \<Rightarrow> split_data \<times> page_id \<Rightarrow> (page_id \<rightharpoonup> page) \<Rightarrow> bool" where
  "split_result V t dq V' \<longleftrightarrow> (\<exists>l k r. split_pt (snd dq) t = (l, k, r) \<and> split_separator (fst dq) = k
     \<and> V (snd dq) = None \<and> snd dq < U64_MAX \<and> rep V' l \<and> rep V' r
     \<and> (\<forall>p. p \<noteq> pid t \<longrightarrow> p \<noteq> snd dq \<longrightarrow> V' p = V p))"

lemma split_leaf_total:
  assumes at: "leaf_at (pool_view s p) es nx" and sz: "sized K (PLeaf p es nx)" and srt: "sorted_wrt (<) (map fst es)"
    and big: "1 < length es"
  shows "pool.total 4 (split_front p) s (split_result (pool_view s) (PLeaf p es nx))"
proof -
  let ?m = "length es div 2" let ?V = "pool_view s"
  let ?D = "SplitLeaf (fst (es ! ?m)) (take ?m es) (drop ?m es) nx"
  from at obtain pg where pg: "?V p = Some pg" "is_leaf_page pg" "leaf_at (Some pg) es nx"
    by (metis leaf_atE)
  have "page_fit K LEAF_SLOT es"
    using rep_fits [of ?V "PLeaf p es nx" K] at sz srt by (simp add: page_fit_def)
  note pf = page_fit_parts [OF this]
  have docs: "\<forall>e \<in> set es. doc_id_ok (snd e)" using sz by simp
  note ball_take_drop [OF docs]
  note d = this
  obtain pg1 where pg1: "sibling_page ?D new_page_bytes = Ok pg1" "leaf_at (Some pg1) (drop ?m es) NO_NEXT_LEAF"
    using leaf_sibling_at [OF length_new_page_bytes pf(2) d(2)] by auto
  have rd: "on_node split_leaf_data split_internal_data pg = Ok ?D"
    using split_leaf_data_at [OF pg(3)] big pg(2) by (fastforce simp: on_node_def Let_def)
  have "pool.total (1 + (1 + (1 + (1 + 0)))) (split_front p) s (split_result ?V (PLeaf p es nx))"
    unfolding split_front_def
  proof (rule pool.total_bind [OF read_node_total [of s p pg "on_node split_leaf_data split_internal_data", OF pg(1) rd]])
    fix D s1 assume s1: "D = ?D \<and> pool_view s1 = ?V"
    show "pool.total (1 + (1 + (1 + 0))) (bindP (alloc_node (sibling_page D)) (\<lambda>sib.
        bindP (write_node p (truncate_page D sib)) (\<lambda>_. bindP (link_sibling D sib) (\<lambda>_. returnP (D, sib))))) s1
        (split_result ?V (PLeaf p es nx))"
    proof (rule pool.total_bind [OF alloc_node_total [of _ pg1]])
      show "sibling_page D new_page_bytes = Ok pg1" "length pg1 = PAGE_SIZE" using s1 pg1 length_at by auto
      fix q s2 assume "pool_view s1 q = None \<and> q < U64_MAX \<and> pool_view s2 = (pool_view s1)(q \<mapsto> pg1)"
      then have q: "?V q = None" "q < U64_MAX" "pool_view s2 = ?V(q \<mapsto> pg1)" "q \<noteq> p" using s1 pg(1) by auto
      have q64: "q < 2 ^ 64" using q(2) by (simp add: U64_MAX_def)
      obtain pg2 where pg2: "leaf_rebuild (take ?m es) q pg = Ok pg2" "leaf_at (Some pg2) (take ?m es) q"
        by (rule leaf_rebuild_at [OF _ pf(1) d(1) q64, of pg]) (use length_at(1) [OF pg(3)] in auto)
      have nx: "nx < 2 ^ 64" using sz by simp
      obtain pg3 where pg3: "set_next_leaf nx pg1 = Ok pg3" "leaf_at (Some pg3) (drop ?m es) nx"
        by (rule set_next_leaf_at [OF pg1(2) nx])
      have v2: "pool_view s2 p = Some pg" using q pg(1) by simp
      show "pool.total (1 + (1 + 0)) (bindP (write_node p (truncate_page D q)) (\<lambda>_. bindP (link_sibling D q) (\<lambda>_. returnP (D, q)))) s2
          (split_result ?V (PLeaf p es nx))"
      proof (rule pool.total_bind [OF write_node_total [OF v2, of _ pg2]])
        show "truncate_page D q pg = Ok pg2" "length pg2 = PAGE_SIZE" using s1 pg(2) pg2 length_at by auto
        fix u s3 assume s3: "pool_view s3 = (pool_view s2)(p \<mapsto> pg2)"
        then have v3: "pool_view s3 q = Some pg1" using q by simp
        have "link_sibling D q = write_node q (set_next_leaf nx)" using s1 by simp
        moreover have "pool.total (1 + 0) (bindP (write_node q (set_next_leaf nx)) (\<lambda>_. returnP (D, q))) s3 (split_result ?V (PLeaf p es nx))"
        proof (rule pool.total_bind [OF write_node_total [of s3 q pg1 "set_next_leaf nx", OF v3 pg3(1)]])
          show "length pg3 = PAGE_SIZE" using pg3 length_at by auto
          fix u s4 assume "pool_view s4 = (pool_view s3)(q \<mapsto> pg3)"
          then have "pool_view s4 = ?V(q \<mapsto> pg1, p \<mapsto> pg2, q \<mapsto> pg3)" using s3 q(3) by simp
          then show "pool.total 0 (returnP (D, q)) s4 (split_result ?V (PLeaf p es nx))"
            using q s1 pg2(2) pg3(2) by (intro pool_returnN) (auto simp: split_result_def Let_def)
        qed
        ultimately show "pool.total (1 + 0) (bindP (link_sibling D q) (\<lambda>_. returnP (D, q))) s3 (split_result ?V (PLeaf p es nx))" by simp
      qed
    qed
  qed
  then show ?thesis by (rule pool.total_conseq) simp_all
qed

lemma split_internal_total:
  assumes rep: "rep (pool_view s) (PNode p ks ts)" and sz: "sized K (PNode p ks ts)" and srt: "sorted_wrt (<) ks"
    and dist: "distinct (pages (PNode p ks ts))" and big: "1 < length ks"
  shows "pool.total 4 (split_front p) s (split_result (pool_view s) (PNode p ks ts))"
proof -
  let ?m = "length ks div 2" let ?V = "pool_view s" let ?cs = "map pid ts"
  let ?es = "zip ks (tl ?cs)"
  let ?D = "SplitInternal (ks ! ?m) (hd ?cs) (take ?m ?es) (drop (?m + 1) ?es) (?cs ! (?m + 1))"
  have at: "internal_at (?V p) ks ?cs" using rep by simp
  then obtain pg where pg: "?V p = Some pg" "\<not> is_leaf_page pg" "internal_at (Some pg) ks ?cs" "length ?cs = Suc (length ks)"
    by (metis internal_atE)
  then have len: "length ts = Suc (length ks)" by simp
  have m: "?m < length ks" using big by simp
  have es: "map fst ?es = ks" "map snd ?es = tl ?cs" "length ?es = length ks" using len by simp_all
  have kl: "\<forall>k \<in> set ks. length k = K" using sz by simp
  have pf: "page_fit K INTERNAL_SLOT ?es"
    using rep_fits [OF rep sz] srt es kl by (auto simp: page_fit_def dest: set_zip_leftD)
  note pfs = page_fit_parts [OF pf]
  have small: "\<forall>c \<in> set ?cs. c < 2 ^ 64" using sz sized_pid [of K] by (fastforce simp: list_all_iff U64_MAX_def)
  moreover have ne: "?cs \<noteq> []" using pg(4) by auto
  then have "hd ?cs \<in> set ?cs" by (rule hd_in_set)
  moreover have "?cs ! (?m + 1) \<in> set ?cs" using pg(4) m by (intro nth_mem) simp
  moreover have "snd e \<in> set ?cs" if "e \<in> set ?es" for e
    using that ne by (metis list.set_sel(2) prod.collapse set_zip_rightD)
  ultimately have c64: "hd ?cs < 2 ^ 64" "?cs ! (?m + 1) < 2 ^ 64" "\<forall>e \<in> set ?es. snd e < 2 ^ 64" by blast+
  note e64 = ball_take_drop [OF c64(3)]
  obtain pg1 where pg1: "sibling_page ?D new_page_bytes = Ok pg1"
    "internal_at (Some pg1) (map fst (drop (?m + 1) ?es)) (?cs ! (?m + 1) # map snd (drop (?m + 1) ?es))"
    using internal_rebuild_at [OF length_new_page_bytes pfs(2) c64(2) e64(2)] by (auto simp: internal_rebuild_def)
  obtain pg2 where pg2: "internal_rebuild (hd ?cs) (take ?m ?es) pg = Ok pg2"
    "internal_at (Some pg2) (map fst (take ?m ?es)) (hd ?cs # map snd (take ?m ?es))"
    by (rule internal_rebuild_at [OF length_at(2) [OF pg(3)] pfs(1) c64(1) e64(1)])
  have cs1: "?cs ! (?m + 1) # map snd (drop (?m + 1) ?es) = map pid (drop (?m + 1) ts)"
  proof -
    have "map snd (drop (?m + 1) ?es) = drop (Suc (?m + 1)) ?cs" using es(2) by (metis drop_Suc drop_map)
    moreover have "?cs ! (?m + 1) # drop (Suc (?m + 1)) ?cs = drop (?m + 1) ?cs"
      by (rule Cons_nth_drop_Suc) (use pg(4) m in simp)
    ultimately show ?thesis by (simp only: drop_map)
  qed
  have cs2: "hd ?cs # map snd (take ?m ?es) = map pid (take (?m + 1) ts)"
    using len es(2) by (cases ts) (simp_all add: take_map [symmetric])
  have ks12: "map fst (drop (?m + 1) ?es) = drop (?m + 1) ks" "map fst (take ?m ?es) = take ?m ks"
    using es(1) by (metis drop_map, metis take_map)
  have rd: "on_node split_leaf_data split_internal_data pg = Ok ?D"
    using split_internal_data_at [OF pg(3)] big pg(2) by (fastforce simp: on_node_def Let_def)
  have "pool.total (1 + (1 + (1 + (0 + 0)))) (split_front p) s (split_result ?V (PNode p ks ts))"
    unfolding split_front_def
  proof (rule pool.total_bind [OF read_node_total [of s p pg "on_node split_leaf_data split_internal_data", OF pg(1) rd]])
    fix D s1 assume s1: "D = ?D \<and> pool_view s1 = ?V"
    show "pool.total (1 + (1 + (0 + 0))) (bindP (alloc_node (sibling_page D)) (\<lambda>sib.
        bindP (write_node p (truncate_page D sib)) (\<lambda>_. bindP (link_sibling D sib) (\<lambda>_. returnP (D, sib))))) s1
        (split_result ?V (PNode p ks ts))"
    proof (rule pool.total_bind [OF alloc_node_total [of _ pg1]])
      show "sibling_page D new_page_bytes = Ok pg1" "length pg1 = PAGE_SIZE" using s1 pg1 length_at by auto
      fix q s2 assume "pool_view s1 q = None \<and> q < U64_MAX \<and> pool_view s2 = (pool_view s1)(q \<mapsto> pg1)"
      then have q: "?V q = None" "q < U64_MAX" "pool_view s2 = ?V(q \<mapsto> pg1)" "q \<noteq> p" using s1 pg(1) by auto
      have v2: "pool_view s2 p = Some pg" using q pg(1) by simp
      show "pool.total (1 + (0 + 0)) (bindP (write_node p (truncate_page D q)) (\<lambda>_. bindP (link_sibling D q) (\<lambda>_. returnP (D, q)))) s2
          (split_result ?V (PNode p ks ts))"
      proof (rule pool.total_bind [OF write_node_total [OF v2, of _ pg2]])
        show "truncate_page D q pg = Ok pg2" "length pg2 = PAGE_SIZE" using s1 pg(2) pg2 length_at by auto
        fix u s3 assume "pool_view s3 = (pool_view s2)(p \<mapsto> pg2)"
        then have v3: "pool_view s3 = ?V(q \<mapsto> pg1, p \<mapsto> pg2)" using q(3) by simp
        have sub: "rep (pool_view s3) t" if "t \<in> set ts" for t
        proof (rule rep_frame)
          show "rep ?V t" using rep that by (simp add: list_all_iff)
          then have "?V x \<noteq> None" if "x \<in> set (pages t)" for x using rep_pages that by blast
          then have "x \<noteq> q" if "x \<in> set (pages t)" for x using that q(1) by blast
          moreover have "x \<noteq> p" if "x \<in> set (pages t)" for x using that dist \<open>t \<in> set ts\<close> by auto
          ultimately show "pool_view s3 x = ?V x" if "x \<in> set (pages t)" for x using that v3 by simp
        qed
        have "rep (pool_view s3) (PNode p (take ?m ks) (take (?m + 1) ts))"
          using pg2(2) sub v3 q(4) unfolding ks12 cs2 by (auto simp: list_all_iff dest: in_set_takeD)
        moreover have "rep (pool_view s3) (PNode q (drop (?m + 1) ks) (drop (?m + 1) ts))"
          using pg1(2) sub v3 q(4) unfolding ks12 cs1 by (auto simp: list_all_iff dest: in_set_dropD)
        ultimately have "split_result ?V (PNode p ks ts) (?D, q) (pool_view s3)"
          using q v3 by (simp add: split_result_def Let_def)
        then show "pool.total (0 + 0) (bindP (link_sibling D q) (\<lambda>_. returnP (D, q))) s3 (split_result ?V (PNode p ks ts))"
          using s1 by (auto intro!: pool.total_bind_pure pool_returnN)
      qed
    qed
  qed
  then show ?thesis by (rule pool.total_conseq) simp_all
qed

lemma split_front_total:
  assumes "rep (pool_view s) t" and "sized K t" and "ordered t" and "distinct (pages t)"
    and "splittable t"
  shows "pool.total 4 (split_front (pid t)) s (split_result (pool_view s) t)"
  using assms by (cases t) (auto intro!: split_leaf_total [where K = K] split_internal_total [where K = K] simp: splittable_def simp del: sized.simps)

end
