(* ===== verification/BTree_Insert.thy ===== *)
theory BTree_Insert
  imports BTree_Split
begin

text \<open>
  Insertion into a B+ tree with keys of one length. \<open>grown\<close> relates the tree before and after:
  the new tree is well formed, stands on the old pages and fresh ones, keeps the leaf chain, has
  the new entry and no other change, and leaves the other pages of the store alone.
  \<open>insert_loop_total\<close> shows that the loop of \<open>insert\<close> ends and establishes it.
\<close>

section \<open>How a tree may change\<close>

definition extends :: "(page_id \<rightharpoonup> page) \<Rightarrow> ptree \<Rightarrow> (page_id \<rightharpoonup> page) \<Rightarrow> ptree \<Rightarrow> bool" where
  "extends V t V' t' \<longleftrightarrow> (\<forall>e. linked (leaves t) e \<longrightarrow> linked (leaves t') e)
     \<and> set (pages t') \<inter> dom V \<subseteq> set (pages t) \<and> dom V \<subseteq> dom V'
     \<and> (\<forall>p \<in> dom V - set (pages t). V' p = V p)"

lemma extendsD:
  assumes "extends V t V' t'"
  shows "linked (leaves t) e \<Longrightarrow> linked (leaves t') e"
    "set (pages t') \<inter> dom V \<subseteq> set (pages t)" "dom V \<subseteq> dom V'"
    "p \<in> dom V \<Longrightarrow> p \<notin> set (pages t) \<Longrightarrow> V' p = V p"
  using assms unfolding extends_def by (elim conjE, blast)+

lemma extends_trans:
  assumes 1: "extends V t V1 t1" and 2: "extends V1 t1 V2 t2"
  shows "extends V t V2 t2"
  unfolding extends_def
proof (intro conjI allI impI ballI)
  note a = extendsD [OF 1] and b = extendsD [OF 2]
  show "set (pages t2) \<inter> dom V \<subseteq> set (pages t)" "dom V \<subseteq> dom V2" using a(2,3) b(2,3) by blast+
  fix p assume p: "p \<in> dom V - set (pages t)"
  then have "p \<in> dom V1" "p \<notin> set (pages t1)" using a(2,3) by blast+
  then show "V2 p = V p" using p a(4) b(4) by simp
qed (use extendsD(1) [OF 1] extendsD(1) [OF 2] in simp_all)

text \<open>A subtree also keeps its root page and its first leaf, and does not get higher.\<close>

definition evolves :: "(page_id \<rightharpoonup> page) \<Rightarrow> ptree \<Rightarrow> (page_id \<rightharpoonup> page) \<Rightarrow> ptree \<Rightarrow> bool" where
  "evolves V t V' t' \<longleftrightarrow> pid t' = pid t \<and> fst (hd (leaves t')) = fst (hd (leaves t)) \<and> extends V t V' t' \<and> height t' \<le> height t"

lemma evolvesD:
  assumes "evolves V t V' t'"
  shows "pid t' = pid t" "fst (hd (leaves t')) = fst (hd (leaves t))" "linked (leaves t) e \<Longrightarrow> linked (leaves t') e"
    "set (pages t') \<inter> dom V \<subseteq> set (pages t)" "dom V \<subseteq> dom V'"
    "p \<in> dom V \<Longrightarrow> p \<notin> set (pages t) \<Longrightarrow> V' p = V p" "height t' \<le> height t"
proof -
  have e: "extends V t V' t'" and "height t' \<le> height t" "pid t' = pid t" "fst (hd (leaves t')) = fst (hd (leaves t))" using assms by (simp_all add: evolves_def)
  then show "pid t' = pid t" "fst (hd (leaves t')) = fst (hd (leaves t))" "height t' \<le> height t" by simp_all
  show "linked (leaves t) e \<Longrightarrow> linked (leaves t') e" "set (pages t') \<inter> dom V \<subseteq> set (pages t)" "dom V \<subseteq> dom V'"
    "p \<in> dom V \<Longrightarrow> p \<notin> set (pages t) \<Longrightarrow> V' p = V p" by (fact extendsD [OF e])+
qed

lemma evolves_trans: "evolves V t V1 t1 \<Longrightarrow> evolves V1 t1 V2 t2 \<Longrightarrow> evolves V t V2 t2"
  unfolding evolves_def using extends_trans [of V t V1 t1 V2 t2] by simp

definition stored :: "nat \<Rightarrow> (page_id \<rightharpoonup> page) \<Rightarrow> ptree \<Rightarrow> bool" where
  "stored K V t \<longleftrightarrow> rep V t \<and> ordered t \<and> sized K t \<and> distinct (pages t)"

lemma storedD:
  assumes "stored K V t"
  shows "rep V t" "ordered t" "sized K t" "distinct (pages t)"
  using assms by (simp_all add: stored_def)

lemma stored_child:
  assumes "stored K V (PNode p ks ts)" and "c \<in> set ts"
  shows "stored K V c"
  using assms distinct_concat_iff [of "map pages ts"]
  by (fastforce simp: stored_def list_all_iff)

definition grown :: "nat \<Rightarrow> key \<Rightarrow> doc_id \<Rightarrow> (page_id \<rightharpoonup> page) \<Rightarrow> ptree \<Rightarrow> (page_id \<rightharpoonup> page) \<Rightarrow> ptree \<Rightarrow> bool" where
  "grown K key doc V t V' t' \<longleftrightarrow> evolves V t V' t' \<and> stored K V' t'
     \<and> map_of (entries t') = (map_of (entries t))(key \<mapsto> doc) \<and> set (marks t') \<subseteq> insert key (set (marks t))"

section \<open>Growing one child\<close>

lemma separated_grow:
  assumes "sorted_wrt (<) ks" and "separated ks (map marks (as @ c # bs))" and "child_index key ks = length as"
    and "set (marks c') \<subseteq> insert key (set (marks c))"
  shows "separated ks (map marks (as @ c' # bs))"
  unfolding separated_def
proof (intro conjI allI impI ballI)
  have len: "length as + length bs = length ks" using assms(2) by (simp add: separated_def)
  then show "length (map marks (as @ c' # bs)) = Suc (length ks)" by simp
  fix i x assume i: "i < length (map marks (as @ c' # bs))" "x \<in> set (map marks (as @ c' # bs) ! i)"
  have old: "x = key \<and> i = length as \<or> x \<in> set (map marks (as @ c # bs) ! i)"
    using i assms(4) by (auto simp: nth_append nth_Cons split: if_splits nat.splits)
  have il: "i < length (map marks (as @ c # bs))" using i(1) by simp
  show "ks ! (i - 1) \<le> x" if "0 < i"
    using old separatedD(1) [OF assms(2) il _ that] child_index_bounds(1) [OF assms(1), of "i - 1" key] assms(3) that by auto
  show "x < ks ! i" if "i < length ks"
    using old separatedD(2) [OF assms(2) il _ that] child_index_bounds(2) [OF assms(1), of key i] assms(3) that by auto
qed

lemma entries_grow:
  assumes "ordered (PNode p ks (as @ c # bs))" and "ordered (PNode p ks (as @ c' # bs))" and "child_index key ks = length as"
    and "map_of (entries c') = (map_of (entries c))(key \<mapsto> doc)"
  shows "map_of (entries (PNode p ks (as @ c' # bs))) = (map_of (entries (PNode p ks (as @ c # bs))))(key \<mapsto> doc)"
proof
  fix x
  have "map_of (entries ((as @ c' # bs) ! child_index x ks)) x
    = ((\<lambda>x. map_of (entries ((as @ c # bs) ! child_index x ks)) x)(key \<mapsto> doc)) x"
    using assms(3,4) lookup_child(1) [OF assms(1), of x] by (auto simp: nth_append nth_Cons split: nat.splits)
  then show "map_of (entries (PNode p ks (as @ c' # bs))) x = ((map_of (entries (PNode p ks (as @ c # bs))))(key \<mapsto> doc)) x"
    unfolding lookup_child(2) [OF assms(2)] using lookup_child(2) [OF assms(1), of x] by simp
qed

lemma height_replace:
  assumes "height c' \<le> height c"
  shows "height (PNode p ks (as @ c' # bs)) \<le> height (PNode p ks (as @ c # bs))"
proof -
  let ?A = "insert (height c) (height ` set as \<union> height ` set bs)"
  have "x \<le> Max ?A" if "x \<in> ?A \<or> x = height c'" for x
    using that assms by (metis List.finite_set Max_ge finite_UnI finite_imageI finite_insert insertI1 order.trans)
  then show ?thesis by simp
qed

lemma evolves_child:
  assumes st: "stored K V (PNode p ks (as @ c # bs))" and ev: "evolves V c V' c'" and ne: "leaves c' \<noteq> []"
  shows "evolves V (PNode p ks (as @ c # bs)) V' (PNode p ks (as @ c' # bs))"
  unfolding evolves_def extends_def
proof (intro conjI allI impI ballI)
  let ?L = "concat (map leaves as)" let ?R = "concat (map leaves bs)"
  have nec: "leaves c \<noteq> []" using leaves_nonempty [of V c] storedD(1) [OF st] by simp
  show "fst (hd (leaves (PNode p ks (as @ c' # bs)))) = fst (hd (leaves (PNode p ks (as @ c # bs))))"
    using nec ne evolvesD(2) [OF ev] by (auto simp: hd_append)
  fix e assume "linked (leaves (PNode p ks (as @ c # bs))) e"
  then show "linked (leaves (PNode p ks (as @ c' # bs))) e"
    using linked_replace [of ?L "leaves c" ?R e "leaves c'"] nec ne evolvesD(2,3) [OF ev] by simp
next
  show "set (pages (PNode p ks (as @ c' # bs))) \<inter> dom V \<subseteq> set (pages (PNode p ks (as @ c # bs)))"
    using evolvesD(4) [OF ev] by auto
  show "height (PNode p ks (as @ c' # bs)) \<le> height (PNode p ks (as @ c # bs))"
    by (rule height_replace [OF evolvesD(7) [OF ev]])
qed (use evolvesD(5,6) [OF ev] in auto)

lemma stored_grow:
  assumes st: "stored K V (PNode p ks (as @ c # bs))" and ci: "child_index key ks = length as"
    and ev: "evolves V c V' c'" and st': "stored K V' c'" and mk: "set (marks c') \<subseteq> insert key (set (marks c))"
  shows "stored K V' (PNode p ks (as @ c' # bs))"
proof -
  note s = storedD [OF st] note s' = storedD [OF st']
  have d: "p \<notin> set (concat (map pages (as @ c # bs)))" "distinct (concat (map pages as) @ pages c @ concat (map pages bs))"
    using s(4) by simp_all
  let ?other = "insert p (set (concat (map pages as)) \<union> set (concat (map pages bs)))"
  have old: "?other \<subseteq> dom V"
  proof
    fix x assume "x \<in> ?other"
    then have "x \<in> set (pages (PNode p ks (as @ c # bs)))" by auto
    then show "x \<in> dom V" using rep_pages [OF s(1)] by (simp add: domIff)
  qed
  have disj: "?other \<inter> set (pages c) = {}" using d by auto
  have frame: "V' x = V x" if "x \<in> ?other" for x
    using evolvesD(6) [OF ev] that old disj by blast
  have sub: "rep V' u" if "u \<in> set as \<union> set bs" for u
    by (rule rep_frame [of V]) (use that s(1) frame in \<open>auto simp: list_all_iff\<close>)
  have "rep V' (PNode p ks (as @ c' # bs))"
    using s(1) s'(1) sub frame [of p] evolvesD(1) [OF ev] by (auto simp: list_all_iff)
  moreover have "ordered (PNode p ks (as @ c' # bs))"
    using s(2) s'(2) separated_grow [OF _ _ ci mk, of bs] by simp
  moreover have "sized K (PNode p ks (as @ c' # bs))" using s(3) s'(3) by simp
  moreover have "distinct (pages (PNode p ks (as @ c' # bs)))"
  proof -
    have "?other \<inter> set (pages c') = {}" using evolvesD(4) [OF ev] disj old by blast
    then show ?thesis using d s'(4) by auto
  qed
  ultimately show ?thesis by (simp add: stored_def)
qed

lemma grown_child:
  assumes st: "stored K V (PNode p ks (as @ c # bs))" and ci: "child_index key ks = length as"
    and g: "grown K key doc V c V' c'"
  shows "grown K key doc V (PNode p ks (as @ c # bs)) V' (PNode p ks (as @ c' # bs))"
proof -
  have g: "evolves V c V' c'" "stored K V' c'" "map_of (entries c') = (map_of (entries c))(key \<mapsto> doc)"
    "set (marks c') \<subseteq> insert key (set (marks c))" using g by (simp_all add: grown_def)
  have st': "stored K V' (PNode p ks (as @ c' # bs))" by (rule stored_grow [OF st ci g(1,2,4)])
  moreover have "evolves V (PNode p ks (as @ c # bs)) V' (PNode p ks (as @ c' # bs))"
    using evolves_child [OF st g(1)] leaves_nonempty [OF storedD(1) [OF g(2)]] by blast
  moreover have "map_of (entries (PNode p ks (as @ c' # bs))) = (map_of (entries (PNode p ks (as @ c # bs))))(key \<mapsto> doc)"
    by (rule entries_grow [OF storedD(2) [OF st] storedD(2) [OF st'] ci g(3)])
  moreover have "set (marks (PNode p ks (as @ c' # bs))) \<subseteq> insert key (set (marks (PNode p ks (as @ c # bs))))"
    using g(4) by auto
  ultimately show ?thesis unfolding grown_def by blast
qed

section \<open>Splitting one child\<close>

text \<open>The node after its child was split and the separator was put between the halves.\<close>

definition split_child :: "page_id \<Rightarrow> key list \<Rightarrow> ptree list \<Rightarrow> ptree \<Rightarrow> key \<Rightarrow> ptree \<Rightarrow> ptree list \<Rightarrow> ptree" where
  "split_child p ks as l k r bs = PNode p (take (length as) ks @ k # drop (length as) ks) (as @ l # r # bs)"

lemma separated_split:
  assumes "separated ks (kss @ x # kss')" and "set a \<subseteq> set x" "set b \<subseteq> set x" and "\<forall>y \<in> set a. y < k" "\<forall>y \<in> set b. k \<le> y"
  shows "separated (take (length kss) ks @ k # drop (length kss) ks) (kss @ a # b # kss')"
  unfolding separated_def
proof (rule conjI; (intro allI impI ballI)?)
  let ?n = "length kss" let ?ks = "take ?n ks @ k # drop ?n ks"
  have len: "length ks = ?n + length kss'" using assms(1) by (simp add: separated_def)
  then show "length (kss @ a # b # kss') = Suc (length ?ks)" by simp
  fix i y assume i: "i < length (kss @ a # b # kss')" "y \<in> set ((kss @ a # b # kss') ! i)"
  consider "i < ?n" "y \<in> set ((kss @ x # kss') ! i)" | "i = ?n" "y \<in> set a" | "i = Suc ?n" "y \<in> set b"
    | j where "i = Suc j" "?n < j" "j < length (kss @ x # kss')" "y \<in> set ((kss @ x # kss') ! j)"
  proof (cases i ?n rule: linorder_cases)
    case greater
    then obtain j where j: "i = Suc j" "?n \<le> j" by (cases i) auto
    show thesis
    proof (cases "j = ?n")
      case True
      then show thesis using i j that(3) by (simp add: nth_append)
    next
      case False
      then obtain m where "j = ?n + Suc m" using j(2) by (metis le_Suc_ex add_0_right not0_implies_Suc)
      then show thesis using i j that(4) [of j] by (simp add: nth_append)
    qed
  qed (use i that(1,2) in \<open>simp_all add: nth_append\<close>)
  then show "(0 < i \<longrightarrow> ?ks ! (i - 1) \<le> y) \<and> (i < length ?ks \<longrightarrow> y < ?ks ! i)"
  proof cases
    case 1
    then show ?thesis using separatedD [OF assms(1), of i y] len by (auto simp: nth_append)
  next
    case 2
    then have "y \<in> set ((kss @ x # kss') ! i)" using assms(2) by auto
    then show ?thesis using separatedD [OF assms(1), of i y] 2 assms(4) len by (auto simp: nth_append)
  next
    case 3
    then have "y \<in> set ((kss @ x # kss') ! ?n)" using assms(3) by auto
    then show ?thesis using separatedD [OF assms(1), of ?n y] 3 assms(5) len by (auto simp: nth_append)
  next
    case (4 j)
    then show ?thesis using separatedD [OF assms(1), of j y] len by (auto simp: nth_append nth_Cons' min_def)
  qed
qed

text \<open>The separator of a split child belongs right behind the child.\<close>

lemma split_position:
  assumes o: "ordered (PNode p ks (as @ c # bs))" and sp: "splittable c" and lkr: "split_pt q c = (l, k, r)"
  shows "lower_index k ks = length as" and "k \<notin> set ks"
    and "\<forall>x \<in> set (take (length as) ks). x < k" and "\<forall>x \<in> set (drop (length as) ks). k < x"
proof -
  let ?n = "length as"
  have s: "sorted_wrt (<) ks" "separated ks (map marks (as @ c # bs))" "ordered c" using o by simp_all
  have len: "?n \<le> length ks" using s(2) by (simp add: separated_def)
  note sc = split_order [OF s(3) sp lkr]
  have mk: "first_mark c \<in> set (map marks (as @ c # bs) ! ?n)" "k \<in> set (map marks (as @ c # bs) ! ?n)"
    using first_mark_in [OF sp] sc(7) by (simp_all add: nth_append)
  have lo: "ks ! j < k" if "j < ?n" for j
  proof -
    have "ks ! j \<le> ks ! (?n - 1)" using that len by (intro sorted_nth_le [OF s(1)]) simp_all
    also have "\<dots> \<le> first_mark c" using separatedD(1) [OF s(2) _ mk(1)] that by (cases as) simp_all
    also have "\<dots> < k" by (rule sc(6))
    finally show ?thesis .
  qed
  have hi: "k < ks ! j" if "?n \<le> j" "j < length ks" for j
  proof -
    have "k < ks ! ?n" using separatedD(2) [OF s(2) _ mk(2)] that by simp
    also have "\<dots> \<le> ks ! j" using that by (intro sorted_nth_le [OF s(1)]) simp_all
    finally show ?thesis .
  qed
  have "takeWhile (\<lambda>x. x < k) ks = take ?n ks"
    by (rule takeWhile_eq_take_P_nth) (use lo hi [of ?n] in auto)
  then show "lower_index k ks = ?n" using len by (simp add: lower_index_def)
  show t: "\<forall>x \<in> set (take ?n ks). x < k" using lo by (auto simp: in_set_conv_nth)
  show d: "\<forall>x \<in> set (drop ?n ks). k < x" using hi by (auto simp: in_set_conv_nth)
  have "set ks = set (take ?n ks) \<union> set (drop ?n ks)" by (metis append_take_drop_id set_append)
  then show "k \<notin> set ks" using t d by auto
qed

lemma split_child_tree:
  assumes o: "ordered (PNode p ks (as @ c # bs))" and z: "sized K (PNode p ks (as @ c # bs))"
    and sp: "splittable c" and lkr: "split_pt q c = (l, k, r)" and q: "q < U64_MAX"
  shows "ordered (split_child p ks as l k r bs)" and "sized K (split_child p ks as l k r bs)"
    and "entries (split_child p ks as l k r bs) = entries (PNode p ks (as @ c # bs))"
    and "set (marks (split_child p ks as l k r bs)) \<subseteq> set (marks (PNode p ks (as @ c # bs)))"
proof -
  let ?n = "length as"
  have s: "sorted_wrt (<) ks" "separated ks (map marks (as @ c # bs))" "ordered c" "list_all ordered as" "list_all ordered bs"
    using o by simp_all
  note sc = split_order [OF s(3) sp lkr] note pos = split_position [OF o sp lkr] note mk = split_marks [OF lkr]
  have "sorted_wrt (<) (take ?n ks @ k # drop ?n ks)"
    using pos(3,4) sorted_wrt_take [OF s(1), of ?n] sorted_wrt_drop [OF s(1), of ?n]
    by (fastforce simp: sorted_wrt_append)
  moreover have "separated (take ?n ks @ k # drop ?n ks) (map marks (as @ l # r # bs))"
    using separated_split [of ks "map marks as" "marks c" "map marks bs" "marks l" "marks r" k] s(2) mk sc(4,5) by simp
  ultimately show "ordered (split_child p ks as l k r bs)" using s sc(1,2) by (simp add: split_child_def)
  have zc: "sized K c" using z by simp
  note zs = split_sized [OF zc q sp lkr]
  show "sized K (split_child p ks as l k r bs)"
    using z zs by (auto simp: split_child_def dest: in_set_takeD in_set_dropD)
  show "entries (split_child p ks as l k r bs) = entries (PNode p ks (as @ c # bs))"
    using sc(3) by (simp add: split_child_def)
  show "set (marks (split_child p ks as l k r bs)) \<subseteq> set (marks (PNode p ks (as @ c # bs)))"
    using mk sc(7) by (auto simp: split_child_def dest: in_set_takeD in_set_dropD)
qed

lemma split_children:
  assumes "rep V c" and "split_pt q c = (l, k, r)" and "splittable c"
  shows "height l \<le> height c" and "height r \<le> height c" and "leaves l \<noteq> []"
proof -
  have "height l \<le> height c \<and> height r \<le> height c \<and> leaves l \<noteq> []"
  proof (cases c)
    case (PLeaf p es nx)
    then show ?thesis using assms(2) by (auto simp: Let_def)
  next
    case (PNode p ks ts)
    let ?m = "Suc (length ks div 2)"
    have len: "length ts = Suc (length ks)" using assms(1) PNode by (auto elim: internal_atE)
    have lr: "l = PNode p (take (length ks div 2) ks) (take ?m ts)" "r = PNode q (drop ?m ks) (drop ?m ts)"
      using assms(2) PNode by (auto simp: Let_def)
    have "?m < length ts" using len assms(3) PNode by (simp add: splittable_def)
    then have ne: "take ?m ts \<noteq> []" "drop ?m ts \<noteq> []" by (cases ts; simp)+
    have sub: "height ` set (take ?m ts) \<subseteq> height ` set ts" "height ` set (drop ?m ts) \<subseteq> height ` set ts"
      by (rule image_mono, rule set_take_subset, rule image_mono, rule set_drop_subset)
    have "hd ts \<in> set ts" using len by (cases ts) auto
    then have "leaves (hd ts) \<noteq> []" using leaves_nonempty [of V "hd ts"] assms(1) PNode by (simp add: list_all_iff)
    then have "leaves l \<noteq> []" using len by (cases ts) (simp_all add: lr)
    moreover have "height l \<le> height c" "height r \<le> height c"
      unfolding lr PNode height.simps set_map using ne by (simp_all only: Suc_le_mono) (rule Max_mono; use sub in simp)+
    ultimately show ?thesis by blast
  qed
  then show "height l \<le> height c" "height r \<le> height c" "leaves l \<noteq> []" by blast+
qed

lemma split_child_height:
  assumes "rep V c" and "split_pt q c = (l, k, r)" and "splittable c"
  shows "height (split_child p ks as l k r bs) \<le> height (PNode p ks (as @ c # bs))"
proof -
  have "x \<le> Max (insert (height c) (height ` set as \<union> height ` set bs))" if "x \<le> height c" for x
    using that by (metis List.finite_set Max_ge finite_UnI finite_imageI finite_insert insertI1 order.trans)
  then show ?thesis using split_children(1,2) [OF assms] by (simp add: split_child_def)
qed

section \<open>Visiting a node\<close>

lemma visit_same_total:
  assumes "pool_view s p = Some pg" and "f pg = Ok (x, pg)"
  shows "pool.total 1 (with_page_mut p f) s (\<lambda>r V. r = x \<and> V = pool_view s)"
proof (rule pool.totalI)
  assume inv: "pool_inv s" and b: "1 \<le> pool_budget s"
  have "(pool_view s)(p \<mapsto> pg) = pool_view s" using assms(1) by (simp add: fun_upd_idem)
  then show "\<exists>r s'. with_page_mut p f s = (Ok r, s') \<and> pool_inv s' \<and> (r = x \<and> pool_view s' = pool_view s) \<and> pool_budget s \<le> pool_budget s' + 1"
    using with_page_mut_total [of s p pg f x pg, OF assms pool_view_length [OF inv assms(1)]] inv b by (auto elim!: pool.totalE)
qed

lemma insert_at_internal:
  assumes "internal_at (pool_view s p) ks cs"
  shows "pool.total 1 (insert_at_node p key doc) s (\<lambda>x V. x = InsertGoTo (cs ! child_index key ks) \<and> V = pool_view s)"
  using assms unfolding insert_at_node_def
  by (elim internal_atE) (rule visit_same_total, assumption, simp add: on_node_def child_for_Ok child_index_def)

lemma insort_entry:
  fixes es :: "(key \<times> doc_id) list"
  assumes "sorted_wrt (<) (map fst es)" and "key \<notin> set (map fst es)"
  shows "sorted_wrt (<) (map fst (insort (key, doc) es))" and "map_of (insort (key, doc) es) = (map_of es)(key \<mapsto> doc)"
proof -
  have "sorted_wrt (<) (map fst (insort (key, doc) es)) \<and> map_of (insort (key, doc) es) = (map_of es)(key \<mapsto> doc)"
    using assms
  proof (induction es)
    case (Cons e es)
    show ?case
    proof (cases "(key, doc) \<le> e")
      case True
      then have "key < fst e" using Cons.prems(2) by (cases e) (auto simp: less_eq_prod_def)
      then show ?thesis using True Cons.prems by (auto intro: order.strict_trans)
    next
      case False
      then have "fst e < key" using Cons.prems(2) by (cases e) (auto simp: less_eq_prod_def not_le)
      then show ?thesis using False Cons by (cases e) (auto simp: set_insort_key)
    qed
  qed simp
  then show "sorted_wrt (<) (map fst (insort (key, doc) es))" "map_of (insort (key, doc) es) = (map_of es)(key \<mapsto> doc)" by blast+
qed

lemma insert_at_leaf:
  assumes st: "stored K (pool_view s) (PLeaf p es nx)" and room: "\<not> full K (PLeaf p es nx)"
    and key: "length key = K" "key \<notin> set (map fst es)" and doc: "doc_id_ok doc"
  shows "pool.total 1 (insert_at_node p key doc) s (\<lambda>x V. x = InsertDone
    \<and> grown K key doc (pool_view s) (PLeaf p es nx) V (PLeaf p (insort (key, doc) es) nx))"
proof -
  let ?es = "insort (key, doc) es"
  note s = storedD [OF st]
  obtain pg where pg: "pool_view s p = Some pg" "leaf_ok pg" "leaf_view pg = es" "node_link pg = nx" "packed LEAF_SLOT pg es" "is_leaf_page pg"
    using s(1) by (auto elim: leaf_atE)
  have size: "entry_size LEAF_SLOT es = length es * (K + LEAF_SLOT)" using s(3) by (intro entry_size_uniform) simp
  have r: "length key + LEAF_SLOT \<le> node_room LEAF_SLOT pg"
    using room pg(5) size key(1) by (simp add: packed_def node_capacity_def)
  obtain pg' where pg': "leaf_insert_slot key doc pg = Ok pg'" "leaf_holds pg' ?es nx"
    "node_room LEAF_SLOT pg' = node_room LEAF_SLOT pg - (length key + LEAF_SLOT)"
    by (rule leaf_insert_slot_Ok [OF pg(2) _ doc r]) (use key(2) pg(3,4) in force)+
  have "entry_size LEAF_SLOT ?es = length ?es * (K + LEAF_SLOT)"
    using s(3) key(1) by (intro entry_size_uniform) (auto simp: set_insort_key)
  then have at: "leaf_at (Some pg') ?es nx"
    using pg'(2,3) pg(5) size r key(1) by (simp add: leaf_at_def packed_def)
  have run: "pool.total 1 (insert_at_node p key doc) s (\<lambda>x V. x = InsertDone \<and> V = (pool_view s)(p \<mapsto> pg'))"
    unfolding insert_at_node_def
    by (rule with_page_mut_total [OF pg(1)]) (use pg(6) pg'(1) length_at(1) [OF at] in \<open>auto simp: on_node_def\<close>)
  have fresh: "sorted_wrt (<) (map fst ?es) \<and> map_of ?es = (map_of es)(key \<mapsto> doc)"
    using s(2) key(2) by (intro conjI insort_entry) simp_all
  have "grown K key doc (pool_view s) (PLeaf p es nx) ((pool_view s)(p \<mapsto> pg')) (PLeaf p ?es nx)"
    using at fresh s(3) doc key(1) by (auto simp: grown_def evolves_def extends_def stored_def set_insort_key)
  then show ?thesis by (intro pool.total_conseq [OF run]) auto
qed

lemma is_full_total:
  assumes rep: "rep (pool_view s) t" and sz: "sized K t"
  shows "pool.total 1 (is_full (pid t) K) s (\<lambda>b V. b = full K t \<and> V = pool_view s)"
proof (cases t)
  case (PLeaf p es nx)
  then obtain pg where pg: "pool_view s p = Some pg" "node_ok LEAF_SLOT pg" "packed LEAF_SLOT pg es" "is_leaf_page pg"
    using rep by (auto elim: leaf_atE)
  have "entry_size LEAF_SLOT es = length es * (K + LEAF_SLOT)" using sz PLeaf by (intro entry_size_uniform) simp
  then have "full K t \<longleftrightarrow> \<not> K + LEAF_SLOT \<le> node_room LEAF_SLOT pg"
    using pg(3) PLeaf by (auto simp: packed_def node_capacity_def)
  then show ?thesis
    using pg PLeaf unfolding is_full_def by (intro read_node_total) (auto simp: on_node_def has_space_Ok)
next
  case (PNode p ks ts)
  then obtain pg where pg: "pool_view s p = Some pg" "node_ok INTERNAL_SLOT pg" "packed INTERNAL_SLOT pg (internal_view pg)"
    "\<not> is_leaf_page pg" "internal_keys pg = ks" "node_count pg = length ks"
    using rep by (auto elim: internal_atE)
  have "entry_size INTERNAL_SLOT (internal_view pg) = length ks * (K + INTERNAL_SLOT)"
    using sz PNode entry_size_view [of pg K INTERNAL_SLOT] pg(5,6) by simp
  then have "full K t \<longleftrightarrow> \<not> K + INTERNAL_SLOT \<le> node_room INTERNAL_SLOT pg"
    using pg(3) PNode by (auto simp: packed_def node_capacity_def)
  then show ?thesis
    using pg PNode unfolding is_full_def by (intro read_node_total) (auto simp: on_node_def has_space_Ok)
qed

lemma entry_size_append: "entry_size w (xs @ ys) = entry_size w xs + entry_size w ys"
  by (simp add: entry_size_def)

lemma insert_separator_total:
  assumes at: "internal_at (pool_view s p) ks cs" and lens: "\<forall>k \<in> set ks. length k = K" "length k = K"
    and room: "(length ks + 1) * (K + INTERNAL_SLOT) \<le> node_capacity" and new: "k \<notin> set ks" and q: "q < 2 ^ 64"
    and i: "lower_index k ks = i"
  shows "pool.total 1 (write_node p (on_node expected_internal (internal_insert_slot k q))) s (\<lambda>_ V.
    \<exists>pg. V = (pool_view s)(p \<mapsto> pg) \<and> internal_at (Some pg) (take i ks @ k # drop i ks) (take (Suc i) cs @ q # drop (Suc i) cs))"
proof -
  from at obtain pg where pg: "pool_view s p = Some pg" "internal_ok pg" "internal_keys pg = ks" "internal_children pg = cs"
    "packed INTERNAL_SLOT pg (internal_view pg)" "\<not> is_leaf_page pg" "node_count pg = length ks"
    by (auto elim: internal_atE)
  have size: "entry_size INTERNAL_SLOT (internal_view pg) = length ks * (K + INTERNAL_SLOT)"
    using lens entry_size_view [of pg K INTERNAL_SLOT] pg(3,7) by simp
  have r: "length k + INTERNAL_SLOT \<le> node_room INTERNAL_SLOT pg"
    using room pg(5) size lens(2) by (simp add: packed_def node_capacity_def)
  let ?es = "take i (internal_view pg) @ (k, q) # drop i (internal_view pg)"
  have i': "length (takeWhile (\<lambda>x. x < k) (internal_keys pg)) = i" using i by (simp add: lower_index_def pg(3))
  obtain pg' where pg': "internal_insert_slot k q pg = Ok pg'" "internal_holds pg' (node_link pg) ?es"
    "node_room INTERNAL_SLOT pg' = node_room INTERNAL_SLOT pg - (length k + INTERNAL_SLOT)"
    by (rule internal_insert_slot_Ok [OF pg(2) _ q r, unfolded i']) (use new pg(3) in simp)
  have es: "entry_size INTERNAL_SLOT ?es = entry_size INTERNAL_SLOT (internal_view pg) + (length k + INTERNAL_SLOT)"
  proof -
    have "entry_size INTERNAL_SLOT (internal_view pg) =
        entry_size INTERNAL_SLOT (take i (internal_view pg)) + entry_size INTERNAL_SLOT (drop i (internal_view pg))"
      by (simp flip: entry_size_append)
    moreover have "entry_size INTERNAL_SLOT ((k, q) # es) = length k + INTERNAL_SLOT + entry_size INTERNAL_SLOT es" for es
      by (simp add: entry_size_def)
    ultimately show ?thesis by (simp only: entry_size_append)
  qed
  have "internal_at (Some pg') (map fst ?es) (node_link pg # map snd ?es)"
    by (rule internal_at_of_holds) (use pg' es pg(5) r in \<open>simp_all add: packed_def\<close>)
  moreover have "map fst ?es = take i ks @ k # drop i ks" using pg(3) by (auto simp: internal_keys_def take_map drop_map)
  moreover have "node_link pg # map snd ?es = take (Suc i) cs @ q # drop (Suc i) cs"
    using pg(4) by (auto simp: internal_children_def take_map drop_map)
  ultimately have at': "internal_at (Some pg') (take i ks @ k # drop i ks) (take (Suc i) cs @ q # drop (Suc i) cs)" by simp
  have "pool.total 1 (write_node p (on_node expected_internal (internal_insert_slot k q))) s (\<lambda>_ V. V = (pool_view s)(p \<mapsto> pg'))"
    by (rule write_node_total [OF pg(1)]) (use pg(6) pg'(1) length_at(2) [OF at'] in \<open>simp_all add: on_node_def\<close>)
  then show ?thesis by (rule pool.total_conseq) (use at' in auto)
qed

section \<open>Programs on a tree\<close>

interpretation treest: store_logic "\<lambda>(r :: page_id, s). pool_inv s" "\<lambda>(r, s). (r, pool_view s)" "\<lambda>(r, s). pool_budget s" .

lemma treest_lift:
  assumes "pool.total n m s Q"
  shows "treest.total n (on_tree m) (r, s) (\<lambda>x (r', V). r' = r \<and> Q x V)"
  using assms by (fastforce simp: treest.total_def pool.total_def on_tree_def split: prod.splits)

lemma on_tree_bind: "on_tree (bindP m k) = bindP (on_tree m) (\<lambda>x. on_tree (k x))"
  by (rule ext) (auto simp: on_tree_def bindP_def split: prod.splits outcome.splits)

lemma split_node_front:
  "split_node node parent = bindP (on_tree (split_front node)) (\<lambda>(data, sib).
     case parent of
       Some parent \<Rightarrow> on_tree (write_node parent (on_node expected_internal (internal_insert_slot (split_separator data) sib)))
     | None \<Rightarrow> bindP (on_tree (alloc_node (\<lambda>pg. bindO (internal_init node pg) (internal_insert_slot (split_separator data) sib)))) set_root)"
  by (rule ext) (auto simp: split_node_def split_front_def on_tree_bind bindP_def on_tree_def returnP_def split: prod.splits outcome.splits)

text \<open>A node after the split of a child: well formed, with the same entries.\<close>

definition split_in :: "nat \<Rightarrow> (page_id \<rightharpoonup> page) \<Rightarrow> page_id \<Rightarrow> key list \<Rightarrow> ptree list \<Rightarrow> ptree \<Rightarrow> ptree list \<Rightarrow> (page_id \<rightharpoonup> page) \<Rightarrow> bool" where
  "split_in K V p ks as c bs V' \<longleftrightarrow> (\<exists>q l k r. split_pt q c = (l, k, r) \<and> q < U64_MAX
     \<and> stored K V' (split_child p ks as l k r bs)
     \<and> evolves V (PNode p ks (as @ c # bs)) V' (split_child p ks as l k r bs))"

lemma distinct_replace:
  "distinct (A @ C @ B) \<Longrightarrow> distinct C' \<Longrightarrow> set C' = insert q (set C) \<Longrightarrow> q \<notin> set A \<union> set B \<Longrightarrow> distinct (A @ C' @ B)"
  by auto

lemma replace_subset:
  "set L \<subseteq> insert q (set C) \<Longrightarrow> set R \<subseteq> insert q (set C) \<Longrightarrow> set (p # A @ L @ R @ B) \<subseteq> insert q (set (p # A @ C @ B))"
  by auto

lemma split_child_stored:
  assumes st: "stored K V (PNode p ks (as @ c # bs))" and sp: "splittable c"
    and lkr: "split_pt q c = (l, k, r)" and q: "V q = None" "q < U64_MAX"
    and lr: "rep V1 l" "rep V1 r" and frame1: "\<forall>x. x \<noteq> pid c \<longrightarrow> x \<noteq> q \<longrightarrow> V1 x = V x"
    and V': "V' = V1(p \<mapsto> pg)" "internal_at (Some pg) (take (length as) ks @ k # drop (length as) ks) (map pid (as @ l # r # bs))"
  shows "stored K V' (split_child p ks as l k r bs)" and "evolves V (PNode p ks (as @ c # bs)) V' (split_child p ks as l k r bs)"
proof -
  note s = storedD [OF st]
  have lp: "pid l = pid c" "pid r = q" by (rule split_shape [OF lkr])+
  have pc: "pid c \<in> set (pages c)" by (cases c) auto
  have old: "set (pages (PNode p ks (as @ c # bs))) \<subseteq> dom V" using rep_pages [OF s(1)] by (force simp: domIff)
  have qn: "q \<notin> set (pages (PNode p ks (as @ c # bs)))" using old q(1) by blast
  have dc: "distinct (pages c)" "q \<notin> set (pages c)" using s(4) qn by auto
  note pg = split_pages [OF dc lkr]
  have d: "p \<notin> set (concat (map pages as) @ pages c @ concat (map pages bs))"
    "distinct (concat (map pages as) @ pages c @ concat (map pages bs))" using s(4) by auto
  have frame: "V' x = V x" if "x \<noteq> p" "x \<noteq> q" "x \<noteq> pid c" for x using that frame1 by (simp add: V'(1))
  have rl: "rep V' l" "rep V' r"
    using lr d pg(2) qn by (auto intro!: rep_frame [of V1] simp: V'(1))
  have sub: "rep V' u" if "u \<in> set as \<union> set bs" for u
  proof (rule rep_frame [of V])
    show "rep V u" using that s(1) by (auto simp: list_all_iff)
    show "V' x = V x" if "x \<in> set (pages u)" for x
      using that \<open>u \<in> set as \<union> set bs\<close> d qn pc by (intro frame) auto
  qed
  have "rep V' (split_child p ks as l k r bs)"
    using V' rl sub by (auto simp: split_child_def list_all_iff)
  moreover have "distinct (pages (split_child p ks as l k r bs))"
    using distinct_replace [OF d(2) pg(1), of q] pg(2) d(1) qn by (simp add: split_child_def) (metis Un_iff insert_iff)
  ultimately show "stored K V' (split_child p ks as l k r bs)"
    using split_child_tree(1,2) [OF s(2,3) sp lkr q(2)] by (simp add: stored_def)
  show "evolves V (PNode p ks (as @ c # bs)) V' (split_child p ks as l k r bs)"
    unfolding evolves_def extends_def
  proof (intro conjI allI impI ballI)
    let ?L = "concat (map leaves as)" let ?R = "concat (map leaves bs)"
    have rc: "rep V c" using s(1) by simp
    have nec: "leaves c \<noteq> []" by (rule leaves_nonempty [OF rc])
    have qx: "q \<noteq> NO_NEXT_LEAF" using q(2) by (simp add: NO_NEXT_LEAF_def)
    have inner: "list_all (\<lambda>t. leaves t \<noteq> []) (case c of PLeaf p es nx \<Rightarrow> [] | PNode p ks ts \<Rightarrow> ts)"
      using rc leaves_nonempty by (cases c) (auto simp: list_all_iff)
    note lk = split_linked [OF lkr qx sp inner]
    show "fst (hd (leaves (split_child p ks as l k r bs))) = fst (hd (leaves (PNode p ks (as @ c # bs))))"
      using lk(2) split_children(3) [OF rc lkr sp] nec by (auto simp: split_child_def hd_append)
    fix e assume "linked (leaves (PNode p ks (as @ c # bs))) e"
    then show "linked (leaves (split_child p ks as l k r bs)) e"
      using linked_replace [of ?L "leaves c" ?R e "leaves l @ leaves r"] nec split_children(3) [OF rc lkr sp] lk
      by (simp add: split_child_def)
  next
    have "set (pages l) \<subseteq> insert q (set (pages c))" "set (pages r) \<subseteq> insert q (set (pages c))" using pg(2) by blast+
    then have "set (pages (split_child p ks as l k r bs)) \<subseteq> insert q (set (pages (PNode p ks (as @ c # bs))))"
      using replace_subset [of "pages l" q "pages c" "pages r" p "concat (map pages as)" "concat (map pages bs)"]
      by (simp add: split_child_def)
    moreover have "q \<notin> dom V" using q(1) by (simp add: domIff)
    ultimately show "set (pages (split_child p ks as l k r bs)) \<inter> dom V \<subseteq> set (pages (PNode p ks (as @ c # bs)))"
      by blast
    show "dom V \<subseteq> dom V'"
    proof
      fix x assume x: "x \<in> dom V"
      have "pid c \<in> dom V'" using rep_pages [OF rl(1), of "pid c"] lp(1) by (cases l) (auto simp: domIff)
      moreover have "x \<noteq> q" "p \<in> dom V'" using x q(1) by (auto simp: V'(1))
      ultimately show "x \<in> dom V'" using x frame [of x] by (cases "x = p \<or> x = pid c") (auto simp: domIff)
    qed
    show "height (split_child p ks as l k r bs) \<le> height (PNode p ks (as @ c # bs))"
      by (rule split_child_height [OF _ lkr sp, of V]) (use s(1) in simp)
    fix x assume "x \<in> dom V - set (pages (PNode p ks (as @ c # bs)))"
    then show "V' x = V x" using q(1) pc by (intro frame) auto
  qed (simp_all add: split_child_def)
qed

lemma split_node_total:
  assumes st: "stored K (pool_view s) (PNode p ks (as @ c # bs))" and sp: "splittable c" and room: "\<not> full K (PNode p ks (as @ c # bs))"
  shows "treest.total 5 (split_node (pid c) (Some p)) (root, s)
    (\<lambda>_ (root', V). root' = root \<and> split_in K (pool_view s) p ks as c bs V)"
proof -
  let ?V = "pool_view s"
  note st0 = storedD [OF st]
  have sc: "rep ?V c" "sized K c" "ordered c" "distinct (pages c)" using st0 by auto
  have "treest.total (4 + 1) (split_node (pid c) (Some p)) (root, s)
      (\<lambda>_ (root', V). root' = root \<and> split_in K ?V p ks as c bs V)"
    unfolding split_node_front
  proof (rule treest.total_bind [OF treest_lift [OF split_front_total [OF sc sp]]])
    fix x rs1 assume "case (case rs1 of (r, s) \<Rightarrow> (r, pool_view s)) of (r', V) \<Rightarrow> r' = root \<and> split_result ?V c x V"
    then obtain D q s1 l k r where x: "x = (D, q)" "rs1 = (root, s1)" and lkr: "split_pt q c = (l, k, r)" "split_separator D = k"
      and q: "?V q = None" "q < U64_MAX" and lr: "rep (pool_view s1) l" "rep (pool_view s1) r"
      and frame: "\<forall>p. p \<noteq> pid c \<longrightarrow> p \<noteq> q \<longrightarrow> pool_view s1 p = ?V p"
      by (cases x; cases rs1) (auto simp: split_result_def)
    have "?V p \<noteq> None" using rep_pages [OF st0(1), of p] by simp
    then have pq: "p \<noteq> q" using q(1) by auto
    have pc: "p \<noteq> pid c" using st0(4) by (cases c) auto
    have at: "internal_at (pool_view s1 p) ks (map pid (as @ c # bs))" using st0(1) frame pq pc by simp
    note pos = split_position [OF st0(2) sp lkr(1)]
    have len: "\<forall>k \<in> set ks. length k = K" "length k = K" using st0(3) split_sized(3) [OF sc(2) q(2) sp lkr(1)] by simp_all
    have room': "(length ks + 1) * (K + INTERNAL_SLOT) \<le> node_capacity" using room by simp
    have q64: "q < 2 ^ 64" using q(2) by (simp add: U64_MAX_def)
    have cs: "take (Suc (length as)) (map pid (as @ c # bs)) @ q # drop (Suc (length as)) (map pid (as @ c # bs)) = map pid (as @ l # r # bs)"
      by (simp add: split_shape [OF lkr(1)])
    have "treest.total 1 (on_tree (write_node p (on_node expected_internal (internal_insert_slot k q)))) (root, s1)
        (\<lambda>_ (root', V). root' = root \<and> split_in K ?V p ks as c bs V)"
    proof (rule treest.total_conseq [OF treest_lift [OF insert_separator_total [OF at len room' pos(2) q64 pos(1)]]])
      fix u rs2 assume "case (case rs2 of (r, s) \<Rightarrow> (r, pool_view s)) of (r', V) \<Rightarrow> r' = root \<and>
        (\<exists>pg. V = (pool_view s1)(p \<mapsto> pg) \<and> internal_at (Some pg) (take (length as) ks @ k # drop (length as) ks)
          (take (Suc (length as)) (map pid (as @ c # bs)) @ q # drop (Suc (length as)) (map pid (as @ c # bs))))"
      then obtain s2 pg where s2: "rs2 = (root, s2)" "pool_view s2 = (pool_view s1)(p \<mapsto> pg)"
        "internal_at (Some pg) (take (length as) ks @ k # drop (length as) ks) (map pid (as @ l # r # bs))"
        unfolding cs by (cases rs2) auto
      have "split_in K ?V p ks as c bs (pool_view s2)"
        unfolding split_in_def using split_child_stored [OF st sp lkr(1) q lr frame s2(2,3)] lkr(1) q(2) by blast
      then show "case (case rs2 of (r, s) \<Rightarrow> (r, pool_view s)) of (root', V) \<Rightarrow> root' = root \<and> split_in K ?V p ks as c bs V"
        using s2(1) by simp
    qed simp
    then show "treest.total 1 (case x of (data, sib) \<Rightarrow> case Some p of
         Some parent \<Rightarrow> on_tree (write_node parent (on_node expected_internal (internal_insert_slot (split_separator data) sib)))
       | None \<Rightarrow> bindP (on_tree (alloc_node (\<lambda>pg. bindO (internal_init (pid c) pg) (internal_insert_slot (split_separator data) sib)))) set_root)
       rs1 (\<lambda>_ (root', V). root' = root \<and> split_in K ?V p ks as c bs V)"
      using x lkr(2) by simp
  qed
  then show ?thesis by simp
qed

section \<open>The loop\<close>

lemma insert_descend:
  assumes st: "stored K (pool_view s) (PNode p ks (as @ c # bs))" and ci: "child_index key ks = length as"
    and room: "\<not> full K c" and key: "length key = K"
    and rec: "\<And>s'. pool_view s' = pool_view s \<Longrightarrow>
      treest.total b (insert_loop n (pid c) key doc) (root, s') (\<lambda>_ (root', V). root' = root \<and> (\<exists>c'. grown K key doc (pool_view s) c V c'))"
  shows "treest.total (2 + b) (insert_loop (Suc n) p key doc) (root, s)
    (\<lambda>_ (root', V). root' = root \<and> (\<exists>t'. grown K key doc (pool_view s) (PNode p ks (as @ c # bs)) V t'))"
proof -
  let ?V = "pool_view s" let ?Q = "\<lambda>_ (root', V). root' = root \<and> (\<exists>t'. grown K key doc ?V (PNode p ks (as @ c # bs)) V t')"
  note st0 = storedD [OF st]
  have at: "internal_at (?V p) ks (map pid (as @ c # bs))" using st0(1) by simp
  have c: "map pid (as @ c # bs) ! child_index key ks = pid c" by (simp add: ci nth_append)
  have scp: "rep ?V c" "sized K c" using st0 by simp_all
  have "treest.total (1 + (1 + b)) (insert_loop (Suc n) p key doc) (root, s) ?Q"
    unfolding insert_loop.simps
  proof (rule treest.total_bind [OF treest_lift [OF insert_at_internal [OF at, of key doc, unfolded c]]])
    fix x rs1 assume "case (case rs1 of (r, s) \<Rightarrow> (r, pool_view s)) of (r', V) \<Rightarrow> r' = root \<and> x = InsertGoTo (pid c) \<and> V = ?V"
    then obtain s1 where s1: "rs1 = (root, s1)" "x = InsertGoTo (pid c)" "pool_view s1 = ?V" by (cases rs1) auto
    have "treest.total (1 + b) (bindP (on_tree (is_full (pid c) (length key))) (\<lambda>full.
        if full then bindP (split_node (pid c) (Some p)) (\<lambda>_. insert_loop n p key doc) else insert_loop n (pid c) key doc)) (root, s1) ?Q"
    proof (rule treest.total_bind [OF treest_lift [OF is_full_total [of s1 c K, unfolded s1(3) key [symmetric]]]])
      show "rep ?V c" "sized (length key) c" using scp key by simp_all
      fix f rs2 assume "case (case rs2 of (r, s) \<Rightarrow> (r, pool_view s)) of (r', V) \<Rightarrow> r' = root \<and> f = full (length key) c \<and> V = ?V"
      then obtain s2 where s2: "rs2 = (root, s2)" "\<not> f" "pool_view s2 = ?V" using room key by (cases rs2) auto
      have "treest.total b (insert_loop n (pid c) key doc) (root, s2) ?Q"
      proof (rule treest.total_conseq [OF rec [OF s2(3)]])
        fix u rs3 assume "case (case rs3 of (r, s) \<Rightarrow> (r, pool_view s)) of (root', V) \<Rightarrow> root' = root \<and> (\<exists>c'. grown K key doc ?V c V c')"
        then obtain s3 c' where "rs3 = (root, s3)" "grown K key doc ?V c (pool_view s3) c'" by (cases rs3) auto
        with grown_child [OF st ci this(2)] show "?Q u (case rs3 of (r, s) \<Rightarrow> (r, pool_view s))" by auto
      qed simp
      then show "treest.total b (if f then bindP (split_node (pid c) (Some p)) (\<lambda>_. insert_loop n p key doc) else insert_loop n (pid c) key doc) rs2 ?Q"
        using s2(1,2) by simp
    qed
    then show "treest.total (1 + b) (case x of InsertDone \<Rightarrow> returnP () | InsertGoTo child \<Rightarrow>
         bindP (on_tree (is_full child (length key))) (\<lambda>full.
         if full then bindP (split_node child (Some p)) (\<lambda>_. insert_loop n p key doc) else insert_loop n child key doc)) rs1 ?Q"
      using s1(1,2) by simp
  qed
  then show ?thesis by simp
qed

text \<open>After a split the child for the key is one of the two halves.\<close>

lemma split_child_choice:
  assumes st: "stored K V (PNode p ks (as @ c # bs))" and ci: "child_index key ks = length as"
    and sp: "splittable c" and lkr: "split_pt q c = (l, k, r)"
  defines "ks' \<equiv> take (length as) ks @ k # drop (length as) ks"
  shows "child_index key ks' = (if key < k then length as else Suc (length as))"
proof -
  let ?n = "length as"
  have o: "ordered (PNode p ks (as @ c # bs))" by (rule storedD [OF st])
  have len: "?n \<le> length ks" using o by (simp add: separated_def)
  have b: "\<And>i. i < ?n \<Longrightarrow> ks ! i \<le> key" "\<And>i. ?n \<le> i \<Longrightarrow> i < length ks \<Longrightarrow> key < ks ! i"
    using child_index_bounds [where ks = ks and key = key] o ci by simp_all
  have "takeWhile (\<lambda>x. x \<le> key) ks' = take (if key < k then ?n else Suc ?n) ks'"
  proof (rule takeWhile_eq_take_P_nth)
    fix i assume "i < (if key < k then ?n else Suc ?n)" "i < length ks'"
    then show "ks' ! i \<le> key" using b(1) len by (auto simp: ks'_def nth_append not_less less_Suc_eq split: if_splits)
  next
    assume "(if key < k then ?n else Suc ?n) < length ks'"
    then show "\<not> ks' ! (if key < k then ?n else Suc ?n) \<le> key"
      using b(2) [of ?n] len by (auto simp: ks'_def nth_append not_le)
  qed
  then show ?thesis using len by (simp add: child_index_def ks'_def)
qed

lemma grown_split:
  assumes ev: "evolves V t V1 t1" and e: "entries t1 = entries t" and mk: "set (marks t1) \<subseteq> set (marks t)"
    and g: "grown K key doc V1 t1 V2 t2"
  shows "grown K key doc V t V2 t2"
  using g evolves_trans [OF ev] e mk unfolding grown_def by auto

lemma full_splittable: "full K t \<Longrightarrow> 3 * (K + LEAF_SLOT) \<le> node_capacity \<Longrightarrow> splittable t"
  using full_length [of K t] by (auto simp: splittable_def split: ptree.splits)

lemma insert_leaf_total:
  assumes st: "stored K (pool_view s) (PLeaf p es nx)" and room: "\<not> full K (PLeaf p es nx)" and "0 < n"
    and key: "length key = K" "key \<notin> set (map fst es)" and doc: "doc_id_ok doc"
  shows "treest.total 1 (insert_loop n p key doc) (root, s)
    (\<lambda>_ (root', V). root' = root \<and> (\<exists>t'. grown K key doc (pool_view s) (PLeaf p es nx) V t'))"
proof -
  let ?Q = "\<lambda>_ (root', V). root' = root \<and> (\<exists>t'. grown K key doc (pool_view s) (PLeaf p es nx) V t')"
  obtain m where n: "n = Suc m" using \<open>0 < n\<close> by (cases n) auto
  have "treest.total (1 + 0) (insert_loop n p key doc) (root, s) ?Q"
    unfolding n insert_loop.simps
  proof (rule treest.total_bind [OF treest_lift [OF insert_at_leaf [OF st room key doc]]])
    fix x rs1 assume "case (case rs1 of (r, s) \<Rightarrow> (r, pool_view s)) of (r', V) \<Rightarrow> r' = root \<and> x = InsertDone
      \<and> grown K key doc (pool_view s) (PLeaf p es nx) V (PLeaf p (insort (key, doc) es) nx)"
    then have "x = InsertDone" "?Q () (case rs1 of (r, s) \<Rightarrow> (r, pool_view s))" by (auto split: prod.splits)
    then show "treest.total 0 (case x of InsertDone \<Rightarrow> returnP () | InsertGoTo child \<Rightarrow>
         bindP (on_tree (is_full child (length key))) (\<lambda>full.
         if full then bindP (split_node child (Some p)) (\<lambda>_. insert_loop m p key doc) else insert_loop m child key doc)) rs1 ?Q"
      by (simp add: treest.total_return)
  qed
  then show ?thesis by simp
qed

text \<open>Growing the half that takes the key, after the split of the child.\<close>

lemma insert_after_split:
  assumes st: "stored K V (PNode p ks (as @ c # bs))" and ci: "child_index key ks = length as" and sp: "splittable c"
    and lkr: "split_pt q c = (l, k, r)" "q < U64_MAX" and st1: "stored K (pool_view s1) (split_child p ks as l k r bs)"
    and ev: "evolves V (PNode p ks (as @ c # bs)) (pool_view s1) (split_child p ks as l k r bs)" and key: "length key = K"
    and rec: "\<And>c' s'. c' \<in> {l, r} \<Longrightarrow> pool_view s' = pool_view s1 \<Longrightarrow>
      treest.total b (insert_loop n (pid c') key doc) (root, s') (\<lambda>_ (root', V). root' = root \<and> (\<exists>t'. grown K key doc (pool_view s1) c' V t'))"
  shows "treest.total (2 + b) (insert_loop (Suc n) p key doc) (root, s1)
    (\<lambda>_ (root', V'). root' = root \<and> (\<exists>t'. grown K key doc V (PNode p ks (as @ c # bs)) V' t'))"
proof -
  let ?ks = "take (length as) ks @ k # drop (length as) ks"
  note st0 = storedD [OF st]
  have room: "\<not> full K l" "\<not> full K r"
    using split_not_full [OF rep_fits [of V c K] sp lkr(1)] st0 by simp_all
  note choice = split_child_choice [OF st ci sp lkr(1)]
  note same = split_child_tree(3,4) [OF st0(2,3) sp lkr]
  let ?Q = "\<lambda>_ (root', V'). root' = root \<and> (\<exists>t'. grown K key doc (pool_view s1) (split_child p ks as l k r bs) V' t')"
  have "treest.total (2 + b) (insert_loop (Suc n) p key doc) (root, s1) ?Q"
  proof (cases "key < k")
    case True
    then show ?thesis
      using insert_descend [of K s1 p ?ks as l "r # bs" key b n doc root] st1 room(1) key choice rec by (simp add: split_child_def)
  next
    case False
    then show ?thesis
      using insert_descend [of K s1 p ?ks "as @ [l]" r bs key b n doc root] st1 room(2) key choice rec by (simp add: split_child_def)
  qed
  then show ?thesis
    by (rule treest.total_conseq) (use grown_split [OF ev same, of K key doc] in \<open>auto split: prod.splits\<close>)
qed

lemma insert_split_total:
  assumes st: "stored K (pool_view s) (PNode p ks (as @ c # bs))" and ci: "child_index key ks = length as"
    and full: "full K c" and sp: "splittable c" and room: "\<not> full K (PNode p ks (as @ c # bs))" and key: "length key = K"
    and rec: "\<And>c' q l k r s1 s'. split_pt q c = (l, k, r) \<Longrightarrow> c' \<in> {l, r} \<Longrightarrow> stored K (pool_view s1) c' \<Longrightarrow> pool_view s' = pool_view s1 \<Longrightarrow>
      treest.total b (insert_loop n (pid c') key doc) (root, s') (\<lambda>_ (root', V). root' = root \<and> (\<exists>t'. grown K key doc (pool_view s1) c' V t'))"
  shows "treest.total (9 + b) (insert_loop (Suc (Suc n)) p key doc) (root, s)
    (\<lambda>_ (root', V'). root' = root \<and> (\<exists>t'. grown K key doc (pool_view s) (PNode p ks (as @ c # bs)) V' t'))"
proof -
  let ?V = "pool_view s" let ?n = "Suc n"
  let ?Q = "\<lambda>_ (root', V'). root' = root \<and> (\<exists>t'. grown K key doc ?V (PNode p ks (as @ c # bs)) V' t')"
  note st0 = storedD [OF st]
  have at: "internal_at (?V p) ks (map pid (as @ c # bs))" using st0(1) by simp
  have c: "map pid (as @ c # bs) ! child_index key ks = pid c" by (simp add: ci nth_append)
  have scp: "rep ?V c" "sized (length key) c" using st0 key by simp_all
  have "treest.total (1 + (1 + (5 + (2 + b)))) (insert_loop (Suc ?n) p key doc) (root, s) ?Q"
    unfolding insert_loop.simps(2) [of ?n]
  proof (rule treest.total_bind [OF treest_lift [OF insert_at_internal [OF at, of key doc, unfolded c]]])
    fix x rs1 assume "case (case rs1 of (r, s) \<Rightarrow> (r, pool_view s)) of (r', V) \<Rightarrow> r' = root \<and> x = InsertGoTo (pid c) \<and> V = ?V"
    then obtain s1 where s1: "rs1 = (root, s1)" "x = InsertGoTo (pid c)" "pool_view s1 = ?V" by (cases rs1) auto
    have "treest.total (1 + (5 + (2 + b))) (bindP (on_tree (is_full (pid c) (length key))) (\<lambda>full.
        if full then bindP (split_node (pid c) (Some p)) (\<lambda>_. insert_loop ?n p key doc) else insert_loop ?n (pid c) key doc)) (root, s1) ?Q"
    proof (rule treest.total_bind [OF treest_lift [OF is_full_total [of s1 c "length key", unfolded s1(3)], OF scp]])
      fix f rs2 assume "case (case rs2 of (r, s) \<Rightarrow> (r, pool_view s)) of (r', V) \<Rightarrow> r' = root \<and> f = full (length key) c \<and> V = ?V"
      then obtain s2 where s2: "rs2 = (root, s2)" "f" "pool_view s2 = ?V" using full key by (cases rs2) auto
      have "treest.total (5 + (2 + b)) (bindP (split_node (pid c) (Some p)) (\<lambda>_. insert_loop ?n p key doc)) (root, s2) ?Q"
      proof (rule treest.total_bind [OF split_node_total [of K s2, unfolded s2(3), OF st sp room]])
        fix u rs3 assume "case (case rs3 of (r, s) \<Rightarrow> (r, pool_view s)) of (root', V) \<Rightarrow> root' = root \<and> split_in K ?V p ks as c bs V"
        then obtain s3 q l k r where s3: "rs3 = (root, s3)" and sp3: "split_pt q c = (l, k, r)" "q < U64_MAX"
          "stored K (pool_view s3) (split_child p ks as l k r bs)" "evolves ?V (PNode p ks (as @ c # bs)) (pool_view s3) (split_child p ks as l k r bs)"
          by (cases rs3) (auto simp: split_in_def)
        have "stored K (pool_view s3) c'" if "c' \<in> {l, r}" for c'
          using that by (intro stored_child [OF sp3(3) [unfolded split_child_def]]) auto
        then show "treest.total (2 + b) (insert_loop ?n p key doc) rs3 ?Q"
          unfolding s3 by (intro insert_after_split [OF st ci sp sp3 key]) (use rec [OF sp3(1)] in blast)
      qed
      then show "treest.total (5 + (2 + b)) (if f then bindP (split_node (pid c) (Some p)) (\<lambda>_. insert_loop ?n p key doc) else insert_loop ?n (pid c) key doc) rs2 ?Q"
        using s2(1,2) by simp
    qed
    then show "treest.total (1 + (5 + (2 + b))) (case x of InsertDone \<Rightarrow> returnP () | InsertGoTo child \<Rightarrow>
         bindP (on_tree (is_full child (length key))) (\<lambda>full.
         if full then bindP (split_node child (Some p)) (\<lambda>_. insert_loop ?n p key doc) else insert_loop ?n child key doc)) rs1 ?Q"
      using s1(1,2) by simp
  qed
  then show ?thesis by simp
qed

lemma insert_loop_total:
  assumes "stored K (pool_view s) t" and "\<not> full K t" and "height t \<le> h" and "2 * h < n"
    and key: "length key = K" and cap: "3 * (K + LEAF_SLOT) \<le> node_capacity" and doc: "doc_id_ok doc"
    and "key \<notin> set (keys_of t)"
  shows "treest.total (9 * h + 1) (insert_loop n (pid t) key doc) (root, s)
    (\<lambda>_ (root', V). root' = root \<and> (\<exists>t'. grown K key doc (pool_view s) t V t'))"
  using assms(1-4,8)
proof (induction h arbitrary: t s n)
  case 0
  then obtain p es nx where t: "t = PLeaf p es nx" by (cases t) auto
  show ?case using insert_leaf_total [of K s p es nx n key doc root] 0 key doc by (simp add: t)
next
  case (Suc h)
  show ?case
  proof (cases t)
    case (PLeaf p es nx)
    then show ?thesis
      using insert_leaf_total [of K s p es nx n key doc root] Suc.prems key doc by (auto intro: treest.total_conseq)
  next
    case (PNode p ks ts)
    obtain m where n: "n = Suc (Suc m)" "2 * h < m" using Suc.prems(4) by (cases n; cases "n - 1") auto
    let ?i = "child_index key ks" let ?as = "take ?i ts" let ?c = "ts ! ?i" let ?bs = "drop (Suc ?i) ts"
    have o: "ordered (PNode p ks ts)" using storedD(2) [OF Suc.prems(1)] PNode by simp
    have i: "?i < length ts" by (rule lookup_child(1) [OF o])
    have ts: "ts = ?as @ ?c # ?bs" by (rule id_take_nth_drop [OF i])
    have t: "t = PNode p ks (?as @ ?c # ?bs)" using PNode ts by simp
    have ci: "?i = length ?as" using i by simp
    note st = Suc.prems(1) [unfolded t]
    have stc: "stored K (pool_view s) ?c" by (rule stored_child [OF st]) simp
    have hc: "height ?c \<le> h" using height_child [of ?c ts p ks] Suc.prems(3) PNode i by simp
    have kc: "key \<notin> set (keys_of ?c)" using Suc.prems(5) PNode i by auto
    show ?thesis
    proof (cases "full K ?c")
      case False
      have "treest.total (2 + (9 * h + 1)) (insert_loop (Suc (Suc m)) p key doc) (root, s)
          (\<lambda>_ (root', V). root' = root \<and> (\<exists>t'. grown K key doc (pool_view s) t V t'))"
        unfolding t
      proof (rule insert_descend [OF st ci False key])
        fix s' assume s': "pool_view s' = pool_view s"
        show "treest.total (9 * h + 1) (insert_loop (Suc m) (pid ?c) key doc) (root, s')
            (\<lambda>_ (root', V). root' = root \<and> (\<exists>c'. grown K key doc (pool_view s) ?c V c'))"
          using Suc.IH [of s' ?c "Suc m", unfolded s'] stc False hc kc n(2) by (simp del: insert_loop.simps)
      qed
      then have "treest.total (9 * Suc h + 1) (insert_loop (Suc (Suc m)) p key doc) (root, s)
          (\<lambda>_ (root', V). root' = root \<and> (\<exists>t'. grown K key doc (pool_view s) t V t'))"
        by (rule treest.total_conseq) simp_all
      then show ?thesis by (simp add: n PNode del: insert_loop.simps)
    next
      case True
      note sp = full_splittable [OF True cap]
      have "treest.total (9 + (9 * h + 1)) (insert_loop (Suc (Suc m)) p key doc) (root, s)
          (\<lambda>_ (root', V). root' = root \<and> (\<exists>t'. grown K key doc (pool_view s) t V t'))"
        unfolding t
      proof (rule insert_split_total [OF st ci True sp Suc.prems(2) [unfolded t] key])
        fix c' q l k r s1 s' assume sub: "split_pt q ?c = (l, k, r)" "c' \<in> {l, r}" "stored K (pool_view s1) c'" "pool_view s' = pool_view s1"
        note so = split_order(3) [OF storedD(2) [OF stc] sp sub(1)]
        have "\<not> full K c'" using split_not_full [OF rep_fits [OF storedD(1,3) [OF stc]] sp sub(1)] sub(2) by auto
        moreover have "height c' \<le> h" using split_children(1,2) [OF storedD(1) [OF stc] sub(1) sp] hc sub(2) by auto
        moreover have "key \<notin> set (keys_of c')" using kc sub(2) by (auto simp: keys_of_def simp flip: so)
        ultimately show "treest.total (9 * h + 1) (insert_loop m (pid c') key doc) (root, s')
            (\<lambda>_ (root', V). root' = root \<and> (\<exists>t'. grown K key doc (pool_view s1) c' V t'))"
          using Suc.IH [of s' c' m] sub(3,4) n(2) by simp
      qed
      then show ?thesis by (simp add: n PNode del: insert_loop.simps)
    qed
  qed
qed

section \<open>Splitting the root\<close>

definition root_split :: "nat \<Rightarrow> (page_id \<rightharpoonup> page) \<Rightarrow> ptree \<Rightarrow> (page_id \<rightharpoonup> page) \<Rightarrow> ptree \<Rightarrow> bool" where
  "root_split K V t V' t' \<longleftrightarrow> extends V t V' t' \<and> fst (hd (leaves t')) = fst (hd (leaves t)) \<and> stored K V' t' \<and> entries t' = entries t
     \<and> height t' \<le> Suc (height t) \<and> (\<exists>p k l r. t' = PNode p [k] [l, r])"

lemma root_split_stored:
  assumes st: "stored K V t" and sp: "splittable t" and lkr: "split_pt q t = (l, k, r)" and q: "V q = None" "q < U64_MAX"
    and lr: "rep V1 l" "rep V1 r" and frame: "\<forall>x. x \<noteq> pid t \<longrightarrow> x \<noteq> q \<longrightarrow> V1 x = V x"
    and p: "V1 p = None" "p < U64_MAX" and at: "internal_at (Some pg) [k] [pid t, q]"
  shows "root_split K V t (V1(p \<mapsto> pg)) (PNode p [k] [l, r])"
proof -
  let ?V = "V1(p \<mapsto> pg)" let ?t = "PNode p [k] [l, r]"
  note s = storedD [OF st] note so = split_order [OF s(2) sp lkr]
  have old: "set (pages t) \<subseteq> dom V" using rep_pages [OF s(1)] by (force simp: domIff)
  have qn: "q \<notin> set (pages t)" using old q(1) by blast
  note pg = split_pages [OF s(4) qn lkr] note zs = split_sized [OF s(3) q(2) sp lkr]
  have new: "set (pages l) \<union> set (pages r) \<subseteq> dom V1" using rep_pages [OF lr(1)] rep_pages [OF lr(2)] by (force simp: domIff)
  then have pn: "p \<notin> set (pages l) \<union> set (pages r)" using p(1) by blast
  have "rep ?V l" "rep ?V r" using lr pn by (auto intro!: rep_frame [of V1])
  then have "rep ?V ?t" using at by (simp add: split_shape [OF lkr])
  moreover have "ordered ?t" using so by (auto simp: separated_def nth_Cons' less_Suc_eq)
  moreover have "sized K ?t" using zs p(2) by simp
  moreover have "distinct (pages ?t)" using pg(1) pn by simp
  ultimately have st': "stored K ?V ?t" by (simp add: stored_def)
  have inner: "list_all (\<lambda>t. leaves t \<noteq> []) (case t of PLeaf p es nx \<Rightarrow> [] | PNode p ks ts \<Rightarrow> ts)"
    using s(1) leaves_nonempty by (cases t) (auto simp: list_all_iff)
  have qx: "q \<noteq> NO_NEXT_LEAF" using q(2) by (simp add: NO_NEXT_LEAF_def)
  have dom: "dom V \<subseteq> dom V1"
  proof
    fix x assume x: "x \<in> dom V"
    have "pid t \<in> set (pages l)" using split_shape(1) [OF lkr] by (cases l) auto
    then show "x \<in> dom V1" using x frame new q(1) by (cases "x = pid t") (auto simp: domIff)
  qed
  have "extends V t ?V ?t"
    unfolding extends_def
  proof (intro conjI allI impI ballI)
    show "linked (leaves ?t) e" if "linked (leaves t) e" for e
      using split_linked(1) [OF lkr qx sp inner that] by simp
    have pq: "p \<notin> dom V" "q \<notin> dom V" using dom p(1) q(1) by blast+
    have pe: "set (pages ?t) = insert p (insert q (set (pages t)))" using pg(2) by auto
    show "set (pages ?t) \<inter> dom V \<subseteq> set (pages t)" unfolding pe using pq by simp
    show "dom V \<subseteq> dom ?V" using dom by auto
    fix x assume x: "x \<in> dom V - set (pages t)"
    have "pid t \<in> set (pages t)" by (cases t) auto
    then have "x \<noteq> pid t" "x \<noteq> q" "x \<noteq> p" using x pq by auto
    then show "?V x = V x" using frame by simp
  qed
  then show ?thesis
    using st' so(3) split_children(1,2) [OF s(1) lkr sp] split_linked(2) [OF lkr qx sp inner] by (simp add: root_split_def)
qed

lemma new_root_at:
  assumes "length k = K" and "3 * (K + LEAF_SLOT) \<le> node_capacity" and "l < 2 ^ 64" "q < 2 ^ 64"
  obtains pg where "bindO (internal_init l new_page_bytes) (internal_insert_slot k q) = Ok pg" and "internal_at (Some pg) [k] [l, q]"
proof -
  have "page_fit K INTERNAL_SLOT [(k, q)]" using assms(1,2) by (simp add: page_fit_def LEAF_SLOT_def INTERNAL_SLOT_def)
  then obtain pg where pg: "internal_rebuild l [(k, q)] new_page_bytes = Ok pg" "internal_at (Some pg) [k] [l, q]"
    using internal_rebuild_at [OF length_new_page_bytes, of K "[(k, q)]" l] assms(3,4) by auto
  have "internal_insert_all [(k, q)] p = internal_insert_slot k q p" for p
    by (cases "internal_insert_slot k q p") simp_all
  then have "bindO (internal_init l new_page_bytes) (internal_insert_slot k q) = Ok pg"
    using pg(1) by (cases "internal_init l new_page_bytes") (auto simp: internal_rebuild_def)
  then show thesis using that pg(2) by blast
qed

lemma split_root_total:
  assumes st: "stored K (pool_view s) t" and sp: "splittable t" and cap: "3 * (K + LEAF_SLOT) \<le> node_capacity"
  shows "treest.total 5 (split_node (pid t) None) (root, s) (\<lambda>_ (root', V). \<exists>t'. pid t' = root' \<and> root_split K (pool_view s) t V t')"
proof -
  let ?V = "pool_view s" let ?Q = "\<lambda>_ (root', V). \<exists>t'. pid t' = root' \<and> root_split K ?V t V t'"
  note st0 = storedD [OF st]
  have "treest.total (4 + (1 + 0)) (split_node (pid t) None) (root, s) ?Q"
    unfolding split_node_front
  proof (rule treest.total_bind [OF treest_lift [OF split_front_total [OF st0(1,3,2,4) sp]]])
    fix x rs1 assume "case (case rs1 of (r, s) \<Rightarrow> (r, pool_view s)) of (r', V) \<Rightarrow> r' = root \<and> split_result ?V t x V"
    then obtain D q s1 l k r where x: "x = (D, q)" "rs1 = (root, s1)" and lkr: "split_pt q t = (l, k, r)" "split_separator D = k"
      and q: "?V q = None" "q < U64_MAX" and lr: "rep (pool_view s1) l" "rep (pool_view s1) r"
      and frame: "\<forall>p. p \<noteq> pid t \<longrightarrow> p \<noteq> q \<longrightarrow> pool_view s1 p = ?V p"
      by (cases x; cases rs1) (auto simp: split_result_def)
    have b64: "pid t < 2 ^ 64" "q < 2 ^ 64" using sized_pid [OF st0(3)] q(2) by (simp_all add: U64_MAX_def)
    obtain pg where pg: "bindO (internal_init (pid t) new_page_bytes) (internal_insert_slot k q) = Ok pg" "internal_at (Some pg) [k] [pid t, q]"
      by (rule new_root_at [OF split_sized(3) [OF st0(3) q(2) sp lkr(1)] cap b64])
    have "treest.total (1 + 0) (bindP (on_tree (alloc_node (\<lambda>pg. bindO (internal_init (pid t) pg) (internal_insert_slot k q)))) set_root) (root, s1) ?Q"
    proof (rule treest.total_bind [OF treest_lift [OF alloc_node_total [where f = "\<lambda>pg. bindO (internal_init (pid t) pg) (internal_insert_slot k q)" and pg = pg, OF pg(1) length_at(2) [OF pg(2)]]]])
      fix p rs2 assume "case (case rs2 of (r, s) \<Rightarrow> (r, pool_view s)) of (r', V) \<Rightarrow> r' = root
        \<and> pool_view s1 p = None \<and> p < U64_MAX \<and> V = (pool_view s1)(p \<mapsto> pg)"
      then obtain s2 where s2: "rs2 = (root, s2)" "pool_view s1 p = None" "p < U64_MAX" "pool_view s2 = (pool_view s1)(p \<mapsto> pg)"
        by (cases rs2) auto
      have "root_split K ?V t (pool_view s2) (PNode p [k] [l, r])"
        unfolding s2(4) by (rule root_split_stored [OF st sp lkr(1) q lr frame s2(2,3) pg(2)])
      then show "treest.total 0 (set_root p) rs2 ?Q"
        unfolding s2(1) by (auto simp: treest.total_def set_root_def modifyP_def intro!: exI [of _ "PNode p [k] [l, r]"])
    qed
    then show "treest.total (1 + 0) (case x of (data, sib) \<Rightarrow> case None of
         Some parent \<Rightarrow> on_tree (write_node parent (on_node expected_internal (internal_insert_slot (split_separator data) sib)))
       | None \<Rightarrow> bindP (on_tree (alloc_node (\<lambda>pg. bindO (internal_init (pid t) pg) (internal_insert_slot (split_separator data) sib)))) set_root)
       rs1 ?Q"
      using x lkr(2) by simp
  qed
  then show ?thesis by simp
qed

section \<open>Insertion as a whole\<close>

lemma insert_fuel_enough:
  assumes "tree_at (pool_view s) t"
  shows "2 * height t < insert_fuel s"
proof -
  have "height t < length (pages t)" using assms by (intro height_pages) (auto simp: tree_at_def)
  then show ?thesis using pages_in_file [OF assms] by (simp add: insert_fuel_def PAGE_SIZE_def)
qed

definition tree_inserted :: "nat \<Rightarrow> key \<Rightarrow> doc_id \<Rightarrow> (page_id \<rightharpoonup> page) \<Rightarrow> ptree \<Rightarrow> (page_id \<rightharpoonup> page) \<Rightarrow> ptree \<Rightarrow> bool" where
  "tree_inserted K key doc V t V' t' \<longleftrightarrow> extends V t V' t' \<and> fst (hd (leaves t')) = fst (hd (leaves t)) \<and> stored K V' t'
     \<and> map_of (entries t') = (map_of (entries t))(key \<mapsto> doc)"

lemma insert_from_root:
  assumes tree: "tree_at (pool_view s) t" and sz: "sized K t" and room: "\<not> full K t" and key: "length key = K"
    and cap: "3 * (K + LEAF_SLOT) \<le> node_capacity" and doc: "doc_id_ok doc" and new: "map_of (entries t) key = None"
  shows "treest.total (9 * height t + 1) (bindP tree_root (\<lambda>root. bindP (on_tree (readP insert_fuel)) (\<lambda>n. insert_loop n root key doc)))
    (pid t, s) (\<lambda>_ (root, V). \<exists>t'. pid t' = root \<and> tree_inserted K key doc (pool_view s) t V t')"
proof -
  have st: "stored K (pool_view s) t" using tree sz by (simp add: tree_at_def stored_def)
  have k: "key \<notin> set (keys_of t)" using new by (auto simp: keys_of_def map_of_eq_None_iff)
  have "treest.total (9 * height t + 1) (insert_loop (insert_fuel s) (pid t) key doc) (pid t, s)
      (\<lambda>_ (root', V). \<exists>t'. pid t' = root' \<and> tree_inserted K key doc (pool_view s) t V t')"
  proof (rule treest.total_conseq [OF insert_loop_total [OF st room order_refl insert_fuel_enough [OF tree] key cap doc k]])
    fix u rs assume "case (case rs of (r, s) \<Rightarrow> (r, pool_view s)) of (root', V) \<Rightarrow> root' = pid t \<and> (\<exists>t'. grown K key doc (pool_view s) t V t')"
    then obtain s' t' where "rs = (pid t, s')" "grown K key doc (pool_view s) t (pool_view s') t'" by (cases rs) auto
    then have "rs = (pid t', s')" "tree_inserted K key doc (pool_view s) t (pool_view s') t'"
      by (simp_all add: grown_def evolves_def tree_inserted_def)
    then show "case (case rs of (r, s) \<Rightarrow> (r, pool_view s)) of (root', V) \<Rightarrow> \<exists>t'. pid t' = root' \<and> tree_inserted K key doc (pool_view s) t V t'"
      by auto
  qed simp
  then show ?thesis
    by (auto intro!: treest.total_bind_pure simp: tree_root_def on_tree_def readP_def)
qed

lemma btree_insert_total:
  assumes tree: "tree_at (pool_view s) t" and sz: "sized K t" and key: "length key = K"
    and cap: "3 * (K + LEAF_SLOT) \<le> node_capacity" and doc: "doc_id_ok doc" and new: "map_of (entries t) key = None"
  shows "treest.total (9 * height t + 16) (btree_insert key doc) (pid t, s)
    (\<lambda>_ (root, V). \<exists>t'. pid t' = root \<and> tree_inserted K key doc (pool_view s) t V t')"
proof -
  let ?V = "pool_view s" let ?Q = "\<lambda>_ (root, V). \<exists>t'. pid t' = root \<and> tree_inserted K key doc ?V t V t'"
  let ?go = "bindP tree_root (\<lambda>root. bindP (on_tree (readP insert_fuel)) (\<lambda>n. insert_loop n root key doc))"
  have st: "stored K ?V t" using tree sz by (simp add: tree_at_def stored_def)
  have "treest.total (1 + (5 + (9 * height t + 10))) (bindP (on_tree (is_full (pid t) (length key))) (\<lambda>full.
      bindP (if full then split_node (pid t) None else returnP ()) (\<lambda>_. ?go))) (pid t, s) ?Q"
  proof (rule treest.total_bind [OF treest_lift [OF is_full_total [of s t "length key"]]])
    show "rep ?V t" "sized (length key) t" using storedD [OF st] key by simp_all
    fix f rs1 assume "case (case rs1 of (r, s) \<Rightarrow> (r, pool_view s)) of (r', V) \<Rightarrow> r' = pid t \<and> f = full (length key) t \<and> V = ?V"
    then obtain s1 where s1: "rs1 = (pid t, s1)" "f = full K t" "pool_view s1 = ?V" using key by (cases rs1) auto
    show "treest.total (5 + (9 * height t + 10)) (bindP (if f then split_node (pid t) None else returnP ()) (\<lambda>_. ?go)) rs1 ?Q"
    proof (cases f)
      case False
      then have "treest.total (9 * height t + 1) ?go (pid t, s1) ?Q"
        using insert_from_root [of s1 t K key doc] assms s1(2,3) by simp
      then have "treest.total (9 * height t + 1) (bindP (returnP ()) (\<lambda>_. ?go)) (pid t, s1) ?Q"
        by (rule treest.total_bind_pure [rotated]) simp
      then show ?thesis using False s1(1) by (auto elim!: treest.total_conseq)
    next
      case True
      then have sp: "splittable t" using full_splittable [of K t] s1(2) cap by simp
      have "treest.total (5 + (9 * height t + 10)) (bindP (split_node (pid t) None) (\<lambda>_. ?go)) (pid t, s1) ?Q"
      proof (rule treest.total_bind [OF split_root_total [of K s1, unfolded s1(3), OF st sp cap]])
        fix u rs2 assume "case (case rs2 of (r, s) \<Rightarrow> (r, pool_view s)) of (root', V) \<Rightarrow> \<exists>t'. pid t' = root' \<and> root_split K ?V t V t'"
        then obtain s2 t2 where s2: "rs2 = (pid t2, s2)" "root_split K ?V t (pool_view s2) t2" by (cases rs2) auto
        then obtain p k l r where t2: "t2 = PNode p [k] [l, r]" "extends ?V t (pool_view s2) t2" "stored K (pool_view s2) t2"
          "entries t2 = entries t" "height t2 \<le> Suc (height t)" "fst (hd (leaves t2)) = fst (hd (leaves t))" by (auto simp: root_split_def)
        have "tree_at (pool_view s2) t2" using t2(2,3) tree extendsD(1) by (auto simp: tree_at_def stored_def)
        moreover have "\<not> full K t2" using cap by (simp add: t2(1) LEAF_SLOT_def INTERNAL_SLOT_def)
        ultimately have "treest.total (9 * height t2 + 1) ?go (pid t2, s2) (\<lambda>_ (root, V). \<exists>t'. pid t' = root \<and> tree_inserted K key doc (pool_view s2) t2 V t')"
          using insert_from_root [of s2 t2 K key doc] storedD(3) [OF t2(3)] key cap doc new t2(4) by simp
        then show "treest.total (9 * height t + 10) ?go rs2 ?Q"
          unfolding s2(1)
        proof (rule treest.total_conseq)
          fix u rs3 assume "case (case rs3 of (r, s) \<Rightarrow> (r, pool_view s)) of (root, V) \<Rightarrow> \<exists>t'. pid t' = root \<and> tree_inserted K key doc (pool_view s2) t2 V t'"
          then show "?Q u (case rs3 of (r, s) \<Rightarrow> (r, pool_view s))"
            using extends_trans [OF t2(2)] t2(4,6) by (auto simp: tree_inserted_def split: prod.splits)
        qed (use t2(5) in simp)
      qed
      then show ?thesis using True s1(1) by simp
    qed
  qed
  then show ?thesis
    unfolding btree_insert_def by (intro treest.total_bind_pure [of tree_root _ "pid t"]) (simp_all add: tree_root_def add.commute)
qed

section \<open>Properties\<close>

text \<open>A tree of one leaf in a fresh file, for the concrete instances.\<close>

definition leaf_of :: "(key \<times> doc_id) list \<Rightarrow> page_id pool_prog" where
  "leaf_of es = alloc_node (\<lambda>pg. bindO (leaf_init pg) (leaf_insert_all es))"

lemma leaf_of_total:
  assumes "page_fit K LEAF_SLOT es" and ids: "\<forall>e \<in> set es. doc_id_ok (snd e)"
  shows "pool.total 1 (leaf_of es) s (\<lambda>root V. pool_view s root = None \<and> (\<exists>pg. V = (pool_view s)(root \<mapsto> pg))
    \<and> tree_at V (PLeaf root es NO_NEXT_LEAF) \<and> sized K (PLeaf root es NO_NEXT_LEAF))"
proof -
  obtain pg where pg: "bindO (leaf_init new_page_bytes) (leaf_insert_all es) = Ok pg" "leaf_at (Some pg) es NO_NEXT_LEAF"
    by (rule leaf_sibling_at [OF length_new_page_bytes assms(1)]) (use ids in auto)
  have "ordered (PLeaf root es NO_NEXT_LEAF)" "root < U64_MAX \<Longrightarrow> sized K (PLeaf root es NO_NEXT_LEAF)" for root
    using assms by (simp_all add: page_fit_def NO_NEXT_LEAF_def U64_MAX_def)
  then show ?thesis
    unfolding leaf_of_def using pg
    by (intro pool.total_conseq [OF alloc_node_total [where f = "\<lambda>pg. bindO (leaf_init pg) (leaf_insert_all es)" and pg = pg, OF pg(1) length_at(1) [OF pg(2)]]])
      (auto simp: tree_at_def)
qed

lemma leaf_of_tree:
  assumes "page_fit K LEAF_SLOT es" and "\<forall>e \<in> set es. doc_id_ok (snd e)"
  obtains root s where "leaf_of es example_pool = (Ok root, s)" and "pool_inv s" and "1023 \<le> pool_budget s"
    and "tree_at (pool_view s) (PLeaf root es NO_NEXT_LEAF)" and "sized K (PLeaf root es NO_NEXT_LEAF)"
proof -
  have "1 \<le> pool_budget example_pool" using example_pool_budget by simp
  then show thesis
    by (rule pool.totalE [OF leaf_of_total [OF assms] example_pool_inv]) (use that example_pool_budget in auto)
qed

definition example_entries :: "(key \<times> doc_id) list" where
  "example_entries = [([1], (7, 0)), ([2], (7, 1))]"

definition example_leaf :: "page_id pool_prog" where
  "example_leaf = leaf_of example_entries"

lemma example_tree:
  obtains root s where "example_leaf example_pool = (Ok root, s)" and "pool_inv s" and "1023 \<le> pool_budget s"
    and "tree_at (pool_view s) (PLeaf root example_entries NO_NEXT_LEAF)" and "sized 1 (PLeaf root example_entries NO_NEXT_LEAF)"
  unfolding example_leaf_def
  by (rule leaf_of_tree [of 1 example_entries])
    (simp_all add: page_fit_def example_entries_def doc_id_ok_def node_capacity_def LEAF_SLOT_def PAGE_SIZE_def NODE_HEADER_SIZE_def)

text \<open>C13: on a well-formed tree of any height, \<open>search\<close> returns the document id stored under the
  key, or nothing when the key is absent, and leaves every page as it was.\<close>

theorem btree_search_correct:
  assumes "pool_inv s" and "tree_at (pool_view s) t" and "height t < pool_budget s"
  shows "\<exists>s'. btree_search key (pid t, s) = (Ok (map_of (entries t) key), (pid t, s'))
    \<and> pool_inv s' \<and> pool_view s' = pool_view s"
proof -
  have rep: "rep (pool_view s) t" "ordered t" using assms(2) by (simp_all add: tree_at_def)
  have "height t < tree_fuel s" using height_pages [OF rep(1)] pages_in_file [OF assms(2)] by (simp add: tree_fuel_def)
  from search_loop_total [OF rep this, of key]
  have "pool.total (Suc (height t)) (bindP (readP tree_fuel) (\<lambda>n. search_loop n (pid t) key)) s
      (\<lambda>x V. x = map_of (entries t) key \<and> V = pool_view s)"
    by (rule pool.total_bind_pure [rotated]) simp
  from on_tree_total [OF this assms(1), of "pid t"] assms(3) show ?thesis
    by (auto simp: btree_search_def tree_root_def)
qed

theorem btree_search_correct_witness:
  "\<exists>root s s'. example_leaf example_pool = (Ok root, s) \<and> btree_search [2] (root, s) = (Ok (Some (7, 1)), (root, s'))"
proof -
  obtain root s where e: "example_leaf example_pool = (Ok root, s)" "pool_inv s" "1023 \<le> pool_budget s"
    "tree_at (pool_view s) (PLeaf root example_entries NO_NEXT_LEAF)"
    by (rule example_tree)
  then show ?thesis using btree_search_correct [OF e(2,4), of "[2]"] by (auto simp: example_entries_def)
qed

lemma btree_range_scan_total:
  assumes "tree_at (pool_view s) t"
  shows "treest.total (Suc (height t) + length (leaves t)) (btree_range_scan low high) (pid t, s) (\<lambda>x (r, V). r = pid t \<and> V = pool_view s
    \<and> x = map snd (filter (\<lambda>e. low \<le> fst e \<and> fst e \<le> high) (entries t)))"
proof -
  have rep: "rep (pool_view s) t" "ordered t" "linked (leaves t) NO_NEXT_LEAF" using assms by (simp_all add: tree_at_def)
  let ?f = "tree_fuel s"
  have fuel: "height t < ?f" "length (leaves t) \<le> ?f"
    using height_pages [OF rep(1)] length_leaves [of t] pages_in_file [OF assms] by (simp_all add: tree_fuel_def)
  have "pool.total (Suc (height t) + length (leaves t)) (bindP (find_leaf_loop ?f (pid t) low) (\<lambda>leaf. range_scan_loop ?f leaf low high)) s
      (\<lambda>x V. x = map snd (filter (in_range low high) (entries t)) \<and> V = pool_view s)"
  proof (rule pool.total_bind [OF find_leaf_total [OF rep(1,2) fuel(1)]])
    fix q s' assume q: "starts_at t low q \<and> pool_view s' = pool_view s"
    then obtain pre l post where s: "leaves t = pre @ l # post" "fst l = q"
      "\<forall>x \<in> set (concat (map (\<lambda>(p, es, nx). es) pre)). fst x < low" by (auto simp: starts_at_def)
    let ?ls = "l # post"
    have e: "entries t = concat (map (\<lambda>(p, es, nx). es) pre) @ concat (map (\<lambda>(p, es, nx). es) ?ls)"
      unfolding entries_leaves s(1) by simp
    have "pool.total (length ?ls) (range_scan_loop ?f (fst (hd ?ls)) low high) s'
        (\<lambda>x V. x = map snd (filter (in_range low high) (concat (map (\<lambda>(p, es, nx). es) ?ls))) \<and> V = pool_view s')"
    proof (rule range_scan_loop_total)
      show "list_all (\<lambda>(p, es, nx). leaf_at (pool_view s' p) es nx) ?ls" using leaves_at [OF rep(1)] q by (simp add: s(1))
      show "linked ?ls NO_NEXT_LEAF" using linked_append rep(3) unfolding s(1) by blast
      have "sorted_wrt (<) (map fst (entries t))" using ordered_sorted [OF rep(2)] by (simp add: keys_of_def)
      then show "sorted_wrt (<) (map fst (concat (map (\<lambda>(p, es, nx). es) ?ls)))" unfolding e map_append sorted_wrt_append by blast
    qed (use fuel(2) s(1) in simp_all)
    moreover have "filter (in_range low high) (entries t) = filter (in_range low high) (concat (map (\<lambda>(p, es, nx). es) ?ls))"
    proof -
      have "\<forall>x \<in> set (concat (map (\<lambda>(p, es, nx). es) pre)). \<not> in_range low high x"
        using s(3) unfolding in_range_def by (meson leD)
      then show ?thesis unfolding e filter_append by (simp only: filter_False append_Nil)
    qed
    ultimately show "pool.total (length (leaves t)) (range_scan_loop ?f q low high) s'
        (\<lambda>x V. x = map snd (filter (in_range low high) (entries t)) \<and> V = pool_view s)"
      using q s(1,2) by (auto intro: pool.total_conseq)
  qed
  then have "pool.total (Suc (height t) + length (leaves t)) (bindP (readP tree_fuel) (\<lambda>n.
      bindP (find_leaf_loop n (pid t) low) (\<lambda>leaf. range_scan_loop n leaf low high))) s
      (\<lambda>x V. x = map snd (filter (in_range low high) (entries t)) \<and> V = pool_view s)"
    by (rule pool.total_bind_pure [rotated]) simp
  from treest_lift [OF this, of "pid t"] show ?thesis
    unfolding btree_range_scan_def
    by (intro treest.total_bind_pure [of tree_root _ "pid t"]) (auto simp: tree_root_def in_range_def [abs_def] intro: treest.total_conseq)
qed

text \<open>C14: on a well-formed tree of any height, \<open>range_scan\<close> returns the document ids of exactly the
  entries whose keys lie between the bounds, both included, in key order.\<close>

theorem btree_range_scan_correct:
  assumes "pool_inv s" and "tree_at (pool_view s) t" and "height t + length (leaves t) < pool_budget s"
  shows "\<exists>s'. btree_range_scan low high (pid t, s) =
      (Ok (map snd (filter (\<lambda>e. low \<le> fst e \<and> fst e \<le> high) (entries t))), (pid t, s'))
    \<and> pool_inv s' \<and> pool_view s' = pool_view s"
proof -
  have "case (pid t, s) of (r, s) \<Rightarrow> pool_inv s" "Suc (height t) + length (leaves t) \<le> (case (pid t, s) of (r, s) \<Rightarrow> pool_budget s)"
    using assms(1,3) by simp_all
  then show ?thesis by (rule treest.totalE [OF btree_range_scan_total [OF assms(2)]]) (auto split: prod.splits)
qed

theorem btree_range_scan_correct_witness:
  "\<exists>root s s'. example_leaf example_pool = (Ok root, s) \<and> btree_range_scan [2] [9] (root, s) = (Ok [(7, 1)], (root, s'))"
proof -
  obtain root s where e: "example_leaf example_pool = (Ok root, s)" "pool_inv s" "1023 \<le> pool_budget s"
    "tree_at (pool_view s) (PLeaf root example_entries NO_NEXT_LEAF)"
    by (rule example_tree)
  then show ?thesis using btree_range_scan_correct [OF e(2,4), of "[2]" "[9]"] by (auto simp: example_entries_def)
qed

text \<open>C12: inserting a key that is not in a tree with keys of one length (short enough for three
  entries in a page) ends and returns normally, also when nodes on the path or the root split. The
  tree it leaves is well formed and, as a map, the old one with the new entry; every page that was
  in use and does not belong to the tree keeps its contents.\<close>

theorem btree_insert_correct:
  assumes "pool_inv s" and "tree_at (pool_view s) t" and "sized K t" and "length key = K"
    and "3 * (K + LEAF_SLOT) \<le> node_capacity" and "doc_id_ok doc" and "map_of (entries t) key = None"
    and "9 * height t + 16 \<le> pool_budget s"
  shows "\<exists>t' s'. btree_insert key doc (pid t, s) = (Ok (), (pid t', s')) \<and> pool_inv s'
    \<and> tree_at (pool_view s') t' \<and> sized K t' \<and> map_of (entries t') = (map_of (entries t))(key \<mapsto> doc)
    \<and> (\<forall>p. pool_view s p \<noteq> None \<longrightarrow> p \<notin> set (pages t) \<longrightarrow> pool_view s' p = pool_view s p)"
proof -
  have lk: "linked (leaves t) NO_NEXT_LEAF" using assms(2) by (simp add: tree_at_def)
  have "case (pid t, s) of (r, s) \<Rightarrow> pool_inv s" "9 * height t + 16 \<le> (case (pid t, s) of (r, s) \<Rightarrow> pool_budget s)"
    using assms(1,8) by simp_all
  then obtain u rs where u: "btree_insert key doc (pid t, s) = (Ok u, rs)" "case rs of (r, s) \<Rightarrow> pool_inv s"
    "case (case rs of (r, s) \<Rightarrow> (r, pool_view s)) of (root, V) \<Rightarrow> \<exists>t'. pid t' = root \<and> tree_inserted K key doc (pool_view s) t V t'"
    by (rule treest.totalE [OF btree_insert_total [OF assms(2-7)]])
  obtain root s' where rs: "rs = (root, s')" by (cases rs)
  from u(3) obtain t' where "pid t' = root" "tree_inserted K key doc (pool_view s) t (pool_view s') t'" by (auto simp: rs)
  then have r: "btree_insert key doc (pid t, s) = (Ok (), (pid t', s'))" "pool_inv s'"
    and i: "extends (pool_view s) t (pool_view s') t'" "stored K (pool_view s') t'" "map_of (entries t') = (map_of (entries t))(key \<mapsto> doc)"
    using u(1,2) by (simp_all add: rs tree_inserted_def)
  have "tree_at (pool_view s') t'" "sized K t'" using storedD [OF i(2)] extendsD(1) [OF i(1) lk] by (simp_all add: tree_at_def)
  moreover have "\<forall>p. pool_view s p \<noteq> None \<longrightarrow> p \<notin> set (pages t) \<longrightarrow> pool_view s' p = pool_view s p"
    using extendsD(4) [OF i(1)] by (simp add: domIff)
  ultimately show ?thesis using r i(3) by blast
qed

theorem btree_insert_correct_witness:
  "\<exists>root s t' s'. example_leaf example_pool = (Ok root, s) \<and> btree_insert [3] (7, 2) (root, s) = (Ok (), (pid t', s'))
    \<and> tree_at (pool_view s') t' \<and> map_of (entries t') = (map_of example_entries)([3] \<mapsto> (7, 2))"
proof -
  obtain root s where e: "example_leaf example_pool = (Ok root, s)" "pool_inv s" "1023 \<le> pool_budget s"
    "tree_at (pool_view s) (PLeaf root example_entries NO_NEXT_LEAF)" "sized 1 (PLeaf root example_entries NO_NEXT_LEAF)"
    by (rule example_tree)
  have "map_of example_entries [3] = None" "doc_id_ok (7, 2)" by (simp_all add: example_entries_def doc_id_ok_def)
  then show ?thesis
    using btree_insert_correct [OF e(2,4,5), of "[3]" "(7, 2)"] e(1,3)
    by (auto simp: node_capacity_def LEAF_SLOT_def PAGE_SIZE_def NODE_HEADER_SIZE_def)
qed

end
