(* ===== verification/BTree_Delete.thy ===== *)
theory BTree_Delete
  imports BTree_Insert
begin

text \<open>
  Deletion from a B+ tree. An entry is removed by rebuilding the leaf that holds it; the nodes above
  are only touched when the leaf becomes empty. \<open>remove_pt\<close> is the tree without the entry. The
  theorem covers every deletion that does not empty a leaf below the root; what \<open>fix_underflow\<close> does
  with an empty leaf is modelled in \<open>BTree\<close>, and nothing is claimed of it here.
\<close>

section \<open>The tree without an entry\<close>

fun remove_pt :: "key \<times> doc_id \<Rightarrow> ptree \<Rightarrow> ptree" where
  "remove_pt e (PLeaf p es nx) = PLeaf p (filter (\<lambda>x. x \<noteq> e) es) nx"
| "remove_pt e (PNode p ks ts) = PNode p ks (map (remove_pt e) ts)"

lemma pid_remove [simp]: "pid (remove_pt e t) = pid t"
  by (cases t) simp_all

lemma pages_remove [simp]: "pages (remove_pt e t) = pages t"
  by (induction t) (auto simp: comp_def intro: arg_cong [where f = concat])

lemma entries_remove [simp]: "entries (remove_pt e t) = filter (\<lambda>x. x \<noteq> e) (entries t)"
  by (induction t) (auto simp: comp_def filter_concat intro: arg_cong [where f = concat])

lemma leaves_remove: "leaves (remove_pt e t) = map (\<lambda>(p, es, nx). (p, filter (\<lambda>x. x \<noteq> e) es, nx)) (leaves t)"
  by (induction t) (auto simp: comp_def map_concat intro: arg_cong [where f = concat])

lemma linked_remove: "linked (leaves (remove_pt e t)) = linked (leaves t)"
proof -
  have "linked (map (\<lambda>(p, es, nx). (p, filter (\<lambda>x. x \<noteq> e) es, nx)) ls) z = linked ls z" for ls z
    by (induction ls z rule: linked.induct) simp_all
  then show ?thesis by (simp add: leaves_remove fun_eq_iff)
qed

lemma remove_absent: "e \<notin> set (entries t) \<Longrightarrow> remove_pt e t = t"
  by (induction t) (auto simp: filter_id_conv intro: map_idI)

lemma sized_remove: "sized K t \<Longrightarrow> sized K (remove_pt e t)"
  by (induction t) (auto simp: list_all_iff)

lemma marks_remove: "set (marks (remove_pt e t)) \<subseteq> set (marks t)"
  by (induction t) auto

lemma ordered_remove: "ordered t \<Longrightarrow> ordered (remove_pt e t)"
proof (induction t)
  case (PLeaf p es nx)
  then show ?case by (simp add: sorted_wrt_map sorted_wrt_filter)
next
  case (PNode p ks ts)
  have sep: "separated ks (map marks ts)" using PNode.prems by simp
  have "separated ks (map marks (map (remove_pt e) ts))"
    unfolding separated_def
  proof (intro conjI allI impI ballI)
    fix i x assume i: "i < length (map marks (map (remove_pt e) ts))" "x \<in> set (map marks (map (remove_pt e) ts) ! i)"
    then have x: "x \<in> set (map marks ts ! i)" using marks_remove [of e "ts ! i"] by auto
    show "ks ! (i - 1) \<le> x" if "0 < i" using sep i(1) x that unfolding separated_def by simp
    show "x < ks ! i" if "i < length ks" using sep i(1) x that unfolding separated_def by simp
  qed (use sep in \<open>simp add: separated_def\<close>)
  then show ?case using PNode by (simp add: list_all_iff)
qed

section \<open>One node\<close>

lemma first_not_less:
  fixes e :: "'a :: linorder"
  assumes "sorted_wrt (<) es" and "e \<in> set es"
  defines "i \<equiv> length (takeWhile (\<lambda>x. x < e) es)"
  shows "i < length es" and "es ! i = e"
proof -
  let ?D = "dropWhile (\<lambda>x. x < e) es"
  have es: "es = takeWhile (\<lambda>x. x < e) es @ ?D" by simp
  have "e \<notin> set (takeWhile (\<lambda>x. x < e) es)" by (auto dest: set_takeWhileD)
  then have e: "e \<in> set ?D" using assms(2) es by (metis Un_iff set_append)
  then obtain y ys where D: "?D = y # ys" by (cases ?D) auto
  have "sorted_wrt (<) ?D" using assms(1) es by (metis sorted_wrt_append)
  then have "y \<le> e" using e by (auto simp: D)
  moreover have "\<not> y < e" using hd_dropWhile [of "\<lambda>x. x < e" es] D by simp
  ultimately have y: "y = e" by simp
  show "i < length es" using arg_cong [OF es, of length] D by (simp add: i_def)
  have "(takeWhile (\<lambda>x. x < e) es @ ?D) ! i = e" unfolding i_def nth_append_length_plus [of _ _ 0, simplified] by (simp add: D y)
  then show "es ! i = e" by simp
qed

lemma remove_at:
  fixes e :: "'a :: linorder"
  assumes "sorted_wrt (<) es" and "e \<in> set es"
  defines "i \<equiv> length (takeWhile (\<lambda>x. x < e) es)"
  shows "take i es @ drop (Suc i) es = filter (\<lambda>x. x \<noteq> e) es"
proof -
  have i: "i < length es" "es ! i = e" using first_not_less [OF assms(1,2)] by (simp_all add: i_def)
  have es: "es = take i es @ e # drop (Suc i) es" using id_take_nth_drop [OF i(1)] i(2) by simp
  have "distinct es" using assms(1) by (simp add: strict_sorted_iff)
  then have "distinct (take i es @ e # drop (Suc i) es)" using es by simp
  then have "e \<notin> set (take i es)" "e \<notin> set (drop (Suc i) es)" by auto
  then have "filter (\<lambda>x. x \<noteq> e) (take i es) = take i es" "filter (\<lambda>x. x \<noteq> e) (drop (Suc i) es) = drop (Suc i) es"
    by (metis (mono_tags, lifting) filter_True)+
  then have "filter (\<lambda>x. x \<noteq> e) (take i es @ e # drop (Suc i) es) = take i es @ drop (Suc i) es" by simp
  then show ?thesis using es by simp
qed

lemma delete_leaf_run:
  assumes "leaf_ok pg" and "leaf_view pg = es" and "node_link pg = nx"
  shows "(key, doc) \<notin> set es \<Longrightarrow> delete_leaf key doc pg = Ok (DeleteNotFound, pg)"
    and "(key, doc) \<in> set es \<Longrightarrow> delete_leaf key doc pg = bindO (leaf_rebuild (filter (\<lambda>x. x \<noteq> (key, doc)) es) nx pg) (\<lambda>pg'. Ok (DeleteDone, pg'))"
proof -
  note ok = leaf_okD [OF assms(1)]
  let ?i = "length (takeWhile (\<lambda>x. x < (key, doc)) es)"
  have so: "sorted_wrt (<) es" using ok(3) assms(2) by simp
  have n: "node_count pg = length es" using assms(2) by (metis length_leaf_view)
  have here: "already_there LEAF_SLOT key (bindO (get_doc_id pg ?i) (\<lambda>d. Ok (d = doc))) ?i pg = (Ok (?i < length es \<and> es ! ?i = (key, doc)) :: (io_error, bool) outcome)"
    using n by (cases "es ! ?i") (auto simp: already_there_def header_Ok(1) [OF ok(1)] leaf_key_Ok [OF ok(1)] get_doc_id_Ok [OF ok(1)] assms(2))
  show "delete_leaf key doc pg = Ok (DeleteNotFound, pg)" if "(key, doc) \<notin> set es"
  proof -
    have "\<not> (?i < length es \<and> es ! ?i = (key, doc))" using that nth_mem by metis
    then show ?thesis using here by (auto simp: delete_leaf_def lower_bound_key_doc_Ok [OF assms(1)] assms(2))
  qed
  show "delete_leaf key doc pg = bindO (leaf_rebuild (filter (\<lambda>x. x \<noteq> (key, doc)) es) nx pg) (\<lambda>pg'. Ok (DeleteDone, pg'))" if e: "(key, doc) \<in> set es"
    using here first_not_less [OF so e] remove_at [OF so e]
    by (simp add: delete_leaf_def lower_bound_key_doc_Ok [OF assms(1)] assms(2,3) leaf_entries_Ok [OF ok(1)] header_Ok(3) [OF ok(1)])
qed

lemma delete_at_leaf:
  assumes st: "stored K (pool_view s) (PLeaf p es nx)"
  shows "pool.total 1 (delete_at_node p key doc) s (\<lambda>x V.
    if (key, doc) \<in> set es
    then x = DeleteDone \<and> rep V (remove_pt (key, doc) (PLeaf p es nx)) \<and> (\<forall>q. q \<noteq> p \<longrightarrow> V q = pool_view s q)
    else x = DeleteNotFound \<and> V = pool_view s)"
proof -
  note s = storedD [OF st]
  have pr: "rep (pool_view s) (PLeaf p es nx)" by (rule s(1))
  then obtain pg where pg: "pool_view s p = Some pg" "leaf_ok pg" "leaf_view pg = es" "node_link pg = nx" "is_leaf_page pg" "leaf_at (Some pg) es nx"
    by (metis leaf_atE rep.simps(1))
  note run = delete_leaf_run [OF pg(2-4), of key doc]
  show ?thesis
  proof (cases "(key, doc) \<in> set es")
    case True
    let ?es = "filter (\<lambda>x. x \<noteq> (key, doc)) es"
    have "length ?es * (K + LEAF_SLOT) \<le> length es * (K + LEAF_SLOT)" by (intro mult_le_mono1 length_filter_le)
    also have "\<dots> \<le> node_capacity" using rep_fits [OF s(1,3)] by simp
    finally have fit: "page_fit K LEAF_SLOT ?es"
      using s(2,3) by (simp add: page_fit_def sorted_wrt_map sorted_wrt_filter)
    have "nx < 2 ^ 64" "\<forall>e \<in> set ?es. doc_id_ok (snd e)" using s(3) by simp_all
    then obtain pg' where pg': "leaf_rebuild ?es nx pg = Ok pg'" "leaf_at (Some pg') ?es nx"
      using leaf_rebuild_at [OF length_at(1) [OF pg(6)] fit] by blast
    have "on_node (delete_leaf key doc) (\<lambda>pg. bindO (child_for_key key pg) (\<lambda>c. Ok (DeleteGoTo c, pg))) pg = Ok (DeleteDone, pg')"
      using run(2) [OF True] pg'(1) pg(5) by (simp add: on_node_def)
    then have "pool.total 1 (delete_at_node p key doc) s (\<lambda>x V. x = DeleteDone \<and> V = (pool_view s)(p \<mapsto> pg'))"
      unfolding delete_at_node_def by (rule with_page_mut_total [OF pg(1) _ length_at(1) [OF pg'(2)]])
    then show ?thesis by (rule pool.total_conseq) (use True pg'(2) in auto)
  next
    case False
    have "on_node (delete_leaf key doc) (\<lambda>pg. bindO (child_for_key key pg) (\<lambda>c. Ok (DeleteGoTo c, pg))) pg = Ok (DeleteNotFound, pg)"
      using run(1) [OF False] pg(5) by (simp add: on_node_def)
    then have "pool.total 1 (delete_at_node p key doc) s (\<lambda>x V. x = DeleteNotFound \<and> V = pool_view s)"
      unfolding delete_at_node_def by (rule visit_same_total [OF pg(1)])
    then show ?thesis by (rule pool.total_conseq) (use False in auto)
  qed
qed

lemma delete_at_internal:
  assumes "internal_at (pool_view s p) ks cs"
  shows "pool.total 1 (delete_at_node p key doc) s (\<lambda>x V. x = DeleteGoTo (cs ! child_index key ks) \<and> V = pool_view s)"
  using assms unfolding delete_at_node_def
  by (elim internal_atE) (rule visit_same_total, assumption, simp add: on_node_def child_for_Ok child_index_def)


section \<open>The descent\<close>

lemma entry_child:
  assumes "ordered (PNode p ks ts)" and "j < length ts" and "(key, doc) \<in> set (entries (ts ! j))"
  shows "j = child_index key ks"
proof (rule separated_other)
  show "sorted_wrt (<) ks" "separated ks (map keys_of ts)" using ordered_node [OF assms(1)] by simp_all
  show "key \<in> set (map keys_of ts ! j)" using assms(2,3) by (force simp: keys_of_def)
qed (use assms(2) in simp)

lemma entry_descends:
  assumes "ordered (PNode p ks ts)"
  shows "(key, doc) \<in> set (entries (PNode p ks ts)) \<longleftrightarrow> (key, doc) \<in> set (entries (ts ! child_index key ks))"
proof
  assume "(key, doc) \<in> set (entries (PNode p ks ts))"
  then obtain c where c: "c \<in> set ts" "(key, doc) \<in> set (entries c)" by auto
  then obtain j where "j < length ts" "c = ts ! j" by (metis in_set_conv_nth)
  with c(2) have "j < length ts" "(key, doc) \<in> set (entries (ts ! j))" by simp_all
  then show "(key, doc) \<in> set (entries (ts ! child_index key ks))" using entry_child [OF assms] by blast
qed (use lookup_child(1) [OF assms] in auto)

lemma distinct_concat_nth:
  "distinct (concat xss) \<Longrightarrow> i < length xss \<Longrightarrow> j < length xss \<Longrightarrow> i \<noteq> j \<Longrightarrow> set (xss ! i) \<inter> set (xss ! j) = {}"
proof (induction xss arbitrary: i j)
  case (Cons xs xss)
  have "set xs \<inter> set (xss ! k) = {}" if "k < length xss" for k using Cons.prems(1) that by fastforce
  then show ?case using Cons by (cases i; cases j) (auto simp: Int_commute)
qed simp

text \<open>The node after its child on the path has lost the entry.\<close>

lemma rep_remove_child:
  assumes st: "stored K V (PNode p ks ts)" and i: "i = child_index key ks" and c: "rep V' (remove_pt (key, doc) (ts ! i))"
    and frame: "\<forall>q. q \<notin> set (pages (ts ! i)) \<longrightarrow> V' q = V q"
  shows "rep V' (remove_pt (key, doc) (PNode p ks ts))"
proof -
  note s = storedD [OF st]
  have il: "i < length ts" using lookup_child(1) [OF s(2)] i by simp
  have d: "p \<notin> set (concat (map pages ts))" "distinct (concat (map pages ts))" using s(4) by simp_all
  have "p \<notin> set (pages (ts ! i))" using d(1) il by auto
  then have "internal_at (V' p) ks (map pid ts)" using s(1) frame by simp
  moreover have "rep V' (remove_pt (key, doc) (ts ! j))" if j: "j < length ts" for j
  proof (cases "j = i")
    case False
    have "(key, doc) \<notin> set (entries (ts ! j))" using entry_child [OF s(2) j] False i by blast
    then have r: "remove_pt (key, doc) (ts ! j) = ts ! j" by (rule remove_absent)
    have "set (pages (ts ! j)) \<inter> set (pages (ts ! i)) = {}"
      using distinct_concat_nth [OF d(2), of j i] j il False by simp
    then have "V' q = V q" if "q \<in> set (pages (ts ! j))" for q using frame that by blast
    moreover have "rep V (ts ! j)" using s(1) j by (simp add: list_all_length)
    ultimately have "rep V' (ts ! j)" by (metis rep_frame)
    then show ?thesis by (simp add: r)
  qed (use c in simp)
  ultimately show ?thesis by (simp add: list_all_length comp_def)
qed


text \<open>The leaf where the entry was, and the path to it.\<close>

definition removed_at :: "(page_id \<rightharpoonup> page) \<Rightarrow> ptree \<Rightarrow> page_id list \<Rightarrow> key \<times> doc_id \<Rightarrow> (page_id \<times> page_id list) option \<Rightarrow> (page_id \<rightharpoonup> page) \<Rightarrow> bool" where
  "removed_at V t path e x V' \<longleftrightarrow> (\<exists>q path' es nx. x = Some (q, path') \<and> (q, es, nx) \<in> set (leaves t) \<and> e \<in> set es
     \<and> (height t = 0 \<longrightarrow> path' = path) \<and> rep V' (remove_pt e t) \<and> (\<forall>q. q \<notin> set (pages t) \<longrightarrow> V' q = V q))"

lemma removed_at_child:
  assumes st: "stored K V (PNode p ks ts)" and i: "i = child_index key ks"
    and r: "removed_at V (ts ! i) (p # path) (key, doc) x V'"
  shows "removed_at V (PNode p ks ts) path (key, doc) x V'"
proof -
  have il: "i < length ts" using lookup_child(1) [OF storedD(2) [OF st]] i by simp
  obtain q path' es nx where x: "x = Some (q, path')" "(q, es, nx) \<in> set (leaves (ts ! i))" "(key, doc) \<in> set es"
    "rep V' (remove_pt (key, doc) (ts ! i))" "\<forall>q. q \<notin> set (pages (ts ! i)) \<longrightarrow> V' q = V q"
    using r by (auto simp: removed_at_def)
  have "rep V' (remove_pt (key, doc) (PNode p ks ts))" by (rule rep_remove_child [OF st i x(4,5)])
  moreover have "(q, es, nx) \<in> set (leaves (PNode p ks ts))" using x(2) il by auto
  moreover have "\<forall>q. q \<notin> set (pages (PNode p ks ts)) \<longrightarrow> V' q = V q" using x(5) il by auto
  ultimately show ?thesis using x(1,3) by (auto simp: removed_at_def)
qed

lemma delete_descend_total:
  assumes "stored K (pool_view s) t" and "height t < n"
  shows "pool.total (Suc (height t)) (delete_descend n (pid t) path key doc) s (\<lambda>x V.
    if (key, doc) \<in> set (entries t) then removed_at (pool_view s) t path (key, doc) x V else x = None \<and> V = pool_view s)"
  using assms
proof (induction t arbitrary: n s path)
  case (PLeaf p es nx)
  then obtain m where n: "n = Suc m" by (cases n) auto
  let ?Q = "\<lambda>x V. if (key, doc) \<in> set (entries (PLeaf p es nx)) then removed_at (pool_view s) (PLeaf p es nx) path (key, doc) x V
    else x = None \<and> V = pool_view s"
  have "pool.total (1 + 0) (delete_descend n p path key doc) s ?Q"
    unfolding n delete_descend.simps
    by (rule pool.total_bind [OF delete_at_leaf [OF PLeaf.prems(1)]])
      (auto intro!: pool.total_return simp: removed_at_def split: if_splits)
  then show ?case by simp
next
  case (PNode p ks ts)
  then obtain m where n: "n = Suc m" by (cases n) auto
  let ?i = "child_index key ks" let ?c = "ts ! ?i"
  let ?Q = "\<lambda>x V. if (key, doc) \<in> set (entries (PNode p ks ts)) then removed_at (pool_view s) (PNode p ks ts) path (key, doc) x V
    else x = None \<and> V = pool_view s"
  note st = storedD [OF PNode.prems(1)]
  have i: "?i < length ts" by (rule lookup_child(1) [OF st(2)])
  have c: "?c \<in> set ts" using i by simp
  have h: "height ?c < height (PNode p ks ts)" by (rule height_child [OF c])
  have "pool.total (1 + height (PNode p ks ts)) (delete_descend n p path key doc) s ?Q"
    unfolding n delete_descend.simps
  proof (rule pool.total_bind [OF delete_at_internal])
    show "internal_at (pool_view s p) ks (map pid ts)" using st(1) by simp
    fix x s' assume x: "x = DeleteGoTo (map pid ts ! ?i) \<and> pool_view s' = pool_view s"
    have "pool.total (Suc (height ?c)) (delete_descend m (pid ?c) (p # path) key doc) s' (\<lambda>x V.
        if (key, doc) \<in> set (entries ?c) then removed_at (pool_view s') ?c (p # path) (key, doc) x V else x = None \<and> V = pool_view s')"
      by (rule PNode.IH [OF c]) (use x PNode.prems stored_child [OF PNode.prems(1) c] h n in auto)
    then have "pool.total (height (PNode p ks ts)) (delete_descend m (pid ?c) (p # path) key doc) s' ?Q"
    proof (rule pool.total_conseq)
      fix y s2 assume y: "if (key, doc) \<in> set (entries ?c) then removed_at (pool_view s') ?c (p # path) (key, doc) y (pool_view s2)
        else y = None \<and> pool_view s2 = pool_view s'"
      show "?Q y (pool_view s2)"
        using y x entry_descends [OF st(2), of key doc] removed_at_child [OF PNode.prems(1) refl, of key path doc y] by (simp split: if_splits)
    qed (use h in simp)
    then show "pool.total (height (PNode p ks ts)) (case x of DeleteGoTo child \<Rightarrow> delete_descend m child (p # path) key doc
        | DeleteDone \<Rightarrow> returnP (Some (p, path)) | DeleteNotFound \<Rightarrow> returnP None) s' ?Q"
      using x i by simp
  qed
  then show ?case by simp
qed


section \<open>Deletion as a whole\<close>

lemma rebalance_stops:
  assumes "leaf_at (pool_view s cur) es nx" and "path = [] \<or> es \<noteq> []"
  shows "pool.total 1 (rebalance root cur path) s (\<lambda>_ V. V = pool_view s)"
proof (cases "path = [] \<or> cur = root")
  case True
  then show ?thesis by (cases path) (auto intro!: pool_returnN)
next
  case False
  then obtain parent rest where path: "path = parent # rest" by (cases path) auto
  obtain pg where pg: "pool_view s cur = Some pg" "node_ok LEAF_SLOT pg" "is_leaf_page pg" "node_count pg = length es"
    using assms(1) by (auto elim: leaf_atE)
  have count: "pool.total 1 (node_key_count cur) s (\<lambda>n V. n = length es \<and> V = pool_view s)"
    unfolding node_key_count_def using pg by (intro read_node_total) (auto simp: on_node_def header_Ok(1))
  have "pool.total (1 + 0) (bindP (node_key_count cur) (\<lambda>n. if 0 < n then returnP ()
      else bindP (fix_underflow cur parent) (\<lambda>_. rebalance root parent rest))) s (\<lambda>_ V. V = pool_view s)"
    by (rule pool.total_bind [OF count]) (use assms(2) path in \<open>auto intro!: pool.total_return\<close>)
  then have "pool.total (1 + 0) (rebalance root cur path) s (\<lambda>_ V. V = pool_view s)" using False by (simp add: path)
  then show ?thesis by simp
qed

definition root_keeps :: "ptree \<Rightarrow> bool" where
  "root_keeps t \<longleftrightarrow> (case t of PLeaf p es nx \<Rightarrow> True | PNode p ks ts \<Rightarrow> ks \<noteq> [])"

lemma root_keeps_remove [simp]: "root_keeps (remove_pt e t) = root_keeps t"
  by (cases t) (simp_all add: root_keeps_def)

lemma collapse_stays:
  assumes "rep (pool_view s) t" and "root_keeps t"
  shows "treest.total 1 collapse_empty_root (pid t, s) (\<lambda>_ (r, V). r = pid t \<and> V = pool_view s)"
proof -
  let ?f = "on_node (\<lambda>pg. Ok None) (\<lambda>pg. bindO (get_key_count pg) (\<lambda>n.
       if n = 0 then bindO (get_leftmost_child pg) (\<lambda>c. Ok (Some c)) else Ok None)) :: page \<Rightarrow> (io_error, page_id option) outcome"
  obtain pg where pg: "pool_view s (pid t) = Some pg" "?f pg = Ok None"
  proof (cases t)
    case (PLeaf p es nx)
    then show thesis using assms(1) that by (auto elim!: leaf_atE simp: on_node_def)
  next
    case (PNode p ks ts)
    then obtain pg where "pool_view s p = Some pg" "node_ok INTERNAL_SLOT pg" "\<not> is_leaf_page pg" "node_count pg = length ks"
      using assms(1) by (auto elim: internal_atE)
    then show thesis using that [of pg] PNode assms(2) by (simp add: on_node_def header_Ok(1) root_keeps_def)
  qed
  have "treest.total (1 + 0) collapse_empty_root (pid t, s) (\<lambda>_ (r, V). r = pid t \<and> V = pool_view s)"
    unfolding collapse_empty_root_def
  proof (rule treest.total_bind_pure [of tree_root _ "pid t"])
    show "treest.total (1 + 0) (bindP (on_tree (read_node (pid t) ?f)) (\<lambda>replacement. case replacement of None \<Rightarrow> returnP () | Some root \<Rightarrow> set_root root))
        (pid t, s) (\<lambda>_ (r, V). r = pid t \<and> V = pool_view s)"
      by (rule treest.total_bind [OF treest_lift [OF read_node_total [where f = ?f and r = None, OF pg]]]) (auto intro!: treest.total_return)
  qed (simp add: tree_root_def)
  then show ?thesis by simp
qed

lemma removed_leaf:
  assumes "removed_at V t path e x V'" and "\<forall>(p, es, nx) \<in> set (leaves t). e \<in> set es \<longrightarrow> height t = 0 \<or> 1 < length es"
    and "distinct (entries t)" and "path = []"
  obtains q path' es nx where "x = Some (q, path')" and "leaf_at (V' q) es nx" and "path' = [] \<or> es \<noteq> []"
proof -
  obtain q path' es nx where x: "x = Some (q, path')" "(q, es, nx) \<in> set (leaves t)" "e \<in> set es" "height t = 0 \<longrightarrow> path' = path"
    "rep V' (remove_pt e t)" using assms(1) by (auto simp: removed_at_def)
  let ?es = "filter (\<lambda>x. x \<noteq> e) es"
  have "leaf_at (V' q) ?es nx" using leaves_at [OF x(5)] x(2) by (auto simp: leaves_remove list_all_iff)
  moreover have "path' = [] \<or> ?es \<noteq> []"
  proof (cases "height t = 0")
    case False
    then have l: "1 < length es" using bspec [OF assms(2) x(2)] x(3) by simp
    have "es \<in> set (map (\<lambda>(p, es, nx). es) (leaves t))" using x(2) by force
    then have "distinct es" using assms(3) unfolding entries_leaves distinct_concat_iff by blast
    then have "card (set es) = length es" by (rule distinct_card)
    then have "\<not> set es \<subseteq> {e}" using l card_mono [of "{e}" "set es"] by fastforce
    then obtain y where "y \<in> set ?es" by auto
    then show ?thesis by (metis empty_iff empty_set)
  qed (use x(4) assms(4) in simp)
  ultimately show thesis using that x(1) by blast
qed

text \<open>
  C15: deleting an entry from a well-formed tree of any height, when the leaf that holds it keeps
  another entry or is the root itself. The deletion returns normally, the tree is well formed, has
  the old entries except the one with this key and this document id, and its root stays; pages
  outside the tree keep their contents. When there is no such entry, nothing changes.
\<close>

theorem btree_delete_correct:
  assumes inv: "pool_inv s" and tree: "tree_at (pool_view s) t" and sz: "sized K t" and root: "root_keeps t"
    and stay: "\<forall>(p, es, nx) \<in> set (leaves t). (key, doc) \<in> set es \<longrightarrow> height t = 0 \<or> 1 < length es"
    and b: "height t + 3 \<le> pool_budget s"
  shows "\<exists>t' s'. btree_delete key doc (pid t, s) = (Ok (), (pid t', s')) \<and> pid t' = pid t \<and> pool_inv s'
    \<and> tree_at (pool_view s') t' \<and> sized K t' \<and> entries t' = filter (\<lambda>e. e \<noteq> (key, doc)) (entries t)
    \<and> (\<forall>p. p \<notin> set (pages t) \<longrightarrow> pool_view s' p = pool_view s p)
    \<and> ((key, doc) \<notin> set (entries t) \<longrightarrow> pool_view s' = pool_view s)"
proof -
  let ?V = "pool_view s" let ?e = "(key, doc)" let ?t = "remove_pt ?e t"
  let ?Q = "\<lambda>_ (r, V). r = pid t \<and> rep V ?t \<and> (\<forall>p. p \<notin> set (pages t) \<longrightarrow> V p = ?V p) \<and> (?e \<notin> set (entries t) \<longrightarrow> V = ?V)"
  have st: "stored K ?V t" using tree sz by (simp add: tree_at_def stored_def)
  have "sorted_wrt (<) (map fst (entries t))" using ordered_sorted [OF storedD(2) [OF st]] by (simp add: keys_of_def)
  then have d: "distinct (entries t)" by (simp add: strict_sorted_iff distinct_map)
  have "height t < tree_fuel s" using height_pages [OF storedD(1) [OF st]] pages_in_file [OF tree] by (simp add: tree_fuel_def)
  from delete_descend_total [OF st this, of "[]" key doc] have "pool.total (Suc (height t)) (bindP (readP tree_fuel) (\<lambda>n. delete_descend n (pid t) [] key doc)) s (\<lambda>x V.
      if ?e \<in> set (entries t) then removed_at ?V t [] ?e x V else x = None \<and> V = ?V)"
    by (rule pool.total_bind_pure [rotated]) simp
  note first = treest_lift [OF this, of "pid t"]
  have "treest.total (Suc (height t) + (1 + 1)) (bindP (on_tree (bindP (readP tree_fuel) (\<lambda>n. delete_descend n (pid t) [] key doc))) (\<lambda>r.
     case r of None \<Rightarrow> returnP () | Some (cur, path) \<Rightarrow> bindP (on_tree (rebalance (pid t) cur path)) (\<lambda>_. collapse_empty_root))) (pid t, s) ?Q"
  proof (rule treest.total_bind [OF first])
    fix x rs1 assume "case (case rs1 of (r, s) \<Rightarrow> (r, pool_view s)) of (r', V) \<Rightarrow> r' = pid t
      \<and> (if ?e \<in> set (entries t) then removed_at ?V t [] ?e x V else x = None \<and> V = ?V)"
    then obtain s1 where s1: "rs1 = (pid t, s1)" "if ?e \<in> set (entries t) then removed_at ?V t [] ?e x (pool_view s1) else x = None \<and> pool_view s1 = ?V"
      by (cases rs1) auto
    show "treest.total (1 + 1) (case x of None \<Rightarrow> returnP () | Some (cur, path) \<Rightarrow> bindP (on_tree (rebalance (pid t) cur path)) (\<lambda>_. collapse_empty_root)) rs1 ?Q"
    proof (cases "?e \<in> set (entries t)")
      case True
      then have r: "removed_at ?V t [] ?e x (pool_view s1)" using s1(2) by simp
      then have after: "rep (pool_view s1) ?t" "\<forall>p. p \<notin> set (pages t) \<longrightarrow> pool_view s1 p = ?V p" by (auto simp: removed_at_def)
      obtain q path' es nx where q: "x = Some (q, path')" "leaf_at (pool_view s1 q) es nx" "path' = [] \<or> es \<noteq> []"
        by (rule removed_leaf [OF r stay d refl])
      have "treest.total (1 + 1) (bindP (on_tree (rebalance (pid t) q path')) (\<lambda>_. collapse_empty_root)) (pid t, s1) ?Q"
      proof (rule treest.total_bind [OF treest_lift [OF rebalance_stops [OF q(2,3)]]])
        fix u rs2 assume "case (case rs2 of (r, s) \<Rightarrow> (r, pool_view s)) of (r', V) \<Rightarrow> r' = pid t \<and> V = pool_view s1"
        then obtain s2 where s2: "rs2 = (pid t, s2)" "pool_view s2 = pool_view s1" by (cases rs2) auto
        have "treest.total 1 collapse_empty_root (pid t, s2) (\<lambda>_ (r, V). r = pid t \<and> V = pool_view s2)"
          using collapse_stays [of s2 ?t] after(1) s2(2) root by simp
        then show "treest.total 1 collapse_empty_root rs2 ?Q"
          unfolding s2(1) by (elim treest.total_conseq) (use after True s2(2) in auto)
      qed
      then show ?thesis using q(1) s1(1) by simp
    next
      case False
      then show ?thesis using s1 storedD(1) [OF st] by (auto simp: remove_absent treest.total_def)
    qed
  qed
  then have total: "treest.total (height t + 3) (btree_delete key doc) (pid t, s) ?Q"
    unfolding btree_delete_def by (intro treest.total_bind_pure [of tree_root _ "pid t"]) (simp_all add: tree_root_def numeral_3_eq_3)
  have "case (pid t, s) of (r, s) \<Rightarrow> pool_inv s" "height t + 3 \<le> (case (pid t, s) of (r, s) \<Rightarrow> pool_budget s)" using inv b by simp_all
  then obtain u rs where u: "btree_delete key doc (pid t, s) = (Ok u, rs)" "case rs of (r, s) \<Rightarrow> pool_inv s" "?Q u (case rs of (r, s) \<Rightarrow> (r, pool_view s))"
    by (rule treest.totalE [OF total])
  then obtain s' where s': "rs = (pid t, s')" "pool_inv s'" "?Q u (pid t, pool_view s')" by (cases rs) auto
  have "tree_at (pool_view s') ?t"
    using s'(3) tree ordered_remove [of t ?e] by (simp add: tree_at_def linked_remove)
  then show ?thesis using u(1) s' sized_remove [OF sz, of ?e] by (intro exI [of _ ?t] exI [of _ s']) simp
qed

theorem btree_delete_correct_witness:
  "\<exists>root s s' t'. example_leaf example_pool = (Ok root, s) \<and> btree_delete [1] (7, 0) (root, s) = (Ok (), (root, s'))
    \<and> tree_at (pool_view s') t' \<and> entries t' = [([2], (7, 1))]"
proof -
  obtain root s where e: "example_leaf example_pool = (Ok root, s)" "pool_inv s" "1023 \<le> pool_budget s"
    "tree_at (pool_view s) (PLeaf root example_entries NO_NEXT_LEAF)" "sized 1 (PLeaf root example_entries NO_NEXT_LEAF)"
    by (rule example_tree)
  from btree_delete_correct [OF e(2,4,5), of "[1]" "(7, 0)"]
  obtain t' s' where "btree_delete [1] (7, 0) (root, s) = (Ok (), (root, s'))" "tree_at (pool_view s') t'" "entries t' = [([2], (7, 1))]"
    using e(3) by (auto simp: root_keeps_def example_entries_def)
  then show ?thesis using e(1) by blast
qed

end
