(* ===== verification/Index_Manager.thy ===== *)
theory Index_Manager
  imports Doc_Catalog BTree_Insert Doc_Key
begin

text \<open>
  \<open>btree/index.rs\<close>: the indexes of a collection, kept in the catalog as a root page per name. A
  method works on the catalog and the buffer pool that the manager borrows.

  \<open>with_btree\<close> is \<open>BTree::open\<close> with the calls made on the handle: the handle has the root it was
  opened with, follows its own splits, and is dropped at the end, its root with it. A compound
  index has one entry in the catalog under its joined field names.
\<close>

section \<open>Keys\<close>

definition FIELD_SEPARATOR :: char where "FIELD_SEPARATOR = CHR 0x01"

text \<open>\<open>[String]::join\<close>, \<open>str::split\<close> and \<open>str::replace\<close> with a character.\<close>

fun join_with :: "string \<Rightarrow> string list \<Rightarrow> string" where
  "join_with sep [] = []"
| "join_with sep [x] = x"
| "join_with sep (x # y # xs) = x @ sep @ join_with sep (y # xs)"

fun split_on :: "char \<Rightarrow> string \<Rightarrow> string list" where
  "split_on c [] = [[]]"
| "split_on c (x # xs) = (case split_on c xs of
     [] \<Rightarrow> [[x]]
   | y # ys \<Rightarrow> if x = c then [] # y # ys else (x # y) # ys)"

definition replace_char :: "char \<Rightarrow> string \<Rightarrow> string \<Rightarrow> string" where
  "replace_char c new s = concat (map (\<lambda>x. if x = c then new else [x]) s)"

definition join_fields :: "string list \<Rightarrow> string" where
  "join_fields field_names = join_with [FIELD_SEPARATOR] field_names"

definition field_key :: "string \<Rightarrow> document \<Rightarrow> ('e, key option) outcome" where
  "field_key field doc = (case map_of doc field of
     None \<Rightarrow> Ok None
   | Some v \<Rightarrow> bindO (serialize_key v) (\<lambda>k. Ok (Some k)))"

fun compound_key :: "string list \<Rightarrow> document \<Rightarrow> ('e, key option) outcome" where
  "compound_key [] doc = Ok (Some [])"
| "compound_key (field # field_names) doc = (case map_of doc field of
     None \<Rightarrow> Ok None
   | Some v \<Rightarrow>
       bindO (serialize_key v) (\<lambda>bytes.
       bindO (compound_key field_names doc) (\<lambda>rest.
       Ok (map_option (\<lambda>out. be_bytes 4 (length bytes) @ bytes @ out) rest))))"

definition index_key_for :: "string \<Rightarrow> document \<Rightarrow> ('e, key option) outcome" where
  "index_key_for name doc =
     (if FIELD_SEPARATOR \<notin> set name then field_key name doc
      else compound_key (split_on FIELD_SEPARATOR name) doc)"

section \<open>Calls on the parts\<close>

definition with_btree :: "page_id \<Rightarrow> 'a tree_prog \<Rightarrow> 'a cat_prog" where
  "with_btree root m = (\<lambda>(c, s). case m (root, s) of (r, (root', s')) \<Rightarrow> (map_err CatIo r, (c, s')))"

definition with_collection :: "collection \<Rightarrow> 'a coll_prog \<Rightarrow> 'a cat_prog" where
  "with_collection col m = (\<lambda>(c, s). case m (col, s) of (r, (col', s')) \<Rightarrow> (map_err CatCollection r, (c, s')))"

definition catalog_index_root :: "index_name \<Rightarrow> page_id option cat_prog" where
  "catalog_index_root key = readP (\<lambda>(c, s). map_of (cat_indexes c) key)"

interpretation catst: store_logic "\<lambda>(c :: catalog, s). pool_inv s" "\<lambda>(c, s). (c, pool_view s)" "\<lambda>(c, s). pool_budget s" .

lemma with_btree_total:
  assumes "treest.total n m (root, s) (\<lambda>x (r, V). Q x V)"
  shows "catst.total n (with_btree root m) (c, s) (\<lambda>x (c', V). c' = c \<and> Q x V)"
  using assms by (fastforce simp: catst.total_def treest.total_def with_btree_def split: prod.splits)

section \<open>Creating and dropping an index\<close>

text \<open>The check of a unique index over the stored documents, with the set of the keys seen.\<close>

fun has_duplicate :: "(document \<Rightarrow> ('e, key option) outcome) \<Rightarrow> key list \<Rightarrow> (doc_id \<times> document) list \<Rightarrow> ('e, bool) outcome" where
  "has_duplicate key_of seen [] = Ok False"
| "has_duplicate key_of seen ((_, doc) # docs) =
     bindO (key_of doc) (\<lambda>k. case k of
       None \<Rightarrow> has_duplicate key_of seen docs
     | Some bytes \<Rightarrow> if bytes \<in> set seen then Ok True else has_duplicate key_of (bytes # seen) docs)"

fun backfill :: "(document \<Rightarrow> (io_error, key option) outcome) \<Rightarrow> (doc_id \<times> document) list \<Rightarrow> unit tree_prog" where
  "backfill key_of [] = returnP ()"
| "backfill key_of ((doc_id, doc) # docs) =
     bindP (liftO (key_of doc)) (\<lambda>k.
     bindP (case k of None \<Rightarrow> returnP () | Some bytes \<Rightarrow> btree_insert bytes doc_id) (\<lambda>_.
     backfill key_of docs))"

text \<open>
  The body that \<open>create\<close> and \<open>create_compound\<close> share: \<open>name\<close> is the name of the catalog entry,
  \<open>label\<close> the text of the duplicate error.
\<close>

definition build_index :: "string \<Rightarrow> string \<Rightarrow> string \<Rightarrow> (document \<Rightarrow> (io_error, key option) outcome) \<Rightarrow> bool \<Rightarrow> unit cat_prog" where
  "build_index collection name label key_of unique =
     bindP (readP (\<lambda>(c, s). catalog_collection_root c collection)) (\<lambda>r.
     if r = None then failP (CollectionNotFound collection)
     else bindP (readP (\<lambda>(c, s). catalog_has_index c collection name)) (\<lambda>known.
     if known then failP (IndexAlreadyExists collection)
     else
       bindP (on_shared_pool btree_new) (\<lambda>root.
       bindP (catalog_open_collection collection) (\<lambda>existing.
       bindP (with_collection existing collection_scan) (\<lambda>docs.
       bindP (with_collection existing collection_flush) (\<lambda>_.
       bindP (if unique then liftO (map_err CatIo (has_duplicate key_of [] docs)) else returnP False) (\<lambda>dup.
       if dup then failP (DuplicateKey collection label)
       else
         bindP (with_btree root (backfill key_of docs)) (\<lambda>_.
         bindP (modifyP (\<lambda>(c, s). (c\<lparr>cat_indexes := map_put (collection, name) root (cat_indexes c),
             cat_unique := if unique then set_put (collection, name) (cat_unique c) else cat_unique c\<rparr>, s))) (\<lambda>_.
         on_own_disk catalog_flush)))))))))"

definition index_create :: "string \<Rightarrow> string \<Rightarrow> bool \<Rightarrow> unit cat_prog" where
  "index_create collection field unique = build_index collection field field (field_key field) unique"

definition index_create_compound :: "string \<Rightarrow> string list \<Rightarrow> bool \<Rightarrow> unit cat_prog" where
  "index_create_compound collection field_names unique =
     (if length field_names = 1 then index_create collection (hd field_names) unique
      else build_index collection (join_fields field_names) (join_with '', '' field_names) (compound_key field_names) unique)"

definition index_drop :: "string \<Rightarrow> string \<Rightarrow> unit cat_prog" where
  "index_drop collection field =
     bindP (catalog_index_root (collection, field)) (\<lambda>r.
     case r of
       None \<Rightarrow> failP (IndexNotFound collection)
     | Some root \<Rightarrow>
         bindP (with_btree root btree_free) (\<lambda>_.
         bindP (modifyP (\<lambda>(c, s). (c\<lparr>cat_indexes := map_remove (collection, field) (cat_indexes c),
             cat_unique := removeAll (collection, field) (cat_unique c)\<rparr>, s))) (\<lambda>_.
         on_own_disk catalog_flush)))"

section \<open>Uniqueness\<close>

fun check_unique_loop :: "string \<Rightarrow> document \<Rightarrow> doc_id option \<Rightarrow> string list \<Rightarrow> unit cat_prog" where
  "check_unique_loop collection doc except [] = returnP ()"
| "check_unique_loop collection doc except (name # names) =
     bindP (liftO (index_key_for name doc)) (\<lambda>k.
     case k of
       None \<Rightarrow> check_unique_loop collection doc except names
     | Some key \<Rightarrow>
         bindP (catalog_index_root (collection, name)) (\<lambda>r.
         case r of
           None \<Rightarrow> check_unique_loop collection doc except names
         | Some root \<Rightarrow>
             bindP (with_btree root (btree_search key)) (\<lambda>found.
             if found \<noteq> None \<and> found \<noteq> except
             then failP (DuplicateKey collection (replace_char FIELD_SEPARATOR '', '' name))
             else check_unique_loop collection doc except names)))"

definition check_unique_except :: "string \<Rightarrow> document \<Rightarrow> doc_id option \<Rightarrow> unit cat_prog" where
  "check_unique_except collection doc except =
     bindP (readP (\<lambda>(c, s). catalog_unique_index_fields c collection)) (check_unique_loop collection doc except)"

definition check_unique :: "string \<Rightarrow> document \<Rightarrow> unit cat_prog" where
  "check_unique collection doc = check_unique_except collection doc None"

text \<open>The keys of one document, added to those seen in the batch.\<close>

fun batch_keys :: "string \<Rightarrow> document \<Rightarrow> string list \<Rightarrow> (string \<times> key) list \<Rightarrow> (catalog_error, (string \<times> key) list) outcome" where
  "batch_keys collection doc [] seen = Ok seen"
| "batch_keys collection doc (name # names) seen =
     bindO (index_key_for name doc) (\<lambda>k. case k of
       None \<Rightarrow> batch_keys collection doc names seen
     | Some key \<Rightarrow>
         if (name, key) \<in> set seen then Err (DuplicateKey collection (replace_char FIELD_SEPARATOR '', '' name))
         else batch_keys collection doc names ((name, key) # seen))"

fun check_batch_loop :: "string \<Rightarrow> string list \<Rightarrow> document list \<Rightarrow> (string \<times> key) list \<Rightarrow> unit cat_prog" where
  "check_batch_loop collection unique [] seen = returnP ()"
| "check_batch_loop collection unique (doc # docs) seen =
     bindP (check_unique collection doc) (\<lambda>_.
     bindP (liftO (batch_keys collection doc unique seen)) (\<lambda>seen'.
     check_batch_loop collection unique docs seen'))"

definition check_unique_batch :: "string \<Rightarrow> document list \<Rightarrow> unit cat_prog" where
  "check_unique_batch collection docs =
     bindP (readP (\<lambda>(c, s). catalog_unique_index_fields c collection)) (\<lambda>unique.
     check_batch_loop collection unique docs [])"

section \<open>Maintenance and lookup\<close>

definition indexes_for :: "catalog \<Rightarrow> string \<Rightarrow> (index_name \<times> page_id) list" where
  "indexes_for c collection = filter (\<lambda>((col, _), _). col = collection) (cat_indexes c)"

fun index_each :: "(key \<Rightarrow> unit tree_prog) \<Rightarrow> document \<Rightarrow> (index_name \<times> page_id) list \<Rightarrow> unit cat_prog" where
  "index_each m doc [] = returnP ()"
| "index_each m doc (((_, field), root) # indexes) =
     bindP (liftO (index_key_for field doc)) (\<lambda>k.
     bindP (case k of None \<Rightarrow> returnP () | Some key \<Rightarrow> with_btree root (m key)) (\<lambda>_.
     index_each m doc indexes))"

definition index_on_insert :: "string \<Rightarrow> document \<Rightarrow> doc_id \<Rightarrow> unit cat_prog" where
  "index_on_insert collection doc doc_id =
     bindP (readP (\<lambda>(c, s). indexes_for c collection)) (index_each (\<lambda>key. btree_insert key doc_id) doc)"

definition index_on_delete :: "string \<Rightarrow> document \<Rightarrow> doc_id \<Rightarrow> unit cat_prog" where
  "index_on_delete collection doc doc_id =
     bindP (readP (\<lambda>(c, s). indexes_for c collection)) (index_each (\<lambda>key. btree_delete key doc_id) doc)"

definition on_index :: "string \<Rightarrow> string \<Rightarrow> (page_id \<Rightarrow> 'a cat_prog) \<Rightarrow> 'a cat_prog" where
  "on_index collection field m =
     bindP (catalog_index_root (collection, field)) (\<lambda>r.
     case r of None \<Rightarrow> failP (IndexNotFound collection) | Some root \<Rightarrow> m root)"

definition index_search :: "string \<Rightarrow> string \<Rightarrow> doc_value \<Rightarrow> doc_id option cat_prog" where
  "index_search collection field v =
     on_index collection field (\<lambda>root.
     bindP (liftO (serialize_key v)) (\<lambda>key_bytes. with_btree root (btree_search key_bytes)))"

definition index_range_scan :: "string \<Rightarrow> string \<Rightarrow> doc_value \<Rightarrow> doc_value \<Rightarrow> doc_id list cat_prog" where
  "index_range_scan collection field low high =
     on_index collection field (\<lambda>root.
     bindP (liftO (serialize_key low)) (\<lambda>low_bytes.
     bindP (liftO (serialize_key high)) (\<lambda>high_bytes.
     with_btree root (btree_range_scan low_bytes high_bytes))))"

end
