(* ===== verification/Index_Laws.thy ===== *)
theory Index_Laws
  imports Index_Manager
begin

text \<open>
  What the index manager does with the tree of an index. The catalog keeps the page of the root as it
  was when the index was made. While the root has room for one more entry, an insertion leaves it in
  place and later lookups see the new entry. When the root splits, the tree gets a new root that the
  handle forgets: the catalog keeps the page of the left half, and the entries of the right half are
  out of reach for lookups and for the check of uniqueness.
\<close>

section \<open>A tree seen from the index manager\<close>

text \<open>The collection has one index, on one field, over keys of length \<open>K\<close>.\<close>

definition one_index :: "catalog \<Rightarrow> string \<Rightarrow> string \<Rightarrow> page_id \<Rightarrow> bool" where
  "one_index c collection field root \<longleftrightarrow> cat_indexes c = [((collection, field), root)] \<and> FIELD_SEPARATOR \<notin> set field"

definition index_tree :: "nat \<Rightarrow> buffer_pool \<Rightarrow> ptree \<Rightarrow> bool" where
  "index_tree K s t \<longleftrightarrow> pool_inv s \<and> tree_at (pool_view s) t \<and> sized K t"

lemma index_search_run:
  assumes "one_index c collection field root" and "serialize_key v = (Ok key :: (catalog_error, key) outcome)"
  shows "index_search collection field v (c, s) = with_btree root (btree_search key) (c, s)"
  using assms by (simp add: index_search_def on_index_def catalog_index_root_def one_index_def prog_simps readP_def)

lemma index_on_insert_run:
  assumes "one_index c collection field root" and "map_of doc field = Some v" and "serialize_key v = (Ok key :: (catalog_error, key) outcome)"
  shows "index_on_insert collection doc d (c, s) = bindP (with_btree root (btree_insert key d)) (\<lambda>_. returnP ()) (c, s)"
  using assms by (simp add: index_on_insert_def one_index_def indexes_for_def index_key_for_def field_key_def prog_simps readP_def)

lemma with_btree_Ok: "m (root, s) = (Ok x, (root', s')) \<Longrightarrow> with_btree root m (c, s) = (Ok x, (c, s'))"
  by (simp add: with_btree_def)

lemma search_subtree:
  assumes "pool_inv s" and "rep (pool_view s) t" "ordered t" and "height t < tree_fuel s" and "height t < pool_budget s"
  shows "\<exists>s'. btree_search key (pid t, s) = (Ok (map_of (entries t) key), (pid t, s')) \<and> pool_inv s' \<and> pool_view s' = pool_view s"
proof -
  from search_loop_total [OF assms(2-4), of key]
  have "pool.total (Suc (height t)) (bindP (readP tree_fuel) (\<lambda>n. search_loop n (pid t) key)) s
      (\<lambda>x V. x = map_of (entries t) key \<and> V = pool_view s)"
    by (rule pool.total_bind_pure [rotated]) simp
  from on_tree_total [OF this assms(1), of "pid t"] assms(5) show ?thesis
    by (auto simp: btree_search_def tree_root_def)
qed

section \<open>Concrete indexes\<close>

text \<open>An index over integers with the values below \<open>n\<close>, in one leaf of a fresh file.\<close>

definition int_key :: "nat \<Rightarrow> key" where
  "int_key n = 0x03 # be_bytes 8 (unat (sortable_int (word_of_nat n)))"

definition int_entries :: "nat \<Rightarrow> (key \<times> doc_id) list" where
  "int_entries n = map (\<lambda>i. (int_key i, (7, i))) [0..<n]"

definition example_index :: "page_id \<Rightarrow> catalog" where
  "example_index root = \<lparr>cat_collections = [(''c'', 1)], cat_indexes = [((''c'', ''a''), root)], cat_unique = [(''c'', ''a'')], cat_overflow = []\<rparr>"

lemma int_key_serialized: "serialize_key (VInt (word_of_nat n)) = Ok (int_key n)"
  by (simp add: int_key_def)

lemma length_int_key [simp]: "length (int_key n) = 9"
  by (simp add: int_key_def)

lemma int_key_less: "i < j \<Longrightarrow> j < 2 ^ 63 \<Longrightarrow> int_key i < int_key j"
proof -
  assume "i < j" "j < 2 ^ 63"
  then have "sint (word_of_nat i :: i64) < sint (word_of_nat j :: i64)"
    by (simp add: sint_uint uint_nat unat_of_nat signed_take_bit_int_eq_self)
  then show ?thesis by (simp add: int_key_def key_order_simps)
qed

lemma int_entries_fit:
  assumes "n \<le> 177"
  shows "page_fit 9 LEAF_SLOT (int_entries n)" "\<forall>e \<in> set (int_entries n). doc_id_ok (snd e)"
proof -
  have "sorted_wrt (<) (map int_key [0..<n])"
    unfolding sorted_wrt_map by (rule sorted_wrt_mono_rel [OF _ sorted_wrt_upt]) (use assms in \<open>auto intro!: int_key_less\<close>)
  then show "page_fit 9 LEAF_SLOT (int_entries n)"
    using assms by (auto simp: page_fit_def int_entries_def comp_def node_capacity_def LEAF_SLOT_def PAGE_SIZE_def NODE_HEADER_SIZE_def)
  show "\<forall>e \<in> set (int_entries n). doc_id_ok (snd e)" using assms by (auto simp: int_entries_def doc_id_ok_def)
qed

lemma example_index_tree:
  assumes "n \<le> 177"
  obtains root s where "leaf_of (int_entries n) example_pool = (Ok root, s)" "one_index (example_index root) ''c'' ''a'' root"
    "index_tree 9 s (PLeaf root (int_entries n) NO_NEXT_LEAF)" "1023 \<le> pool_budget s"
proof -
  obtain root s where e: "leaf_of (int_entries n) example_pool = (Ok root, s)" "pool_inv s" "1023 \<le> pool_budget s"
    "tree_at (pool_view s) (PLeaf root (int_entries n) NO_NEXT_LEAF)" "sized 9 (PLeaf root (int_entries n) NO_NEXT_LEAF)"
    by (rule leaf_of_tree [OF int_entries_fit [OF assms]])
  then show thesis using that [of root s] by (simp add: index_tree_def one_index_def example_index_def FIELD_SEPARATOR_def)
qed

lemma int_entries_below: "n < 2 ^ 63 \<Longrightarrow> \<forall>e \<in> set (int_entries n). fst e < int_key n"
  by (auto simp: int_entries_def intro!: int_key_less)

lemma int_entries_absent: "n < 2 ^ 63 \<Longrightarrow> map_of (int_entries n) (int_key n) = None"
  using int_entries_below [of n] by (auto simp: map_of_eq_None_iff)

lemmas example_index_simps = int_key_serialized node_capacity_def LEAF_SLOT_def PAGE_SIZE_def NODE_HEADER_SIZE_def doc_id_ok_def

section \<open>While the root has room\<close>

lemma insert_keeps_root:
  assumes tree: "tree_at (pool_view s) t" and sz: "sized K t" and room: "\<not> full K t" and key: "length key = K"
    and cap: "3 * (K + LEAF_SLOT) \<le> node_capacity" and doc: "doc_id_ok doc" and new: "map_of (entries t) key = None"
  shows "treest.total (9 * height t + 2) (btree_insert key doc) (pid t, s)
    (\<lambda>_ (root, V). root = pid t \<and> (\<exists>t'. grown K key doc (pool_view s) t V t'))"
proof -
  let ?Q = "\<lambda>_ (root, V). root = pid t \<and> (\<exists>t'. grown K key doc (pool_view s) t V t')"
  let ?go = "bindP tree_root (\<lambda>root. bindP (on_tree (readP insert_fuel)) (\<lambda>n. insert_loop n root key doc))"
  have st: "stored K (pool_view s) t" using tree sz by (simp add: tree_at_def stored_def)
  have k: "key \<notin> set (keys_of t)" using new by (auto simp: keys_of_def map_of_eq_None_iff)
  have "treest.total (1 + (9 * height t + 1)) (bindP (on_tree (is_full (pid t) (length key))) (\<lambda>full.
      bindP (if full then split_node (pid t) None else returnP ()) (\<lambda>_. ?go))) (pid t, s) ?Q"
  proof (rule treest.total_bind [OF treest_lift [OF is_full_total [of s t "length key"]]])
    show "rep (pool_view s) t" "sized (length key) t" using storedD [OF st] key by simp_all
    fix f rs1 assume "case (case rs1 of (r, s) \<Rightarrow> (r, pool_view s)) of (r', V) \<Rightarrow> r' = pid t \<and> f = full (length key) t \<and> V = pool_view s"
    then obtain s1 where s1: "rs1 = (pid t, s1)" "\<not> f" "pool_view s1 = pool_view s" using key room by (cases rs1) auto
    have "treest.total (9 * height t + 1) (insert_loop (insert_fuel s1) (pid t) key doc) (pid t, s1) ?Q"
      using insert_loop_total [of K s1 t "height t" "insert_fuel s1" key doc "pid t"] insert_fuel_enough [of s1 t] s1(3) st room tree key cap doc k
      by simp
    then have "treest.total (9 * height t + 1) ?go (pid t, s1) ?Q"
      by (auto intro!: treest.total_bind_pure simp: tree_root_def on_tree_def readP_def)
    then have "treest.total (9 * height t + 1) (bindP (returnP ()) (\<lambda>_. ?go)) (pid t, s1) ?Q"
      by (rule treest.total_bind_pure [rotated]) simp
    then show "treest.total (9 * height t + 1) (bindP (if f then split_node (pid t) None else returnP ()) (\<lambda>_. ?go)) rs1 ?Q"
      using s1 by simp
  qed
  then show ?thesis
    unfolding btree_insert_def by (intro treest.total_bind_pure [of tree_root _ "pid t"]) (simp_all add: tree_root_def)
qed


text \<open>
  The indexes of a collection: the field, the length of the keys and the tree of each. Their trees
  share no page.
\<close>

type_synonym index = "string \<times> nat \<times> ptree"

definition index_entry :: "string \<Rightarrow> index \<Rightarrow> index_name \<times> page_id" where
  "index_entry collection = (\<lambda>(field, K, t). ((collection, field), pid t))"

definition tree_pages :: "index list \<Rightarrow> page_id set" where
  "tree_pages ixs = (\<Union>(field, K, t) \<in> set ixs. set (pages t))"

fun trees_at :: "(page_id \<rightharpoonup> page) \<Rightarrow> index list \<Rightarrow> bool" where
  "trees_at V [] \<longleftrightarrow> True"
| "trees_at V ((field, K, t) # ixs) \<longleftrightarrow>
     tree_at V t \<and> sized K t \<and> set (pages t) \<inter> tree_pages ixs = {} \<and> trees_at V ixs"

text \<open>
  The index has room at its root for the document: it is on one field, its keys are short enough for
  three entries in a page, and the value of the field, if the document has it, is not in the index.
\<close>

definition index_takes :: "document \<Rightarrow> index \<Rightarrow> bool" where
  "index_takes doc = (\<lambda>(field, K, t). FIELD_SEPARATOR \<notin> set field \<and> \<not> full K t \<and> 3 * (K + LEAF_SLOT) \<le> node_capacity
     \<and> (\<forall>v. map_of doc field = Some v \<longrightarrow>
         (\<exists>key. serialize_key v = (Ok key :: (catalog_error, key) outcome) \<and> length key = K \<and> map_of (entries t) key = None)))"

definition index_grew :: "document \<Rightarrow> doc_id \<Rightarrow> index \<Rightarrow> index \<Rightarrow> bool" where
  "index_grew doc d = (\<lambda>(field, K, t) (field', K', t'). field' = field \<and> K' = K \<and> pid t' = pid t \<and> height t' \<le> height t
     \<and> (\<forall>w k. serialize_key w = (Ok k :: (catalog_error, key) outcome) \<longrightarrow>
         map_of (entries t') k = (if map_of doc field = Some w then Some d else map_of (entries t) k)))"

lemma index_step_total:
  assumes at: "tree_at (pool_view s) t" "sized K t" and takes: "index_takes doc (field, K, t)" and d: "doc_id_ok d"
  shows "catst.total (9 * height t + 2) (bindP (liftO (index_key_for field doc)) (\<lambda>k.
      case k of None \<Rightarrow> returnP () | Some key \<Rightarrow> with_btree (pid t) (btree_insert key d))) (c, s)
    (\<lambda>_ (c', V). c' = c \<and> (\<exists>t'. index_grew doc d (field, K, t) (field, K, t') \<and> tree_at V t' \<and> sized K t' \<and> extends (pool_view s) t V t'))"
    (is "catst.total _ _ _ ?Q")
proof (cases "map_of doc field")
  case None
  then have "index_key_for field doc = (Ok None :: (catalog_error, key option) outcome)"
    using takes by (simp add: index_takes_def index_key_for_def field_key_def)
  moreover have "?Q () (c, pool_view s)"
    using at None by (auto simp: index_grew_def extends_def)
  ultimately show ?thesis
    by (intro catst.total_conseq [OF catst.total_bind_pure [of _ _ None]]) (auto simp: catst.total_def)
next
  case (Some v)
  then obtain key where key: "serialize_key v = (Ok key :: (catalog_error, key) outcome)" "length key = K" "map_of (entries t) key = None"
    using takes by (auto simp: index_takes_def)
  have run: "index_key_for field doc = (Ok (Some key) :: (catalog_error, key option) outcome)"
    using takes key Some by (simp add: index_takes_def index_key_for_def field_key_def)
  have lk: "linked (leaves t) NO_NEXT_LEAF" using at(1) by (simp add: tree_at_def)
  have "treest.total (9 * height t + 2) (btree_insert key d) (pid t, s) (\<lambda>_ (r, V). \<exists>t'. grown K key d (pool_view s) t V t')"
    by (rule treest.total_conseq [OF insert_keeps_root [OF at _ key(2) _ d key(3)]]) (use takes in \<open>auto simp: index_takes_def\<close>)
  then have ins: "catst.total (9 * height t + 2) (with_btree (pid t) (btree_insert key d)) (c, s) ?Q"
  proof (rule catst.total_conseq [OF with_btree_total])
    fix u :: unit and cs :: "catalog \<times> buffer_pool"
    assume "case (case cs of (c, s) \<Rightarrow> (c, pool_view s)) of (c', V) \<Rightarrow> c' = c \<and> (\<exists>t'. grown K key d (pool_view s) t V t')"
    then obtain s' t' where cs: "cs = (c, s')" and g: "evolves (pool_view s) t (pool_view s') t'" "stored K (pool_view s') t'"
      "map_of (entries t') = (map_of (entries t))(key \<mapsto> d)" by (cases cs) (auto simp: grown_def)
    have "tree_at (pool_view s') t'" "sized K t'" using storedD [OF g(2)] evolvesD(3) [OF g(1) lk] by (simp_all add: tree_at_def)
    moreover have "index_grew doc d (field, K, t) (field, K, t')"
      using g evolvesD(1,7) [OF g(1)] serialize_key_eq [OF _ key(1)] Some by (auto simp: index_grew_def)
    ultimately show "?Q u (case cs of (c, s) \<Rightarrow> (c, pool_view s))" using g(1) by (auto simp: cs evolves_def)
  qed simp
  then show ?thesis using run by (intro catst.total_bind_pure [of _ _ "Some key"]) simp_all
qed

lemma trees_at_frame:
  "trees_at V ixs \<Longrightarrow> (\<And>p. p \<in> tree_pages ixs \<Longrightarrow> V' p = V p) \<Longrightarrow> trees_at V' ixs"
proof (induction ixs)
  case (Cons ix ixs)
  obtain field K t where ix: "ix = (field, K, t)" by (cases ix)
  have "trees_at V' ixs" using Cons by (simp add: ix tree_pages_def)
  moreover have "rep V' t" by (rule rep_frame [of V]) (use Cons.prems in \<open>auto simp: ix tree_at_def tree_pages_def\<close>)
  ultimately show ?case using Cons.prems(1) by (simp add: ix tree_at_def)
qed simp

lemma tree_pages_dom: "trees_at V ixs \<Longrightarrow> tree_pages ixs \<subseteq> dom V"
  by (induction ixs rule: trees_at.induct) (auto simp: tree_pages_def tree_at_def dest: rep_pages)

lemma tree_pages_Cons: "tree_pages ((field, K, t) # ixs) = set (pages t) \<union> tree_pages ixs"
  by (auto simp: tree_pages_def)

definition indexes_grew :: "document \<Rightarrow> doc_id \<Rightarrow> (page_id \<rightharpoonup> page) \<Rightarrow> index list \<Rightarrow> (page_id \<rightharpoonup> page) \<Rightarrow> index list \<Rightarrow> bool" where
  "indexes_grew doc d V ixs V' ixs' \<longleftrightarrow> list_all2 (index_grew doc d) ixs ixs' \<and> trees_at V' ixs'
     \<and> tree_pages ixs' \<inter> dom V \<subseteq> tree_pages ixs \<and> dom V \<subseteq> dom V' \<and> (\<forall>p \<in> dom V - tree_pages ixs. V' p = V p)"

text \<open>One more index: its tree is not touched by the maintenance of the others, nor the others by its own.\<close>

lemma indexes_grew_Cons:
  assumes at: "trees_at V ((field, K, t) # ixs)" and g: "index_grew doc d (field, K, t) (field, K, t')"
    and t': "tree_at V1 t'" "sized K t'" and x: "extends V t V1 t'"
    and rest: "indexes_grew doc d V1 ixs V' ixs'"
  shows "indexes_grew doc d V ((field, K, t) # ixs) V' ((field, K, t') # ixs')"
proof -
  note e = extendsD(2-4) [OF x]
  have r: "list_all2 (index_grew doc d) ixs ixs'" "trees_at V' ixs'" "tree_pages ixs' \<inter> dom V1 \<subseteq> tree_pages ixs"
    "dom V1 \<subseteq> dom V'" "\<forall>p \<in> dom V1 - tree_pages ixs. V' p = V1 p" using rest by (auto simp: indexes_grew_def)
  have pt: "set (pages t') \<subseteq> dom V1" using rep_pages [of V1 t'] t'(1) by (auto simp: tree_at_def)
  have pi: "tree_pages ixs \<subseteq> dom V" "set (pages t) \<inter> tree_pages ixs = {}" using at tree_pages_dom [of V ixs] by simp_all
  have apart: "set (pages t') \<inter> tree_pages ixs = {}" using e(1) pi by blast
  have "rep V' t'" by (rule rep_frame [of V1]) (use t'(1) r(5) pt apart in \<open>auto simp: tree_at_def\<close>)
  then have "trees_at V' ((field, K, t') # ixs')" using t' r(2,3) pt apart by (auto simp: tree_at_def)
  moreover have "\<forall>p \<in> dom V - tree_pages ((field, K, t) # ixs). V' p = V p"
    using r(5) e(2,3) by (auto simp: tree_pages_Cons subset_iff)
  moreover have "tree_pages ((field, K, t') # ixs') \<inter> dom V \<subseteq> tree_pages ((field, K, t) # ixs)"
    using r(3) e(1,2) unfolding tree_pages_Cons by blast
  ultimately show ?thesis using r(1,4) e(2) g by (auto simp: indexes_grew_def)
qed

lemma index_each_total:
  assumes "trees_at (pool_view s) ixs" and "\<forall>ix \<in> set ixs. index_takes doc ix" and d: "doc_id_ok d"
  shows "catst.total (\<Sum>(field, K, t) \<leftarrow> ixs. 9 * height t + 2) (index_each (\<lambda>key. btree_insert key d) doc (map (index_entry collection) ixs)) (c, s)
    (\<lambda>_ (c', V'). c' = c \<and> (\<exists>ixs'. indexes_grew doc d (pool_view s) ixs V' ixs'))"
  using assms(1,2)
proof (induction ixs arbitrary: s)
  case Nil
  then show ?case by (auto simp: indexes_grew_def tree_pages_def catst.total_def)
next
  case (Cons ix ixs)
  obtain field K t where ix: "ix = (field, K, t)" by (cases ix)
  let ?Q = "\<lambda>_ (c', V'). c' = c \<and> (\<exists>ixs'. indexes_grew doc d (pool_view s) (ix # ixs) V' ixs')"
  let ?step = "bindP (liftO (index_key_for field doc)) (\<lambda>k. case k of None \<Rightarrow> returnP () | Some key \<Rightarrow> with_btree (pid t) (btree_insert key d))"
  have at: "tree_at (pool_view s) t" "sized K t" "trees_at (pool_view s) ixs" "set (pages t) \<inter> tree_pages ixs = {}"
    using Cons.prems(1) by (simp_all add: ix)
  have "catst.total (9 * height t + 2 + (\<Sum>(field, K, t) \<leftarrow> ixs. 9 * height t + 2))
      (bindP ?step (\<lambda>_. index_each (\<lambda>key. btree_insert key d) doc (map (index_entry collection) ixs))) (c, s) ?Q"
  proof (rule catst.total_bind [OF index_step_total [OF at(1,2) _ d]])
    show "index_takes doc (field, K, t)" using Cons.prems(2) by (simp add: ix)
    fix u and cs :: "catalog \<times> buffer_pool"
    assume "case (case cs of (c, s) \<Rightarrow> (c, pool_view s)) of (c', V) \<Rightarrow> c' = c \<and> (\<exists>t'. index_grew doc d (field, K, t) (field, K, t')
        \<and> tree_at V t' \<and> sized K t' \<and> extends (pool_view s) t V t')"
    then obtain s1 t' where cs: "cs = (c, s1)" and g: "index_grew doc d (field, K, t) (field, K, t')"
      "tree_at (pool_view s1) t'" "sized K t'" "extends (pool_view s) t (pool_view s1) t'" by (cases cs) auto
    have "trees_at (pool_view s1) ixs"
      by (rule trees_at_frame [OF at(3)]) (use extendsD(4) [OF g(4)] at(3,4) tree_pages_dom in blast)
    then have "catst.total (\<Sum>(field, K, t) \<leftarrow> ixs. 9 * height t + 2) (index_each (\<lambda>key. btree_insert key d) doc (map (index_entry collection) ixs)) (c, s1)
      (\<lambda>_ (c', V'). c' = c \<and> (\<exists>ixs'. indexes_grew doc d (pool_view s1) ixs V' ixs'))"
      using Cons.prems(2) by (intro Cons.IH) simp_all
    then show "catst.total (\<Sum>(field, K, t) \<leftarrow> ixs. 9 * height t + 2) (index_each (\<lambda>key. btree_insert key d) doc (map (index_entry collection) ixs)) cs ?Q"
      unfolding cs ix by (rule catst.total_conseq) (use indexes_grew_Cons [OF Cons.prems(1) [unfolded ix] g] in \<open>auto\<close>)
  qed
  moreover have "index_each (\<lambda>key. btree_insert key d) doc (map (index_entry collection) (ix # ixs)) =
      bindP ?step (\<lambda>_. index_each (\<lambda>key. btree_insert key d) doc (map (index_entry collection) ixs))"
    by (simp add: ix index_entry_def bindP_assoc)
  ultimately show ?case by (simp add: ix)
qed

lemma index_search_tree:
  assumes root: "map_of (cat_indexes c) (collection, field) = Some (pid t)" and inv: "pool_inv s" and at: "tree_at (pool_view s) t"
    and b: "height t < pool_budget s" and w: "serialize_key w = (Ok k :: (catalog_error, key) outcome)"
  shows "\<exists>s'. index_search collection field w (c, s) = (Ok (map_of (entries t) k), (c, s')) \<and> pool_inv s' \<and> pool_view s' = pool_view s"
proof -
  have "height t < tree_fuel s" using height_pages [of "pool_view s" t] pages_in_file [OF at] at by (simp add: tree_fuel_def tree_at_def)
  then obtain s' where "btree_search k (pid t, s) = (Ok (map_of (entries t) k), (pid t, s'))" "pool_inv s'" "pool_view s' = pool_view s"
    using search_subtree [of s t k] inv at b by (auto simp: tree_at_def)
  then show ?thesis
    using with_btree_Ok [of "btree_search k" "pid t" s] root w by (auto simp: index_search_def on_index_def catalog_index_root_def prog_simps readP_def)
qed

lemma index_root_of:
  assumes "indexes_for c collection = map (index_entry collection) ixs" and "distinct (map fst ixs)" and "(field, K, t) \<in> set ixs"
  shows "map_of (cat_indexes c) (collection, field) = Some (pid t)"
proof -
  have "map_of (filter (\<lambda>((col, _), _). col = collection) xs) (collection, field) = map_of xs (collection, field)" for xs :: "(index_name \<times> page_id) list"
    by (induction xs) auto
  then have "map_of (indexes_for c collection) (collection, field) = map_of (cat_indexes c) (collection, field)"
    by (simp add: indexes_for_def)
  moreover have "distinct (map fst (map (index_entry collection) ixs))"
    using assms(2) by (simp add: index_entry_def comp_def case_prod_unfold distinct_map inj_on_def)
  ultimately show ?thesis
    using assms(1,3) by (metis (no_types, lifting) case_prod_conv imageI index_entry_def list.set_map map_of_is_SomeI)
qed

lemma trees_at_member: "trees_at V ixs \<Longrightarrow> (field, K, t) \<in> set ixs \<Longrightarrow> tree_at V t \<and> sized K t"
  by (induction ixs rule: trees_at.induct) auto

text \<open>
  C16: the indexes of a collection, any number of them, each on a single field, in a catalog that may
  hold indexes of other collections. Suppose the root node of every tree has room for one more entry,
  the keys of each index have one length, and the value the document has in an indexed field is not
  yet in that index. Then maintaining the indexes for the document succeeds, leaves every root where
  the catalog has it, also when nodes below split, and a lookup of any value in any of the indexes
  returns the document under its own value and what the index held before under every other; an index
  on a field that the document lacks is unchanged. The trees keep their form, and pages outside them
  their contents. A value that is already in the index is not covered.
\<close>

theorem index_insert_then_search:
  assumes inv: "pool_inv s" and c: "indexes_for c collection = map (index_entry collection) ixs" "distinct (map fst ixs)"
    and trees: "trees_at (pool_view s) ixs" and takes: "\<forall>ix \<in> set ixs. index_takes doc ix" and d: "doc_id_ok d"
    and b: "(\<Sum>(field, K, t) \<leftarrow> ixs. 10 * height t + 3) \<le> pool_budget s"
  shows "\<exists>s' ixs'. index_on_insert collection doc d (c, s) = (Ok (), (c, s')) \<and> pool_inv s'
    \<and> indexes_for c collection = map (index_entry collection) ixs' \<and> trees_at (pool_view s') ixs'
    \<and> (\<forall>p. pool_view s p \<noteq> None \<longrightarrow> p \<notin> tree_pages ixs \<longrightarrow> pool_view s' p = pool_view s p)
    \<and> (\<forall>(field, K, t) \<in> set ixs. \<forall>w k. serialize_key w = (Ok k :: (catalog_error, key) outcome) \<longrightarrow>
        (\<exists>s''. index_search collection field w (c, s') = (Ok (if map_of doc field = Some w then Some d else map_of (entries t) k), (c, s''))
           \<and> pool_inv s'' \<and> pool_view s'' = pool_view s'))"
proof -
  let ?n = "\<Sum>(field, K, t) \<leftarrow> ixs. 9 * height t + 2"
  have split: "(\<Sum>(field, K, t) \<leftarrow> ixs. 10 * height t + 3) = ?n + (\<Sum>(field, K, t) \<leftarrow> ixs. height t + 1)"
    by (induction ixs) auto
  have "case (c, s) of (c, s) \<Rightarrow> pool_inv s" "?n \<le> (case (c, s) of (c, s) \<Rightarrow> pool_budget s)" using inv b split by simp_all
  then obtain u cs where u: "index_each (\<lambda>key. btree_insert key d) doc (map (index_entry collection) ixs) (c, s) = (Ok u, cs)" "case cs of (c, s) \<Rightarrow> pool_inv s"
    "case (case cs of (c, s) \<Rightarrow> (c, pool_view s)) of (c', V') \<Rightarrow> c' = c \<and> (\<exists>ixs'. indexes_grew doc d (pool_view s) ixs V' ixs')"
    "(case (c, s) of (c, s) \<Rightarrow> pool_budget s) \<le> (case cs of (c, s) \<Rightarrow> pool_budget s) + ?n"
    by (rule catst.totalE [OF index_each_total [OF trees takes d]])
  then obtain s' ixs' where cs: "cs = (c, s')" and s': "pool_inv s'" "indexes_grew doc d (pool_view s) ixs (pool_view s') ixs'"
    "pool_budget s \<le> pool_budget s' + ?n" by (cases cs) auto
  have g: "list_all2 (index_grew doc d) ixs ixs'" "trees_at (pool_view s') ixs'" using s'(2) by (simp_all add: indexes_grew_def)
  have ins: "index_on_insert collection doc d (c, s) = (Ok (), (c, s'))"
    using u(1) by (simp add: index_on_insert_def c(1) readP_def cs prog_simps)
  have roots: "indexes_for c collection = map (index_entry collection) ixs'" and fields: "map fst ixs' = map fst ixs"
    unfolding c(1) using g(1) by (induction rule: list_all2_induct) (auto simp: index_grew_def index_entry_def)
  have search: "\<exists>s''. index_search collection field w (c, s') = (Ok (if map_of doc field = Some w then Some d else map_of (entries t) k), (c, s''))
      \<and> pool_inv s'' \<and> pool_view s'' = pool_view s'"
    if ix: "(field, K, t) \<in> set ixs" and w: "serialize_key w = (Ok k :: (catalog_error, key) outcome)" for field K t w k
  proof -
    from g(1) ix have "\<exists>ix' \<in> set ixs'. index_grew doc d (field, K, t) ix'" by (induction rule: list_all2_induct) auto
    then obtain ix' where ix': "ix' \<in> set ixs'" "index_grew doc d (field, K, t) ix'" by blast
    then obtain t' where t': "(field, K, t') \<in> set ixs'" "height t' \<le> height t"
      "map_of (entries t') k = (if map_of doc field = Some w then Some d else map_of (entries t) k)"
      using w by (cases ix') (auto simp: index_grew_def)
    have "height t + 1 \<le> (\<Sum>(field, K, t) \<leftarrow> ixs. height t + 1)" using member_le_sum_list [of "height t + 1" "map (\<lambda>(field, K, t). height t + 1) ixs"] ix by force
    then have "height t' < pool_budget s'" using t'(2) s'(3) b split by simp
    from index_search_tree [OF index_root_of [OF roots _ t'(1)] s'(1) conjunct1 [OF trees_at_member [OF g(2) t'(1)]] this w] show ?thesis
      using c(2) fields t'(3) by simp
  qed
  have "\<forall>p. pool_view s p \<noteq> None \<longrightarrow> p \<notin> tree_pages ixs \<longrightarrow> pool_view s' p = pool_view s p"
    using s'(2) by (auto simp: indexes_grew_def domIff)
  moreover have "\<forall>(field, K, t) \<in> set ixs. \<forall>w k. serialize_key w = (Ok k :: (catalog_error, key) outcome) \<longrightarrow>
        (\<exists>s''. index_search collection field w (c, s') = (Ok (if map_of doc field = Some w then Some d else map_of (entries t) k), (c, s''))
           \<and> pool_inv s'' \<and> pool_view s'' = pool_view s')"
    by (intro ballI, clarify, rule search)
  ultimately show ?thesis using ins s'(1) roots g(2) by blast
qed

text \<open>Two indexes, on \<open>a\<close> with two integers and on \<open>b\<close> with one; a third index belongs to another collection.\<close>

definition two_indexes :: "page_id \<Rightarrow> page_id \<Rightarrow> catalog" where
  "two_indexes ra rb = \<lparr>cat_collections = [(''c'', 1)], cat_indexes = [((''c'', ''a''), ra), ((''z'', ''a''), 9), ((''c'', ''b''), rb)],
     cat_unique = [], cat_overflow = []\<rparr>"

lemma two_index_trees:
  obtains ra rb s1 s where "leaf_of (int_entries 2) example_pool = (Ok ra, s1)" "leaf_of (int_entries 1) s1 = (Ok rb, s)" "pool_inv s" "1022 \<le> pool_budget s"
    "trees_at (pool_view s) [(''a'', 9, PLeaf ra (int_entries 2) NO_NEXT_LEAF), (''b'', 9, PLeaf rb (int_entries 1) NO_NEXT_LEAF)]"
proof -
  obtain ra s1 where a: "leaf_of (int_entries 2) example_pool = (Ok ra, s1)" "pool_inv s1" "1023 \<le> pool_budget s1"
    "tree_at (pool_view s1) (PLeaf ra (int_entries 2) NO_NEXT_LEAF)" "sized 9 (PLeaf ra (int_entries 2) NO_NEXT_LEAF)"
    by (rule leaf_of_tree [OF int_entries_fit [of 2]]) simp_all
  have le: "1 \<le> pool_budget s1" "(1 :: nat) \<le> 177" using a(3) by simp_all
  obtain rb s where "leaf_of (int_entries 1) s1 = (Ok rb, s)" "pool_inv s"
    "pool_view s1 rb = None \<and> (\<exists>pg. pool_view s = (pool_view s1)(rb \<mapsto> pg)) \<and> tree_at (pool_view s) (PLeaf rb (int_entries 1) NO_NEXT_LEAF)
      \<and> sized 9 (PLeaf rb (int_entries 1) NO_NEXT_LEAF)" "pool_budget s1 \<le> pool_budget s + 1"
    by (rule pool.totalE [OF leaf_of_total [OF int_entries_fit [OF le(2)]] a(2) le(1)])
  then have b: "leaf_of (int_entries 1) s1 = (Ok rb, s)" "pool_inv s" "pool_view s1 rb = None"
    "\<exists>pg. pool_view s = (pool_view s1)(rb \<mapsto> pg)" "tree_at (pool_view s) (PLeaf rb (int_entries 1) NO_NEXT_LEAF)"
    "sized 9 (PLeaf rb (int_entries 1) NO_NEXT_LEAF)" "pool_budget s1 \<le> pool_budget s + 1" by simp_all
  have "pool_view s1 ra \<noteq> None" using rep_pages [of "pool_view s1" "PLeaf ra (int_entries 2) NO_NEXT_LEAF" ra] a(4) by (simp add: tree_at_def)
  then have ne: "ra \<noteq> rb" using b(3) by auto
  then have "tree_at (pool_view s) (PLeaf ra (int_entries 2) NO_NEXT_LEAF)" using a(4) b(4) by (auto simp: tree_at_def)
  then show thesis using that [OF a(1) b(1,2)] a(3,5) b(5-7) ne by (simp add: tree_pages_def)
qed

theorem index_insert_then_search_witness:
  "\<exists>ra rb s1 s s' sa sb. leaf_of (int_entries 2) example_pool = (Ok ra, s1) \<and> leaf_of (int_entries 1) s1 = (Ok rb, s)
    \<and> index_on_insert ''c'' [(''a'', VInt 2), (''b'', VInt 1)] (7, 2) (two_indexes ra rb, s) = (Ok (), (two_indexes ra rb, s'))
    \<and> index_search ''c'' ''a'' (VInt 2) (two_indexes ra rb, s') = (Ok (Some (7, 2)), (two_indexes ra rb, sa))
    \<and> index_search ''c'' ''b'' (VInt 1) (two_indexes ra rb, s') = (Ok (Some (7, 2)), (two_indexes ra rb, sb))"
proof -
  obtain ra rb s1 s where e: "leaf_of (int_entries 2) example_pool = (Ok ra, s1)" "leaf_of (int_entries 1) s1 = (Ok rb, s)" "pool_inv s" "1022 \<le> pool_budget s"
    "trees_at (pool_view s) [(''a'', 9, PLeaf ra (int_entries 2) NO_NEXT_LEAF), (''b'', 9, PLeaf rb (int_entries 1) NO_NEXT_LEAF)]" (is "trees_at _ ?ixs")
    by (rule two_index_trees)
  let ?doc = "[(''a'', VInt 2), (''b'', VInt 1)]" let ?c = "two_indexes ra rb"
  have c: "indexes_for ?c ''c'' = map (index_entry ''c'') ?ixs" "distinct (map fst ?ixs)" by (simp_all add: two_indexes_def indexes_for_def index_entry_def)
  have key: "serialize_key (VInt 2) = (Ok (int_key 2) :: (catalog_error, key) outcome)" "serialize_key (VInt 1) = (Ok (int_key 1) :: (catalog_error, key) outcome)"
    using int_key_serialized [of 2] int_key_serialized [of 1] by simp_all
  have takes: "\<forall>ix \<in> set ?ixs. index_takes ?doc ix"
    using int_entries_absent [of 2] int_entries_absent [of 1] key
    by (simp add: index_takes_def FIELD_SEPARATOR_def int_entries_def example_index_simps)
  have b: "(\<Sum>(field, K, t) \<leftarrow> ?ixs. 10 * height t + 3) \<le> pool_budget s" "doc_id_ok (7, 2)" using e(4) by (simp_all add: doc_id_ok_def)
  from index_insert_then_search [OF e(3) c e(5) takes b(2,1)]
  obtain s' where r: "index_on_insert ''c'' ?doc (7, 2) (?c, s) = (Ok (), (?c, s'))"
    "\<forall>(field, K, t) \<in> set ?ixs. \<forall>w k. serialize_key w = (Ok k :: (catalog_error, key) outcome) \<longrightarrow>
        (\<exists>s''. index_search ''c'' field w (?c, s') = (Ok (if map_of ?doc field = Some w then Some (7, 2) else map_of (entries t) k), (?c, s''))
           \<and> pool_inv s'' \<and> pool_view s'' = pool_view s')" by blast
  have "\<exists>sa. index_search ''c'' ''a'' (VInt 2) (?c, s') = (Ok (Some (7, 2)), (?c, sa))" using bspec [OF r(2), of "(''a'', 9, PLeaf ra (int_entries 2) NO_NEXT_LEAF)"] key(1) by (auto dest!: spec [of _ "VInt 2"])
  moreover have "\<exists>sb. index_search ''c'' ''b'' (VInt 1) (?c, s') = (Ok (Some (7, 2)), (?c, sb))" using bspec [OF r(2), of "(''b'', 9, PLeaf rb (int_entries 1) NO_NEXT_LEAF)"] key(2) by (auto dest!: spec [of _ "VInt 1"])
  ultimately show ?thesis using e(1,2) r(1) by blast
qed

section \<open>When the root splits\<close>

lemma leaf_sized: "sized K t \<Longrightarrow> (p, es, nx) \<in> set (leaves t) \<Longrightarrow> sized K (PLeaf p es nx)"
  by (induction t) (auto simp: list_all_iff)

text \<open>The first leaf of the new tree holds no more entries than the full one, so not the greatest.\<close>

lemma greatest_not_in_first_leaf:
  assumes "full K (PLeaf r es nx)" and "sorted_wrt (<) (map fst es)" and st: "stored K V t'" and l: "leaves t' = (r, es', nx') # rest"
    and m: "map_of (entries t') = (map_of es)(key \<mapsto> d)" and top: "\<forall>e \<in> set es. fst e < key"
  shows "map_of es' key = None"
proof (rule ccontr)
  assume "map_of es' key \<noteq> None"
  then have k: "key \<in> set (map fst es')" by (simp add: map_of_eq_None_iff)
  note s = storedD [OF st]
  have at: "leaf_at (V r) es' nx'" using leaves_at [OF s(1)] by (simp add: l)
  have "sized K (PLeaf r es' nx')" by (rule leaf_sized [OF s(3)]) (simp add: l)
  then have "length es' * (K + LEAF_SLOT) \<le> node_capacity" using rep_fits [of V "PLeaf r es' nx'" K] at by simp
  then have "length es' * (K + LEAF_SLOT) < (length es + 1) * (K + LEAF_SLOT)" using assms(1) by simp
  then have small: "length es' \<le> length es" by (simp only: mult_less_cancel2) simp
  let ?R = "concat (map (\<lambda>(p, es, nx). es) rest)"
  have e: "entries t' = es' @ ?R" by (simp add: entries_leaves l)
  have sorted: "sorted_wrt (<) (map fst es' @ map fst ?R)" using ordered_sorted [OF s(2)] by (simp add: keys_of_def e)
  have dom: "set (map fst es' @ map fst ?R) = insert key (set (map fst es))"
    using arg_cong [OF m, of dom] by (simp add: e dom_map_of_conv_image_fst)
  have "?R = []"
  proof (rule ccontr)
    assume "?R \<noteq> []"
    then obtain x where x: "x \<in> set (map fst ?R)" by (cases ?R) auto
    then have "key < x" using sorted k unfolding sorted_wrt_append by blast
    moreover have "x \<in> insert key (set (map fst es))" unfolding dom [symmetric] set_append using x by (rule UnI2)
    then have "x \<le> key" using top by (auto intro: less_imp_le)
    ultimately show False by simp
  qed
  then have "set (map fst es') = insert key (set (map fst es))" using dom by simp
  moreover have "distinct (map fst es')" using sorted by (simp only: sorted_wrt_append strict_sorted_iff)
  ultimately have "length es' = card (insert key (set (map fst es)))" using distinct_card [of "map fst es'"] by simp
  also have "\<dots> = Suc (length es)"
    using top assms(2) distinct_card [of "map fst es"] strict_sorted_iff [of "map fst es"] by (auto simp: card_insert_if)
  finally show False using small by simp
qed

text \<open>
  C38: an index whose root is a full leaf. Maintaining it for a document with a value above all others
  succeeds, and yet a lookup of that value through the catalog finds nothing, and the index, though
  unique, lets a second document with the same value pass.
\<close>

theorem stale_index_root:
  assumes c: "one_index c collection field r" "cat_unique c = [(collection, field)]"
    and tree: "index_tree K s (PLeaf r es NO_NEXT_LEAF)" and full: "full K (PLeaf r es NO_NEXT_LEAF)"
    and v: "map_of doc field = Some v" "serialize_key v = (Ok key :: (catalog_error, key) outcome)" "length key = K"
    and cap: "3 * (K + LEAF_SLOT) \<le> node_capacity" and d: "doc_id_ok d" and top: "\<forall>e \<in> set es. fst e < key"
    and b: "17 \<le> pool_budget s"
  shows "\<exists>s' s''. index_on_insert collection doc d (c, s) = (Ok (), (c, s'))
    \<and> index_search collection field v (c, s') = (Ok None, (c, s''))
    \<and> check_unique collection doc (c, s') = (Ok (), (c, s''))"
proof -
  let ?t = "PLeaf r es NO_NEXT_LEAF"
  have t: "pool_inv s" "tree_at (pool_view s) ?t" "sized K ?t" using tree by (simp_all add: index_tree_def)
  have new: "map_of (entries ?t) key = None" using top by (auto simp: map_of_eq_None_iff)
  have "case (pid ?t, s) of (r, s) \<Rightarrow> pool_inv s" "9 * height ?t + 16 \<le> (case (pid ?t, s) of (r, s) \<Rightarrow> pool_budget s)" using t(1) b by simp_all
  then obtain u rs where u: "btree_insert key d (pid ?t, s) = (Ok u, rs)" "case rs of (r, s) \<Rightarrow> pool_inv s"
    "case (case rs of (r, s) \<Rightarrow> (r, pool_view s)) of (root, V) \<Rightarrow> \<exists>t'. pid t' = root \<and> tree_inserted K key d (pool_view s) ?t V t'"
    "(case (pid ?t, s) of (r, s) \<Rightarrow> pool_budget s) \<le> (case rs of (r, s) \<Rightarrow> pool_budget s) + (9 * height ?t + 16)"
    by (rule treest.totalE [OF btree_insert_total [OF t(2,3) v(3) cap d new]])
  then obtain root s' t' where rs: "rs = (root, s')" "pool_inv s'" "tree_inserted K key d (pool_view s) ?t (pool_view s') t'"
    "pool_budget s \<le> pool_budget s' + 16" by (cases rs) auto
  then have g: "stored K (pool_view s') t'" "map_of (entries t') = (map_of es)(key \<mapsto> d)" "fst (hd (leaves t')) = r"
    and x: "extends (pool_view s) ?t (pool_view s') t'" by (simp_all add: tree_inserted_def)
  obtain es' nx' rest where l: "leaves t' = (r, es', nx') # rest"
    using leaves_nonempty [OF storedD(1) [OF g(1)]] g(3) by (cases "leaves t'") auto
  have ins: "index_on_insert collection doc d (c, s) = (Ok (), (c, s'))"
    using index_on_insert_run [OF c(1) v(1,2), of d s] with_btree_Ok [of "btree_insert key d" r s u root s' c] u(1) rs(1) by (simp add: prog_simps)
  have gone: "map_of es' key = None"
    by (rule greatest_not_in_first_leaf [OF full _ g(1) l g(2) top]) (use t(2) in \<open>simp add: tree_at_def\<close>)
  have at: "rep (pool_view s') (PLeaf r es' nx')" using leaves_at [OF storedD(1) [OF g(1)]] by (simp add: l)
  have "sorted_wrt (<) (keys_of t')" by (rule ordered_sorted [OF storedD(2) [OF g(1)]])
  then have o: "ordered (PLeaf r es' nx')" by (simp add: keys_of_def entries_leaves l sorted_wrt_append)
  have "tree_at (pool_view s') t'" using storedD [OF g(1)] extendsD(1) [OF x, of NO_NEXT_LEAF] t(2) by (simp add: tree_at_def)
  then have "0 < tree_fuel s'" using height_pages [OF storedD(1) [OF g(1)]] pages_in_file [of s' t'] by (simp add: tree_fuel_def)
  then obtain s'' where s'': "btree_search key (r, s') = (Ok None, (r, s''))"
    using search_subtree [OF rs(2) at o, of key] rs(4) b gone by auto
  have bt: "with_btree r (btree_search key) (c, s') = (Ok None, (c, s''))" using with_btree_Ok [of "btree_search key" r s'] s'' by simp
  then have "index_search collection field v (c, s') = (Ok None, (c, s''))" using index_search_run [OF c(1) v(2)] by simp
  moreover have "check_unique collection doc (c, s') = (Ok (), (c, s''))"
    using c v(1,2) bt by (simp add: check_unique_def check_unique_except_def catalog_unique_index_fields_def one_index_def
        index_key_for_def field_key_def catalog_index_root_def prog_simps readP_def)
  ultimately show ?thesis using ins by blast
qed


text \<open>An index over integers loses its 178th entry.\<close>

theorem stale_index_root_witness:
  "\<exists>root s s' s''. leaf_of (int_entries 177) example_pool = (Ok root, s)
    \<and> index_on_insert ''c'' [(''a'', VInt 177)] (7, 177) (example_index root, s) = (Ok (), (example_index root, s'))
    \<and> index_search ''c'' ''a'' (VInt 177) (example_index root, s') = (Ok None, (example_index root, s''))
    \<and> check_unique ''c'' [(''a'', VInt 177)] (example_index root, s') = (Ok (), (example_index root, s''))"
proof -
  obtain root s where e: "leaf_of (int_entries 177) example_pool = (Ok root, s)" "one_index (example_index root) ''c'' ''a'' root"
    "index_tree 9 s (PLeaf root (int_entries 177) NO_NEXT_LEAF)" "1023 \<le> pool_budget s"
    by (rule example_index_tree [of 177]) simp
  have key: "serialize_key (VInt 177) = (Ok (int_key 177) :: (catalog_error, key) outcome)" using int_key_serialized [of 177] by simp
  have full: "full 9 (PLeaf root (int_entries 177) NO_NEXT_LEAF)" by (simp add: int_entries_def example_index_simps)
  have u: "cat_unique (example_index root) = [(''c'', ''a'')]" by (simp add: example_index_def)
  show ?thesis
    using e(1) stale_index_root [OF e(2) u e(3) full _ key length_int_key _ _ int_entries_below, of "[(''a'', VInt 177)]" "(7, 177)"] e(4)
    by (auto simp: example_index_simps)
qed

end
