(* ===== verification/Db_Facade.thy ===== *)
theory Db_Facade
  imports Index_Manager
begin

text \<open>
  \<open>database/database.rs\<close>: the database, one catalog and one buffer pool. Every method is the
  sequence of calls the code makes on them, with the errors of the parts wrapped as the \<open>?\<close> of
  the code does. Opening works on the bytes of the file; from then on the file is the one under
  the pool.
\<close>

section \<open>State\<close>

datatype database_error = DbIo io_error | DbCatalog catalog_error | DbCollection collection_error

record database =
  db_catalog :: catalog
  db_pool :: buffer_pool

type_synonym 'a db_prog = "(database, database_error, 'a) prog"

definition DEFAULT_POOL_CAPACITY :: nat where "DEFAULT_POOL_CAPACITY = 1024"

text \<open>\<open>catalog_and_pool\<close>: a call on both parts at once, and a call on the pool or a collection.\<close>

definition on_parts :: "('e \<Rightarrow> database_error) \<Rightarrow> (catalog \<times> buffer_pool, 'e, 'a) prog \<Rightarrow> 'a db_prog" where
  "on_parts wrap m = (\<lambda>db. case m (db_catalog db, db_pool db) of (r, (c, s)) \<Rightarrow>
     (map_err wrap r, db\<lparr>db_catalog := c, db_pool := s\<rparr>))"

definition on_db_pool :: "'a pool_prog \<Rightarrow> 'a db_prog" where
  "on_db_pool m = (\<lambda>db. case m (db_pool db) of (r, s) \<Rightarrow> (map_err DbIo r, db\<lparr>db_pool := s\<rparr>))"

definition on_collection :: "collection \<Rightarrow> 'a coll_prog \<Rightarrow> 'a db_prog" where
  "on_collection col m = (\<lambda>db. case m (col, db_pool db) of (r, (col', s)) \<Rightarrow> (map_err DbCollection r, db\<lparr>db_pool := s\<rparr>))"

text \<open>\<open>BufferPool::new(DiskManager::open(path)?, DEFAULT_POOL_CAPACITY)\<close> after the catalog was read.\<close>

definition open_with :: "catalog file_prog \<Rightarrow> (byte list, database_error, database) prog" where
  "open_with m = bindP (map_errP DbCatalog m) (\<lambda>c.
     bindP (readP (\<lambda>file. bindO (disk_open file) (\<lambda>d. pool_new d DEFAULT_POOL_CAPACITY))) (\<lambda>r.
     bindP (liftO (map_err DbIo r)) (\<lambda>s. returnP \<lparr>db_catalog = c, db_pool = s\<rparr>)))"

definition database_create :: "(byte list, database_error, database) prog" where
  "database_create = open_with catalog_create"

definition database_open :: "(byte list, database_error, database) prog" where
  "database_open = open_with catalog_open"

definition has_collection :: "database \<Rightarrow> string \<Rightarrow> bool" where
  "has_collection db name \<longleftrightarrow> catalog_collection_root (db_catalog db) name \<noteq> None"

definition has_index :: "database \<Rightarrow> string \<Rightarrow> string \<Rightarrow> bool" where
  "has_index db collection field = catalog_has_index (db_catalog db) collection field"

definition has_compound_index :: "database \<Rightarrow> string \<Rightarrow> string list \<Rightarrow> bool" where
  "has_compound_index db collection field_names = catalog_has_index (db_catalog db) collection (join_fields field_names)"

section \<open>Collections and indexes\<close>

definition database_drop_index :: "string \<Rightarrow> string \<Rightarrow> unit db_prog" where
  "database_drop_index collection field =
     bindP (on_parts DbCatalog (index_drop collection field)) (\<lambda>_. on_db_pool flush_all)"

definition database_create_collection :: "string \<Rightarrow> unit db_prog" where
  "database_create_collection name =
     bindP (on_parts DbCatalog (catalog_create_collection name)) (\<lambda>collection.
     bindP (on_collection collection collection_flush) (\<lambda>_.
     on_parts DbCatalog (on_own_disk catalog_flush)))"

fun drop_each_index :: "string \<Rightarrow> string list \<Rightarrow> unit db_prog" where
  "drop_each_index name [] = returnP ()"
| "drop_each_index name (field # field_names) =
     bindP (database_drop_index name field) (\<lambda>_. drop_each_index name field_names)"

definition database_drop_collection :: "string \<Rightarrow> unit db_prog" where
  "database_drop_collection name =
     bindP (readP (\<lambda>db. catalog_index_fields (db_catalog db) name)) (\<lambda>field_names.
     bindP (drop_each_index name field_names) (\<lambda>_.
     bindP (on_parts DbCatalog (catalog_drop_collection name)) (\<lambda>_.
     on_parts DbCatalog (on_own_disk catalog_flush))))"

definition database_create_index_on :: "string \<Rightarrow> string list \<Rightarrow> bool \<Rightarrow> unit db_prog" where
  "database_create_index_on collection field_names unique =
     bindP (on_parts DbCatalog (index_create_compound collection field_names unique)) (\<lambda>_. on_db_pool flush_all)"

definition database_create_index_with :: "string \<Rightarrow> string \<Rightarrow> bool \<Rightarrow> unit db_prog" where
  "database_create_index_with collection field unique = database_create_index_on collection [field] unique"

definition database_create_index :: "string \<Rightarrow> string \<Rightarrow> unit db_prog" where
  "database_create_index collection field = database_create_index_with collection field False"

section \<open>Documents\<close>

definition scan_collection :: "string \<Rightarrow> (doc_id \<times> document) list db_prog" where
  "scan_collection collection =
     bindP (on_parts DbCatalog (catalog_open_collection collection)) (\<lambda>handle.
     on_collection handle collection_scan)"

definition database_scan_page :: "string \<Rightarrow> page_id option \<Rightarrow> ((doc_id \<times> document) list \<times> page_id option) db_prog" where
  "database_scan_page collection cursor =
     bindP (on_parts DbCatalog (catalog_open_collection collection)) (\<lambda>handle.
     let page = (case cursor of Some p \<Rightarrow> p | None \<Rightarrow> collection_first_page handle) in
     on_collection handle (collection_scan_page page))"

fun on_insert_each :: "string \<Rightarrow> (document \<times> doc_id) list \<Rightarrow> unit cat_prog" where
  "on_insert_each collection [] = returnP ()"
| "on_insert_each collection ((doc, doc_id) # rest) =
     bindP (index_on_insert collection doc doc_id) (\<lambda>_. on_insert_each collection rest)"

fun on_delete_each :: "string \<Rightarrow> (doc_id \<times> document) list \<Rightarrow> unit cat_prog" where
  "on_delete_each collection [] = returnP ()"
| "on_delete_each collection ((doc_id, doc) # rest) =
     bindP (index_on_delete collection doc doc_id) (\<lambda>_. on_delete_each collection rest)"

definition insert_docs :: "string \<Rightarrow> document list \<Rightarrow> doc_id list db_prog" where
  "insert_docs collection docs =
     (if docs = [] then returnP []
      else
        bindP (on_parts DbCatalog (check_unique_batch collection docs)) (\<lambda>_.
        bindP (on_parts DbCatalog (catalog_open_collection collection)) (\<lambda>handle.
        bindP (on_collection handle (mapP collection_insert docs)) (\<lambda>doc_ids.
        bindP (on_parts DbCatalog (on_insert_each collection (zip docs doc_ids))) (\<lambda>_.
        bindP (on_db_pool flush_all) (\<lambda>_. returnP doc_ids))))))"

text \<open>\<open>insert_docs(..)?[0]\<close>\<close>

definition insert_doc :: "string \<Rightarrow> document \<Rightarrow> doc_id db_prog" where
  "insert_doc collection doc = bindP (insert_docs collection [doc]) (\<lambda>ids.
     case ids of [] \<Rightarrow> panicP ''index out of bounds'' | d # _ \<Rightarrow> returnP d)"

text \<open>A document is read before it is deleted; an id that is gone is skipped.\<close>

fun remove_docs :: "doc_id list \<Rightarrow> (doc_id \<times> document) list coll_prog" where
  "remove_docs [] = returnP []"
| "remove_docs (doc_id # doc_ids) =
     bindP (collection_get doc_id) (\<lambda>r.
     case r of
       None \<Rightarrow> remove_docs doc_ids
     | Some doc \<Rightarrow>
         bindP (collection_delete doc_id) (\<lambda>_.
         bindP (remove_docs doc_ids) (\<lambda>removed. returnP ((doc_id, doc) # removed))))"

definition delete_docs :: "string \<Rightarrow> doc_id list \<Rightarrow> nat db_prog" where
  "delete_docs collection doc_ids =
     (if doc_ids = [] then returnP 0
      else
        bindP (on_parts DbCatalog (catalog_open_collection collection)) (\<lambda>handle.
        bindP (on_collection handle (remove_docs doc_ids)) (\<lambda>removed.
        bindP (on_parts DbCatalog (on_delete_each collection removed)) (\<lambda>_.
        bindP (on_db_pool flush_all) (\<lambda>_. returnP (length removed))))))"

definition delete_doc :: "string \<Rightarrow> doc_id \<Rightarrow> bool db_prog" where
  "delete_doc collection doc_id = bindP (delete_docs collection [doc_id]) (\<lambda>n. returnP (n = 1))"

definition get_doc :: "string \<Rightarrow> doc_id \<Rightarrow> document option db_prog" where
  "get_doc collection doc_id =
     bindP (on_parts DbCatalog (catalog_open_collection collection)) (\<lambda>handle.
     on_collection handle (collection_get doc_id))"

fun get_each :: "doc_id list \<Rightarrow> (doc_id \<times> document) list coll_prog" where
  "get_each [] = returnP []"
| "get_each (doc_id # doc_ids) =
     bindP (collection_get doc_id) (\<lambda>r.
     bindP (get_each doc_ids) (\<lambda>rest.
     returnP (case r of None \<Rightarrow> rest | Some doc \<Rightarrow> (doc_id, doc) # rest)))"

definition fetch_docs :: "string \<Rightarrow> doc_id list \<Rightarrow> (doc_id \<times> document) list db_prog" where
  "fetch_docs collection doc_ids =
     (if doc_ids = [] then returnP []
      else bindP (on_parts DbCatalog (catalog_open_collection collection)) (\<lambda>handle.
        on_collection handle (get_each doc_ids)))"

definition search_index :: "string \<Rightarrow> string \<Rightarrow> doc_value \<Rightarrow> (doc_id \<times> document) option db_prog" where
  "search_index collection field v =
     bindP (on_parts DbCatalog (index_search collection field v)) (\<lambda>r.
     case r of
       None \<Rightarrow> returnP None
     | Some doc_id \<Rightarrow> bindP (get_doc collection doc_id) (\<lambda>doc. returnP (map_option (Pair doc_id) doc)))"

definition range_index :: "string \<Rightarrow> string \<Rightarrow> doc_value \<Rightarrow> doc_value \<Rightarrow> (doc_id \<times> document) list db_prog" where
  "range_index collection field low high =
     bindP (on_parts DbCatalog (index_range_scan collection field low high)) (fetch_docs collection)"

definition upsert_by :: "string \<Rightarrow> string \<Rightarrow> doc_value \<Rightarrow> document \<Rightarrow> nat db_prog" where
  "upsert_by collection field v doc =
     bindP (search_index collection field v) (\<lambda>existing.
     case existing of
       Some (doc_id, current) \<Rightarrow>
         let current' = insert_all doc current in
         bindP (on_parts DbCatalog (check_unique_except collection current' (Some doc_id))) (\<lambda>_.
         bindP (delete_doc collection doc_id) (\<lambda>_.
         bindP (insert_doc collection current') (\<lambda>_. returnP 1)))
     | None \<Rightarrow> bindP (insert_doc collection doc) (\<lambda>_. returnP 1))"

definition database_flush :: "unit db_prog" where
  "database_flush = bindP (on_db_pool flush_all) (\<lambda>_. on_parts DbCatalog (on_own_disk catalog_flush))"

end
