(* ===== verification/Query_Exec.thy ===== *)
theory Query_Exec
  imports Db_Facade Query_Planner
begin

text \<open>
  \<open>query/executor.rs\<close>: the pull-based operators. A running operator is a value of \<open>operator\<close>, one
  constructor per struct of the code with its fields; \<open>next_row\<close> is the method \<open>next\<close>, which
  returns the next row and the operator in its new state, over the database as context.

  A loop inside \<open>next\<close> is a recursive call on the operator's new state, and every call costs one
  unit of fuel: a pipeline that updates while it scans may produce rows forever. A failure below
  the query layer, whose debug text the code keeps in \<open>QueryError::Storage\<close>, is kept as the error.
\<close>

section \<open>Rows and running operators\<close>

datatype exec_error = ExecQuery query_error | ExecStorage database_error

record row =
  row_id :: "doc_id option"
  row_doc :: document

definition row_stored :: "doc_id \<Rightarrow> document \<Rightarrow> row" where
  "row_stored doc_id doc = \<lparr>row_id = Some doc_id, row_doc = doc\<rparr>"

definition row_derived :: "document \<Rightarrow> row" where
  "row_derived doc = \<lparr>row_id = None, row_doc = doc\<rparr>"

datatype query_output = Documents "document list" | Affected nat

datatype operator =
    RSeqScan string "page_id option" "(doc_id \<times> document) list" bool
  | RIndexScan string string scan_bounds "(doc_id \<times> document) list option"
  | RInsert string "document list" "row list option"
  | RFilter operator expr
  | RProjection operator "select_item list option"
  | RDrop operator "string list"
  | RLimit operator nat
  | ROffset operator nat
  | RSort operator "order_key list" "row list option"
  | RHashAggregate operator "string list" "select_item list" "row list option"
  | RHashJoin operator operator string string "(doc_value \<times> document) list option" "row list"
  | RUpdate operator string "assignment list"
  | RUpsert operator string doc_literal "row list option"
  | RDelete operator string "row list option"

fun build :: "physical_op \<Rightarrow> operator" where
  "build (SeqScan collection) = RSeqScan collection None [] False"
| "build (IndexScan collection field bounds) = RIndexScan collection field bounds None"
| "build (FilterOp input predicate) = RFilter (build input) predicate"
| "build (Projection input items) = RProjection (build input) items"
| "build (DropOp input names) = RDrop (build input) names"
| "build (Sort input keys) = RSort (build input) keys None"
| "build (Limit input n) = RLimit (build input) n"
| "build (Offset input n) = ROffset (build input) n"
| "build (HashAggregate input group_keys items) = RHashAggregate (build input) group_keys items None"
| "build (HashJoin left right left_field right_field) = RHashJoin (build left) (build right) left_field right_field None []"
| "build (InsertOp collection docs) = RInsert collection docs None"
| "build (UpdateOp input collection assignments) = RUpdate (build input) collection assignments"
| "build (UpsertOp input collection doc) = RUpsert (build input) collection doc None"
| "build (DeleteOp input collection) = RDelete (build input) collection None"

section \<open>Work on documents\<close>

definition item_name :: "nat \<Rightarrow> select_item \<Rightarrow> string" where
  "item_name i item = (case si_alias item of
     Some alias \<Rightarrow> alias
   | None \<Rightarrow> (case si_expr item of EField f \<Rightarrow> f | _ \<Rightarrow> ''_'' @ int_to_string (int i)))"

fun project_from :: "nat \<Rightarrow> select_item list \<Rightarrow> document \<Rightarrow> document \<Rightarrow> document query_result" where
  "project_from i [] doc out = Ok out"
| "project_from i (item # items) doc out =
     bindO (evaluate (si_expr item) doc) (\<lambda>v. project_from (Suc i) items doc (doc_insert (item_name i item) v out))"

definition project :: "select_item list \<Rightarrow> document \<Rightarrow> document query_result" where
  "project items doc = project_from 0 items doc []"

definition drop_fields :: "string list \<Rightarrow> document \<Rightarrow> document" where
  "drop_fields names doc = fold map_remove names doc"

text \<open>
  The comparator of \<open>Sort\<close>, key by key, and the stable sort with it. A failing comparison makes the
  whole sort fail; the code reports the first one its sort meets, this one the first that insertion
  meets.
\<close>

fun row_cmp :: "order_key list \<Rightarrow> document \<Rightarrow> document \<Rightarrow> ordering query_result" where
  "row_cmp [] a b = Ok Equal"
| "row_cmp (key # keys) a b =
     bindO (compare_values (field_or_null a (ok_field key)) (field_or_null b (ok_field key))) (\<lambda>r.
     case (r, ok_direction key) of
       (Equal, _) \<Rightarrow> row_cmp keys a b
     | (r, Asc) \<Rightarrow> Ok r
     | (Less, Desc) \<Rightarrow> Ok Greater
     | (Greater, Desc) \<Rightarrow> Ok Less)"

fun sort_insert :: "order_key list \<Rightarrow> row \<Rightarrow> row list \<Rightarrow> row list query_result" where
  "sort_insert keys r [] = Ok [r]"
| "sort_insert keys r (y # ys) =
     bindO (row_cmp keys (row_doc r) (row_doc y)) (\<lambda>c.
     if c = Less then Ok (r # y # ys) else bindO (sort_insert keys r ys) (\<lambda>zs. Ok (y # zs)))"

fun sort_rows :: "order_key list \<Rightarrow> row list \<Rightarrow> row list \<Rightarrow> row list query_result" where
  "sort_rows keys out [] = Ok out"
| "sort_rows keys out (r # rs) = bindO (sort_insert keys r out) (\<lambda>out'. sort_rows keys out' rs)"

text \<open>
  The debug rendering that groups rows tells values apart by their type and contents, floats by
  their digits (every NaN prints the same), documents by their entries in iteration order.
\<close>

fun debug_value :: "doc_value \<Rightarrow> doc_value" where
  "debug_value (VFloat x) = VFloat (if f64_is_nan x then 0x7FF8000000000000 else x)"
| "debug_value (VArray vs) = VArray (map debug_value vs)"
| "debug_value (VDocument d) = VDocument (map (\<lambda>(k, v). (k, debug_value v)) d)"
| "debug_value v = v"

definition group_key :: "string list \<Rightarrow> document \<Rightarrow> doc_value list" where
  "group_key names doc = map (\<lambda>f. debug_value (field_or_null doc f)) names"

text \<open>The groups in the order of their first document.\<close>

fun add_to_group :: "doc_value list \<Rightarrow> document \<Rightarrow> (doc_value list \<times> document list) list \<Rightarrow> (doc_value list \<times> document list) list" where
  "add_to_group key doc [] = [(key, [doc])]"
| "add_to_group key doc ((k, docs) # groups) =
     (if k = key then (k, docs @ [doc]) # groups else (k, docs) # add_to_group key doc groups)"

definition group_rows :: "string list \<Rightarrow> row list \<Rightarrow> (doc_value list \<times> document list) list" where
  "group_rows names rows = fold (\<lambda>r. add_to_group (group_key names (row_doc r)) (row_doc r)) rows []"

fun best_of :: "ordering \<Rightarrow> doc_value option \<Rightarrow> doc_value list \<Rightarrow> doc_value option query_result" where
  "best_of want best [] = Ok best"
| "best_of want None (v # vs) = best_of want (Some v) vs"
| "best_of want (Some current) (v # vs) =
     bindO (compare_values v current) (\<lambda>c. best_of want (Some (if c = want then v else current)) vs)"

fun sum_loop :: "string \<Rightarrow> string \<Rightarrow> doc_value list \<Rightarrow> i64 \<Rightarrow> f64 \<Rightarrow> bool \<Rightarrow> (i64 \<times> f64 \<times> bool) query_result" where
  "sum_loop name field [] int_total float_total saw_float = Ok (int_total, float_total, saw_float)"
| "sum_loop name field (VInt n # vs) int_total float_total saw_float =
     bindO (checked_i64 (Arithmetic (''integer overflow in '' @ name @ ''('' @ field @ '')'')) (sint int_total + sint n)) (\<lambda>t.
     sum_loop name field vs t (f64_add float_total (f64_of_i64 n)) saw_float)"
| "sum_loop name field (VFloat x # vs) int_total float_total saw_float =
     sum_loop name field vs int_total (f64_add float_total x) True"
| "sum_loop name field (other # vs) int_total float_total saw_float =
     Err (TypeErr (''cannot '' @ name @ '' a '' @ value_name other))"

definition fold_aggregate :: "string \<Rightarrow> string option \<Rightarrow> document list \<Rightarrow> doc_value query_result" where
  "fold_aggregate name arg docs =
     (if name = ''count'' then Ok (VInt (word_of_nat (length docs)))
      else case arg of
        None \<Rightarrow> Err (Validation (''aggregate '' @ name @ '' requires a field argument''))
      | Some field \<Rightarrow>
          let vals = List.map_filter (\<lambda>d. doc_get d field) docs in
          if name = ''collect'' then Ok (VArray vals)
          else if name = ''min'' \<or> name = ''max'' then
            bindO (best_of (if name = ''min'' then Less else Greater) None vals) (\<lambda>best.
            Ok (case best of None \<Rightarrow> VNull | Some v \<Rightarrow> v))
          else if name = ''sum'' \<or> name = ''avg'' then
            bindO (sum_loop name field vals 0 0 False) (\<lambda>(int_total, float_total, saw_float).
            if vals = [] then Ok VNull
            else if name = ''avg'' then Ok (VFloat (f64_div float_total (f64_of_i64 (word_of_nat (length vals)))))
            else Ok (if saw_float then VFloat float_total else VInt int_total))
          else Err (Unsupported (''unknown aggregate: '' @ name)))"

definition aggregate_item :: "select_item \<Rightarrow> nat \<Rightarrow> document list \<Rightarrow> string list \<Rightarrow> (string \<times> doc_value) query_result" where
  "aggregate_item item position docs group_keys = (case si_expr item of
     EAggCall name arg \<Rightarrow>
       let label = (case si_alias item of
           Some alias \<Rightarrow> alias
         | None \<Rightarrow> (case arg of Some field \<Rightarrow> name @ ''_'' @ field | None \<Rightarrow> name)) in
       bindO (fold_aggregate name arg docs) (\<lambda>v. Ok (label, v))
   | e \<Rightarrow>
       let name = (case si_alias item of
           Some alias \<Rightarrow> alias
         | None \<Rightarrow> (case e of
             EField f \<Rightarrow> f
           | _ \<Rightarrow> if position < length group_keys then group_keys ! position else ''_'' @ int_to_string (int position))) in
       (case docs of
         [] \<Rightarrow> Ok (name, VNull)
       | doc # _ \<Rightarrow> bindO (evaluate e doc) (\<lambda>v. Ok (name, v))))"

fun aggregate_from :: "nat \<Rightarrow> select_item list \<Rightarrow> document list \<Rightarrow> string list \<Rightarrow> document \<Rightarrow> document query_result" where
  "aggregate_from i [] docs group_keys out = Ok out"
| "aggregate_from i (item # items) docs group_keys out =
     bindO (aggregate_item item i docs group_keys) (\<lambda>(name, v).
     aggregate_from (Suc i) items docs group_keys (doc_insert name v out))"

definition aggregate_rows :: "string list \<Rightarrow> select_item list \<Rightarrow> row list \<Rightarrow> row list query_result" where
  "aggregate_rows group_keys items rows =
     mapO (\<lambda>(key, docs). bindO (aggregate_from 0 items docs group_keys []) (\<lambda>doc. Ok (row_derived doc)))
       (group_rows group_keys rows)"

definition build_table :: "string \<Rightarrow> row list \<Rightarrow> (doc_value \<times> document) list" where
  "build_table left_field rows = map (\<lambda>r. (field_or_null (row_doc r) left_field, row_doc r)) rows"

text \<open>The rows a probe document joins with; the vector is popped from its end.\<close>

definition join_matches :: "(doc_value \<times> document) list \<Rightarrow> doc_value \<Rightarrow> document \<Rightarrow> row list" where
  "join_matches table key right_doc =
     rev (map (\<lambda>(_, left_doc). row_derived (insert_all right_doc left_doc))
       (filter (\<lambda>(left_key, _). values_equal left_key key) table))"

fun assign_all :: "assignment list \<Rightarrow> document \<Rightarrow> document \<Rightarrow> document query_result" where
  "assign_all [] original updated = Ok updated"
| "assign_all (a # rest) original updated =
     bindO (evaluate (as_value a) original) (\<lambda>v. assign_all rest original (doc_insert (as_field a) v updated))"

fun materialise_from :: "doc_literal \<Rightarrow> document \<Rightarrow> document \<Rightarrow> document query_result" where
  "materialise_from [] against doc = Ok doc"
| "materialise_from ((name, e) # rest) against doc =
     bindO (evaluate e against) (\<lambda>v. materialise_from rest against (doc_insert name v doc))"

definition materialise :: "doc_literal \<Rightarrow> document \<Rightarrow> document query_result" where
  "materialise literal against = materialise_from literal against []"

section \<open>Pulling rows\<close>

type_synonym 'a exec_prog = "(database, exec_error, 'a) prog"

definition pure_query :: "'a query_result \<Rightarrow> 'a exec_prog" where
  "pure_query r = liftO (map_err ExecQuery r)"

definition on_db :: "'a db_prog \<Rightarrow> 'a exec_prog" where
  "on_db m = map_errP ExecStorage m"

definition no_identity :: "string \<Rightarrow> 'a exec_prog" where
  "no_identity stage = failP (ExecQuery (InvalidPipeline
     (stage @ '' needs stored rows; a projection before '' @ stage @ '' discards their identity'')))"

text \<open>The next row of a filled buffer.\<close>

definition emit_row :: "(row list option \<Rightarrow> operator) \<Rightarrow> row list \<Rightarrow> (row option \<times> operator) exec_prog" where
  "emit_row mk rows = returnP (case rows of [] \<Rightarrow> (None, mk (Some [])) | r # rs \<Rightarrow> (Some r, mk (Some rs)))"

definition replace_row :: "string \<Rightarrow> doc_id \<Rightarrow> document \<Rightarrow> row exec_prog" where
  "replace_row collection doc_id updated =
     bindP (on_db (delete_doc collection doc_id)) (\<lambda>_.
     bindP (on_db (insert_doc collection updated)) (\<lambda>new_id. returnP (row_stored new_id updated)))"

fun upsert_rows :: "string \<Rightarrow> doc_literal \<Rightarrow> row list \<Rightarrow> row list exec_prog" where
  "upsert_rows collection literal [] = returnP []"
| "upsert_rows collection literal (r # rs) = (case row_id r of
     None \<Rightarrow> no_identity ''upsert''
   | Some doc_id \<Rightarrow>
       bindP (pure_query (materialise literal (row_doc r))) (\<lambda>new.
       bindP (replace_row collection doc_id (insert_all new (row_doc r))) (\<lambda>w.
       bindP (upsert_rows collection literal rs) (\<lambda>ws. returnP (w # ws)))))"

definition index_rows :: "string \<Rightarrow> string \<Rightarrow> scan_bounds \<Rightarrow> (doc_id \<times> document) list exec_prog" where
  "index_rows collection field bounds = (case (sb_low bounds, sb_high bounds) of
     (Some low, Some high) \<Rightarrow> on_db (range_index collection field low high)
   | _ \<Rightarrow> failP (ExecQuery (Unsupported
       ''index scan requires both bounds; the planner should have chosen a sequential scan'')))"

text \<open>
  One definition per \<open>impl Operator\<close>. Its argument \<open>next\<close> stands for the call of \<open>next\<close> on an
  operator, the inputs and, where the code loops, the operator itself in its new state; \<open>drain\<close> is
  the loop that pulls an input until it is exhausted.
\<close>

type_synonym puller = "operator \<Rightarrow> (row option \<times> operator) exec_prog"
type_synonym drainer = "operator \<Rightarrow> (row list \<times> operator) exec_prog"

definition seq_scan_next :: "puller \<Rightarrow> string \<Rightarrow> page_id option \<Rightarrow> (doc_id \<times> document) list \<Rightarrow> bool \<Rightarrow> (row option \<times> operator) exec_prog" where
  "seq_scan_next next collection cursor page started = (case page of
     (doc_id, doc) # rest \<Rightarrow> returnP (Some (row_stored doc_id doc), RSeqScan collection cursor rest started)
   | [] \<Rightarrow>
       if started \<and> cursor = None then returnP (None, RSeqScan collection cursor [] started)
       else bindP (on_db (database_scan_page collection cursor)) (\<lambda>(docs, next_cursor).
         if docs = [] \<and> next_cursor = None then returnP (None, RSeqScan collection next_cursor docs True)
         else next (RSeqScan collection next_cursor docs True)))"

definition index_scan_next :: "string \<Rightarrow> string \<Rightarrow> scan_bounds \<Rightarrow> (doc_id \<times> document) list option \<Rightarrow> (row option \<times> operator) exec_prog" where
  "index_scan_next collection field bounds buffered =
     bindP (case buffered of Some docs \<Rightarrow> returnP docs | None \<Rightarrow> index_rows collection field bounds) (\<lambda>docs.
     returnP (case docs of
       [] \<Rightarrow> (None, RIndexScan collection field bounds (Some []))
     | (doc_id, doc) # rest \<Rightarrow> (Some (row_stored doc_id doc), RIndexScan collection field bounds (Some rest))))"

definition insert_next :: "string \<Rightarrow> document list \<Rightarrow> row list option \<Rightarrow> (row option \<times> operator) exec_prog" where
  "insert_next collection docs written = (case written of
     Some rows \<Rightarrow> emit_row (RInsert collection docs) rows
   | None \<Rightarrow> bindP (on_db (insert_docs collection docs)) (\<lambda>doc_ids.
       emit_row (RInsert collection []) (map (\<lambda>(doc_id, doc). row_stored doc_id doc) (zip doc_ids docs))))"

definition filter_next :: "puller \<Rightarrow> operator \<Rightarrow> expr \<Rightarrow> (row option \<times> operator) exec_prog" where
  "filter_next next input predicate =
     bindP (next input) (\<lambda>(r, input').
     case r of
       None \<Rightarrow> returnP (None, RFilter input' predicate)
     | Some row \<Rightarrow> bindP (pure_query (evaluate_bool predicate (row_doc row))) (\<lambda>keep.
         if keep then returnP (Some row, RFilter input' predicate) else next (RFilter input' predicate)))"

definition projection_next :: "puller \<Rightarrow> operator \<Rightarrow> select_item list option \<Rightarrow> (row option \<times> operator) exec_prog" where
  "projection_next next input items =
     bindP (next input) (\<lambda>(r, input').
     case (r, items) of
       (None, _) \<Rightarrow> returnP (None, RProjection input' items)
     | (Some row, None) \<Rightarrow> returnP (Some row, RProjection input' items)
     | (Some row, Some list) \<Rightarrow> bindP (pure_query (project list (row_doc row))) (\<lambda>doc.
         returnP (Some (row_derived doc), RProjection input' items)))"

definition drop_next :: "puller \<Rightarrow> operator \<Rightarrow> string list \<Rightarrow> (row option \<times> operator) exec_prog" where
  "drop_next next input names =
     bindP (next input) (\<lambda>(r, input').
     returnP (map_option (\<lambda>row. row\<lparr>row_doc := drop_fields names (row_doc row)\<rparr>) r, RDrop input' names))"

definition limit_next :: "puller \<Rightarrow> operator \<Rightarrow> nat \<Rightarrow> (row option \<times> operator) exec_prog" where
  "limit_next next input remaining =
     (if remaining = 0 then returnP (None, RLimit input remaining)
      else bindP (next input) (\<lambda>(r, input').
        returnP (r, RLimit input' (if r = None then remaining else remaining - 1))))"

definition offset_next :: "puller \<Rightarrow> operator \<Rightarrow> nat \<Rightarrow> (row option \<times> operator) exec_prog" where
  "offset_next next input to_skip =
     bindP (next input) (\<lambda>(r, input').
     if to_skip = 0 then returnP (r, ROffset input' to_skip)
     else if r = None then returnP (None, ROffset input' to_skip)
     else next (ROffset input' (to_skip - 1)))"

definition sort_next :: "drainer \<Rightarrow> operator \<Rightarrow> order_key list \<Rightarrow> row list option \<Rightarrow> (row option \<times> operator) exec_prog" where
  "sort_next drain input keys buffered = (case buffered of
     Some rows \<Rightarrow> emit_row (RSort input keys) rows
   | None \<Rightarrow>
       bindP (drain input) (\<lambda>(rows, input').
       bindP (pure_query (sort_rows keys [] rows)) (\<lambda>out. emit_row (RSort input' keys) out)))"

definition aggregate_next :: "drainer \<Rightarrow> operator \<Rightarrow> string list \<Rightarrow> select_item list \<Rightarrow> row list option \<Rightarrow> (row option \<times> operator) exec_prog" where
  "aggregate_next drain input group_keys items buffered = (case buffered of
     Some rows \<Rightarrow> emit_row (RHashAggregate input group_keys items) rows
   | None \<Rightarrow>
       bindP (drain input) (\<lambda>(rows, input').
       bindP (pure_query (aggregate_rows group_keys items rows)) (\<lambda>out.
       emit_row (RHashAggregate input' group_keys items) out)))"

definition join_next :: "puller \<Rightarrow> drainer \<Rightarrow> operator \<Rightarrow> operator \<Rightarrow> string \<Rightarrow> string \<Rightarrow> (doc_value \<times> document) list option \<Rightarrow> row list \<Rightarrow>
    (row option \<times> operator) exec_prog" where
  "join_next next drain left right left_field right_field table pending = (case table of
     None \<Rightarrow>
       bindP (drain left) (\<lambda>(rows, left').
       next (RHashJoin left' right left_field right_field (Some (build_table left_field rows)) pending))
   | Some built \<Rightarrow> (case pending of
       row # rest \<Rightarrow> returnP (Some row, RHashJoin left right left_field right_field table rest)
     | [] \<Rightarrow>
         bindP (next right) (\<lambda>(r, right').
         case r of
           None \<Rightarrow> returnP (None, RHashJoin left right' left_field right_field table [])
         | Some row \<Rightarrow>
             let key = field_or_null (row_doc row) right_field in
             next (RHashJoin left right' left_field right_field table
               (if key = VNull then [] else join_matches built key (row_doc row))))))"

definition update_next :: "puller \<Rightarrow> operator \<Rightarrow> string \<Rightarrow> assignment list \<Rightarrow> (row option \<times> operator) exec_prog" where
  "update_next next input collection assignments =
     bindP (next input) (\<lambda>(r, input').
     case r of
       None \<Rightarrow> returnP (None, RUpdate input' collection assignments)
     | Some row \<Rightarrow> (case row_id row of
         None \<Rightarrow> no_identity ''update''
       | Some doc_id \<Rightarrow>
           bindP (pure_query (assign_all assignments (row_doc row) (row_doc row))) (\<lambda>updated.
           bindP (replace_row collection doc_id updated) (\<lambda>w.
           returnP (Some w, RUpdate input' collection assignments)))))"

definition upsert_next :: "drainer \<Rightarrow> operator \<Rightarrow> string \<Rightarrow> doc_literal \<Rightarrow> row list option \<Rightarrow> (row option \<times> operator) exec_prog" where
  "upsert_next drain input collection literal written = (case written of
     Some rows \<Rightarrow> emit_row (RUpsert input collection literal) rows
   | None \<Rightarrow>
       bindP (drain input) (\<lambda>(matched, input').
       bindP (if matched = [] then
           bindP (pure_query (materialise literal [])) (\<lambda>doc.
           bindP (on_db (insert_doc collection doc)) (\<lambda>doc_id. returnP [row_stored doc_id doc]))
         else upsert_rows collection literal matched) (\<lambda>rows.
       emit_row (RUpsert input' collection literal) rows)))"

definition delete_next :: "drainer \<Rightarrow> operator \<Rightarrow> string \<Rightarrow> row list option \<Rightarrow> (row option \<times> operator) exec_prog" where
  "delete_next drain input collection deleted = (case deleted of
     Some rows \<Rightarrow> emit_row (RDelete input collection) rows
   | None \<Rightarrow>
       bindP (drain input) (\<lambda>(rows, input').
       bindP (on_db (delete_docs collection (map (\<lambda>r. the (row_id r)) rows))) (\<lambda>_.
       emit_row (RDelete input' collection) rows)))"

text \<open>\<open>while let Some(row) = input.next(ctx)?\<close>, and the same loop with the check of \<open>Delete\<close>.\<close>

definition drain_step :: "bool \<Rightarrow> puller \<Rightarrow> drainer \<Rightarrow> operator \<Rightarrow> (row list \<times> operator) exec_prog" where
  "drain_step need_id next drain op =
     bindP (next op) (\<lambda>(r, op').
     case r of
       None \<Rightarrow> returnP ([], op')
     | Some row \<Rightarrow>
         if need_id \<and> row_id row = None then no_identity ''delete''
         else bindP (drain op') (\<lambda>(rows, op''). returnP (row # rows, op'')))"

fun next_row :: "nat \<Rightarrow> operator \<Rightarrow> (row option \<times> operator) exec_prog"
  and drain_rows :: "nat \<Rightarrow> bool \<Rightarrow> operator \<Rightarrow> (row list \<times> operator) exec_prog" where
  "next_row 0 op = hangP"
| "next_row (Suc n) op = (case op of
     RSeqScan collection cursor page started \<Rightarrow> seq_scan_next (next_row n) collection cursor page started
   | RIndexScan collection field bounds buffered \<Rightarrow> index_scan_next collection field bounds buffered
   | RInsert collection docs written \<Rightarrow> insert_next collection docs written
   | RFilter input predicate \<Rightarrow> filter_next (next_row n) input predicate
   | RProjection input items \<Rightarrow> projection_next (next_row n) input items
   | RDrop input names \<Rightarrow> drop_next (next_row n) input names
   | RLimit input remaining \<Rightarrow> limit_next (next_row n) input remaining
   | ROffset input to_skip \<Rightarrow> offset_next (next_row n) input to_skip
   | RSort input keys buffered \<Rightarrow> sort_next (drain_rows n False) input keys buffered
   | RHashAggregate input group_keys items buffered \<Rightarrow> aggregate_next (drain_rows n False) input group_keys items buffered
   | RHashJoin left right left_field right_field table pending \<Rightarrow>
       join_next (next_row n) (drain_rows n False) left right left_field right_field table pending
   | RUpdate input collection assignments \<Rightarrow> update_next (next_row n) input collection assignments
   | RUpsert input collection literal written \<Rightarrow> upsert_next (drain_rows n False) input collection literal written
   | RDelete input collection deleted \<Rightarrow> delete_next (drain_rows n True) input collection deleted)"
| "drain_rows 0 need_id op = hangP"
| "drain_rows (Suc n) need_id op = drain_step need_id (next_row n) (drain_rows n need_id) op"

definition mutating :: "physical_op \<Rightarrow> bool" where
  "mutating p = (case p of InsertOp _ _ \<Rightarrow> True | UpdateOp _ _ _ \<Rightarrow> True | UpsertOp _ _ _ \<Rightarrow> True | DeleteOp _ _ \<Rightarrow> True | _ \<Rightarrow> False)"

definition execute :: "nat \<Rightarrow> physical_op \<Rightarrow> query_output exec_prog" where
  "execute n p = bindP (drain_rows n False (build p)) (\<lambda>(rows, _).
     returnP (if mutating p then Affected (length rows) else Documents (map row_doc rows)))"

end
