(* ===== verification/Db_Logic.thy ===== *)
theory Db_Logic
  imports Db_Facade
begin

text \<open>
  The laws of the database. \<open>dbst\<close> is the total-correctness calculus for its programs: the view of
  a database is its catalog and the pages behind its pool. \<open>db_collection\<close> says that the database
  holds a collection, a chain of pages with a map from ids to documents.
\<close>

section \<open>Programs on the database\<close>

abbreviation db_view :: "database \<Rightarrow> catalog \<times> (page_id \<rightharpoonup> page)" where
  "db_view \<equiv> (\<lambda>db. (db_catalog db, pool_view (db_pool db)))"

interpretation dbst: store_logic "\<lambda>db. pool_inv (db_pool db)" db_view "\<lambda>db. pool_budget (db_pool db)" .

lemma on_shared_pool_total:
  assumes "pool.total n m s Q"
  shows "catst.total n (on_shared_pool m) (c, s) (\<lambda>r v. fst v = c \<and> Q r (snd v))"
  using assms by (fastforce simp: catst.total_def pool.total_def on_shared_pool_def split: prod.splits)

lemma on_parts_total:
  assumes "catst.total n m (db_catalog db, db_pool db) Q"
  shows "dbst.total n (on_parts w m) db Q"
  using assms by (fastforce simp: catst.total_def dbst.total_def on_parts_def split: prod.splits)

lemma on_collection_total:
  assumes "collst.total n m (col, db_pool db) Q"
  shows "dbst.total n (on_collection col m) db (\<lambda>r v. fst v = db_catalog db \<and> (\<exists>col'. Q r (col', snd v)))"
  using assms by (fastforce simp: collst.total_def dbst.total_def on_collection_def split: prod.splits)

lemma flush_total: "dbst.total 0 (on_db_pool flush_all) db (\<lambda>_ v. v = db_view db)"
proof (rule dbst.totalI)
  assume "pool_inv (db_pool db)"
  then obtain s where "flush_all (db_pool db) = (Ok (), s)" "pool_inv s" "pool_view s = pool_view (db_pool db)"
    "pool_budget s = pool_budget (db_pool db)" by (rule flush_all_spec)
  then show "\<exists>r db'. on_db_pool flush_all db = (Ok r, db') \<and> pool_inv (db_pool db') \<and> db_view db' = db_view db
      \<and> pool_budget (db_pool db) \<le> pool_budget (db_pool db') + 0"
    by (auto simp: on_db_pool_def)
qed

section \<open>Collections\<close>

definition opened :: "page_id list \<Rightarrow> collection" where
  "opened ps = collection_open \<lparr>hf_root = hd ps, hf_last_page = last ps\<rparr>"

definition db_collection :: "catalog \<times> (page_id \<rightharpoonup> page) \<Rightarrow> string \<Rightarrow> page_id list \<Rightarrow> (doc_id \<rightharpoonup> document) \<Rightarrow> bool" where
  "db_collection v name ps m \<longleftrightarrow> map_of (cat_collections (fst v)) name = Some (hd ps) \<and> collection_holds (opened ps, snd v) ps m"

lemma holds_chain:
  assumes "collection_holds (col, V) ps m"
  shows "heap_chain V ps" "distinct ps" "heap_map V ps = encoded m" "\<forall>x \<in> ran m. storable x" "ps \<noteq> []"
  using assms by (auto simp: collection_holds_def heap_holds_def heap_rep_def)

lemma holds_reopened:
  assumes "collection_holds (col, V) ps m"
  shows "collection_holds (opened ps, V) ps m" "hf_root (col_heap col) = hd ps"
  using assms holds_chain(5) [OF assms] by (auto simp: collection_holds_def heap_holds_def heap_rep_def opened_def collection_open_def)

lemma open_total:
  assumes "db_collection (db_view db) name ps m"
  shows "dbst.total (length ps) (on_parts DbCatalog (catalog_open_collection name)) db (\<lambda>col v. col = opened ps \<and> v = db_view db)"
proof (rule on_parts_total)
  let ?c = "db_catalog db" let ?s = "db_pool db"
  have c: "map_of (cat_collections ?c) name = Some (hd ps)" and h: "collection_holds (opened ps, pool_view ?s) ps m"
    using assms by (simp_all add: db_collection_def)
  have "catst.total (length ps + 0) (bindP (on_shared_pool (heap_open (hd ps))) (\<lambda>h. returnP (collection_open h))) (?c, ?s)
      (\<lambda>col v. col = opened ps \<and> v = db_view db)"
    by (rule catst.total_bind [OF on_shared_pool_total [OF heap_open_total [OF holds_chain(1,2) [OF h] refl]]], rule catst.total_return)
      (auto simp: opened_def)
  then show "catst.total (length ps) (catalog_open_collection name) (?c, ?s) (\<lambda>col v. col = opened ps \<and> v = db_view db)"
    unfolding catalog_open_collection_def
    by (intro catst.total_bind_pure [where a = "Some (hd ps)"]) (simp_all add: readP_def c)
qed

text \<open>The documents on some pages of a collection, in the order a scan visits them.\<close>

definition docs_of :: "(page_id \<rightharpoonup> page) \<Rightarrow> (doc_id \<rightharpoonup> document) \<Rightarrow> page_id list \<Rightarrow> (doc_id \<times> document) list" where
  "docs_of V m qs = map (\<lambda>(d, b). (d, the (m d))) (heap_live V qs)"

lemma docs_of_Cons: "docs_of V m (p # qs) = docs_of V m [p] @ docs_of V m qs"
  by (simp add: docs_of_def heap_live_def)

lemma docs_of_Nil [simp]: "docs_of V m [] = []"
  by (simp add: docs_of_def heap_live_def)

lemma decode_docs:
  assumes "collection_holds (col, V) ps m" and "set qs \<subseteq> set ps"
  shows "mapO decode_record (heap_live V qs) = Ok (docs_of V m qs)"
  unfolding docs_of_def
proof (rule mapO_Ok_map)
  fix x assume x: "x \<in> set (heap_live V qs)"
  note h = holds_chain [OF assms(1)]
  obtain d b where db: "x = (d, b)" by (cases x)
  have "x \<in> set (heap_live V ps)" using x assms(2) by (auto simp: heap_live_def)
  then have "encoded m d = Some b" using heap_live_iff [OF h(1)] h(3) db by simp
  then obtain y where y: "m d = Some y" "b = serialize_document y" by (auto simp: encoded_def)
  then have "storable y" using h(4) by (blast intro: ranI)
  then show "decode_record x = Ok (case x of (d, b) \<Rightarrow> (d, the (m d)))" using y by (simp add: db decode_record_def decode_storable)
qed

lemma map_of_values: "map_of (map (\<lambda>(d, b). (d, f d)) xs) d = map_option (\<lambda>_. f d) (map_of xs d)"
  by (induction xs) auto

lemma docs_of_map:
  assumes "collection_holds (col, V) ps m"
  shows "map_of (docs_of V m ps) = m" and "distinct (map fst (docs_of V m ps))"
proof -
  have rep: "heap_rep V (col_heap col) ps" using assms by (auto simp: collection_holds_def heap_holds_def)
  note h = holds_chain [OF assms]
  show "map_of (docs_of V m ps) = m"
  proof
    fix d
    have "map_of (docs_of V m ps) d = map_option (\<lambda>_. the (m d)) (map_of (heap_live V ps) d)"
      unfolding docs_of_def by (rule map_of_values)
    also have "\<dots> = m d" unfolding map_of_heap_live [OF rep] h(3) by (cases "m d") (auto simp: encoded_def)
    finally show "map_of (docs_of V m ps) d = m d" .
  qed
  have "map fst (docs_of V m ps) = map fst (heap_live V ps)" by (simp add: docs_of_def case_prod_unfold)
  then show "distinct (map fst (docs_of V m ps))" using distinct_heap_live [OF h(2)] by simp
qed

lemma on_parts_opened:
  assumes "db_collection (db_view db) name ps m" and k: "k (opened ps) = on_collection (opened ps) f"
    and f: "\<And>s. pool_view s = pool_view (db_pool db) \<Longrightarrow> collst.total n f (opened ps, s) (\<lambda>r v. v = (opened ps, pool_view s) \<and> r = x)"
  shows "dbst.total (length ps + n) (bindP (on_parts DbCatalog (catalog_open_collection name)) k) db
    (\<lambda>r v. v = db_view db \<and> r = x)"
proof (rule dbst.total_bind [OF open_total [OF assms(1)]])
  fix col db' assume d: "col = opened ps \<and> db_view db' = db_view db"
  then have "pool_view (db_pool db') = pool_view (db_pool db)" by simp
  from on_collection_total [OF f [OF this]] d show "dbst.total n (k col) db' (\<lambda>r v. v = db_view db \<and> r = x)"
    by (auto simp: k elim!: dbst.total_conseq)
qed

lemma scan_collection_total:
  assumes "db_collection (db_view db) name ps m"
  shows "dbst.total (length ps + length ps) (scan_collection name) db (\<lambda>r v. v = db_view db \<and> r = docs_of (pool_view (db_pool db)) m ps)"
  unfolding scan_collection_def
proof (rule on_parts_opened [OF assms, where f = collection_scan], rule refl)
  fix s assume s: "pool_view s = pool_view (db_pool db)"
  let ?V = "pool_view s" let ?D = "docs_of (pool_view (db_pool db)) m ps"
  have h: "collection_holds (opened ps, ?V) ps m" using assms s by (simp add: db_collection_def)
  then have rep: "heap_rep ?V (col_heap (opened ps)) ps" by (simp add: collection_holds_def heap_holds_def)
  have all: "collst.total (length ps) (on_heap scan_all) (opened ps, s) (\<lambda>r v. r = heap_live ?V ps \<and> v = (opened ps, ?V))"
    by (rule on_heap_total, rule heapst.total_conseq [OF scan_all_total [OF rep]]) auto
  have "collst.total (length ps + 0) collection_scan (opened ps, s) (\<lambda>r v. v = (opened ps, ?V) \<and> r = ?D)"
    unfolding collection_scan_def
  proof (rule collst.total_bind [OF all])
    fix r cs assume "r = heap_live ?V ps \<and> coll_view cs = (opened ps, ?V)"
    then show "collst.total 0 (liftO (mapO decode_record r)) cs (\<lambda>r v. v = (opened ps, ?V) \<and> r = ?D)"
      using decode_docs [OF h, of ps] s by (simp add: collst.total_lift)
  qed
  then show "collst.total (length ps) collection_scan (opened ps, s) (\<lambda>r v. v = (opened ps, ?V) \<and> r = ?D)" by simp
qed

lemma scan_page_db_total:
  assumes coll: "db_collection (db_view db) name (us @ p # vs) m" and cursor: "cursor = Some p \<or> cursor = None \<and> us = []"
  shows "dbst.total (length (us @ p # vs) + 1) (database_scan_page name cursor) db (\<lambda>r v. v = db_view db
    \<and> r = (docs_of (pool_view (db_pool db)) m [p], case vs of [] \<Rightarrow> None | q # _ \<Rightarrow> Some q))"
proof -
  let ?ps = "us @ p # vs" let ?next = "case vs of [] \<Rightarrow> None | q # _ \<Rightarrow> Some q"
  have page: "(case cursor of Some p \<Rightarrow> p | None \<Rightarrow> collection_first_page (opened ?ps)) = p"
    using cursor by (auto simp: collection_first_page_def opened_def collection_open_def)
  show ?thesis
    unfolding database_scan_page_def Let_def
  proof (rule on_parts_opened [OF coll, where f = "collection_scan_page p"])
    show "on_collection (opened ?ps) (collection_scan_page (case cursor of None \<Rightarrow> collection_first_page (opened ?ps) | Some p \<Rightarrow> p)) =
        on_collection (opened ?ps) (collection_scan_page p)" by (simp only: page)
    fix s assume s: "pool_view s = pool_view (db_pool db)"
    let ?V = "pool_view s"
    have h: "collection_holds (opened ?ps, ?V) ?ps m" using coll s by (simp add: db_collection_def)
    note ch = holds_chain(1) [OF h]
    have "p \<in> set ?ps" by simp
    with ch obtain pg where pg: "?V p = Some pg" "heap_page_ok pg" by (rule chain_page)
    have nx: "hp_next pg = (case vs of [] \<Rightarrow> NO_NEXT | q # _ \<Rightarrow> q)" using chain_next [OF chain_suffix [OF ch] pg(1)] .
    have "q \<noteq> NO_NEXT" if "q \<in> set vs" for q
      using chain_page [OF ch, of q] that by auto
    then have nx': "(if hp_next pg = NO_NEXT then None else Some (hp_next pg)) = ?next" using nx by (cases vs) auto
    have lv: "page_live p pg = heap_live ?V [p]" using pg(1) by (simp add: heap_live_def)
    have one: "collst.total 1 (on_heap (scan_page p)) (opened ?ps, s) (\<lambda>r v. r = (heap_live ?V [p], ?next) \<and> v = (opened ?ps, ?V))"
      by (rule on_heap_total, rule heapst.total_conseq [OF scan_page_total [OF pg]]) (auto simp: nx' lv)
    have "collst.total (1 + 0) (collection_scan_page p) (opened ?ps, s) (\<lambda>r v. v = (opened ?ps, ?V) \<and> r = (docs_of ?V m [p], ?next))"
      unfolding collection_scan_page_def
    proof (rule collst.total_bind [OF one])
      fix r cs assume "r = (heap_live ?V [p], ?next) \<and> coll_view cs = (opened ?ps, ?V)"
      then show "collst.total 0 (case r of (records, next) \<Rightarrow> bindP (liftO (mapO decode_record records)) (\<lambda>docs. returnP (docs, next))) cs
          (\<lambda>r v. v = (opened ?ps, ?V) \<and> r = (docs_of ?V m [p], ?next))"
        using decode_docs [OF h, of "[p]"] by (auto simp: collst.total_def split: prod.splits)
    qed
    then show "collst.total 1 (collection_scan_page p) (opened ?ps, s)
        (\<lambda>r v. v = (opened ?ps, ?V) \<and> r = (docs_of (pool_view (db_pool db)) m [p], ?next))" using s by simp
  qed
qed

section \<open>Insertion\<close>

text \<open>What an insertion leaves alone: pages in use that are not the collection's.\<close>

definition coll_grows :: "(page_id \<rightharpoonup> page) \<Rightarrow> page_id list \<Rightarrow> (page_id \<rightharpoonup> page) \<Rightarrow> page_id list \<Rightarrow> nat \<Rightarrow> bool" where
  "coll_grows V ps V' ps' n \<longleftrightarrow> hd ps' = hd ps \<and> set ps \<subseteq> set ps' \<and> length ps' \<le> length ps + n
     \<and> set ps' \<inter> dom V \<subseteq> set ps \<and> dom V \<subseteq> dom V' \<and> (\<forall>q \<in> dom V - set ps. V' q = V q)"

lemma coll_grows_trans:
  assumes a: "coll_grows V ps V1 ps1 j" and b: "coll_grows V1 ps1 V2 ps2 k"
  shows "coll_grows V ps V2 ps2 (j + k)"
  unfolding coll_grows_def
proof (intro conjI ballI)
  have a': "hd ps1 = hd ps" "set ps \<subseteq> set ps1" "length ps1 \<le> length ps + j" "set ps1 \<inter> dom V \<subseteq> set ps" "dom V \<subseteq> dom V1"
    and aq: "\<And>q. q \<in> dom V - set ps \<Longrightarrow> V1 q = V q" using a unfolding coll_grows_def by blast+
  have b': "hd ps2 = hd ps1" "set ps1 \<subseteq> set ps2" "length ps2 \<le> length ps1 + k" "set ps2 \<inter> dom V1 \<subseteq> set ps1" "dom V1 \<subseteq> dom V2"
    and bq: "\<And>q. q \<in> dom V1 - set ps1 \<Longrightarrow> V2 q = V1 q" using b unfolding coll_grows_def by blast+
  show "hd ps2 = hd ps" "set ps \<subseteq> set ps2" "length ps2 \<le> length ps + (j + k)" "set ps2 \<inter> dom V \<subseteq> set ps" "dom V \<subseteq> dom V2"
    using a'(1) b'(1) a'(3) b'(3) a'(2,4,5) b'(2,4,5) by (simp, blast, linarith, blast, blast)
  fix q assume q: "q \<in> dom V - set ps"
  then have "q \<in> dom V1 - set ps1" using a'(4,5) by blast
  then show "V2 q = V q" using bq aq q by simp
qed

lemma collection_insert_total:
  assumes h: "collection_holds (c, pool_view s) ps m" and x: "storable x"
  shows "collst.total (length ps + 4) (collection_insert x) (c, s) (\<lambda>d (c', V'). m d = None
    \<and> (\<exists>ps'. collection_holds (c', V') ps' (m(d \<mapsto> x)) \<and> coll_grows (pool_view s) ps V' ps' 1))"
proof -
  let ?V = "pool_view s" let ?b = "serialize_document x"
  have rep: "heap_rep ?V (col_heap c) ps" and m: "encoded m = heap_map ?V ps" and st: "\<forall>x \<in> ran m. storable x"
    using h by (auto simp: collection_holds_def heap_holds_def)
  have l: "length ?b \<le> MAX_RECORD_SIZE" using x by (simp add: storable_def)
  have old: "set ps \<subseteq> dom ?V" using chain_page [OF heap_repD(1) [OF rep]] by blast
  have "collst.total (1 + (length ps + 3)) (collection_insert x) (c, s) (\<lambda>d (c', V'). m d = None
      \<and> (\<exists>ps'. collection_holds (c', V') ps' (m(d \<mapsto> x)) \<and> coll_grows ?V ps V' ps' 1))"
    unfolding collection_insert_def
  proof (rule on_heap_total, rule heapst.total_conseq [OF heap_insert_total [OF rep serialize_nonempty l]])
    fix d and hs :: "heap_file \<times> buffer_pool"
    assume "inserted ?V ps (hf_root (col_heap c)) ?b d (heap_view hs)"
    then obtain h' s' ps' where hs: "hs = (h', s')" and r: "hf_root h' = hf_root (col_heap c)" "heap_map ?V ps d = None"
      "heap_rep (pool_view s') h' ps'" "heap_map (pool_view s') ps' = (heap_map ?V ps)(d \<mapsto> ?b)" "set ps \<subseteq> set ps'"
      "length ps' \<le> Suc (length ps)" "\<forall>q \<in> set ps' - set ps. ?V q = None" "\<forall>q. q \<notin> set ps' \<longrightarrow> pool_view s' q = ?V q"
      by (cases hs) (auto simp: inserted_def)
    let ?V' = "pool_view s'"
    have dn: "m d = None" using r(2) encoded_None [of m d] m by simp
    have "heap_map ?V' ps' = encoded (m(d \<mapsto> x))" using r(4) m by simp
    then have "collection_holds (c\<lparr>col_heap := h'\<rparr>, ?V') ps' (m(d \<mapsto> x))"
      using r(3) st x by (auto simp: collection_holds_def heap_holds_def ran_def)
    moreover have "coll_grows ?V ps ?V' ps' 1"
      unfolding coll_grows_def
    proof (intro conjI ballI)
      have fresh: "q \<in> set ps" if "q \<in> set ps'" "q \<in> dom ?V" for q using r(7) that by (metis DiffI domIff)
      show "hd ps' = hd ps" using heap_repD(3) [OF r(3)] heap_repD(3) [OF rep] r(1) by simp
      show "set ps' \<inter> dom ?V \<subseteq> set ps" using fresh by blast
      have new: "set ps' \<subseteq> dom ?V'" using chain_page [OF heap_repD(1) [OF r(3)]] by blast
      show "dom ?V \<subseteq> dom ?V'"
      proof
        fix q assume "q \<in> dom ?V"
        then show "q \<in> dom ?V'" using new r(8) by (cases "q \<in> set ps'") (auto simp: domIff)
      qed
      fix q assume "q \<in> dom ?V - set ps"
      then have "q \<notin> set ps'" using fresh by blast
      then show "?V' q = ?V q" using r(8) by simp
    qed (use r(5,6) in simp_all)
    ultimately show "case heap_view hs of (h, V) \<Rightarrow> case (c\<lparr>col_heap := h\<rparr>, V) of (c', V') \<Rightarrow> m d = None
        \<and> (\<exists>ps'. collection_holds (c', V') ps' (m(d \<mapsto> x)) \<and> coll_grows ?V ps V' ps' 1)"
      using dn hs by auto
  qed simp
  then show ?thesis by (simp add: add.commute)
qed

lemma insert_each_total:
  assumes "collection_holds (c, pool_view s) ps m" and "\<forall>x \<in> set docs. storable x"
  shows "collst.total (length docs * (length ps + length docs + 4)) (mapP collection_insert docs) (c, s) (\<lambda>ids (c', V').
    length ids = length docs \<and> distinct ids \<and> (\<forall>d \<in> set ids. m d = None)
    \<and> (\<exists>ps'. collection_holds (c', V') ps' (m(ids [\<mapsto>] docs)) \<and> coll_grows (pool_view s) ps V' ps' (length docs)))"
  using assms
proof (induction docs arbitrary: c s ps m)
  case Nil
  have "coll_grows (pool_view s) ps (pool_view s) ps 0" by (simp add: coll_grows_def)
  then show ?case using Nil by (auto simp: collst.total_def)
next
  case (Cons x docs)
  let ?V = "pool_view s" let ?n = "length docs"
  let ?Q = "\<lambda>ids (c', V'). length ids = length (x # docs) \<and> distinct ids \<and> (\<forall>d \<in> set ids. m d = None)
    \<and> (\<exists>ps'. collection_holds (c', V') ps' (m(ids [\<mapsto>] x # docs)) \<and> coll_grows ?V ps V' ps' (length (x # docs)))"
  have x: "storable x" and rest: "\<forall>x \<in> set docs. storable x" using Cons.prems(2) by simp_all
  have "collst.total (length ps + 4 + (?n * (length ps + 1 + ?n + 4) + 0)) (mapP collection_insert (x # docs)) (c, s) ?Q"
    unfolding mapP.simps
  proof (rule collst.total_bind [OF collection_insert_total [OF Cons.prems(1) x]])
    fix d cs1 assume "case coll_view cs1 of (c', V') \<Rightarrow> m d = None \<and> (\<exists>ps'. collection_holds (c', V') ps' (m(d \<mapsto> x)) \<and> coll_grows ?V ps V' ps' 1)"
    then obtain c1 s1 ps1 where cs1: "cs1 = (c1, s1)" and d: "m d = None"
      and h1: "collection_holds (c1, pool_view s1) ps1 (m(d \<mapsto> x))" and g1: "coll_grows ?V ps (pool_view s1) ps1 1" by (cases cs1) auto
    have "length ps1 \<le> length ps + 1" using g1 by (simp add: coll_grows_def)
    then have "?n * (length ps1 + ?n + 4) \<le> ?n * (length ps + 1 + ?n + 4)" by (intro mult_le_mono2) simp
    have ih: "collst.total (?n * (length ps + 1 + ?n + 4)) (mapP collection_insert docs) (c1, s1) (\<lambda>ids (c', V').
      length ids = ?n \<and> distinct ids \<and> (\<forall>e \<in> set ids. (m(d \<mapsto> x)) e = None)
      \<and> (\<exists>ps'. collection_holds (c', V') ps' (m(d \<mapsto> x, ids [\<mapsto>] docs)) \<and> coll_grows (pool_view s1) ps1 V' ps' ?n))"
      by (rule collst.total_conseq [OF Cons.IH [OF h1 rest] _ \<open>?n * _ \<le> _\<close>])
    show "collst.total (?n * (length ps + 1 + ?n + 4) + 0) (bindP (mapP collection_insert docs) (\<lambda>ys. returnP (d # ys))) cs1 ?Q"
      unfolding cs1
    proof (rule collst.total_bind [OF ih])
      fix ids cs2 assume "case coll_view cs2 of (c', V') \<Rightarrow> length ids = ?n \<and> distinct ids \<and> (\<forall>e \<in> set ids. (m(d \<mapsto> x)) e = None)
        \<and> (\<exists>ps'. collection_holds (c', V') ps' (m(d \<mapsto> x, ids [\<mapsto>] docs)) \<and> coll_grows (pool_view s1) ps1 V' ps' ?n)"
      then have "?Q (d # ids) (coll_view cs2)"
        using d coll_grows_trans [OF g1, of "snd (coll_view cs2)" _ ?n] by (fastforce split: prod.splits if_splits)
      then show "collst.total 0 (returnP (d # ids)) cs2 ?Q" by (rule collst.total_return)
    qed
  qed
  then show ?case by (rule collst.total_conseq) (simp_all add: algebra_simps)
qed

text \<open>Without indexes the checks and the maintenance around an insertion do nothing.\<close>

definition unindexed :: "catalog \<Rightarrow> string \<Rightarrow> bool" where
  "unindexed c name \<longleftrightarrow> catalog_unique_index_fields c name = [] \<and> indexes_for c name = []"

lemma unindexed_check:
  assumes "unindexed c name"
  shows "check_unique_batch name docs (c, s) = (Ok (), (c, s))"
proof -
  have "check_batch_loop name [] docs seen (c, s) = (Ok (), (c, s))" for seen
    using assms by (induction docs) (simp_all add: prog_simps unindexed_def check_unique_def check_unique_except_def)
  then show ?thesis using assms by (simp add: check_unique_batch_def prog_simps unindexed_def)
qed

lemma unindexed_maintenance:
  assumes "unindexed c name"
  shows "on_insert_each name xs (c, s) = (Ok (), (c, s))"
  using assms by (induction name xs rule: on_insert_each.induct) (simp_all add: prog_simps unindexed_def index_on_insert_def)

lemma on_parts_pure:
  assumes "m (db_catalog db, db_pool db) = (Ok a, (db_catalog db, db_pool db))"
  shows "on_parts w m db = (Ok a, db)"
  using assms by (simp add: on_parts_def)

definition docs_inserted :: "catalog \<times> (page_id \<rightharpoonup> page) \<Rightarrow> string \<Rightarrow> page_id list \<Rightarrow> (doc_id \<rightharpoonup> document) \<Rightarrow> document list
    \<Rightarrow> doc_id list \<Rightarrow> catalog \<times> (page_id \<rightharpoonup> page) \<Rightarrow> bool" where
  "docs_inserted v name ps m docs ids v' \<longleftrightarrow> length ids = length docs \<and> distinct ids \<and> (\<forall>d \<in> set ids. m d = None) \<and> fst v' = fst v
     \<and> (\<exists>ps'. db_collection v' name ps' (m(ids [\<mapsto>] docs)) \<and> coll_grows (snd v) ps (snd v') ps' (length docs))"

lemma insert_docs_total:
  assumes coll: "db_collection (db_view db) name ps m" and idx: "unindexed (db_catalog db) name" and st: "\<forall>x \<in> set docs. storable x"
  shows "dbst.total (length ps + length docs * (length ps + length docs + 4)) (insert_docs name docs) db
    (docs_inserted (db_view db) name ps m docs)"
proof (cases "docs = []")
  case True
  have "docs_inserted (db_view db) name ps m [] [] (db_view db)" using coll by (auto simp: docs_inserted_def coll_grows_def)
  then show ?thesis using True by (auto simp: insert_docs_def dbst.total_def)
next
  case False
  let ?v = "db_view db" let ?n = "length docs * (length ps + length docs + 4)"
  let ?Q = "docs_inserted ?v name ps m docs"
  let ?fin = "\<lambda>ids. bindP (on_parts DbCatalog (on_insert_each name (zip docs ids))) (\<lambda>_. bindP (on_db_pool flush_all) (\<lambda>_. returnP ids))"
  have tail: "dbst.total 0 (?fin ids) db2 ?Q" if "?Q ids (db_view db2)" for ids db2
  proof -
    have u: "unindexed (db_catalog db2) name" using that idx by (simp add: docs_inserted_def)
    have fl: "dbst.total (0 + 0) (bindP (on_db_pool flush_all) (\<lambda>_. returnP ids)) db2 ?Q"
      by (rule dbst.total_bind [OF flush_total], rule dbst.total_return) (use that in simp)
    show ?thesis
      by (rule dbst.total_bind_pure, rule on_parts_pure, rule unindexed_maintenance [OF u]) (use fl in simp)
  qed
  have body: "dbst.total (?n + 0) (bindP (on_collection col (mapP collection_insert docs)) ?fin) db1 ?Q"
    if db1: "col = opened ps \<and> db_view db1 = ?v" for col db1
  proof -
    have h: "collection_holds (col, pool_view (db_pool db1)) ps m" using db1 coll by (simp add: db_collection_def)
    show ?thesis
    proof (rule dbst.total_bind [OF on_collection_total [OF insert_each_total [OF h st]]])
      fix ids db2
      assume "fst (db_view db2) = db_catalog db1 \<and> (\<exists>col'. case (col', snd (db_view db2)) of (c', V') \<Rightarrow>
          length ids = length docs \<and> distinct ids \<and> (\<forall>d \<in> set ids. m d = None)
          \<and> (\<exists>ps'. collection_holds (c', V') ps' (m(ids [\<mapsto>] docs)) \<and> coll_grows (pool_view (db_pool db1)) ps V' ps' (length docs)))"
      then obtain col' ps' where c: "db_catalog db2 = db_catalog db" and q: "length ids = length docs" "distinct ids" "\<forall>d \<in> set ids. m d = None"
        and h': "collection_holds (col', pool_view (db_pool db2)) ps' (m(ids [\<mapsto>] docs))"
        and g: "coll_grows (pool_view (db_pool db)) ps (pool_view (db_pool db2)) ps' (length docs)" using db1 by auto
      have "db_collection (db_view db2) name ps' (m(ids [\<mapsto>] docs))"
        using coll c g holds_reopened(1) [OF h'] by (simp add: db_collection_def coll_grows_def)
      with q g c have "?Q ids (db_view db2)" by (auto simp: docs_inserted_def)
      then show "dbst.total 0 (?fin ids) db2 ?Q" by (rule tail)
    qed
  qed
  have "dbst.total (length ps + (?n + 0)) (bindP (on_parts DbCatalog (catalog_open_collection name)) (\<lambda>handle.
      bindP (on_collection handle (mapP collection_insert docs)) ?fin)) db ?Q"
    by (rule dbst.total_bind [OF open_total [OF coll]], rule body)
  then have "dbst.total (length ps + ?n) (bindP (on_parts DbCatalog (check_unique_batch name docs)) (\<lambda>_.
      bindP (on_parts DbCatalog (catalog_open_collection name)) (\<lambda>handle.
      bindP (on_collection handle (mapP collection_insert docs)) ?fin))) db ?Q"
    unfolding add_0_right by (rule dbst.total_bind_pure [rotated]) (rule on_parts_pure, rule unindexed_check [OF idx])
  then show ?thesis using False by (simp add: insert_docs_def)
qed

text \<open>A collection on other pages does not change.\<close>

lemma chain_view_cong:
  assumes "\<forall>q \<in> set ps. V' q = V q"
  shows "heap_chain V' ps = heap_chain V ps"
  using assms by (induction V ps rule: heap_chain.induct) auto

lemma collection_elsewhere:
  assumes h: "collection_holds (c, V) qs k" and g: "coll_grows V ps V' ps' n" and dis: "set qs \<inter> set ps = {}"
  shows "collection_holds (c, V') qs k" and "set qs \<inter> set ps' = {}"
proof -
  have "set qs \<subseteq> dom V" using chain_page [OF holds_chain(1) [OF h]] by blast
  then have eq: "\<forall>q \<in> set qs. V' q = V q" and "set qs \<inter> set ps' = {}" using g dis by (auto simp: coll_grows_def)
  then show "set qs \<inter> set ps' = {}" by simp
  have "heap_map V' qs = heap_map V qs" using eq by (auto simp: heap_map_def)
  with h eq chain_view_cong [OF eq] show "collection_holds (c, V') qs k"
    by (auto simp: collection_holds_def heap_holds_def heap_rep_def)
qed

section \<open>Properties\<close>

text \<open>
  C7: a batch insertion into the database. For a collection without indexes that the database
  holds, with enough accesses left, the batch succeeds whole: the ids are as many as the
  documents, distinct and were free; a scan of the collection returns, each under its id, the
  documents of before and the new ones; and a collection on other pages holds what it held.
\<close>

theorem database_insert_then_scan:
  assumes inv: "pool_inv (db_pool db)" and b: "3 * length ps + (length docs + 2) * (length ps + length docs + 4) \<le> pool_budget (db_pool db)"
    and coll: "db_collection (db_view db) name ps m" and idx: "unindexed (db_catalog db) name" and st: "\<forall>x \<in> set docs. storable x"
  shows "\<exists>ids rows db' db''. insert_docs name docs db = (Ok ids, db') \<and> scan_collection name db' = (Ok rows, db'')
    \<and> pool_inv (db_pool db'') \<and> db_view db'' = db_view db' \<and> db_catalog db' = db_catalog db
    \<and> length ids = length docs \<and> distinct ids \<and> (\<forall>d \<in> set ids. m d = None)
    \<and> map_of rows = m(ids [\<mapsto>] docs) \<and> distinct (map fst rows)
    \<and> (\<forall>other qs k. db_collection (db_view db) other qs k \<longrightarrow> set qs \<inter> set ps = {} \<longrightarrow> db_collection (db_view db') other qs k)"
proof -
  have b1: "length ps + length docs * (length ps + length docs + 4) \<le> pool_budget (db_pool db)" using b by (simp add: algebra_simps)
  obtain ids db' where i: "insert_docs name docs db = (Ok ids, db')" "pool_inv (db_pool db')"
    "docs_inserted (db_view db) name ps m docs ids (db_view db')"
    "pool_budget (db_pool db) \<le> pool_budget (db_pool db') + (length ps + length docs * (length ps + length docs + 4))"
    by (rule dbst.totalE [OF insert_docs_total [OF coll idx st] inv b1])
  then obtain ps' where c: "db_collection (db_view db') name ps' (m(ids [\<mapsto>] docs))"
    and g: "coll_grows (pool_view (db_pool db)) ps (pool_view (db_pool db')) ps' (length docs)" by (auto simp: docs_inserted_def)
  have "length ps' + length ps' \<le> pool_budget (db_pool db')"
    using b i(4) g by (simp add: coll_grows_def algebra_simps)
  then obtain rows db'' where r: "scan_collection name db' = (Ok rows, db'')" "pool_inv (db_pool db'')"
    "db_view db'' = db_view db' \<and> rows = docs_of (pool_view (db_pool db')) (m(ids [\<mapsto>] docs)) ps'"
    by (rule dbst.totalE [OF scan_collection_total [OF c] i(2)])
  have "collection_holds (opened ps', pool_view (db_pool db')) ps' (m(ids [\<mapsto>] docs))" using c by (simp add: db_collection_def)
  from docs_of_map [OF this] r(3) have rows: "map_of rows = m(ids [\<mapsto>] docs)" "distinct (map fst rows)" by simp_all
  have "db_collection (db_view db') other qs k" if "db_collection (db_view db) other qs k" "set qs \<inter> set ps = {}" for other qs k
    using that collection_elsewhere(1) [OF _ g] i(3) by (auto simp: db_collection_def docs_inserted_def)
  with i r rows show ?thesis by (auto simp: docs_inserted_def)
qed

definition example_database :: "heap_file \<Rightarrow> buffer_pool \<Rightarrow> database" where
  "example_database h s = \<lparr>db_catalog = \<lparr>cat_collections = [(''c'', hf_root h)], cat_indexes = [], cat_unique = [],
     cat_overflow = []\<rparr>, db_pool = s\<rparr>"

theorem database_insert_then_scan_witness:
  "\<exists>h s ids rows db' db''. heap_create example_pool = (Ok h, s)
    \<and> insert_docs ''c'' [[(''a'', VInt 1)], [(''a'', VInt 2)]] (example_database h s) = (Ok ids, db')
    \<and> scan_collection ''c'' db' = (Ok rows, db'')
    \<and> map_of rows = [ids [\<mapsto>] [[(''a'', VInt 1)], [(''a'', VInt 2)]]]"
proof -
  obtain h s where e: "heap_create example_pool = (Ok h, s)" "pool_inv s" "1023 \<le> pool_budget s"
    "collection_holds (collection_create h, pool_view s) [hf_root h] Map.empty" by (rule example_collection)
  let ?db = "example_database h s" let ?docs = "[[(''a'', VInt 1)], [(''a'', VInt 2)]]"
  have "db_collection (db_view ?db) ''c'' [hf_root h] Map.empty"
    using holds_reopened(1) [OF e(4)] by (simp add: db_collection_def example_database_def)
  moreover have "unindexed (db_catalog ?db) ''c''"
    by (simp add: unindexed_def example_database_def catalog_unique_index_fields_def indexes_for_def)
  moreover have "\<forall>x \<in> set ?docs. storable x" using example_storable by simp
  moreover have "pool_inv (db_pool ?db)" "3 * length [hf_root h] + (length ?docs + 2) * (length [hf_root h] + length ?docs + 4) \<le> pool_budget (db_pool ?db)"
    using e by (simp_all add: example_database_def)
  ultimately show ?thesis
    using database_insert_then_scan [of ?db "[hf_root h]" ?docs "''c''" Map.empty] e(1) by blast
qed

end
