(* ===== verification/Query_Stream.thy ===== *)
theory Query_Stream
  imports Query_Exec Db_Logic
begin

text \<open>
  What the operators of the executor produce. \<open>pulls op db rs op' db'\<close> is the run of an operator
  that hands out the rows \<open>rs\<close>, one call of \<open>next\<close> after the other; \<open>streams op db rs db'\<close> says
  that it hands out exactly these and is then exhausted. Each operator is shown to compute a list
  function of the rows of its input, though it pulls them one at a time, and a sequential scan to
  hand out the documents of the collection.

  The fuel of \<open>next_row\<close> only bounds the search for a result: a result that is found stays the same
  with more fuel (\<open>next_row_mono\<close>).
\<close>

section \<open>More fuel\<close>

definition refines :: "('s, 'e, 'a) prog \<Rightarrow> ('s, 'e, 'a) prog \<Rightarrow> bool" where
  "refines m m' \<longleftrightarrow> (\<forall>s r s'. m s = (r, s') \<longrightarrow> r \<noteq> Hang \<longrightarrow> m' s = (r, s'))"

named_theorems refine_intros

lemma refines_refl [refine_intros]: "refines m m"
  by (simp add: refines_def)

lemma refines_hang [refine_intros]: "refines hangP m"
  by (simp add: refines_def hangP_def)

lemma refines_bind [refine_intros]:
  assumes "refines m m'" and "\<And>x. refines (k x) (k' x)"
  shows "refines (bindP m k) (bindP m' k')"
  unfolding refines_def
proof (intro allI impI)
  fix s r s' assume b: "bindP m k s = (r, s')" and r: "r \<noteq> Hang"
  show "bindP m' k' s = (r, s')"
  proof (cases "m s")
    case (Pair a s1)
    with b r have "a \<noteq> Hang" by (auto simp: bindP_def)
    then have m': "m' s = (a, s1)" using assms(1) Pair by (simp add: refines_def)
    show ?thesis
      using b r assms(2) Pair m' by (cases a) (auto simp: bindP_def refines_def)
  qed
qed

lemma refines_if [refine_intros]: "(b \<Longrightarrow> refines m m') \<Longrightarrow> (\<not> b \<Longrightarrow> refines k k') \<Longrightarrow> refines (if b then m else k) (if b then m' else k')"
  by simp

lemma refines_case_option [refine_intros]:
  "refines a a' \<Longrightarrow> (\<And>x. refines (f x) (f' x)) \<Longrightarrow> refines (case r of None \<Rightarrow> a | Some x \<Rightarrow> f x) (case r of None \<Rightarrow> a' | Some x \<Rightarrow> f' x)"
  by (cases r) simp_all

lemma refines_case_prod [refine_intros]:
  "(\<And>x y. refines (f x y) (f' x y)) \<Longrightarrow> refines (case p of (x, y) \<Rightarrow> f x y) (case p of (x, y) \<Rightarrow> f' x y)"
  by (cases p) simp

lemma refines_case_list [refine_intros]:
  "refines a a' \<Longrightarrow> (\<And>x xs. refines (f x xs) (f' x xs)) \<Longrightarrow> refines (case l of [] \<Rightarrow> a | x # xs \<Rightarrow> f x xs) (case l of [] \<Rightarrow> a' | x # xs \<Rightarrow> f' x xs)"
  by (cases l) simp_all

declare next_row.simps(2) [simp del]

lemma next_row_ops:
  "next_row (Suc n) (RSeqScan collection cursor page started) = seq_scan_next (next_row n) collection cursor page started"
  "next_row (Suc n) (RIndexScan collection field bounds docs) = index_scan_next collection field bounds docs"
  "next_row (Suc n) (RInsert collection new rows) = insert_next collection new rows"
  "next_row (Suc n) (RFilter input predicate) = filter_next (next_row n) input predicate"
  "next_row (Suc n) (RProjection input items) = projection_next (next_row n) input items"
  "next_row (Suc n) (RDrop input names) = drop_next (next_row n) input names"
  "next_row (Suc n) (RLimit input k) = limit_next (next_row n) input k"
  "next_row (Suc n) (ROffset input k) = offset_next (next_row n) input k"
  "next_row (Suc n) (RSort input keys rows) = sort_next (drain_rows n False) input keys rows"
  "next_row (Suc n) (RHashAggregate input group_keys agg rows) = aggregate_next (drain_rows n False) input group_keys agg rows"
  "next_row (Suc n) (RHashJoin input right lf rf table pending) = join_next (next_row n) (drain_rows n False) input right lf rf table pending"
  "next_row (Suc n) (RUpdate input collection assignments) = update_next (next_row n) input collection assignments"
  "next_row (Suc n) (RUpsert input collection literal rows) = upsert_next (drain_rows n False) input collection literal rows"
  "next_row (Suc n) (RDelete input collection rows) = delete_next (drain_rows n True) input collection rows"
  by (simp_all add: next_row.simps(2))

lemma next_refines:
  assumes nx: "\<And>op. refines (next_row n op) (next_row m op)" and drain: "\<And>b op. refines (drain_rows n b op) (drain_rows m b op)"
  shows "refines (next_row (Suc n) op) (next_row (Suc m) op)"
proof (cases op)
  case (RSeqScan a b c d)
  then show ?thesis unfolding RSeqScan next_row_ops seq_scan_next_def by (intro refine_intros nx)
next
  case (RFilter a b)
  then show ?thesis unfolding RFilter next_row_ops filter_next_def by (intro refine_intros nx)
next
  case (RProjection a b)
  then show ?thesis unfolding RProjection next_row_ops projection_next_def by (intro refine_intros nx)
next
  case (RDrop a b)
  then show ?thesis unfolding RDrop next_row_ops drop_next_def by (intro refine_intros nx)
next
  case (RLimit a b)
  then show ?thesis unfolding RLimit next_row_ops limit_next_def by (intro refine_intros nx)
next
  case (ROffset a b)
  then show ?thesis unfolding ROffset next_row_ops offset_next_def by (intro refine_intros nx)
next
  case (RSort a b c)
  then show ?thesis unfolding RSort next_row_ops sort_next_def by (intro refine_intros drain)
next
  case (RHashAggregate a b c d)
  then show ?thesis unfolding RHashAggregate next_row_ops aggregate_next_def by (intro refine_intros drain)
next
  case (RHashJoin a b c d e f)
  then show ?thesis unfolding RHashJoin next_row_ops join_next_def Let_def by (intro refine_intros nx drain)
next
  case (RUpdate a b c)
  then show ?thesis unfolding RUpdate next_row_ops update_next_def by (intro refine_intros nx)
next
  case (RUpsert a b c d)
  then show ?thesis unfolding RUpsert next_row_ops upsert_next_def by (intro refine_intros drain)
next
  case (RDelete a b c)
  then show ?thesis unfolding RDelete next_row_ops delete_next_def by (intro refine_intros drain)
qed (simp_all add: next_row_ops refines_refl)

lemma drain_refines:
  assumes "\<And>op. refines (next_row n op) (next_row m op)" and "\<And>b op. refines (drain_rows n b op) (drain_rows m b op)"
  shows "refines (drain_rows (Suc n) b op) (drain_rows (Suc m) b op)"
  unfolding drain_rows.simps drain_step_def by (intro refine_intros assms)

lemma fuel_refines: "refines (next_row n op) (next_row (n + k) op) \<and> refines (drain_rows n b op) (drain_rows (n + k) b op)"
proof (induction n arbitrary: op b)
  case 0
  show ?case unfolding add_0 next_row.simps(1) drain_rows.simps(1) by (intro conjI refines_hang)
next
  case (Suc n)
  then show ?case using next_refines [of n "n + k"] drain_refines [of n "n + k"] unfolding add_Suc by blast
qed

lemma next_row_mono: "next_row n op db = (r, db') \<Longrightarrow> r \<noteq> Hang \<Longrightarrow> n \<le> m \<Longrightarrow> next_row m op db = (r, db')"
  using fuel_refines [of n op "m - n"] by (auto simp: refines_def)

lemma drain_rows_mono: "drain_rows n b op db = (r, db') \<Longrightarrow> r \<noteq> Hang \<Longrightarrow> n \<le> m \<Longrightarrow> drain_rows m b op db = (r, db')"
  using fuel_refines [of n op "m - n" b] by (auto simp: refines_def)

section \<open>Runs of an operator\<close>

text \<open>One call of \<open>next\<close>, with enough fuel.\<close>

definition pull :: "operator \<Rightarrow> database \<Rightarrow> row option \<Rightarrow> operator \<Rightarrow> database \<Rightarrow> bool" where
  "pull op db r op' db' \<longleftrightarrow> (\<exists>n. next_row n op db = (Ok (r, op'), db'))"

inductive pulls :: "operator \<Rightarrow> database \<Rightarrow> row list \<Rightarrow> operator \<Rightarrow> database \<Rightarrow> bool" where
  pulls_Nil: "pulls op db [] op db"
| pulls_Cons: "pull op db (Some r) op1 db1 \<Longrightarrow> pulls op1 db1 rs op2 db2 \<Longrightarrow> pulls op db (r # rs) op2 db2"

inductive_cases pulls_ConsE: "pulls op db (r # rs) op2 db2"
inductive_cases pulls_NilE: "pulls op db [] op2 db2"

definition streams :: "operator \<Rightarrow> database \<Rightarrow> row list \<Rightarrow> database \<Rightarrow> bool" where
  "streams op db rs db' \<longleftrightarrow> (\<exists>op1 db1 op2. pulls op db rs op1 db1 \<and> pull op1 db1 None op2 db')"

lemma streams_Nil: "pull op db None op' db' \<Longrightarrow> streams op db [] db'"
  unfolding streams_def by (blast intro: pulls_Nil)

lemma streams_Cons: "pull op db (Some r) op1 db1 \<Longrightarrow> streams op1 db1 rs db' \<Longrightarrow> streams op db (r # rs) db'"
  unfolding streams_def by (blast intro: pulls_Cons)

lemma streams_induct [consumes 1, case_names Nil Cons]:
  assumes "streams op db rs db'"
    and "\<And>op db op' db'. pull op db None op' db' \<Longrightarrow> P op db [] db'"
    and "\<And>op db r op1 db1 rs db'. pull op db (Some r) op1 db1 \<Longrightarrow> streams op1 db1 rs db' \<Longrightarrow> P op1 db1 rs db' \<Longrightarrow> P op db (r # rs) db'"
  shows "P op db rs db'"
proof -
  from assms(1) obtain op1 db1 op2 where "pulls op db rs op1 db1" "pull op1 db1 None op2 db'" by (auto simp: streams_def)
  then show ?thesis
  proof (induction rule: pulls.induct)
    case (pulls_Cons op db r op1 db1 rs op3 db2)
    then show ?case using assms(3) unfolding streams_def by blast
  qed (rule assms(2))
qed

text \<open>A pull through an operator from the pulls it makes: the fuels are brought to a common value.\<close>

lemma pull_common:
  assumes "pull op db r op1 db1"
  obtains n where "\<And>m. n \<le> m \<Longrightarrow> next_row m op db = (Ok (r, op1), db1)"
  using assms next_row_mono unfolding pull_def by (metis outcome.distinct(5))

lemma pull_step:
  assumes "pull a db r1 a1 db1" and "pull b db1 r2 b1 db2"
    and "\<And>n. next_row n a db = (Ok (r1, a1), db1) \<Longrightarrow> next_row n b db1 = (Ok (r2, b1), db2) \<Longrightarrow> next_row (Suc n) op db = (Ok (r, op'), db')"
  shows "pull op db r op' db'"
proof -
  obtain n m where "\<And>k. n \<le> k \<Longrightarrow> next_row k a db = (Ok (r1, a1), db1)" "\<And>k. m \<le> k \<Longrightarrow> next_row k b db1 = (Ok (r2, b1), db2)"
    using pull_common [OF assms(1)] pull_common [OF assms(2)] by metis
  then have "next_row (Suc (n + m)) op db = (Ok (r, op'), db')" by (intro assms(3)) simp_all
  then show ?thesis unfolding pull_def by blast
qed

lemma pull_step1:
  assumes "pull a db r1 a1 db1" and "\<And>n. next_row n a db = (Ok (r1, a1), db1) \<Longrightarrow> next_row (Suc n) op db = (Ok (r, op'), db')"
  shows "pull op db r op' db'"
  using assms unfolding pull_def by blast

lemma streams_shift:
  assumes "streams op1 db1 rs db'" and "\<And>x op2 db2. pull op1 db1 x op2 db2 \<Longrightarrow> pull op db x op2 db2"
  shows "streams op db rs db'"
  using assms(1)
proof (cases rs)
  case Nil
  with assms show ?thesis unfolding streams_def by (blast elim: pulls_NilE intro: pulls_Nil)
next
  case (Cons r rs')
  with assms show ?thesis unfolding streams_def by (blast elim: pulls_ConsE intro: pulls_Cons)
qed

lemma pure_query_bind [simp]: "bindP (pure_query (Ok a)) k s = k a s"
  by (simp add: pure_query_def)

section \<open>The operators as list functions\<close>

lemma filter_streams:
  assumes "streams op db rs db'" and "\<forall>r \<in> set rs. evaluate_bool p (row_doc r) = Ok (keep r)"
  shows "streams (RFilter op p) db (filter keep rs) db'"
  using assms
proof (induction rule: streams_induct)
  case (Nil op db op' db')
  have "pull (RFilter op p) db None (RFilter op' p) db'"
    using Nil(1) by (rule pull_step1) (simp add: next_row_ops filter_next_def prog_simps)
  then show ?case by (simp add: streams_Nil)
next
  case (Cons op db r op1 db1 rs db')
  have e: "evaluate_bool p (row_doc r) = Ok (keep r)" and ih: "streams (RFilter op1 p) db1 (filter keep rs) db'" using Cons by simp_all
  show ?case
  proof (cases "keep r")
    case True
    have "pull (RFilter op p) db (Some r) (RFilter op1 p) db1"
      using Cons(1) by (rule pull_step1) (simp add: next_row_ops filter_next_def prog_simps e True)
    then show ?thesis using streams_Cons [OF _ ih] True by simp
  next
    case False
    have "streams (RFilter op p) db (filter keep rs) db'"
      using ih by (rule streams_shift, rule_tac pull_step [OF Cons(1)]) (simp_all add: next_row_ops filter_next_def prog_simps e False)
    then show ?thesis using False by simp
  qed
qed

lemma offset_streams:
  assumes "streams op db rs db'"
  shows "streams (ROffset op k) db (drop k rs) db'"
  using assms
proof (induction arbitrary: k rule: streams_induct)
  case (Nil op db op' db')
  then have "pull (ROffset op k) db None (ROffset op' k) db'"
    by (rule pull_step1) (simp add: next_row_ops offset_next_def prog_simps)
  then show ?case by (simp add: streams_Nil)
next
  case (Cons op db r op1 db1 rs db')
  show ?case
  proof (cases k)
    case 0
    have "pull (ROffset op 0) db (Some r) (ROffset op1 0) db1"
      using Cons(1) by (rule pull_step1) (simp add: next_row_ops offset_next_def prog_simps)
    then show ?thesis using streams_Cons [OF _ Cons(3) [of 0]] 0 by simp
  next
    case (Suc j)
    have "streams (ROffset op k) db (drop j rs) db'"
      using Cons(3) [of j] by (rule streams_shift, rule_tac pull_step [OF Cons(1)]) (simp_all add: next_row_ops offset_next_def prog_simps Suc)
    then show ?thesis using Suc by simp
  qed
qed

lemma limit_zero: "pull (RLimit op 0) db None (RLimit op 0) db"
proof -
  have "next_row (Suc 0) (RLimit op 0) db = (Ok (None, RLimit op 0), db)" by (simp add: next_row_ops limit_next_def)
  then show ?thesis unfolding pull_def by blast
qed

lemma limit_streams:
  assumes "streams op db rs db'"
  shows "\<exists>db''. streams (RLimit op k) db (take k rs) db''"
  using assms
proof (induction arbitrary: k rule: streams_induct)
  case (Nil op db op' db')
  show ?case
  proof (cases k)
    case 0
    then show ?thesis using streams_Nil [OF limit_zero] by auto
  next
    case (Suc j)
    have "pull (RLimit op k) db None (RLimit op' k) db'"
      using Nil by (rule pull_step1) (simp add: next_row_ops limit_next_def prog_simps Suc)
    then show ?thesis using streams_Nil [of "RLimit op k"] by auto
  qed
next
  case (Cons op db r op1 db1 rs db')
  show ?case
  proof (cases k)
    case 0
    then show ?thesis using streams_Nil [OF limit_zero] by auto
  next
    case (Suc j)
    have "pull (RLimit op k) db (Some r) (RLimit op1 j) db1"
      using Cons(1) by (rule pull_step1) (simp add: next_row_ops limit_next_def prog_simps Suc)
    moreover obtain d where "streams (RLimit op1 j) db1 (take j rs) d" using Cons(3) by blast
    ultimately have "streams (RLimit op k) db (r # take j rs) d" by (rule streams_Cons)
    then show ?thesis using Suc by auto
  qed
qed

lemma projection_streams:
  assumes "streams op db rs db'" and "\<forall>r \<in> set rs. project items (row_doc r) = Ok (f r)"
  shows "streams (RProjection op (Some items)) db (map (\<lambda>r. row_derived (f r)) rs) db'"
  using assms
proof (induction rule: streams_induct)
  case (Nil op db op' db')
  have "pull (RProjection op (Some items)) db None (RProjection op' (Some items)) db'"
    using Nil(1) by (rule pull_step1) (simp add: next_row_ops projection_next_def prog_simps)
  then show ?case by (simp add: streams_Nil)
next
  case (Cons op db r op1 db1 rs db')
  then have e: "project items (row_doc r) = Ok (f r)" by simp
  have "pull (RProjection op (Some items)) db (Some (row_derived (f r))) (RProjection op1 (Some items)) db1"
    using Cons(1) by (rule pull_step1) (simp add: next_row_ops projection_next_def prog_simps e)
  then show ?case using streams_Cons Cons by simp
qed

lemma drain_streams:
  assumes "streams op db rs db'" and "need_id \<longrightarrow> (\<forall>r \<in> set rs. row_id r \<noteq> None)"
  shows "\<exists>n op'. drain_rows n need_id op db = (Ok (rs, op'), db')"
  using assms
proof (induction rule: streams_induct)
  case (Nil op db op' db')
  then obtain n where "next_row n op db = (Ok (None, op'), db')" by (auto simp: pull_def)
  then have "drain_rows (Suc n) need_id op db = (Ok ([], op'), db')" by (simp add: drain_step_def prog_simps)
  then show ?case by blast
next
  case (Cons op db r op1 db1 rs db')
  obtain n where n: "\<And>m. n \<le> m \<Longrightarrow> next_row m op db = (Ok (Some r, op1), db1)" by (rule pull_common [OF Cons(1)]) blast
  from Cons(3,4) obtain k op' where k: "drain_rows k need_id op1 db1 = (Ok (rs, op'), db')" by auto
  have "drain_rows (n + k) need_id op1 db1 = (Ok (rs, op'), db')" by (rule drain_rows_mono [OF k]) simp_all
  then have "drain_rows (Suc (n + k)) need_id op db = (Ok (r # rs, op'), db')"
    using n [of "n + k"] Cons(4) by (auto simp: drain_step_def prog_simps)
  then show ?case by blast
qed

lemma sorted_buffer_streams: "streams (RSort op keys (Some rows)) db rows db"
proof (induction rows)
  case Nil
  have "next_row (Suc 0) (RSort op keys (Some [])) db = (Ok (None, RSort op keys (Some [])), db)"
    by (simp add: next_row_ops sort_next_def emit_row_def)
  then show ?case unfolding streams_def pull_def by (blast intro: pulls_Nil)
next
  case (Cons r rows)
  have "next_row (Suc 0) (RSort op keys (Some (r # rows))) db = (Ok (Some r, RSort op keys (Some rows)), db)"
    by (simp add: next_row_ops sort_next_def emit_row_def)
  then show ?case by (intro streams_Cons [OF _ Cons.IH]) (auto simp: pull_def)
qed

lemma sort_streams:
  assumes "streams op db rs db'" and "sort_rows keys [] rs = Ok out"
  shows "streams (RSort op keys None) db out db'"
proof -
  obtain n op' where d: "drain_rows n False op db = (Ok (rs, op'), db')" using drain_streams [OF assms(1), of False] by blast
  have run: "next_row (Suc n) (RSort op keys None) db = emit_row (RSort op' keys) out db'"
    by (simp add: next_row_ops sort_next_def d assms(2) prog_simps)
  show ?thesis
  proof (cases out)
    case Nil
    then show ?thesis using run by (auto simp: emit_row_def pull_def intro!: streams_Nil)
  next
    case (Cons r rows)
    then have "pull (RSort op keys None) db (Some r) (RSort op' keys (Some rows)) db'"
      using run by (auto simp: emit_row_def pull_def)
    then show ?thesis using streams_Cons sorted_buffer_streams Cons by blast
  qed
qed

lemma execute_streams:
  assumes "streams (build p) db rs db'" and "\<not> mutating p"
  shows "\<exists>n. \<forall>m \<ge> n. execute m p db = (Ok (Documents (map row_doc rs)), db')"
proof -
  obtain n op' where d: "drain_rows n False (build p) db = (Ok (rs, op'), db')" using drain_streams [OF assms(1), of False] by blast
  have "drain_rows m False (build p) db = (Ok (rs, op'), db')" if "n \<le> m" for m
    by (rule drain_rows_mono [OF d _ that]) simp
  then show ?thesis using assms(2) by (intro exI [of _ n]) (simp add: execute_def prog_simps)
qed

section \<open>Sequential scans\<close>

definition stored_rows :: "(doc_id \<times> document) list \<Rightarrow> row list" where
  "stored_rows docs = map (\<lambda>(d, x). row_stored d x) docs"

lemma stored_rows_simps [simp]:
  "stored_rows [] = []" "stored_rows ((d, x) # docs) = row_stored d x # stored_rows docs" "stored_rows (as @ bs) = stored_rows as @ stored_rows bs"
  by (simp_all add: stored_rows_def)

lemma page_streams:
  assumes "streams (RSeqScan name cursor [] True) db rest db'"
  shows "streams (RSeqScan name cursor docs True) db (stored_rows docs @ rest) db'"
proof (induction docs)
  case (Cons e docs)
  obtain d x where e: "e = (d, x)" by (cases e)
  have "next_row (Suc 0) (RSeqScan name cursor (e # docs) True) db = (Ok (Some (row_stored d x), RSeqScan name cursor docs True), db)"
    by (simp add: next_row_ops seq_scan_next_def e)
  then have "pull (RSeqScan name cursor (e # docs) True) db (Some (row_stored d x)) (RSeqScan name cursor docs True) db"
    unfolding pull_def by blast
  then show ?case using streams_Cons Cons.IH by (simp add: e)
qed (simp add: assms)

lemma scan_end: "pull (RSeqScan name None [] True) db None (RSeqScan name None [] True) db"
proof -
  have "next_row (Suc 0) (RSeqScan name None [] True) db = (Ok (None, RSeqScan name None [] True), db)"
    by (simp add: next_row_ops seq_scan_next_def)
  then show ?thesis unfolding pull_def by blast
qed

lemma load_page_streams:
  assumes page: "database_scan_page name cursor db = (Ok (docs, nx), db1)" and open_cursor: "\<not> (started \<and> cursor = None)"
    and rest: "streams (RSeqScan name nx [] True) db1 rest db'"
  shows "streams (RSeqScan name cursor [] started) db (stored_rows docs @ rest) db'"
proof -
  have load: "on_db (database_scan_page name cursor) db = (Ok (docs, nx), db1)" using page by (simp add: on_db_def map_errP_def)
  have step: "next_row (Suc n) (RSeqScan name cursor [] started) db =
      (if docs = [] \<and> nx = None then (Ok (None, RSeqScan name nx [] True), db1) else next_row n (RSeqScan name nx docs True) db1)" for n
    using open_cursor by (auto simp: next_row_ops seq_scan_next_def load prog_simps)
  have all: "streams (RSeqScan name nx docs True) db1 (stored_rows docs @ rest) db'" by (rule page_streams [OF rest])
  show ?thesis
  proof (rule streams_shift [OF all])
    fix x op2 db2 assume "pull (RSeqScan name nx docs True) db1 x op2 db2"
    then obtain n where n: "next_row n (RSeqScan name nx docs True) db1 = (Ok (x, op2), db2)" by (auto simp: pull_def)
    have "next_row (Suc n) (RSeqScan name cursor [] started) db = (Ok (x, op2), db2)"
    proof (cases "docs = [] \<and> nx = None")
      case True
      then show ?thesis using n step [of n] by (cases n) (auto simp: next_row_ops seq_scan_next_def)
    qed (use n step [of n] in auto)
    then show "pull (RSeqScan name cursor [] started) db x op2 db2" unfolding pull_def by blast
  qed
qed

definition same_database :: "database \<Rightarrow> nat \<Rightarrow> database \<Rightarrow> bool" where
  "same_database db n db' \<longleftrightarrow> pool_inv (db_pool db') \<and> db_view db' = db_view db
     \<and> pool_budget (db_pool db) \<le> pool_budget (db_pool db') + n"

lemma seq_scan_streams_from:
  assumes "pool_inv (db_pool db)" and "db_collection (db_view db) name (us @ p # vs) m"
    and "cursor = Some p \<or> cursor = None \<and> us = []" and "\<not> (started \<and> cursor = None)"
    and "length (p # vs) * (length (us @ p # vs) + 1) \<le> pool_budget (db_pool db)"
  shows "\<exists>db'. streams (RSeqScan name cursor [] started) db (stored_rows (docs_of (pool_view (db_pool db)) m (p # vs))) db'
    \<and> same_database db (length (p # vs) * (length (us @ p # vs) + 1)) db'"
  using assms
proof (induction vs arbitrary: us p cursor started db)
  case Nil
  let ?V = "pool_view (db_pool db)" let ?n = "length (us @ [p]) + 1"
  have b: "?n \<le> pool_budget (db_pool db)" using Nil(5) by simp
  from dbst.totalE [OF scan_page_db_total [OF Nil(2,3)] Nil(1) b]
  obtain db1 where p1: "database_scan_page name cursor db = (Ok (docs_of ?V m [p], None), db1)" "same_database db ?n db1"
    by (auto simp: same_database_def)
  from load_page_streams [OF p1(1) Nil(4) streams_Nil [OF scan_end]] p1(2) show ?case by auto
next
  case (Cons q vs)
  let ?V = "pool_view (db_pool db)" let ?n = "length (us @ p # q # vs) + 1"
  have b: "?n \<le> pool_budget (db_pool db)" using Cons.prems(5) by simp
  from dbst.totalE [OF scan_page_db_total [OF Cons.prems(2,3)] Cons.prems(1) b]
  obtain db1 where p1: "database_scan_page name cursor db = (Ok (docs_of ?V m [p], Some q), db1)" "pool_inv (db_pool db1)"
    "db_view db1 = db_view db" "pool_budget (db_pool db) \<le> pool_budget (db_pool db1) + ?n" by auto
  have "\<exists>db'. streams (RSeqScan name (Some q) [] True) db1 (stored_rows (docs_of (pool_view (db_pool db1)) m (q # vs))) db'
      \<and> same_database db1 (length (q # vs) * (length ((us @ [p]) @ q # vs) + 1)) db'"
  proof (rule Cons.IH)
    show "db_collection (db_view db1) name ((us @ [p]) @ q # vs) m" using Cons.prems(2) p1(3) by simp
    show "length (q # vs) * (length ((us @ [p]) @ q # vs) + 1) \<le> pool_budget (db_pool db1)"
      using Cons.prems(5) p1(4) by simp
  qed (use p1 in simp_all)
  then obtain db' where r: "streams (RSeqScan name (Some q) [] True) db1 (stored_rows (docs_of ?V m (q # vs))) db'"
    and same: "same_database db1 (length (q # vs) * ?n) db'" using p1(3) by auto
  have "same_database db (length (p # q # vs) * ?n) db'" using same p1(3,4) by (simp add: same_database_def)
  then show ?case using load_page_streams [OF p1(1) Cons.prems(4) r] by (auto simp: docs_of_Cons [of ?V m p "q # vs"])
qed

lemma seq_scan_streams:
  assumes "pool_inv (db_pool db)" and "db_collection (db_view db) name ps m"
    and "length ps * (length ps + 1) \<le> pool_budget (db_pool db)"
  shows "\<exists>db'. streams (build (SeqScan name)) db (stored_rows (docs_of (pool_view (db_pool db)) m ps)) db'
    \<and> same_database db (length ps * (length ps + 1)) db'"
proof -
  have "ps \<noteq> []" using assms(2) holds_chain(5) by (auto simp: db_collection_def)
  then obtain p vs where ps: "ps = p # vs" by (cases ps) auto
  show ?thesis
    using seq_scan_streams_from [of db name "[]" p vs m None False] assms by (simp add: ps)
qed

end
