(* ===== verification/Query_Select.thy ===== *)
theory Query_Select
  imports Query_Stream
begin

text \<open>
  Queries end to end. The comparator of \<open>Sort\<close> is reduced to the library's stable sort by a key,
  the plan of a read query to the pipeline of its stages, and the answer of the executor to list
  functions of the documents stored in the collection.
\<close>

section \<open>Sorting\<close>

text \<open>
  \<open>ranked\<close>: on these rows the comparator succeeds and is the order of \<open>rank\<close>. A sort is then the
  stable sort by \<open>rank\<close>, whatever algorithm computes it.
\<close>

definition ranked :: "order_key list \<Rightarrow> (document \<Rightarrow> 'k :: linorder) \<Rightarrow> document set \<Rightarrow> bool" where
  "ranked keys rank X \<longleftrightarrow> (\<forall>x \<in> X. \<forall>y \<in> X. row_cmp keys x y = Ok (cmp (rank x) (rank y)))"

fun place :: "(row \<Rightarrow> 'k :: linorder) \<Rightarrow> row \<Rightarrow> row list \<Rightarrow> row list" where
  "place f r [] = [r]"
| "place f r (y # ys) = (if f r < f y then r # y # ys else y # place f r ys)"

lemma place_mset [simp]: "mset (place f r ys) = add_mset r (mset ys)"
  by (induction ys) auto

lemma place_set [simp]: "set (place f r ys) = insert r (set ys)"
  by (induction ys) auto

lemma place_sorted: "sorted (map f ys) \<Longrightarrow> sorted (map f (place f r ys))"
  by (induction ys) (auto simp: not_less)

lemma place_stable: "sorted (map f ys) \<Longrightarrow> filter (\<lambda>y. f k = f y) (place f r ys) = filter (\<lambda>y. f k = f y) (ys @ [r])"
proof (induction ys)
  case (Cons y ys)
  show ?case
  proof (cases "f r < f y")
    case True
    then have none: "\<forall>z \<in> set (y # ys). f k \<noteq> f z" if "f k = f r" using Cons.prems that by auto
    show ?thesis using True none by (cases "f k = f r") (simp_all add: filter_empty_conv)
  qed (use Cons in auto)
qed simp

lemma sort_insert_place:
  assumes "ranked keys rank X" and "row_doc ` set (r # ys) \<subseteq> X"
  shows "sort_insert keys r ys = Ok (place (\<lambda>r. rank (row_doc r)) r ys)"
  using assms(2)
proof (induction ys)
  case (Cons y ys)
  have "row_cmp keys (row_doc r) (row_doc y) = Ok (cmp (rank (row_doc r)) (rank (row_doc y)))"
    using assms(1) Cons.prems by (simp add: ranked_def)
  then show ?case using Cons by (auto simp: cmp_def)
qed simp

lemma sort_rows_place:
  assumes "ranked keys rank X" and "row_doc ` (set out \<union> set rs) \<subseteq> X"
  shows "sort_rows keys out rs = Ok (fold (place (\<lambda>r. rank (row_doc r))) rs out)"
  using assms(2)
proof (induction rs arbitrary: out)
  case (Cons r rs)
  have "sort_insert keys r out = Ok (place (\<lambda>r. rank (row_doc r)) r out)" using assms(1) Cons.prems by (intro sort_insert_place) auto
  moreover have "sort_rows keys (place (\<lambda>r. rank (row_doc r)) r out) rs = Ok (fold (place (\<lambda>r. rank (row_doc r))) rs (place (\<lambda>r. rank (row_doc r)) r out))"
    using Cons.prems by (intro Cons.IH) auto
  ultimately show ?case by simp
qed simp

lemma fold_place:
  assumes "sorted (map f out)"
  shows "mset (fold (place f) rs out) = mset (out @ rs)" "sorted (map f (fold (place f) rs out))"
    "filter (\<lambda>y. f k = f y) (fold (place f) rs out) = filter (\<lambda>y. f k = f y) (out @ rs)"
  using assms by (induction rs arbitrary: out) (simp_all add: place_sorted place_stable)

lemma sort_rows_sort_key:
  assumes "ranked keys rank X" and "row_doc ` set rs \<subseteq> X"
  shows "sort_rows keys [] rs = Ok (sort_key (\<lambda>r. rank (row_doc r)) rs)"
proof -
  let ?f = "\<lambda>r. rank (row_doc r)"
  have "sort_key ?f rs = fold (place ?f) rs []"
    by (rule properties_for_sort_key) (use fold_place [of ?f "[]"] in simp_all)
  then show ?thesis using sort_rows_place [OF assms(1), of "[]" rs] assms(2) by simp
qed

lemma map_sort_key: "map g (sort_key (\<lambda>x. f (g x)) xs) = sort_key f (map g xs)"
proof (rule sym, rule properties_for_sort_key)
  show "filter (\<lambda>x. f k = f x) (map g (sort_key (\<lambda>x. f (g x)) xs)) = filter (\<lambda>x. f k = f x) (map g xs)"
    if "k \<in> set (map g (sort_key (\<lambda>x. f (g x)) xs))" for k
  proof -
    have "filter (\<lambda>x. f k = f (g x)) (sort_key (\<lambda>x. f (g x)) xs) = filter (\<lambda>x. f k = f (g x)) xs"
      using sort_key_stable [of "\<lambda>x. f (g x)" "f k" xs] by (simp add: eq_commute [of "f k"])
    then show ?thesis by (simp add: filter_map comp_def)
  qed
  show "sorted (map f (map g (sort_key (\<lambda>x. f (g x)) xs)))" using sorted_sort_key [of "\<lambda>x. f (g x)" xs] by (simp add: comp_def)
qed simp

section \<open>The plan of a read query\<close>

lemma no_index_scan: "\<forall>f. \<not> hi name f \<Longrightarrow> first_index_scan hi name xs = None"
  by (induction hi name xs rule: first_index_scan.induct) (simp_all add: try_conjunct_def)

lemma residual_whole:
  obtains p' where "residual_predicate p [] = Some p'" and "\<And>doc. evaluate_bool p' doc = evaluate_bool p doc"
proof -
  have kept: "kept_conjuncts p [] = split_conjuncts p" by (simp add: kept_conjuncts_def)
  have "split_conjuncts p \<noteq> []" by (induction p rule: split_conjuncts.induct) simp_all
  then obtain p' where p': "residual_predicate p [] = Some p'" by (auto simp: residual_predicate_def kept neq_Nil_conv)
  have "evaluate_bool p' doc = evaluate_bool p doc" for doc
    using residual_all_true [of p "[]" doc] by (simp add: p' kept evaluate_conjuncts [of p] filter_result_def)
  with p' show ?thesis by (rule that)
qed

lemma plan_select:
  assumes "\<forall>f. \<not> hi name f" and "0 \<le> sint k" and "0 \<le> sint l"
  obtains p' where "plan hi [SFrom name a, SWhere p, SOrder keys, SOffset k, SLimit l, SSelect (Some items)] =
      Ok (Projection (Limit (Offset (Sort (FilterOp (SeqScan name) p') keys) (nat (sint k))) (nat (sint l))) (Some items))"
    and "\<And>doc. evaluate_bool p' doc = evaluate_bool p doc"
proof -
  obtain p' where p': "residual_predicate p [] = Some p'" "\<And>doc. evaluate_bool p' doc = evaluate_bool p doc" using residual_whole [of p] by blast
  have "plan hi [SFrom name a, SWhere p, SOrder keys, SOffset k, SLimit l, SSelect (Some items)] =
      Ok (Projection (Limit (Offset (Sort (FilterOp (SeqScan name) p') keys) (nat (sint k))) (nat (sint l))) (Some items))"
    using assms by (simp add: plan_def find_insert_def find_where_def plan_source_def no_index_scan plan_step_def plan_stage_def
        p'(1) non_negative_def follows_group_def is_group_def)
  then show ?thesis using that p'(2) by blast
qed

section \<open>Answers\<close>

lemma unindexed_plain: "unindexed (db_catalog db) name \<Longrightarrow> \<forall>field. \<not> has_index db name field"
  by (auto simp: unindexed_def has_index_def catalog_has_index_def indexes_for_def filter_empty_conv)

text \<open>The stored documents as rows: the operators see only the documents.\<close>

lemma row_doc_stored [simp]: "row_doc (row_stored d x) = x"
  by (simp add: row_stored_def)

lemma row_doc_derived [simp]: "row_doc (row_derived x) = x"
  by (simp add: row_derived_def)

lemma docs_of_stored: "map row_doc (stored_rows docs) = map snd docs"
  by (simp add: stored_rows_def case_prod_unfold)

lemma stored_ran:
  assumes "collection_holds (col, V) ps m"
  shows "row_doc ` set (stored_rows (docs_of V m ps)) = ran m"
proof -
  note docs = docs_of_map [OF assms]
  have "row_doc ` set (stored_rows (docs_of V m ps)) = snd ` set (docs_of V m ps)" using arg_cong [OF docs_of_stored, of set] by simp
  also have "\<dots> = ran m" using ran_distinct [OF docs(2)] docs(1) by simp
  finally show ?thesis .
qed

lemma filter_stored: "map row_doc (filter (\<lambda>r. keep (row_doc r)) rs) = filter keep (map row_doc rs)"
  by (simp add: filter_map comp_def)

lemma select_streams:
  assumes scan: "streams (build (SeqScan name)) db rs db1"
    and pred: "\<forall>x \<in> row_doc ` set rs. evaluate_bool p x = Ok (keep x)"
    and rank: "ranked keys rank {x \<in> row_doc ` set rs. keep x}"
    and proj: "\<forall>x \<in> row_doc ` set rs. keep x \<longrightarrow> project items x = Ok (f x)"
  shows "\<exists>out db'. streams (build (Projection (Limit (Offset (Sort (FilterOp (SeqScan name) p) keys) k) l) (Some items))) db out db'
    \<and> map row_doc out = map f (take l (drop k (sort_key rank (filter keep (map row_doc rs)))))"
proof -
  let ?kept = "filter (\<lambda>r. keep (row_doc r)) rs" let ?key = "\<lambda>r. rank (row_doc r)"
  let ?cut = "take l (drop k (sort_key ?key ?kept))"
  have "streams (RFilter (build (SeqScan name)) p) db ?kept db1" by (rule filter_streams [OF scan]) (use pred in simp)
  moreover have "sort_rows keys [] ?kept = Ok (sort_key ?key ?kept)" by (rule sort_rows_sort_key [OF rank]) auto
  ultimately have "streams (RSort (RFilter (build (SeqScan name)) p) keys None) db (sort_key ?key ?kept) db1" by (rule sort_streams)
  from limit_streams [OF offset_streams [OF this, of k], of l]
  obtain db' where cut: "streams (build (Limit (Offset (Sort (FilterOp (SeqScan name) p) keys) k) l)) db ?cut db'" by auto
  have "set ?cut \<subseteq> set ?kept" by (auto dest!: in_set_takeD in_set_dropD)
  then have "\<forall>r \<in> set ?cut. project items (row_doc r) = Ok (f (row_doc r))" using proj by auto
  from projection_streams [OF cut this]
  have "streams (build (Projection (Limit (Offset (Sort (FilterOp (SeqScan name) p) keys) k) l) (Some items))) db
    (map (\<lambda>r. row_derived (f (row_doc r))) ?cut) db'" by simp
  moreover have "map row_doc (map (\<lambda>r. row_derived (f (row_doc r))) ?cut) = map f (take l (drop k (map row_doc (sort_key ?key ?kept))))"
    by (simp add: take_map drop_map comp_def)
  then have "map row_doc (map (\<lambda>r. row_derived (f (row_doc r))) ?cut) = map f (take l (drop k (sort_key rank (filter keep (map row_doc rs)))))"
    by (simp only: map_sort_key filter_stored)
  ultimately show ?thesis by blast
qed

lemma select_query_run:
  assumes inv: "pool_inv (db_pool db)" and b: "length ps * (length ps + 1) \<le> pool_budget (db_pool db)"
    and coll: "db_collection (db_view db) name ps m" and idx: "\<forall>field. \<not> has_index db name field"
    and kl: "0 \<le> sint k" "0 \<le> sint l"
    and pred: "\<forall>x \<in> ran m. evaluate_bool p x = Ok (keep x)" and rank: "ranked keys rank {x \<in> ran m. keep x}"
    and proj: "\<forall>x \<in> ran m. keep x \<longrightarrow> project items x = Ok (f x)"
  shows "\<exists>tree docs fuel db'. plan (has_index db) [SFrom name None, SWhere p, SOrder keys, SOffset k, SLimit l, SSelect (Some items)] = Ok tree
    \<and> map_of docs = m \<and> distinct (map fst docs)
    \<and> (\<forall>n \<ge> fuel. execute n tree db = (Ok (Documents (map f
        (take (nat (sint l)) (drop (nat (sint k)) (sort_key rank (filter keep (map snd docs))))))), db'))"
proof -
  obtain p' where tree: "plan (has_index db) [SFrom name None, SWhere p, SOrder keys, SOffset k, SLimit l, SSelect (Some items)] =
      Ok (Projection (Limit (Offset (Sort (FilterOp (SeqScan name) p') keys) (nat (sint k))) (nat (sint l))) (Some items))" (is "_ = Ok ?tree")
    and p': "\<And>doc. evaluate_bool p' doc = evaluate_bool p doc" using plan_select [of "has_index db" name k l None p keys items] idx kl by blast
  let ?docs = "docs_of (pool_view (db_pool db)) m ps"
  have h: "collection_holds (opened ps, pool_view (db_pool db)) ps m" using coll by (simp add: db_collection_def)
  note docs = docs_of_map [OF h]
  obtain db1 where scan: "streams (build (SeqScan name)) db (stored_rows ?docs) db1" using seq_scan_streams [OF inv coll b] by blast
  note ran = stored_ran [OF h]
  obtain out db' where s: "streams (build ?tree) db out db'"
    "map row_doc out = map f (take (nat (sint l)) (drop (nat (sint k)) (sort_key rank (filter keep (map snd ?docs)))))"
    using select_streams [OF scan, of p' keep keys rank items f "nat (sint k)" "nat (sint l)"] pred rank proj
    unfolding ran p' docs_of_stored by blast
  have "\<not> mutating ?tree" by (simp add: mutating_def)
  with execute_streams [OF s(1)] s(2) obtain fuel where "\<forall>n \<ge> fuel. execute n ?tree db = (Ok (Documents (map f
      (take (nat (sint l)) (drop (nat (sint k)) (sort_key rank (filter keep (map snd ?docs))))))), db')" by auto
  with tree docs show ?thesis by blast
qed

text \<open>
  C6: a read query, planned and executed. For a collection without an index that the database
  holds, the plan of \<open>from c | where p | order keys | offset k | limit l | select items\<close> succeeds, and
  running it returns, with every large enough fuel, the documents that satisfy \<open>p\<close>, in the stable
  order of the keys, without the first \<open>k\<close>, at most \<open>l\<close> of them, each projected: the pull-based
  operators compute the list functions of the same names over the stored documents.
\<close>

theorem select_query_correct:
  assumes inv: "pool_inv (db_pool db)" and b: "length ps * (length ps + 1) \<le> pool_budget (db_pool db)"
    and coll: "db_collection (db_view db) name ps m" and idx: "\<forall>field. \<not> has_index db name field"
    and kl: "0 \<le> sint k" "0 \<le> sint l"
    and pred: "\<forall>x \<in> ran m. evaluate_bool p x = Ok (keep x)" and rank: "ranked keys rank {x \<in> ran m. keep x}"
    and proj: "\<forall>x \<in> ran m. keep x \<longrightarrow> project items x = Ok (f x)"
  shows "\<exists>tree docs fuel db'. plan (has_index db) [SFrom name None, SWhere p, SOrder keys, SOffset k, SLimit l, SSelect (Some items)] = Ok tree
    \<and> map_of docs = m \<and> distinct (map fst docs)
    \<and> (\<forall>n \<ge> fuel. execute n tree db = (Ok (Documents (map f
        (take (nat (sint l)) (drop (nat (sint k)) (sort_key rank (filter keep (map snd docs))))))), db'))"
  by (rule select_query_run [OF assms])

text \<open>The example database after two insertions.\<close>

lemma two_stored_documents:
  assumes "storable x" and "storable y"
  obtains db ps d e where "pool_inv (db_pool db)" "900 \<le> pool_budget (db_pool db)" "length ps \<le> 3" "d \<noteq> e"
    "db_collection (db_view db) ''c'' ps [d \<mapsto> x, e \<mapsto> y]" "unindexed (db_catalog db) ''c''" "cat_indexes (db_catalog db) = []"
proof -
  obtain h s where e: "heap_create example_pool = (Ok h, s)" "pool_inv s" "1023 \<le> pool_budget s"
    "collection_holds (collection_create h, pool_view s) [hf_root h] Map.empty" by (rule example_collection)
  let ?db = "example_database h s" let ?docs = "[x, y]"
  have coll: "db_collection (db_view ?db) ''c'' [hf_root h] Map.empty"
    using holds_reopened(1) [OF e(4)] by (simp add: db_collection_def example_database_def)
  have idx: "unindexed (db_catalog ?db) ''c''"
    by (simp add: unindexed_def example_database_def catalog_unique_index_fields_def indexes_for_def)
  have st: "\<forall>x \<in> set ?docs. storable x" using assms by simp
  obtain ids db where i: "pool_inv (db_pool db)" "docs_inserted (db_view ?db) ''c'' [hf_root h] Map.empty ?docs ids (db_view db)"
    "pool_budget (db_pool ?db) \<le> pool_budget (db_pool db) + (length [hf_root h] + length ?docs * (length [hf_root h] + length ?docs + 4))"
    by (rule dbst.totalE [OF insert_docs_total [OF coll idx st]]) (use e in \<open>auto simp: example_database_def\<close>)
  from i(2) obtain ps where ps: "db_collection (db_view db) ''c'' ps [ids [\<mapsto>] ?docs]" "length ps \<le> 3" "length ids = 2" "distinct ids"
    "db_catalog db = db_catalog ?db" by (auto simp: docs_inserted_def coll_grows_def)
  from ps(3,4) obtain d e' where ids: "ids = [d, e']" "d \<noteq> e'" by (auto simp: length_Suc_conv numeral_2_eq_2)
  have "900 \<le> pool_budget (db_pool db)" "cat_indexes (db_catalog db) = []" using i(3) e(3) ps(5) by (simp_all add: example_database_def)
  with that [of db ps d e'] i(1) ps idx ids show ?thesis by simp
qed

lemma example_two_documents:
  obtains db ps d e where "pool_inv (db_pool db)" "900 \<le> pool_budget (db_pool db)" "length ps \<le> 3" "d \<noteq> e"
    "db_collection (db_view db) ''c'' ps [d \<mapsto> [(''a'', VInt 2)], e \<mapsto> [(''a'', VInt 1)]]" "unindexed (db_catalog db) ''c''"
  by (rule two_stored_documents [OF example_storable [of 2] example_storable [of 1]]) (rule that)

theorem select_query_correct_witness:
  "\<exists>db tree (docs :: (doc_id \<times> document) list) fuel db'. plan (has_index db) [SFrom ''c'' None, SWhere (EBinOp OpGt (EField ''a'') (ELit (LInt 0))),
      SOrder [\<lparr>ok_field = ''a'', ok_direction = Asc\<rparr>], SOffset 0, SLimit 1, SSelect (Some [\<lparr>si_expr = EField ''a'', si_alias = None\<rparr>])] = Ok tree
    \<and> ran (map_of docs) = {[(''a'', VInt 2)], [(''a'', VInt 1)]}
    \<and> (\<forall>n \<ge> fuel. execute n tree db = (Ok (Documents (take 1 (sort_key (\<lambda>x. if x = [(''a'', VInt 1)] then 1 else 2 :: nat)
        (filter (\<lambda>_. True) (map snd docs))))), db'))"
proof -
  obtain db ps d e' where db: "pool_inv (db_pool db)" "900 \<le> pool_budget (db_pool db)" "length ps \<le> 3" "d \<noteq> e'"
    "db_collection (db_view db) ''c'' ps [d \<mapsto> [(''a'', VInt 2)], e' \<mapsto> [(''a'', VInt 1)]]" "unindexed (db_catalog db) ''c''"
    by (rule example_two_documents)
  define m where "m = [d \<mapsto> [(''a'', VInt 2)], e' \<mapsto> [(''a'', VInt 1)]]"
  have m: "ran m = {[(''a'', VInt 2)], [(''a'', VInt 1)]}" using db(4) by (auto simp: m_def ran_def split: if_splits simp del: split_paired_Ex)
  have "length ps * (length ps + 1) \<le> 3 * (3 + 1)" by (intro mult_le_mono) (use db(3) in simp_all)
  with db have e: "pool_inv (db_pool db)" "length ps * (length ps + 1) \<le> pool_budget (db_pool db)"
    "db_collection (db_view db) ''c'' ps m" "\<forall>field. \<not> has_index db ''c'' field" by (simp_all add: m_def unindexed_plain)
  let ?p = "EBinOp OpGt (EField ''a'') (ELit (LInt 0))" let ?keys = "[\<lparr>ok_field = ''a'', ok_direction = Asc\<rparr>]"
  let ?items = "[\<lparr>si_expr = EField ''a'', si_alias = None\<rparr>]"
  let ?rank = "\<lambda>x. if x = [(''a'', VInt 1)] then 1 else 2 :: nat"
  have pred: "\<forall>x \<in> ran m. evaluate_bool ?p x = Ok True"
    by (simp add: m evaluate_bool_def field_or_null_def evaluate_comparison_def is_ordering_op_def cmp_def)
  have rank: "ranked ?keys ?rank {x \<in> ran m. True}"
    by (simp add: m ranked_def field_or_null_def cmp_def)
  have proj: "\<forall>x \<in> ran m. True \<longrightarrow> project ?items x = Ok x"
    by (simp add: m project_def item_name_def field_or_null_def)
  have "0 \<le> sint (0 :: i64)" "0 \<le> sint (1 :: i64)" by simp_all
  from select_query_correct [OF e this pred rank proj]
  obtain tree docs fuel db' where r: "plan (has_index db) [SFrom ''c'' None, SWhere ?p, SOrder ?keys, SOffset 0, SLimit 1, SSelect (Some ?items)] = Ok tree"
    "map_of docs = m" "\<forall>n \<ge> fuel. execute n tree db = (Ok (Documents (map (\<lambda>x. x)
        (take (nat (sint (1 :: i64))) (drop (nat (sint (0 :: i64))) (sort_key ?rank (filter (\<lambda>_. True) (map snd docs))))))), db')" by blast
  have run: "\<forall>n \<ge> fuel. execute n tree db = (Ok (Documents (take 1 (sort_key ?rank (filter (\<lambda>_. True) (map snd docs))))), db')"
    using r(3) by simp
  have stored: "ran (map_of docs) = {[(''a'', VInt 2)], [(''a'', VInt 1)]}" using r(2) m by simp
  show ?thesis by (rule exI [of _ db], rule exI [of _ tree], rule exI [of _ docs], rule exI [of _ fuel], rule exI [of _ db'])
      (intro conjI r(1) run stored)
qed

end
