(* ===== verification/Query_Index.thy ===== *)
theory Query_Index
  imports Query_Select
begin

text \<open>
  Queries that read through an index. \<open>index_mirrors\<close> says that the tree of an index holds the keys of
  the documents of a collection and nothing else, no key twice. The range scan of the tree, the fetch of the
  documents behind the ids and the operator \<open>RIndexScan\<close> on top of them are shown to hand out exactly
  the documents that \<open>scan_visits\<close> says, and a planned and executed query over an index to give the
  answer of the same query over the whole collection. Two theorems show where it does not: when a
  second \<open>where\<close> follows, and on values that the evaluator calls equal while their keys differ.
\<close>

section \<open>Index and collection\<close>

definition index_mirrors :: "catalog \<times> (page_id \<rightharpoonup> page) \<Rightarrow> string \<Rightarrow> string \<Rightarrow> (doc_id \<rightharpoonup> document) \<Rightarrow> ptree \<Rightarrow> bool" where
  "index_mirrors v name field m t \<longleftrightarrow> map_of (cat_indexes (fst v)) (name, field) = Some (pid t) \<and> tree_at (snd v) t
     \<and> (\<forall>key d. (key, d) \<in> set (entries t) \<longleftrightarrow> (\<exists>x w. m d = Some x \<and> doc_get x field = Some w \<and> has_key w \<and> key = key_of w))"

lemma serialize_key_has_key: "has_key v \<Longrightarrow> serialize_key v = (Ok (key_of v) :: ('e, byte list) outcome)"
  by (cases v rule: serialize_key.cases) (auto simp: has_key_def key_of_def)

lemma key_of_nonempty: "has_key v \<Longrightarrow> key_of v \<noteq> []"
  by (cases v rule: serialize_key.cases) (auto simp: has_key_def key_of_def)

lemma key_of_none: "\<not> has_key v \<Longrightarrow> key_of v = []"
  by (cases v rule: serialize_key.cases) (auto simp: has_key_def key_of_def split: if_splits)

lemma in_bounds_has_key:
  assumes "in_bounds b v" and "sb_low b = Some lo" and "has_key lo"
  shows "has_key v"
proof (rule ccontr)
  assume "\<not> has_key v"
  then have "key_of lo \<le> []" using assms(1,2) by (auto simp: in_bounds_def key_of_none)
  then show False using key_of_nonempty [OF assms(3)] by (cases "key_of lo") (simp_all flip: not_less)
qed

text \<open>The ids an index scan finds between two values.\<close>

definition ids_between :: "doc_value \<Rightarrow> doc_value \<Rightarrow> ptree \<Rightarrow> doc_id list" where
  "ids_between lo hi t = map snd (filter (\<lambda>e. key_of lo \<le> fst e \<and> fst e \<le> key_of hi) (entries t))"

lemma ids_between_spec:
  assumes "index_mirrors v name field m t" and b: "sb_low b = Some lo" "sb_high b = Some hi" and "has_key lo"
  shows "distinct (ids_between lo hi t)"
    and "d \<in> set (ids_between lo hi t) \<longleftrightarrow> (\<exists>x. m d = Some x \<and> scan_visits (IndexScan name field b) x)"
proof -
  have t: "tree_at (snd v) t" and e: "\<And>key d. (key, d) \<in> set (entries t) \<longleftrightarrow> (\<exists>x w. m d = Some x \<and> doc_get x field = Some w \<and> has_key w \<and> key = key_of w)"
    using assms(1) unfolding index_mirrors_def by blast+
  have "sorted_wrt (<) (map fst (entries t))" using ordered_sorted [of t] t by (simp add: tree_at_def keys_of_def)
  then have "distinct (entries t)" by (simp add: strict_sorted_iff distinct_map)
  moreover have "inj_on snd (set (entries t))" using e by (fastforce simp: inj_on_def)
  ultimately show "distinct (ids_between lo hi t)" unfolding ids_between_def by (auto simp: distinct_map inj_on_def)
  show "d \<in> set (ids_between lo hi t) \<longleftrightarrow> (\<exists>x. m d = Some x \<and> scan_visits (IndexScan name field b) x)"
  proof
    assume "d \<in> set (ids_between lo hi t)"
    then obtain key where "(key, d) \<in> set (entries t)" "key_of lo \<le> key" "key \<le> key_of hi" by (auto simp: ids_between_def)
    then show "\<exists>x. m d = Some x \<and> scan_visits (IndexScan name field b) x" using b unfolding e by (auto simp: scan_visits_def in_bounds_def)
  next
    assume "\<exists>x. m d = Some x \<and> scan_visits (IndexScan name field b) x"
    then obtain x w where x: "m d = Some x" "doc_get x field = Some w" "in_bounds b w" by (auto simp: scan_visits_def split: option.splits)
    then have "(key_of w, d) \<in> set (entries t)" using in_bounds_has_key [OF x(3) b(1) assms(4)] unfolding e by blast
    then show "d \<in> set (ids_between lo hi t)" using x(3) b by (force simp: ids_between_def in_bounds_def)
  qed
qed

section \<open>The range scan and the fetch\<close>

lemma index_range_scan_total:
  assumes "index_mirrors (c, pool_view s) name field m t" and "has_key lo" and "has_key hi"
  shows "catst.total (Suc (height t) + length (leaves t)) (index_range_scan name field lo hi) (c, s)
    (\<lambda>r v. v = (c, pool_view s) \<and> r = ids_between lo hi t)"
proof -
  have t: "tree_at (pool_view s) t" "map_of (cat_indexes c) (name, field) = Some (pid t)" using assms(1) by (simp_all add: index_mirrors_def)
  have "treest.total (Suc (height t) + length (leaves t)) (btree_range_scan (key_of lo) (key_of hi)) (pid t, s)
      (\<lambda>x (r, V). V = pool_view s \<and> x = ids_between lo hi t)"
    by (rule treest.total_conseq [OF btree_range_scan_total [OF t(1)]]) (auto simp: ids_between_def)
  from with_btree_total [OF this, of c]
  have "catst.total (Suc (height t) + length (leaves t)) (with_btree (pid t) (btree_range_scan (key_of lo) (key_of hi))) (c, s)
      (\<lambda>r v. v = (c, pool_view s) \<and> r = ids_between lo hi t)" by (rule catst.total_conseq) (auto split: prod.splits)
  then show ?thesis
    unfolding index_range_scan_def on_index_def catalog_index_root_def
    by (intro catst.total_bind_pure [where a = "Some (pid t)"])
      (simp_all add: readP_def t(2) serialize_key_has_key [OF assms(2)] serialize_key_has_key [OF assms(3)] catst.total_def)
qed

lemma get_each_total:
  assumes "collection_holds (coll_view cs) ps m" and "\<forall>d \<in> set ids. m d \<noteq> None"
  shows "collst.total (length ids) (get_each ids) cs (\<lambda>r v. v = coll_view cs \<and> r = map (\<lambda>d. (d, the (m d))) ids)"
  using assms
proof (induction ids arbitrary: cs)
  case Nil
  then show ?case by (simp add: collst.total_def)
next
  case (Cons d ids)
  obtain x where x: "m d = Some x" using Cons.prems(2) by auto
  have d: "fst d \<in> set ps" by (rule colls.holds_page [OF Cons.prems(1) x])
  have "collst.total (1 + (length ids + 0)) (get_each (d # ids)) cs (\<lambda>r v. v = coll_view cs \<and> r = map (\<lambda>d. (d, the (m d))) (d # ids))"
    unfolding get_each.simps
  proof (rule collst.total_bind [OF colls.get_law [OF Cons.prems(1) d]])
    fix r cs1 assume r: "r = m d \<and> coll_view cs1 = coll_view cs"
    then have h: "collection_holds (coll_view cs1) ps m" "\<forall>d \<in> set ids. m d \<noteq> None" using Cons.prems by simp_all
    show "collst.total (length ids + 0) (bindP (get_each ids) (\<lambda>rest. returnP (case r of None \<Rightarrow> rest | Some doc \<Rightarrow> (d, doc) # rest))) cs1
        (\<lambda>r v. v = coll_view cs \<and> r = map (\<lambda>d. (d, the (m d))) (d # ids))"
      by (rule collst.total_bind [OF Cons.IH [OF h]], rule collst.total_return) (use r x in auto)
  qed
  then show ?case by simp
qed

lemma fetch_docs_total:
  assumes coll: "db_collection (db_view db) name ps m" and ids: "\<forall>d \<in> set ids. m d \<noteq> None"
  shows "dbst.total (length ps + length ids) (fetch_docs name ids) db (\<lambda>r v. v = db_view db \<and> r = map (\<lambda>d. (d, the (m d))) ids)"
proof (cases "ids = []")
  case True
  then show ?thesis by (auto simp: fetch_docs_def dbst.total_def)
next
  case False
  have h: "collection_holds (opened ps, pool_view (db_pool db)) ps m" using coll by (simp add: db_collection_def)
  have "collst.total (length ids) (get_each ids) (opened ps, s) (\<lambda>r v. v = (opened ps, pool_view s) \<and> r = map (\<lambda>d. (d, the (m d))) ids)"
    if "pool_view s = pool_view (db_pool db)" for s
    using get_each_total [of "(opened ps, s)" ps m ids] h ids that by simp
  from on_parts_opened [OF coll _ this] show ?thesis using False by (simp add: fetch_docs_def)
qed

lemma range_index_total:
  fixes b :: scan_bounds
  assumes coll: "db_collection (db_view db) name ps m" and idx: "index_mirrors (db_view db) name field m t"
    and b: "sb_low b = Some lo" "sb_high b = Some hi" and key: "has_key lo" "has_key hi"
  shows "dbst.total (Suc (height t) + length (leaves t) + (length ps + length (entries t))) (range_index name field lo hi) db
    (\<lambda>r v. v = db_view db \<and> r = map (\<lambda>d. (d, the (m d))) (ids_between lo hi t))"
  unfolding range_index_def
proof (rule dbst.total_bind [OF on_parts_total [OF index_range_scan_total [OF idx key]]])
  let ?ids = "ids_between lo hi t"
  fix ids db1 assume r: "db_view db1 = db_view db \<and> ids = ?ids"
  have "\<forall>d \<in> set ?ids. m d \<noteq> None" using ids_between_spec(2) [OF idx b key(1)] by auto
  moreover have "db_collection (db_view db1) name ps m" using r coll by simp
  ultimately have f: "dbst.total (length ps + length ?ids) (fetch_docs name ?ids) db1 (\<lambda>r v. v = db_view db1 \<and> r = map (\<lambda>d. (d, the (m d))) ?ids)"
    by (rule fetch_docs_total [rotated])
  have le: "length ?ids \<le> length (entries t)" by (simp add: ids_between_def)
  show "dbst.total (length ps + length (entries t)) (fetch_docs name ids) db1 (\<lambda>r v. v = db_view db \<and> r = map (\<lambda>d. (d, the (m d))) ?ids)"
    unfolding conjunct2 [OF r] by (rule dbst.total_conseq [OF f]) (use r le in simp_all)
qed

section \<open>The operator\<close>

lemma index_buffer_streams: "streams (RIndexScan name field b (Some docs)) db (stored_rows docs) db"
proof (induction docs)
  case Nil
  have "next_row (Suc 0) (RIndexScan name field b (Some [])) db = (Ok (None, RIndexScan name field b (Some [])), db)"
    by (simp add: next_row_ops index_scan_next_def)
  then show ?case by (auto intro!: streams_Nil simp: pull_def)
next
  case (Cons e docs)
  obtain d x where e: "e = (d, x)" by (cases e)
  have "next_row (Suc 0) (RIndexScan name field b (Some (e # docs))) db = (Ok (Some (row_stored d x), RIndexScan name field b (Some docs)), db)"
    by (simp add: next_row_ops index_scan_next_def e)
  then show ?case unfolding e stored_rows_simps by (intro streams_Cons [OF _ Cons.IH]) (auto simp: pull_def)
qed

lemma index_scan_streams:
  assumes "range_index name field lo hi db = (Ok docs, db1)" and "sb_low b = Some lo" and "sb_high b = Some hi"
  shows "streams (build (IndexScan name field b)) db (stored_rows docs) db1"
proof -
  have load: "index_rows name field b db = (Ok docs, db1)"
    using assms by (simp add: index_rows_def on_db_def map_errP_def)
  show ?thesis
  proof (cases docs)
    case Nil
    have "next_row (Suc 0) (RIndexScan name field b None) db = (Ok (None, RIndexScan name field b (Some [])), db1)"
      by (simp add: next_row_ops index_scan_next_def prog_simps load Nil)
    then show ?thesis by (auto intro!: streams_Nil simp: pull_def Nil)
  next
    case (Cons e rest)
    obtain d x where e: "e = (d, x)" by (cases e)
    have "next_row (Suc 0) (RIndexScan name field b None) db = (Ok (Some (row_stored d x), RIndexScan name field b (Some rest)), db1)"
      by (simp add: next_row_ops index_scan_next_def prog_simps load Cons e)
    then show ?thesis unfolding Cons e stored_rows_simps by (intro streams_Cons [OF _ index_buffer_streams]) (auto simp: pull_def)
  qed
qed

section \<open>A query with one predicate\<close>

text \<open>An index that mirrors the collection, with the accesses that a scan of it may need.\<close>

definition index_ready :: "database \<Rightarrow> string \<Rightarrow> page_id list \<Rightarrow> (doc_id \<rightharpoonup> document) \<Rightarrow> string \<Rightarrow> bool" where
  "index_ready db name ps m field \<longleftrightarrow> (\<exists>t. index_mirrors (db_view db) name field m t
     \<and> Suc (height t) + length (leaves t) + (length ps + length (entries t)) \<le> pool_budget (db_pool db))"

lemma source_streams:
  assumes inv: "pool_inv (db_pool db)" and b: "length ps * (length ps + 1) \<le> pool_budget (db_pool db)"
    and coll: "db_collection (db_view db) name ps m"
    and idx: "\<forall>c \<in> set (split_conjuncts p). \<forall>field. indexed_field_of c = Some field \<longrightarrow> has_index db name field \<longrightarrow> index_ready db name ps m field"
    and lit: "literals_have_keys p" and src: "plan_source (has_index db) name (Some p) = (src, absorbed)"
  obtains docs db1 where "streams (build src) db (stored_rows docs) db1" and "distinct (map fst docs)"
    and "\<And>d x. (d, x) \<in> set docs \<longleftrightarrow> m d = Some x \<and> scan_visits src x"
proof (cases rule: plan_source_cases [OF src lit])
  case 1
  let ?docs = "docs_of (pool_view (db_pool db)) m ps"
  have h: "collection_holds (opened ps, pool_view (db_pool db)) ps m" using coll by (simp add: db_collection_def)
  note docs = docs_of_map [OF h]
  obtain db1 where "streams (build (SeqScan name)) db (stored_rows ?docs) db1" using seq_scan_streams [OF inv coll b] by blast
  moreover have "(d, x) \<in> set ?docs \<longleftrightarrow> m d = Some x \<and> scan_visits src x" for d x
    using docs map_of_eq_Some_iff [OF docs(2), of d x] 1 by (simp add: scan_visits_def)
  ultimately show thesis using that docs(2) 1 by blast
next
  case (2 c field bnd lo hi)
  then obtain t where t: "index_mirrors (db_view db) name field m t"
    "Suc (height t) + length (leaves t) + (length ps + length (entries t)) \<le> pool_budget (db_pool db)"
    using idx unfolding index_ready_def by blast
  let ?docs = "map (\<lambda>d. (d, the (m d))) (ids_between lo hi t)"
  obtain db1 where "range_index name field lo hi db = (Ok ?docs, db1)"
    by (rule dbst.totalE [OF range_index_total [OF coll t(1) 2(5-8)] inv t(2)]) simp
  then have "streams (build src) db (stored_rows ?docs) db1" unfolding 2(1) by (rule index_scan_streams) (use 2 in simp_all)
  moreover have "distinct (map fst ?docs)" using ids_between_spec(1) [OF t(1) 2(5-7)] by (simp add: comp_def)
  moreover have "(d, x) \<in> set ?docs \<longleftrightarrow> m d = Some x \<and> scan_visits src x" for d x
    using ids_between_spec(2) [OF t(1) 2(5-7), of d] unfolding 2(1) by auto
  ultimately show thesis by (rule that)
qed

definition where_tree :: "physical_op \<Rightarrow> expr option \<Rightarrow> physical_op" where
  "where_tree src residual = (case residual of Some r \<Rightarrow> FilterOp src r | None \<Rightarrow> src)"

lemma plan_where:
  "plan_source hi name (Some p) = (src, absorbed) \<Longrightarrow>
    plan hi [SFrom name a, SWhere p] = Ok (where_tree src (residual_predicate p absorbed))"
  by (simp add: plan_def find_insert_def find_where_def plan_step_def where_tree_def)

lemma where_streams:
  assumes "streams (build src) db (stored_rows docs) db1" and "\<forall>x \<in> snd ` set docs. filter_result residual x = Ok (keep x)"
  shows "streams (build (where_tree src residual)) db (stored_rows (filter (\<lambda>(d, x). keep x) docs)) db1"
proof (cases residual)
  case None
  then have "filter (\<lambda>(d, x). keep x) docs = docs" using assms(2) by (auto simp: filter_result_def intro!: filter_True)
  then show ?thesis using assms(1) None by (simp add: where_tree_def)
next
  case (Some r)
  have "streams (RFilter (build src) r) db (filter (\<lambda>row. keep (row_doc row)) (stored_rows docs)) db1"
    by (rule filter_streams [OF assms(1)]) (use assms(2) Some in \<open>auto simp: filter_result_def stored_rows_def\<close>)
  moreover have "filter (\<lambda>row. keep (row_doc row)) (stored_rows docs) = stored_rows (filter (\<lambda>(d, x). keep x) docs)"
    by (induction docs) auto
  ultimately show ?thesis using Some by (simp add: where_tree_def)
qed

lemma plan_source_reads: "plan_source hi name p = (src, absorbed) \<Longrightarrow> \<not> mutating (where_tree src residual)"
  by (cases residual) (auto simp: where_tree_def mutating_def plan_source_def try_conjunct_Some split: option.splits dest!: first_index_scan_Some)

text \<open>The answer of the plan: the documents that the source visits and the residual filter keeps.\<close>

lemma where_query_run:
  assumes inv: "pool_inv (db_pool db)" and b: "length ps * (length ps + 1) \<le> pool_budget (db_pool db)"
    and coll: "db_collection (db_view db) name ps m"
    and idx: "\<forall>c \<in> set (split_conjuncts p). \<forall>field. indexed_field_of c = Some field \<longrightarrow> has_index db name field \<longrightarrow> index_ready db name ps m field"
    and lit: "literals_have_keys p" and src: "plan_source (has_index db) name (Some p) = (src, absorbed)"
    and keep: "\<forall>x \<in> ran m. scan_visits src x \<longrightarrow> filter_result residual x = Ok (keep x)"
  obtains docs fuel db' where "distinct (map fst docs)" and "\<forall>d x. (d, x) \<in> set docs \<longleftrightarrow> m d = Some x \<and> scan_visits src x \<and> keep x"
    and "\<forall>n \<ge> fuel. execute n (where_tree src residual) db = (Ok (Documents (map snd docs)), db')"
proof -
  obtain docs db1 where docs: "streams (build src) db (stored_rows docs) db1" "distinct (map fst docs)"
    "\<And>d x. (d, x) \<in> set docs \<longleftrightarrow> m d = Some x \<and> scan_visits src x" by (rule source_streams [OF inv b coll idx lit src]) blast
  let ?docs = "filter (\<lambda>(d, x). keep x) docs"
  have "\<forall>x \<in> snd ` set docs. filter_result residual x = Ok (keep x)" using docs(3) keep by (metis (no_types, lifting) image_iff prod.collapse ranI)
  from where_streams [OF docs(1) this] have "streams (build (where_tree src residual)) db (stored_rows ?docs) db1" .
  from execute_streams [OF this plan_source_reads [OF src]]
  obtain fuel where "\<forall>n \<ge> fuel. execute n (where_tree src residual) db = (Ok (Documents (map snd ?docs)), db1)" by (auto simp: docs_of_stored)
  moreover have "distinct (map fst ?docs)" using docs(2) by (rule distinct_map_filter)
  ultimately show thesis using that [of ?docs fuel db1] docs(3) by auto
qed

section \<open>A database with an index\<close>

lemma collection_same_pages:
  assumes h: "collection_holds (c, V) ps m" and eq: "\<forall>q \<in> set ps. V' q = V q"
  shows "collection_holds (c, V') ps m"
proof -
  have "heap_map V' ps = heap_map V ps" using eq by (auto simp: heap_map_def)
  with h eq chain_view_cong [OF eq] show ?thesis by (auto simp: collection_holds_def heap_holds_def heap_rep_def)
qed

lemma stored_id_ok:
  assumes h: "collection_holds (c, pool_view s) ps m" and d: "m d = Some x" and b: "0 < pool_budget s"
  shows "doc_id_ok d"
proof -
  note ch = holds_chain [OF h]
  obtain p i where di: "d = (p, i)" by (cases d)
  have r: "heap_map (pool_view s) ps d = Some (serialize_document x)" using ch(3) d by (simp add: encoded_def)
  then have p: "p \<in> set ps" by (simp add: heap_map_def di split: if_splits)
  then obtain pg where pg: "pool_view s p = Some pg" "heap_page_ok pg" by (rule chain_page [OF ch(1)])
  then have "i < hp_count pg" using r p by (simp add: heap_map_def di page_record_def split: if_splits)
  moreover have "hp_count pg < 2 ^ 16" using pg(2) by (simp add: heap_page_ok_def SLOT_SIZE_def PAGE_SIZE_def)
  moreover have "p < U64_MAX" using pool_view_dom [of s p] pg(1) b by (auto simp: disk_allocated_def pool_budget_def)
  ultimately show ?thesis by (simp add: doc_id_ok_def di U64_MAX_def)
qed

text \<open>Two stored documents and an index whose tree is one leaf with their keys.\<close>

lemma indexed_database:
  fixes es :: "doc_id \<Rightarrow> doc_id \<Rightarrow> (key \<times> doc_id) list"
  assumes st: "storable x" "storable y"
    and es: "\<And>d e. d \<noteq> e \<Longrightarrow> page_fit K LEAF_SLOT (es d e)" "\<And>d e. length (es d e) \<le> 2"
    and mirror: "\<And>d e key i. d \<noteq> e \<Longrightarrow> (key, i) \<in> set (es d e) \<longleftrightarrow>
      (\<exists>z w. [d \<mapsto> x, e \<mapsto> y] i = Some z \<and> doc_get z field = Some w \<and> has_key w \<and> key = key_of w)"
  obtains db ps d e where "pool_inv (db_pool db)" "length ps * (length ps + 1) \<le> pool_budget (db_pool db)" "d \<noteq> e"
    "db_collection (db_view db) ''c'' ps [d \<mapsto> x, e \<mapsto> y]" "\<forall>f. has_index db ''c'' f \<longleftrightarrow> f = field"
    "index_ready db ''c'' ps [d \<mapsto> x, e \<mapsto> y] field"
proof -
  obtain db ps d e where db: "pool_inv (db_pool db)" "900 \<le> pool_budget (db_pool db)" "length ps \<le> 3" "d \<noteq> e"
    "db_collection (db_view db) ''c'' ps [d \<mapsto> x, e \<mapsto> y]" by (rule two_stored_documents [OF st])
  let ?m = "[d \<mapsto> x, e \<mapsto> y]" let ?es = "es d e"
  have h: "collection_holds (opened ps, pool_view (db_pool db)) ps ?m" using db(5) by (simp add: db_collection_def)
  have b1: "1 \<le> pool_budget (db_pool db)" "0 < pool_budget (db_pool db)" using db(2) by simp_all
  have "\<forall>p \<in> set ?es. doc_id_ok (snd p)"
    using mirror [OF db(4)] stored_id_ok [OF h _ b1(2)] by (metis prod.collapse)
  then obtain root s where r: "pool_inv s" "pool_view (db_pool db) root = None \<and> (\<exists>pg. pool_view s = (pool_view (db_pool db))(root \<mapsto> pg))
      \<and> tree_at (pool_view s) (PLeaf root ?es NO_NEXT_LEAF) \<and> sized K (PLeaf root ?es NO_NEXT_LEAF)" "pool_budget (db_pool db) \<le> pool_budget s + 1"
    by (rule pool.totalE [OF leaf_of_total [OF es(1) [OF db(4)]] db(1) b1(1)])
  then obtain pg where s: "pool_inv s" "pool_view (db_pool db) root = None" "pool_view s = (pool_view (db_pool db))(root \<mapsto> pg)"
    "tree_at (pool_view s) (PLeaf root ?es NO_NEXT_LEAF)" "pool_budget (db_pool db) \<le> pool_budget s + 1" by blast
  let ?db = "\<lparr>db_catalog = (db_catalog db)\<lparr>cat_indexes := [((''c'', field), root)]\<rparr>, db_pool = s\<rparr>"
  have "index_mirrors (db_view ?db) ''c'' field ?m (PLeaf root ?es NO_NEXT_LEAF)"
    using s(4) mirror [OF db(4)] by (simp add: index_mirrors_def)
  then have "index_ready ?db ''c'' ps ?m field"
    unfolding index_ready_def using db(2,3) s(5) es(2) [of d e] by (intro exI [of _ "PLeaf root ?es NO_NEXT_LEAF"]) simp
  moreover have "set ps \<subseteq> dom (pool_view (db_pool db))" using chain_page [OF holds_chain(1) [OF h]] by blast
  then have "\<forall>q \<in> set ps. pool_view s q = pool_view (db_pool db) q" using s(2,3) by auto
  then have "db_collection (db_view ?db) ''c'' ps ?m"
    using db(5) collection_same_pages [OF h] by (simp add: db_collection_def)
  moreover have "length ps * (length ps + 1) \<le> 3 * (3 + 1)" using db(3) by (intro mult_le_mono) simp_all
  ultimately show thesis
    using that [of ?db ps d e] s(1,5) db(2,4) by (simp add: has_index_def catalog_has_index_def)
qed

lemma stored_keys:
  assumes "d \<noteq> e" and "doc_get x field = Some v" "has_key v" and "doc_get y field = Some w" "has_key w"
  shows "(key, i) \<in> set [(key_of v, d), (key_of w, e)] \<longleftrightarrow>
    (\<exists>z u. [d \<mapsto> x, e \<mapsto> y] i = Some z \<and> doc_get z field = Some u \<and> has_key u \<and> key = key_of u)"
  using assms by auto

text \<open>The documents \<open>{a: 1, b: 1}\<close> and \<open>{a: 2, b: 2}\<close> with an index on \<open>a\<close>.\<close>

abbreviation (input) doc_ab :: "i64 \<Rightarrow> document" where
  "doc_ab n \<equiv> [(''a'', VInt n), (''b'', VInt n)]"

lemma doc_ab_storable: "storable (doc_ab n)"
  by (simp add: storable_def document_ok_def utf8_valid_def serialize_document_def write_document_def write_len_def
      write_bytes_def MAX_RECORD_SIZE_def heap_consts PAGE_SIZE_def)

lemma example_indexed:
  obtains db ps d e where "pool_inv (db_pool db)" "length ps * (length ps + 1) \<le> pool_budget (db_pool db)" "d \<noteq> e"
    "db_collection (db_view db) ''c'' ps [d \<mapsto> doc_ab 1, e \<mapsto> doc_ab 2]" "\<forall>f. has_index db ''c'' f \<longleftrightarrow> f = ''a''"
    "index_ready db ''c'' ps [d \<mapsto> doc_ab 1, e \<mapsto> doc_ab 2] ''a''"
proof -
  let ?es = "\<lambda>d e. [(key_of (VInt 1), d), (key_of (VInt 2), e)]"
  have hk: "has_key (VInt n)" for n by (simp add: has_key_def)
  have "key_of (VInt 1) < key_of (VInt 2)" using key_of_less [OF hk hk, of 1 2] by simp
  moreover have "length (key_of (VInt n)) = 9" for n by (simp add: key_of_def)
  ultimately have fit: "page_fit 9 LEAF_SLOT (?es d e)" for d e :: doc_id
    by (simp add: page_fit_def node_capacity_def LEAF_SLOT_def PAGE_SIZE_def NODE_HEADER_SIZE_def)
  have mirror: "d \<noteq> e \<Longrightarrow> (key, i) \<in> set (?es d e) \<longleftrightarrow>
      (\<exists>z u. [d \<mapsto> doc_ab 1, e \<mapsto> doc_ab 2] i = Some z \<and> doc_get z ''a'' = Some u \<and> has_key u \<and> key = key_of u)" for d e key i
    by (rule stored_keys) (simp_all add: hk)
  show thesis
    by (rule indexed_database [where es = ?es, OF doc_ab_storable doc_ab_storable fit _ mirror]) (simp_all add: that)
qed

text \<open>An answer of one row.\<close>

lemma only_row:
  fixes m :: "doc_id \<rightharpoonup> document"
  assumes "\<forall>i z. (i, z) \<in> set docs \<longleftrightarrow> m i = Some z \<and> P z" and "distinct (map fst docs)" and "m i = Some x" and "P x"
    and "\<forall>j z. m j = Some z \<longrightarrow> P z \<longrightarrow> j = i"
  shows "map snd docs = [x]"
proof -
  have "(j, z) \<in> set docs \<longleftrightarrow> j = i \<and> z = x" for j z
    using spec [OF spec [OF assms(1), of j], of z] spec [OF spec [OF assms(5), of j], of z] assms(3,4) by auto
  then have s: "set docs = {(i, x)}" by auto
  moreover have "distinct docs" using assms(2) by (simp add: distinct_map)
  ultimately have "length docs = 1" using distinct_card [of docs] by simp
  with s show ?thesis by (auto simp: length_Suc_conv)
qed

section \<open>A comparison that the index absorbs\<close>

text \<open>\<open>field == lit\<close>, or \<open>field >= lit\<close> and \<open>field <= lit\<close> with a number: the comparisons that an index scan
  replaces altogether.\<close>

definition absorbable :: "bin_op \<Rightarrow> lit_value \<Rightarrow> bool" where
  "absorbable op lit \<longleftrightarrow> op = OpEq \<or> op \<in> {OpGtEq, OpLtEq} \<and> (\<exists>n. lit = LInt n \<or> lit = LFloat n)"

lemma absorbed_source:
  assumes "absorbable op lit" and "hi name field"
  obtains b cb where "as_index_bound (EBinOp op (EField field) (ELit lit)) field = Some (b, True)" and "close_bounds b = Some cb"
    and "plan_source hi name (Some (EBinOp op (EField field) (ELit lit))) = (IndexScan name field cb, [0])"
proof -
  have "\<exists>b cb. as_index_bound (EBinOp op (EField field) (ELit lit)) field = Some (b, True) \<and> close_bounds b = Some cb"
    using assms(1)
    by (auto simp: absorbable_def as_index_bound_def normalised_test_def close_bounds_def bounds_exact_def type_max_def type_min_def)
  then obtain b cb where bc: "as_index_bound (EBinOp op (EField field) (ELit lit)) field = Some (b, True)" "close_bounds b = Some cb" by blast
  moreover have "op \<noteq> OpAnd" using assms(1) by (auto simp: absorbable_def)
  then have "split_conjuncts (EBinOp op (EField field) (ELit lit)) = [EBinOp op (EField field) (ELit lit)]" by (cases op) simp_all
  ultimately have "plan_source hi name (Some (EBinOp op (EField field) (ELit lit))) = (IndexScan name field cb, [0])"
    using assms(2) by (simp add: plan_source_def try_conjunct_def indexed_field_of_def)
  with bc show thesis by (rule that)
qed

lemma single_conjunct:
  assumes "absorbable op lit"
  shows "split_conjuncts (EBinOp op (EField field) (ELit lit)) = [EBinOp op (EField field) (ELit lit)]"
  using assms by (auto simp: absorbable_def)

lemma residual_dropped: "split_conjuncts q = [q] \<Longrightarrow> residual_predicate q [0] = None"
  by (simp add: residual_predicate_def kept_conjuncts_def)

lemma absorbed_query_run:
  assumes inv: "pool_inv (db_pool db)" and b: "length ps * (length ps + 1) \<le> pool_budget (db_pool db)"
    and coll: "db_collection (db_view db) name ps m" and a: "absorbable op lit" "has_key (literal_to_value lit)"
    and idx: "has_index db name field" "index_ready db name ps m field"
    and src: "plan_source (has_index db) name (Some (EBinOp op (EField field) (ELit lit))) = (src, absorbed)"
  obtains docs fuel db' where "distinct (map fst docs)" and "\<forall>d x. (d, x) \<in> set docs \<longleftrightarrow> m d = Some x \<and> scan_visits src x"
    and "\<forall>n \<ge> fuel. execute n src db = (Ok (Documents (map snd docs)), db')"
proof -
  let ?p = "EBinOp op (EField field) (ELit lit)"
  note one = single_conjunct [OF a(1), of field]
  have "\<forall>c \<in> set (split_conjuncts ?p). \<forall>f. indexed_field_of c = Some f \<longrightarrow> has_index db name f \<longrightarrow> index_ready db name ps m f"
    unfolding one using idx by (simp add: indexed_field_of_def)
  moreover have "literals_have_keys ?p" unfolding literals_have_keys_def one using a(2) by (simp add: indexed_field_of_def normalised_test_def)
  ultimately show thesis
    by (rule where_query_run [OF inv b coll _ _ src, of None "\<lambda>_. True"])
      (use that in \<open>simp_all add: filter_result_def where_tree_def\<close>)
qed

section \<open>Properties\<close>

text \<open>
  C24: reading through an index does not change the answer. A collection, some of whose fields have
  an index that mirrors it (a key for every document with an indexable value in the field, no two
  documents with the same value), and a predicate \<open>p\<close> that evaluates without error on the stored
  documents. On every stored document each comparison of a field with a literal in \<open>p\<close> is to be one
  that keys decide as the evaluator does (\<open>index_safe\<close>: the value has the type of the literal, no NaN and
  not the other zero; a missing field only against a literal other than \<open>null\<close>). Then \<open>from c | where p\<close>
  has a plan, with or without an index scan, and running it returns, with every large enough fuel,
  exactly the stored documents that satisfy \<open>p\<close>, each once, in an order that depends on the plan.
\<close>

theorem index_query_correct:
  assumes inv: "pool_inv (db_pool db)" and b: "length ps * (length ps + 1) \<le> pool_budget (db_pool db)"
    and coll: "db_collection (db_view db) name ps m"
    and idx: "\<forall>c \<in> set (split_conjuncts p). \<forall>field. indexed_field_of c = Some field \<longrightarrow> has_index db name field \<longrightarrow> index_ready db name ps m field"
    and lit: "literals_have_keys p" and pred: "\<forall>x \<in> ran m. evaluate_bool p x = Ok (keep x)" and safe: "\<forall>x \<in> ran m. index_safe p x"
  shows "\<exists>tree docs fuel db'. plan (has_index db) [SFrom name None, SWhere p] = Ok tree
    \<and> distinct (map fst docs) \<and> (\<forall>d x. (d, x) \<in> set docs \<longleftrightarrow> m d = Some x \<and> keep x)
    \<and> (\<forall>n \<ge> fuel. execute n tree db = (Ok (Documents (map snd docs)), db'))"
proof -
  obtain src absorbed where src: "plan_source (has_index db) name (Some p) = (src, absorbed)" by (cases "plan_source (has_index db) name (Some p)")
  note sound = planner_index_scan_sound [OF src]
  have visits: "keep x \<Longrightarrow> scan_visits src x" if "x \<in> ran m" for x using sound(2) [of x] that safe pred by simp
  have "\<forall>x \<in> ran m. scan_visits src x \<longrightarrow> filter_result (residual_predicate p absorbed) x = Ok (keep x)"
    using sound(1) safe pred by simp
  then obtain docs fuel db' where r: "distinct (map fst docs)" "\<forall>d x. (d, x) \<in> set docs \<longleftrightarrow> m d = Some x \<and> scan_visits src x \<and> keep x"
    "\<forall>n \<ge> fuel. execute n (where_tree src (residual_predicate p absorbed)) db = (Ok (Documents (map snd docs)), db')"
    by (rule where_query_run [OF inv b coll idx lit src])
  have "(d, x) \<in> set docs \<longleftrightarrow> m d = Some x \<and> keep x" for d x using spec [OF spec [OF r(2), of d], of x] visits [of x] by (auto intro: ranI)
  then show ?thesis using plan_where [OF src, of None] r(1,3) by blast
qed

text \<open>\<open>from c | where a >= 2 and b == 2\<close>: the first conjunct becomes the index scan, the second the filter.\<close>

theorem index_query_correct_witness:
  "\<exists>db tree fuel db'. has_index db ''c'' ''a''
    \<and> plan (has_index db) [SFrom ''c'' None, SWhere (EBinOp OpAnd (EBinOp OpGtEq (EField ''a'') (ELit (LInt 2))) (EBinOp OpEq (EField ''b'') (ELit (LInt 2))))] = Ok tree
    \<and> (\<forall>n \<ge> fuel. execute n tree db = (Ok (Documents [doc_ab 2]), db'))"
proof -
  obtain db ps d e where db: "pool_inv (db_pool db)" "length ps * (length ps + 1) \<le> pool_budget (db_pool db)" "d \<noteq> e"
    "db_collection (db_view db) ''c'' ps [d \<mapsto> doc_ab 1, e \<mapsto> doc_ab 2]" "\<forall>f. has_index db ''c'' f \<longleftrightarrow> f = ''a''"
    "index_ready db ''c'' ps [d \<mapsto> doc_ab 1, e \<mapsto> doc_ab 2] ''a''" by (rule example_indexed)
  define m where "m = [d \<mapsto> doc_ab 1, e \<mapsto> doc_ab 2]"
  let ?p = "EBinOp OpAnd (EBinOp OpGtEq (EField ''a'') (ELit (LInt 2))) (EBinOp OpEq (EField ''b'') (ELit (LInt 2)))"
  have m: "ran m = {doc_ab 1, doc_ab 2}" using db(3) by (auto simp: m_def ran_def split: if_splits simp del: split_paired_Ex)
  have idx: "\<forall>c \<in> set (split_conjuncts ?p). \<forall>field. indexed_field_of c = Some field \<longrightarrow> has_index db ''c'' field \<longrightarrow> index_ready db ''c'' ps m field"
    using db(5,6) by (simp add: indexed_field_of_def m_def)
  have lit: "literals_have_keys ?p" by (simp add: literals_have_keys_def indexed_field_of_def normalised_test_def has_key_def)
  have pred: "\<forall>x \<in> ran m. evaluate_bool ?p x = Ok (x = doc_ab 2)"
    by (simp add: m evaluate_bool_def field_or_null_def evaluate_comparison_def is_ordering_op_def cmp_def)
  have safe: "\<forall>x \<in> ran m. index_safe ?p x" by (simp add: m index_safe_def indexed_field_of_def normalised_test_def)
  from index_query_correct [OF db(1,2) db(4) [folded m_def] idx lit pred safe]
  obtain tree docs fuel db' where r: "plan (has_index db) [SFrom ''c'' None, SWhere ?p] = Ok tree" "distinct (map fst docs)"
    "\<forall>d x. (d, x) \<in> set docs \<longleftrightarrow> m d = Some x \<and> x = doc_ab 2" "\<forall>n \<ge> fuel. execute n tree db = (Ok (Documents (map snd docs)), db')" by blast
  have "map snd docs = [doc_ab 2]"
    by (rule only_row [OF r(3,2), of e]) (use db(3) in \<open>simp_all add: m_def del: split_paired_All\<close>)
  then show ?thesis using r(1,4) db(5) by auto
qed

text \<open>
  C39: a second \<open>where\<close> is lost. \<open>p\<close> compares an indexed field with a literal by \<open>==\<close>, or a number by \<open>>=\<close> or
  \<open><=\<close>, so that the index scan replaces it, and \<open>q\<close> is any predicate that is not a conjunction. The
  planner removes the position of \<open>p\<close>, 0, from every \<open>where\<close>: the plan of \<open>from c | where p | where q\<close> is
  that of \<open>from c | where p\<close>, and running it returns exactly the documents that satisfy \<open>p\<close>, whatever \<open>q\<close>
  says about them (the index mirrors the collection and decides \<open>p\<close> as the evaluator does, as in the
  property of index queries).
\<close>

theorem second_where_dropped:
  assumes inv: "pool_inv (db_pool db)" and b: "length ps * (length ps + 1) \<le> pool_budget (db_pool db)"
    and coll: "db_collection (db_view db) name ps m" and p: "p = EBinOp op (EField field) (ELit lit)"
    and a: "absorbable op lit" "has_key (literal_to_value lit)"
    and idx: "has_index db name field" "index_ready db name ps m field"
    and safe: "\<forall>x \<in> ran m. index_safe p x" and q: "split_conjuncts q = [q]"
  shows "\<exists>tree docs fuel db'. plan (has_index db) [SFrom name None, SWhere p, SWhere q] = Ok tree
    \<and> plan (has_index db) [SFrom name None, SWhere p] = Ok tree
    \<and> distinct (map fst docs) \<and> (\<forall>d x. (d, x) \<in> set docs \<longleftrightarrow> m d = Some x \<and> evaluate_bool p x = Ok True)
    \<and> (\<forall>n \<ge> fuel. execute n tree db = (Ok (Documents (map snd docs)), db'))"
proof -
  obtain bd cb where bd: "as_index_bound p field = Some (bd, True)" "close_bounds bd = Some cb"
    and src: "plan_source (has_index db) name (Some p) = (IndexScan name field cb, [0])"
    using absorbed_source [of op lit "has_index db" name field, OF a(1) idx(1)] unfolding p by blast
  let ?src = "IndexScan name field cb"
  have one: "split_conjuncts p = [p]" unfolding p by (rule single_conjunct [OF a(1)])
  have f: "indexed_field_of p = Some field" by (simp add: p indexed_field_of_def)
  have i: "(0, p) \<in> set (enumerate 0 (split_conjuncts p))" by (simp add: one)
  have v: "scan_visits ?src x \<longleftrightarrow> evaluate_bool p x = Ok True" if "x \<in> ran m" for x
    using index_scan_step [OF i f bd, of x] safe that by (auto simp: scan_visits_def)
  obtain docs fuel db' where r: "distinct (map fst docs)" "\<forall>d x. (d, x) \<in> set docs \<longleftrightarrow> m d = Some x \<and> scan_visits ?src x"
    "\<forall>n \<ge> fuel. execute n ?src db = (Ok (Documents (map snd docs)), db')"
    by (rule absorbed_query_run [OF inv b coll a idx src [unfolded p]]) blast
  have "(d, x) \<in> set docs \<longleftrightarrow> m d = Some x \<and> evaluate_bool p x = Ok True" for d x
    using spec [OF spec [OF r(2), of d], of x] v [of x] by (auto intro: ranI)
  moreover have "plan (has_index db) [SFrom name None, SWhere p, SWhere q] = Ok ?src"
    using src residual_dropped [OF one] residual_dropped [OF q] by (simp add: plan_def find_insert_def find_where_def plan_step_def)
  moreover have "plan (has_index db) [SFrom name None, SWhere p] = Ok ?src"
    using plan_where [OF src, of None] residual_dropped [OF one] by (simp add: where_tree_def)
  ultimately show ?thesis using r(1,3) by blast
qed

text \<open>\<open>from c | where a == 1 | where b == 2\<close> returns the document with \<open>b = 1\<close>.\<close>

theorem second_where_dropped_witness:
  "\<exists>db tree fuel db'. has_index db ''c'' ''a''
    \<and> plan (has_index db) [SFrom ''c'' None, SWhere (EBinOp OpEq (EField ''a'') (ELit (LInt 1))), SWhere (EBinOp OpEq (EField ''b'') (ELit (LInt 2)))] = Ok tree
    \<and> evaluate_bool (EBinOp OpEq (EField ''b'') (ELit (LInt 2))) (doc_ab 1) = Ok False
    \<and> (\<forall>n \<ge> fuel. execute n tree db = (Ok (Documents [doc_ab 1]), db'))"
proof -
  obtain db ps d e where db: "pool_inv (db_pool db)" "length ps * (length ps + 1) \<le> pool_budget (db_pool db)" "d \<noteq> e"
    "db_collection (db_view db) ''c'' ps [d \<mapsto> doc_ab 1, e \<mapsto> doc_ab 2]" "\<forall>f. has_index db ''c'' f \<longleftrightarrow> f = ''a''"
    "index_ready db ''c'' ps [d \<mapsto> doc_ab 1, e \<mapsto> doc_ab 2] ''a''" by (rule example_indexed)
  define m where "m = [d \<mapsto> doc_ab 1, e \<mapsto> doc_ab 2]"
  let ?p = "EBinOp OpEq (EField ''a'') (ELit (LInt 1))" let ?q = "EBinOp OpEq (EField ''b'') (ELit (LInt 2))"
  have m: "ran m = {doc_ab 1, doc_ab 2}" using db(3) by (auto simp: m_def ran_def split: if_splits simp del: split_paired_Ex)
  have h: "absorbable OpEq (LInt 1)" "has_key (literal_to_value (LInt 1))" "has_index db ''c'' ''a''" "split_conjuncts ?q = [?q]"
    using db(5) by (simp_all add: absorbable_def has_key_def)
  have safe: "\<forall>x \<in> ran m. index_safe ?p x" by (simp add: m index_safe_def indexed_field_of_def normalised_test_def)
  from second_where_dropped [OF db(1,2) db(4) [folded m_def] refl h(1-3) db(6) [folded m_def] safe h(4)]
  obtain tree docs fuel db' where r: "plan (has_index db) [SFrom ''c'' None, SWhere ?p, SWhere ?q] = Ok tree" "distinct (map fst docs)"
    "\<forall>d x. (d, x) \<in> set docs \<longleftrightarrow> m d = Some x \<and> evaluate_bool ?p x = Ok True" "\<forall>n \<ge> fuel. execute n tree db = (Ok (Documents (map snd docs)), db')" by blast
  have ev: "evaluate_bool ?p (doc_ab 1) = Ok True" "evaluate_bool ?p (doc_ab 2) = Ok False" "evaluate_bool ?q (doc_ab 1) = Ok False"
    by (simp_all add: evaluate_bool_def field_or_null_def evaluate_comparison_def is_ordering_op_def)
  have "map snd docs = [doc_ab 1]"
    by (rule only_row [OF r(3,2), of d]) (use db(3) ev in \<open>simp_all add: m_def del: split_paired_All\<close>)
  then show ?thesis using r(1,4) h(3) ev(3) by auto
qed

text \<open>
  C40: an index misses documents that the predicate accepts. In any database with an index on a field
  that mirrors the collection (no value twice), \<open>field == 0.0\<close> holds for every stored document with -0.0 in the field and
  \<open>field == null\<close> for every stored document without the field, but \<open>from c | where field == 0.0\<close> and
  \<open>from c | where field == null\<close>, planned and executed, return none of them.
\<close>

theorem index_scan_misses_rows:
  assumes inv: "pool_inv (db_pool db)" and b: "length ps * (length ps + 1) \<le> pool_budget (db_pool db)"
    and coll: "db_collection (db_view db) name ps m" and idx: "has_index db name field" "index_ready db name ps m field"
    and zero: "zero = EBinOp OpEq (EField field) (ELit (LFloat 0))" and null: "null = EBinOp OpEq (EField field) (ELit LNull)"
  shows "(\<exists>tree docs fuel db'. plan (has_index db) [SFrom name None, SWhere zero] = Ok tree
      \<and> (\<forall>n \<ge> fuel. execute n tree db = (Ok (Documents docs), db'))
      \<and> (\<forall>x \<in> ran m. doc_get x field = Some (VFloat 0x8000000000000000) \<longrightarrow> evaluate_bool zero x = Ok True \<and> x \<notin> set docs))
    \<and> (\<exists>tree docs fuel db'. plan (has_index db) [SFrom name None, SWhere null] = Ok tree
      \<and> (\<forall>n \<ge> fuel. execute n tree db = (Ok (Documents docs), db'))
      \<and> (\<forall>x \<in> ran m. doc_get x field = None \<longrightarrow> evaluate_bool null x = Ok True \<and> x \<notin> set docs))"
proof -
  have run: "\<exists>tree docs fuel db'. plan (has_index db) [SFrom name None, SWhere (EBinOp OpEq (EField field) (ELit lit))] = Ok tree
      \<and> (\<forall>n \<ge> fuel. execute n tree db = (Ok (Documents docs), db')) 
      \<and> (\<forall>x \<in> ran m. missed x \<longrightarrow> evaluate_bool (EBinOp OpEq (EField field) (ELit lit)) x = Ok True \<and> x \<notin> set docs)"
    if k: "has_key (literal_to_value lit)"
      and miss: "\<And>x. missed x \<Longrightarrow> \<not> scan_visits (IndexScan name field (bounds_exact (literal_to_value lit))) x"
      and ev: "\<And>x. missed x \<Longrightarrow> evaluate_bool (EBinOp OpEq (EField field) (ELit lit)) x = Ok True" for lit missed
  proof -
    let ?p = "EBinOp OpEq (EField field) (ELit lit)" let ?src = "IndexScan name field (bounds_exact (literal_to_value lit))"
    have a: "absorbable OpEq lit" by (simp add: absorbable_def)
    have src: "plan_source (has_index db) name (Some ?p) = (?src, [0])"
      using idx(1) by (simp add: plan_source_def try_conjunct_def indexed_field_of_def as_index_bound_def normalised_test_def close_bounds_def bounds_exact_def)
    have "plan (has_index db) [SFrom name None, SWhere ?p] = Ok ?src"
      using plan_where [OF src, of None] residual_dropped [OF single_conjunct [OF a]] by (simp add: where_tree_def)
    moreover obtain docs fuel db' where r: "\<forall>d x. (d, x) \<in> set docs \<longleftrightarrow> m d = Some x \<and> scan_visits ?src x"
      "\<forall>n \<ge> fuel. execute n ?src db = (Ok (Documents (map snd docs)), db')"
      by (rule absorbed_query_run [OF inv b coll a k idx src]) blast
    moreover have "\<forall>x \<in> ran m. missed x \<longrightarrow> evaluate_bool ?p x = Ok True \<and> x \<notin> set (map snd docs)" using ev r(1) miss by (metis (no_types, lifting) image_iff list.set_map prod.collapse)
    ultimately show ?thesis by blast
  qed
  have nz: "f64_mag 0x8000000000000000 = 0" "f64_mag 0 = 0" by (simp_all add: f64_mag_def)
  then have hk: "has_key (VFloat 0)" "has_key (VFloat 0x8000000000000000)" "has_key VNull" by (simp_all add: has_key_def f64_is_nan_def)
  then have k: "\<not> key_of (VFloat 0) \<le> key_of (VFloat 0x8000000000000000)"
    by (simp add: key_of_le f64_before_def f64_ord_def nz f64_sign_def bit_63_unat)
  show ?thesis
    unfolding zero null
    by (intro conjI; rule run)
      (use k hk in \<open>simp_all add: scan_visits_def in_bounds_def bounds_exact_def evaluate_bool_def field_or_null_def
        evaluate_comparison_def is_ordering_op_def f64_eq_def f64_partial_cmp_def f64_is_nan_def nz f64_ord_def cmp_def\<close>)
qed

text \<open>The documents \<open>{a: -0.0}\<close> and \<open>{b: 1}\<close> with an index on \<open>a\<close>: neither query returns its document.\<close>

theorem index_scan_misses_rows_witness:
  "\<exists>db d e ps zdocs ndocs tree tree' fuel fuel' db' db''. d \<noteq> e
    \<and> db_collection (db_view db) ''c'' ps [d \<mapsto> [(''a'', VFloat 0x8000000000000000)], e \<mapsto> [(''b'', VInt 1)]]
    \<and> plan (has_index db) [SFrom ''c'' None, SWhere (EBinOp OpEq (EField ''a'') (ELit (LFloat 0)))] = Ok tree
    \<and> (\<forall>n \<ge> fuel. execute n tree db = (Ok (Documents zdocs), db')) \<and> [(''a'', VFloat 0x8000000000000000)] \<notin> set zdocs
    \<and> plan (has_index db) [SFrom ''c'' None, SWhere (EBinOp OpEq (EField ''a'') (ELit LNull))] = Ok tree'
    \<and> (\<forall>n \<ge> fuel'. execute n tree' db = (Ok (Documents ndocs), db'')) \<and> [(''b'', VInt 1)] \<notin> set ndocs"
proof -
  let ?x = "[(''a'', VFloat 0x8000000000000000)]" let ?y = "[(''b'', VInt 1)]"
  let ?k = "key_of (VFloat 0x8000000000000000)"
  have hk: "has_key (VFloat 0x8000000000000000)" by (simp add: has_key_def f64_is_nan_def f64_mag_def)
  have "length ?k = 9" by (simp add: key_of_def f64_is_nan_def f64_mag_def)
  then have fit: "page_fit 9 LEAF_SLOT [(?k, d)]" for d :: doc_id
    by (simp add: page_fit_def node_capacity_def LEAF_SLOT_def PAGE_SIZE_def NODE_HEADER_SIZE_def)
  have st: "storable ?x" "storable ?y"
    by (simp_all add: storable_def document_ok_def utf8_valid_def serialize_document_def write_document_def write_len_def
        write_bytes_def MAX_RECORD_SIZE_def heap_consts PAGE_SIZE_def)
  have mirror: "d \<noteq> e \<Longrightarrow> (key, i) \<in> set [(?k, d)] \<longleftrightarrow>
      (\<exists>z u. [d \<mapsto> ?x, e \<mapsto> ?y] i = Some z \<and> doc_get z ''a'' = Some u \<and> has_key u \<and> key = key_of u)" for d e key i
    using hk by auto
  obtain db ps d e where db: "pool_inv (db_pool db)" "length ps * (length ps + 1) \<le> pool_budget (db_pool db)" "d \<noteq> e"
    "db_collection (db_view db) ''c'' ps [d \<mapsto> ?x, e \<mapsto> ?y]" "\<forall>f. has_index db ''c'' f \<longleftrightarrow> f = ''a''" "index_ready db ''c'' ps [d \<mapsto> ?x, e \<mapsto> ?y] ''a''"
    by (rule indexed_database [where es = "\<lambda>d e. [(?k, d)]", OF st fit _ mirror]) simp_all
  have i: "has_index db ''c'' ''a''" using db(5) by simp
  have ran: "?x \<in> ran [d \<mapsto> ?x, e \<mapsto> ?y]" "?y \<in> ran [d \<mapsto> ?x, e \<mapsto> ?y]" using db(3) by (auto intro: ranI)
  from index_scan_misses_rows [OF db(1,2,4) i db(6) refl refl] obtain tree zdocs fuel db' tree' ndocs fuel' db'' where r:
    "plan (has_index db) [SFrom ''c'' None, SWhere (EBinOp OpEq (EField ''a'') (ELit (LFloat 0)))] = Ok tree"
    "\<forall>n \<ge> fuel. execute n tree db = (Ok (Documents zdocs), db')"
    "\<forall>x \<in> ran [d \<mapsto> ?x, e \<mapsto> ?y]. doc_get x ''a'' = Some (VFloat 0x8000000000000000) \<longrightarrow> evaluate_bool (EBinOp OpEq (EField ''a'') (ELit (LFloat 0))) x = Ok True \<and> x \<notin> set zdocs"
    "plan (has_index db) [SFrom ''c'' None, SWhere (EBinOp OpEq (EField ''a'') (ELit LNull))] = Ok tree'"
    "\<forall>n \<ge> fuel'. execute n tree' db = (Ok (Documents ndocs), db'')"
    "\<forall>x \<in> ran [d \<mapsto> ?x, e \<mapsto> ?y]. doc_get x ''a'' = None \<longrightarrow> evaluate_bool (EBinOp OpEq (EField ''a'') (ELit LNull)) x = Ok True \<and> x \<notin> set ndocs"
    by blast
  have "?x \<notin> set zdocs" "?y \<notin> set ndocs" using bspec [OF r(3) ran(1)] bspec [OF r(6) ran(2)] by simp_all
  with r(1,2,4,5) db(3,4) show ?thesis by blast
qed

end
