(* ===== verification/Query_Delete.thy ===== *)
theory Query_Delete
  imports Query_Select
begin

text \<open>
  Deletion through the database and through a query: \<open>delete_docs\<close> removes exactly the documents
  of the ids it is given, and a planned and executed \<open>from c | where p | delete\<close> exactly those that
  satisfy \<open>p\<close>.
\<close>

section \<open>Deleting by id\<close>

lemma collection_delete_total:
  assumes h: "collection_holds (c, pool_view s) ps m" and d: "m d \<noteq> None"
  shows "collst.total 1 (collection_delete d) (c, s) (\<lambda>_ (c', V'). c' = c \<and> collection_holds (c, V') ps (m(d := None))
    \<and> coll_grows (pool_view s) ps V' ps 0)"
proof -
  let ?V = "pool_view s"
  have rep: "heap_rep ?V (col_heap c) ps" and m: "encoded m = heap_map ?V ps" and st: "\<forall>x \<in> ran m. storable x"
    using h by (auto simp: collection_holds_def heap_holds_def)
  obtain x where "m d = Some x" using d by blast
  then have p: "fst d \<in> set ps" using colls.holds_page h by blast
  show ?thesis
    unfolding collection_delete_def
  proof (rule on_heap_total, rule heapst.total_conseq [OF heap_delete_total [OF rep p]])
    fix u and hs :: "heap_file \<times> buffer_pool"
    assume "case heap_view hs of (h', V) \<Rightarrow> h' = col_heap c \<and> heap_rep V (col_heap c) ps
      \<and> heap_map V ps = (heap_map ?V ps)(d := None) \<and> (\<forall>q. q \<notin> set ps \<longrightarrow> V q = ?V q)"
    then obtain s' where hs: "hs = (col_heap c, s')" and r: "heap_rep (pool_view s') (col_heap c) ps"
      "heap_map (pool_view s') ps = (heap_map ?V ps)(d := None)" "\<forall>q. q \<notin> set ps \<longrightarrow> pool_view s' q = ?V q"
      by (cases hs) auto
    have "heap_map (pool_view s') ps = encoded (m(d := None))" by (simp add: r(2) m [symmetric] fun_eq_iff encoded_def)
    then have "collection_holds (c, pool_view s') ps (m(d := None))"
      using r(1) st by (auto simp: collection_holds_def heap_holds_def ran_def)
    moreover have "coll_grows ?V ps (pool_view s') ps 0"
      unfolding coll_grows_def
    proof (intro conjI ballI subsetI)
      fix q assume "q \<in> dom ?V"
      then show "q \<in> dom (pool_view s')"
        using r(3) chain_page [OF heap_repD(1) [OF r(1)], of q] by (cases "q \<in> set ps") (auto simp: domIff)
    qed (use r(3) in auto)
    ultimately show "case heap_view hs of (h, V) \<Rightarrow> case (c\<lparr>col_heap := h\<rparr>, V) of (c', V') \<Rightarrow>
        c' = c \<and> collection_holds (c, V') ps (m(d := None)) \<and> coll_grows ?V ps V' ps 0"
      using hs by simp
  qed simp
qed

lemma remove_docs_total:
  assumes "collection_holds (c, pool_view s) ps m" and "set ids \<subseteq> dom m" and "distinct ids"
  shows "collst.total (2 * length ids) (remove_docs ids) (c, s) (\<lambda>removed (c', V'). c' = c \<and> map fst removed = ids
    \<and> collection_holds (c, V') ps (m |` (- set ids)) \<and> coll_grows (pool_view s) ps V' ps 0)"
  using assms
proof (induction ids arbitrary: s m)
  case Nil
  have "coll_grows (pool_view s) ps (pool_view s) ps 0" by (simp add: coll_grows_def)
  then show ?case using Nil by (auto simp: collst.total_def)
next
  case (Cons d ids)
  let ?V = "pool_view s"
  let ?Q = "\<lambda>removed (c', V'). c' = c \<and> map fst removed = d # ids
    \<and> collection_holds (c, V') ps (m |` (- set (d # ids))) \<and> coll_grows ?V ps V' ps 0"
  obtain x where x: "m d = Some x" using Cons.prems(2) by auto
  have p: "fst d \<in> set ps" by (rule colls.holds_page [OF Cons.prems(1) x])
  have cv: "collection_holds (coll_view (c, s)) ps m" using Cons.prems(1) by simp
  have body: "collst.total (1 + (2 * length ids + 0)) (bindP (collection_delete d) (\<lambda>_.
      bindP (remove_docs ids) (\<lambda>removed. returnP ((d, x) # removed)))) (c, s1) ?Q" if s1: "pool_view s1 = ?V" for s1
  proof (rule collst.total_bind [OF collection_delete_total [of c s1 ps m d]])
    fix u cs assume "case coll_view cs of (c', V') \<Rightarrow> c' = c \<and> collection_holds (c, V') ps (m(d := None)) \<and> coll_grows (pool_view s1) ps V' ps 0"
    then obtain s2 where cs: "cs = (c, s2)" and h2: "collection_holds (c, pool_view s2) ps (m(d := None))"
      and g2: "coll_grows ?V ps (pool_view s2) ps 0" using s1 by (cases cs) auto
    have ids: "set ids \<subseteq> dom (m(d := None))" "distinct ids" using Cons.prems(2,3) by auto
    have m': "(m(d := None)) |` (- set ids) = m |` (- set (d # ids))" by (auto simp: restrict_map_def fun_eq_iff)
    show "collst.total (2 * length ids + 0) (bindP (remove_docs ids) (\<lambda>removed. returnP ((d, x) # removed))) cs ?Q"
      unfolding cs
    proof (rule collst.total_bind [OF Cons.IH [OF h2 ids]])
      fix removed :: "(doc_id \<times> document) list" and cs3
      assume "case coll_view cs3 of (c', V') \<Rightarrow> c' = c \<and> map fst removed = ids
        \<and> collection_holds (c, V') ps ((m(d := None)) |` (- set ids)) \<and> coll_grows (pool_view s2) ps V' ps 0"
      then have "?Q ((d, x) # removed) (coll_view cs3)"
        unfolding m' using coll_grows_trans [OF g2, of "snd (coll_view cs3)" ps 0] by (cases cs3) auto
      then show "collst.total 0 (returnP ((d, x) # removed)) cs3 ?Q" by (rule collst.total_return)
    qed
  qed (use Cons.prems(1) s1 x in simp_all)
  have "collst.total (1 + (1 + (2 * length ids + 0))) (remove_docs (d # ids)) (c, s) ?Q"
    unfolding remove_docs.simps
  proof (rule collst.total_bind [OF colls.get_law [OF cv p]])
    fix r cs assume "r = m d \<and> coll_view cs = coll_view (c, s)"
    then obtain s1 where "cs = (c, s1)" "pool_view s1 = ?V" "r = Some x" using x by (cases cs) auto
    then show "collst.total (1 + (2 * length ids + 0)) (case r of None \<Rightarrow> remove_docs ids
        | Some doc \<Rightarrow> bindP (collection_delete d) (\<lambda>_. bindP (remove_docs ids) (\<lambda>removed. returnP ((d, doc) # removed)))) cs ?Q"
      using body by simp
  qed
  then show ?case by (simp add: add.commute)
qed

lemma unindexed_removal:
  assumes "unindexed c name"
  shows "on_delete_each name xs (c, s) = (Ok (), (c, s))"
  using assms by (induction name xs rule: on_delete_each.induct) (simp_all add: prog_simps unindexed_def index_on_delete_def)

definition docs_deleted :: "catalog \<times> (page_id \<rightharpoonup> page) \<Rightarrow> string \<Rightarrow> page_id list \<Rightarrow> (doc_id \<rightharpoonup> document) \<Rightarrow> doc_id list
    \<Rightarrow> catalog \<times> (page_id \<rightharpoonup> page) \<Rightarrow> bool" where
  "docs_deleted v name ps m ids v' \<longleftrightarrow> fst v' = fst v \<and> db_collection v' name ps (m |` (- set ids)) \<and> coll_grows (snd v) ps (snd v') ps 0"

lemma delete_docs_total:
  assumes coll: "db_collection (db_view db) name ps m" and idx: "unindexed (db_catalog db) name"
    and ids: "set ids \<subseteq> dom m" "distinct ids"
  shows "dbst.total (length ps + 2 * length ids) (delete_docs name ids) db
    (\<lambda>n v. n = length ids \<and> docs_deleted (db_view db) name ps m ids v)"
proof (cases "ids = []")
  case True
  have "m |` UNIV = m" by (simp add: restrict_map_def fun_eq_iff)
  then have "docs_deleted (db_view db) name ps m [] (db_view db)" using coll by (auto simp: docs_deleted_def coll_grows_def)
  then show ?thesis using True by (auto simp: delete_docs_def dbst.total_def)
next
  case False
  let ?v = "db_view db" let ?n = "2 * length ids" let ?Q = "\<lambda>n v. n = length ids \<and> docs_deleted ?v name ps m ids v"
  let ?fin = "\<lambda>removed. bindP (on_parts DbCatalog (on_delete_each name removed)) (\<lambda>_. bindP (on_db_pool flush_all) (\<lambda>_. returnP (length removed)))"
  have tail: "dbst.total 0 (?fin removed) db2 ?Q" if "?Q (length removed) (db_view db2)" for removed db2
  proof -
    have u: "unindexed (db_catalog db2) name" using that idx by (simp add: docs_deleted_def)
    have fl: "dbst.total (0 + 0) (bindP (on_db_pool flush_all) (\<lambda>_. returnP (length removed))) db2 ?Q"
      by (rule dbst.total_bind [OF flush_total], rule dbst.total_return) (use that in simp)
    show ?thesis
      by (rule dbst.total_bind_pure, rule on_parts_pure, rule unindexed_removal [OF u]) (use fl in simp)
  qed
  have body: "dbst.total (?n + 0) (bindP (on_collection col (remove_docs ids)) ?fin) db1 ?Q"
    if db1: "col = opened ps \<and> db_view db1 = ?v" for col db1
  proof -
    have h: "collection_holds (col, pool_view (db_pool db1)) ps m" using db1 coll by (simp add: db_collection_def)
    show ?thesis
    proof (rule dbst.total_bind [OF on_collection_total [OF remove_docs_total [OF h ids]]])
      fix removed :: "(doc_id \<times> document) list" and db2
      assume "fst (db_view db2) = db_catalog db1 \<and> (\<exists>col'. case (col', snd (db_view db2)) of (c', V') \<Rightarrow> c' = col
          \<and> map fst removed = ids \<and> collection_holds (col, V') ps (m |` (- set ids)) \<and> coll_grows (pool_view (db_pool db1)) ps V' ps 0)"
      then have c: "db_catalog db2 = db_catalog db" "map fst removed = ids"
        and h': "collection_holds (col, pool_view (db_pool db2)) ps (m |` (- set ids))"
        and g: "coll_grows (pool_view (db_pool db)) ps (pool_view (db_pool db2)) ps 0" using db1 by auto
      have "db_collection (db_view db2) name ps (m |` (- set ids))"
        using coll c(1) holds_reopened(1) [OF h'] by (simp add: db_collection_def)
      moreover have "length removed = length ids" using c(2) by (metis length_map)
      ultimately have "?Q (length removed) (db_view db2)" using c(1) g by (simp add: docs_deleted_def)
      then show "dbst.total 0 (?fin removed) db2 ?Q" by (rule tail)
    qed
  qed
  have "dbst.total (length ps + (?n + 0)) (bindP (on_parts DbCatalog (catalog_open_collection name)) (\<lambda>handle.
      bindP (on_collection handle (remove_docs ids)) ?fin)) db ?Q"
    by (rule dbst.total_bind [OF open_total [OF coll]], rule body)
  then show ?thesis using False by (simp add: delete_docs_def)
qed

section \<open>Deleting by query\<close>

lemma deleted_buffer_streams: "streams (RDelete op name (Some rows)) db rows db"
proof (induction rows)
  case Nil
  have "next_row (Suc 0) (RDelete op name (Some [])) db = (Ok (None, RDelete op name (Some [])), db)"
    by (simp add: next_row_ops delete_next_def emit_row_def)
  then show ?case unfolding streams_def pull_def by (blast intro: pulls_Nil)
next
  case (Cons r rows)
  have "next_row (Suc 0) (RDelete op name (Some (r # rows))) db = (Ok (Some r, RDelete op name (Some rows)), db)"
    by (simp add: next_row_ops delete_next_def emit_row_def)
  then show ?case by (intro streams_Cons [OF _ Cons.IH]) (auto simp: pull_def)
qed

lemma delete_streams:
  assumes "streams op db rs db1" and "\<forall>r \<in> set rs. row_id r \<noteq> None"
    and del: "delete_docs name (map (\<lambda>r. the (row_id r)) rs) db1 = (Ok n, db2)"
  shows "streams (RDelete op name None) db rs db2"
proof -
  obtain k op' where d: "drain_rows k True op db = (Ok (rs, op'), db1)" using drain_streams [OF assms(1), of True] assms(2) by blast
  have run: "next_row (Suc k) (RDelete op name None) db = emit_row (RDelete op' name) rs db2"
    by (simp add: next_row_ops delete_next_def d on_db_def map_errP_def del prog_simps)
  show ?thesis
  proof (cases rs)
    case Nil
    then show ?thesis using run by (auto simp: emit_row_def pull_def intro!: streams_Nil)
  next
    case (Cons r rows)
    then have "pull (RDelete op name None) db (Some r) (RDelete op' name (Some rows)) db2"
      using run by (auto simp: emit_row_def pull_def)
    then show ?thesis using streams_Cons deleted_buffer_streams Cons by blast
  qed
qed

lemma plan_delete:
  assumes "\<forall>f. \<not> hi name f"
  obtains p' where "plan hi [SFrom name a, SWhere p, SDelete] = Ok (DeleteOp (FilterOp (SeqScan name) p') name)"
    and "\<And>doc. evaluate_bool p' doc = evaluate_bool p doc"
proof -
  obtain p' where p': "residual_predicate p [] = Some p'" "\<And>doc. evaluate_bool p' doc = evaluate_bool p doc" using residual_whole [of p] by blast
  have "plan hi [SFrom name a, SWhere p, SDelete] = Ok (DeleteOp (FilterOp (SeqScan name) p') name)"
    using assms by (simp add: plan_def find_insert_def find_where_def plan_source_def no_index_scan plan_step_def plan_stage_def p'(1))
  then show ?thesis using that p'(2) by blast
qed

lemma kept_ids:
  fixes keep :: "document \<Rightarrow> bool"
  assumes "map_of docs = m" and "distinct (map fst docs)"
  defines "kept \<equiv> filter (\<lambda>r. keep (row_doc r)) (stored_rows docs)"
  shows "distinct (map (\<lambda>r. the (row_id r)) kept)" "set (map (\<lambda>r. the (row_id r)) kept) = {d. \<exists>x. m d = Some x \<and> keep x}"
    "\<forall>r \<in> set kept. row_id r \<noteq> None"
proof -
  have k: "kept = stored_rows (filter (\<lambda>(d, x). keep x) docs)" unfolding kept_def stored_rows_def
    by (simp add: filter_map comp_def case_prod_unfold)
  have ids: "map (\<lambda>r. the (row_id r)) kept = map fst (filter (\<lambda>(d, x). keep x) docs)"
    unfolding k stored_rows_def by (simp add: row_stored_def case_prod_unfold)
  show "distinct (map (\<lambda>r. the (row_id r)) kept)" unfolding ids using assms(2) by (rule distinct_map_filter)
  show "set (map (\<lambda>r. the (row_id r)) kept) = {d. \<exists>x. m d = Some x \<and> keep x}"
    unfolding ids using assms(1,2) by (force simp: image_iff)
  show "\<forall>r \<in> set kept. row_id r \<noteq> None" by (auto simp: k stored_rows_def row_stored_def)
qed

lemma delete_query_run:
  assumes inv: "pool_inv (db_pool db)"
    and b: "length ps * (length ps + 1) + length ps + 2 * card {d. \<exists>x. m d = Some x \<and> keep x} \<le> pool_budget (db_pool db)"
    and coll: "db_collection (db_view db) name ps m" and idx: "unindexed (db_catalog db) name"
    and pred: "\<forall>x \<in> ran m. evaluate_bool p x = Ok (keep x)"
  shows "\<exists>tree fuel db'. plan (has_index db) [SFrom name None, SWhere p, SDelete] = Ok tree
    \<and> (\<forall>n \<ge> fuel. execute n tree db = (Ok (Query_Exec.Affected (card {d. \<exists>x. m d = Some x \<and> keep x})), db'))
    \<and> pool_inv (db_pool db') \<and> db_collection (db_view db') name ps (m |` {d. \<nexists>x. m d = Some x \<and> keep x})
    \<and> (\<forall>other qs k. db_collection (db_view db) other qs k \<longrightarrow> set qs \<inter> set ps = {} \<longrightarrow> db_collection (db_view db') other qs k)"
proof -
  let ?gone = "{d. \<exists>x. m d = Some x \<and> keep x}"
  obtain p' where tree: "plan (has_index db) [SFrom name None, SWhere p, SDelete] = Ok (DeleteOp (FilterOp (SeqScan name) p') name)" (is "_ = Ok ?tree")
    and p': "\<And>doc. evaluate_bool p' doc = evaluate_bool p doc"
    using plan_delete [of "has_index db" name None p] unindexed_plain [OF idx] by blast
  let ?docs = "docs_of (pool_view (db_pool db)) m ps" let ?kept = "filter (\<lambda>r. keep (row_doc r)) (stored_rows ?docs)"
  let ?ids = "map (\<lambda>r. the (row_id r)) ?kept"
  have h: "collection_holds (opened ps, pool_view (db_pool db)) ps m" using coll by (simp add: db_collection_def)
  note docs = docs_of_map [OF h] note ids = kept_ids [OF docs, of keep]
  have card: "card ?gone = length ?kept" using distinct_card [OF ids(1)] ids(2) by simp
  obtain db1 where scan: "streams (build (SeqScan name)) db (stored_rows ?docs) db1" and same: "same_database db (length ps * (length ps + 1)) db1"
    using seq_scan_streams [OF inv coll] b by auto
  have "\<forall>r \<in> set (stored_rows ?docs). evaluate_bool p' (row_doc r) = Ok (keep (row_doc r))"
    unfolding p' using pred stored_ran [OF h] by blast
  from filter_streams [OF scan this] have kept: "streams (RFilter (build (SeqScan name)) p') db ?kept db1" .
  have coll1: "db_collection (db_view db1) name ps m" and idx1: "unindexed (db_catalog db1) name"
    using coll idx same by (simp_all add: same_database_def)
  have "set ?ids \<subseteq> dom m" unfolding ids(2) by blast
  from dbst.totalE [OF delete_docs_total [OF coll1 idx1 this ids(1)]] same b card
  obtain db' where del: "delete_docs name ?ids db1 = (Ok (length ?kept), db')" "pool_inv (db_pool db')"
    "docs_deleted (db_view db1) name ps m ?ids (db_view db')" by (auto simp: same_database_def)
  have run: "streams (build ?tree) db ?kept db'" using delete_streams [OF kept ids(3) del(1)] by simp
  obtain n op' where d: "drain_rows n False (build ?tree) db = (Ok (?kept, op'), db')" using drain_streams [OF run, of False] by blast
  have "execute k ?tree db = (Ok (Query_Exec.Affected (card ?gone)), db')" if "n \<le> k" for k
    using drain_rows_mono [OF d _ that] by (simp add: execute_def prog_simps mutating_def card)
  moreover have "- set ?ids = {d. \<nexists>x. m d = Some x \<and> keep x}" using ids(2) by auto
  then have "db_collection (db_view db') name ps (m |` {d. \<nexists>x. m d = Some x \<and> keep x})"
    using del(3) unfolding docs_deleted_def by (simp only:)
  moreover have "db_collection (db_view db') other qs k" if "db_collection (db_view db) other qs k" "set qs \<inter> set ps = {}" for other qs k
    using that collection_elsewhere(1) [of _ "pool_view (db_pool db1)" qs k ps "pool_view (db_pool db')" ps 0] del(3) same
    by (auto simp: db_collection_def docs_deleted_def same_database_def)
  ultimately show ?thesis using tree del(2) by blast
qed

text \<open>
  C8: a delete query, planned and executed. For a collection without an index that the database
  holds, \<open>from c | where p | delete\<close> has a plan, and running it, with every large enough fuel,
  reports the number of the documents that satisfy \<open>p\<close> and leaves the collection with exactly the
  others, each under its id; collections on other pages hold what they held.
\<close>

theorem delete_query_correct:
  assumes inv: "pool_inv (db_pool db)"
    and b: "length ps * (length ps + 1) + length ps + 2 * card {d. \<exists>x. m d = Some x \<and> keep x} \<le> pool_budget (db_pool db)"
    and coll: "db_collection (db_view db) name ps m" and idx: "unindexed (db_catalog db) name"
    and pred: "\<forall>x \<in> ran m. evaluate_bool p x = Ok (keep x)"
  shows "\<exists>tree fuel db'. plan (has_index db) [SFrom name None, SWhere p, SDelete] = Ok tree
    \<and> (\<forall>n \<ge> fuel. execute n tree db = (Ok (Query_Exec.Affected (card {d. \<exists>x. m d = Some x \<and> keep x})), db'))
    \<and> pool_inv (db_pool db') \<and> db_collection (db_view db') name ps (m |` {d. \<nexists>x. m d = Some x \<and> keep x})
    \<and> (\<forall>other qs k. db_collection (db_view db) other qs k \<longrightarrow> set qs \<inter> set ps = {} \<longrightarrow> db_collection (db_view db') other qs k)"
  using assms by (rule delete_query_run)

theorem delete_query_correct_witness:
  "\<exists>db ps d e tree fuel db'. db_collection (db_view db) ''c'' ps [d \<mapsto> [(''a'', VInt 2)], e \<mapsto> [(''a'', VInt 1)]] \<and> d \<noteq> e
    \<and> plan (has_index db) [SFrom ''c'' None, SWhere (EBinOp OpLt (EField ''a'') (ELit (LInt 2))), SDelete] = Ok tree
    \<and> (\<forall>n \<ge> fuel. execute n tree db = (Ok (Query_Exec.Affected 1), db'))
    \<and> db_collection (db_view db') ''c'' ps [d \<mapsto> [(''a'', VInt 2)]]"
proof -
  obtain db ps d e where db: "pool_inv (db_pool db)" "900 \<le> pool_budget (db_pool db)" "length ps \<le> 3" "d \<noteq> e"
    "db_collection (db_view db) ''c'' ps [d \<mapsto> [(''a'', VInt 2)], e \<mapsto> [(''a'', VInt 1)]]" "unindexed (db_catalog db) ''c''"
    by (rule example_two_documents)
  let ?m = "[d \<mapsto> [(''a'', VInt 2)], e \<mapsto> [(''a'', VInt 1)]]" let ?p = "EBinOp OpLt (EField ''a'') (ELit (LInt 2))"
  let ?keep = "\<lambda>x :: document. x = [(''a'', VInt 1)]"
  have "length ps * (length ps + 1) \<le> 3 * (3 + 1)" by (intro mult_le_mono) (use db(3) in simp_all)
  moreover have gone: "{i. \<exists>x. ?m i = Some x \<and> ?keep x} = {e}" using db(4) by auto
  ultimately have b: "length ps * (length ps + 1) + length ps + 2 * card {i. \<exists>x. ?m i = Some x \<and> ?keep x} \<le> pool_budget (db_pool db)"
    using db(2,3) by simp
  have pred: "\<forall>x \<in> ran ?m. evaluate_bool ?p x = Ok (?keep x)"
    using db(4) by (auto simp: ran_def evaluate_bool_def field_or_null_def evaluate_comparison_def is_ordering_op_def cmp_def split: if_splits)
  have "?m |` {i. \<nexists>x. ?m i = Some x \<and> ?keep x} = [d \<mapsto> [(''a'', VInt 2)]]"
    using db(4) by (auto simp: restrict_map_def fun_eq_iff)
  with delete_query_correct [OF db(1) b db(5,6) pred] gone
  obtain tree fuel db' where r: "plan (has_index db) [SFrom ''c'' None, SWhere ?p, SDelete] = Ok tree"
    "\<forall>n \<ge> fuel. execute n tree db = (Ok (Query_Exec.Affected 1), db')" "db_collection (db_view db') ''c'' ps [d \<mapsto> [(''a'', VInt 2)]]" by auto
  show ?thesis
    by (rule exI [of _ db], rule exI [of _ ps], rule exI [of _ d], rule exI [of _ e], rule exI [of _ tree], rule exI [of _ fuel], rule exI [of _ db'])
      (intro conjI db(4,5) r)
qed

end
