(* ===== verification/Json_Output.thy ===== *)
theory Json_Output
  imports Query_Exec
begin

text \<open>
  \<open>json.rs\<close>: results and errors as JSON text. A string is its UTF-8 bytes; only ASCII characters are
  escaped, so the loop over \<open>chars\<close> is a loop over the bytes. The second half states the grammar of
  JSON (RFC 8259, without insignificant white space) and shows that everything written is in it.
\<close>

section \<open>The writer\<close>

definition hex_digit :: "nat \<Rightarrow> char" where
  "hex_digit n = (if n < 10 then char_of (48 + n) else char_of (87 + n))"

definition escape_json :: "char \<Rightarrow> string" where
  "escape_json c = (let n = of_char c :: nat in
     if n = 34 then [CHR 0x5C, CHR 0x22]
     else if n = 92 then [CHR 0x5C, CHR 0x5C]
     else if n = 10 then [CHR 0x5C, CHR ''n'']
     else if n = 13 then [CHR 0x5C, CHR ''r'']
     else if n = 9 then [CHR 0x5C, CHR ''t'']
     else if n = 8 then [CHR 0x5C, CHR ''b'']
     else if n = 12 then [CHR 0x5C, CHR ''f'']
     else if n < 32 then [CHR 0x5C, CHR ''u'', CHR ''0'', CHR ''0'', hex_digit (n div 16), hex_digit (n mod 16)]
     else [c])"

definition write_string :: "string \<Rightarrow> string" where
  "write_string s = [CHR 0x22] @ concat (map escape_json s) @ [CHR 0x22]"

text \<open>The loops that put a comma in front of every element but the first.\<close>

fun comma_sep :: "string list \<Rightarrow> string" where
  "comma_sep [] = []"
| "comma_sep [x] = x"
| "comma_sep (x # y # xs) = x @ '','' @ comma_sep (y # xs)"

text \<open>\<open>x.fract() == 0.0 && x.abs() < 1e15\<close> for a finite \<open>x\<close>, and \<open>format!("{x:.1}")\<close> of such a number.\<close>

definition f64_small_whole :: "f64 \<Rightarrow> bool" where
  "f64_small_whole x = (case f64_ratio x of (n, d) \<Rightarrow> d dvd n \<and> n < 10 ^ 15 * d)"

definition f64_fixed_1 :: "f64 \<Rightarrow> string" where
  "f64_fixed_1 x = (case f64_ratio x of (n, d) \<Rightarrow> (if f64_sign x then ''-'' else []) @ nat_digits (n div d) @ ''.0'')"

definition f64_is_finite :: "f64 \<Rightarrow> bool" where
  "f64_is_finite x \<longleftrightarrow> \<not> f64_is_nan x \<and> \<not> f64_is_inf x"

definition write_float :: "f64 \<Rightarrow> string" where
  "write_float x = (if f64_is_finite x then (if f64_small_whole x then f64_fixed_1 x else f64_to_string x) else ''null'')"

fun write_json :: "doc_value \<Rightarrow> string" where
  "write_json VNull = ''null''"
| "write_json (VBool b) = (if b then ''true'' else ''false'')"
| "write_json (VInt n) = int_to_string (sint n)"
| "write_json (VFloat x) = write_float x"
| "write_json (VString s) = write_string s"
| "write_json (VArray items) = ''['' @ comma_sep (map write_json items) @ '']''"
| "write_json (VDocument doc) = ''{'' @ comma_sep (map (\<lambda>(k, v). write_string k @ '':'' @ write_json v) (sort_key fst doc)) @ ''}''"

definition write_json_document :: "document \<Rightarrow> string" where
  "write_json_document doc = ''{'' @ comma_sep (map (\<lambda>(k, v). write_string k @ '':'' @ write_json v) (sort_key fst doc)) @ ''}''"

definition quoted :: "string \<Rightarrow> string" where
  "quoted s = [CHR 0x22] @ s @ [CHR 0x22]"

definition write_output :: "query_output \<Rightarrow> string" where
  "write_output output = (case output of
     Documents docs \<Rightarrow> ''{'' @ quoted ''count'' @ '':'' @ nat_digits (length docs) @ '','' @ quoted ''documents'' @ '':''
       @ ''['' @ comma_sep (map write_json_document docs) @ '']'' @ ''}''
   | Affected n \<Rightarrow> ''{'' @ quoted ''affected'' @ '':'' @ nat_digits n @ ''}'')"

definition write_error :: "string \<Rightarrow> string \<Rightarrow> string" where
  "write_error message stage = ''{'' @ quoted ''error'' @ '':'' @ write_string message @ '','' @ quoted ''stage'' @ '':'' @ write_string stage @ ''}''"

section \<open>The grammar\<close>

definition plain_char :: "char \<Rightarrow> bool" where
  "plain_char c \<longleftrightarrow> 32 \<le> (of_char c :: nat) \<and> (of_char c :: nat) \<noteq> 34 \<and> (of_char c :: nat) \<noteq> 92"

definition is_hex :: "char \<Rightarrow> bool" where
  "is_hex c \<longleftrightarrow> c \<in> set ''0123456789abcdefABCDEF''"

definition json_char :: "string \<Rightarrow> bool" where
  "json_char s \<longleftrightarrow> (\<exists>c. s = [c] \<and> plain_char c) \<or> (\<exists>c \<in> set ([CHR 0x22, CHR 0x5C] @ ''/bfnrt''). s = [CHR 0x5C, c])
     \<or> (\<exists>a b c d. s = [CHR 0x5C, CHR ''u'', a, b, c, d] \<and> is_hex a \<and> is_hex b \<and> is_hex c \<and> is_hex d)"

definition json_string :: "string \<Rightarrow> bool" where
  "json_string s \<longleftrightarrow> (\<exists>cs. s = quoted (concat cs) \<and> (\<forall>c \<in> set cs. json_char c))"

definition digits :: "string \<Rightarrow> bool" where
  "digits s \<longleftrightarrow> s \<noteq> [] \<and> set s \<subseteq> set ''0123456789''"

definition json_int :: "string \<Rightarrow> bool" where
  "json_int s \<longleftrightarrow> digits s \<and> (hd s = CHR ''0'' \<longrightarrow> s = ''0'')"

definition json_number :: "string \<Rightarrow> bool" where
  "json_number s \<longleftrightarrow> (\<exists>sign i f. s = sign @ i @ f \<and> (sign = [] \<or> sign = ''-'') \<and> json_int i \<and> (f = [] \<or> (\<exists>ds. f = ''.'' @ ds \<and> digits ds)))"

inductive json_text :: "string \<Rightarrow> bool" where
  json_null: "json_text ''null''"
| json_true: "json_text ''true''"
| json_false: "json_text ''false''"
| json_num: "json_number s \<Longrightarrow> json_text s"
| json_str: "json_string s \<Longrightarrow> json_text s"
| json_array: "\<forall>x \<in> set xs. json_text x \<Longrightarrow> json_text (''['' @ comma_sep xs @ '']'')"
| json_object: "\<forall>kv \<in> set kvs. json_string (fst kv) \<and> json_text (snd kv) \<Longrightarrow>
    json_text (''{'' @ comma_sep (map (\<lambda>(k, v). k @ '':'' @ v) kvs) @ ''}'')"

section \<open>What is written is JSON\<close>

lemma digit_char:
  fixes k :: nat
  assumes "k < 10"
  shows "char_of (48 + k) \<in> set ''0123456789''" "char_of (48 + k) = CHR ''0'' \<longleftrightarrow> k = 0"
proof -
  have "\<forall>k \<in> set [0..<10]. char_of (48 + k) \<in> set ''0123456789'' \<and> (char_of (48 + k) = CHR ''0'' \<longleftrightarrow> k = 0)" by code_simp
  moreover have "k \<in> set [0..<10]" using assms by simp
  ultimately show "char_of (48 + k) \<in> set ''0123456789''" "char_of (48 + k) = CHR ''0'' \<longleftrightarrow> k = 0" by blast+
qed

lemma nat_digits_digits: "digits (nat_digits n)"
proof (induction n rule: nat_digits.induct)
  case (1 n)
  show ?case
  proof (cases "n < 10")
    case True
    then show ?thesis using digit_char(1) [of n] by (simp add: digits_def nat_digits.simps [of n])
  next
    case False
    then show ?thesis using 1 digit_char(1) [of "n mod 10"] by (simp add: digits_def nat_digits.simps [of n])
  qed
qed

lemma nat_digits_hd: "hd (nat_digits n) = CHR ''0'' \<longleftrightarrow> n = 0"
proof (induction n rule: nat_digits.induct)
  case (1 n)
  show ?case
  proof (cases "n < 10")
    case True
    then show ?thesis using digit_char(2) [of n] by (simp add: nat_digits.simps [of n])
  next
    case False
    have "nat_digits (n div 10) \<noteq> []" using nat_digits_digits [of "n div 10"] by (simp add: digits_def)
    then show ?thesis using 1 False by (auto simp: nat_digits.simps [of n])
  qed
qed

lemma json_int_digits: "json_int (nat_digits n)"
  using nat_digits_digits [of n] nat_digits_hd [of n] by (auto simp: json_int_def nat_digits.simps [of 0] char_of_def)

lemma json_numberI: "json_int i \<Longrightarrow> sign = [] \<or> sign = ''-'' \<Longrightarrow> json_number (sign @ i)"
  unfolding json_number_def by (rule exI [of _ sign], rule exI [of _ i], rule exI [of _ "[]"]) simp

lemma json_number_fraction: "json_int i \<Longrightarrow> digits ds \<Longrightarrow> sign = [] \<or> sign = ''-'' \<Longrightarrow> json_number (sign @ i @ ''.'' @ ds)"
  unfolding json_number_def by (rule exI [of _ sign], rule exI [of _ i], rule exI [of _ "''.'' @ ds"]) auto

lemma json_number_int: "json_number (int_to_string i)"
  using json_numberI [OF json_int_digits, of "[]"] json_numberI [OF json_int_digits, of "''-''"] by (simp add: int_to_string_def)

lemma json_number_nat: "json_number (nat_digits n)"
  using json_numberI [OF json_int_digits, of "[]"] by simp

lemma json_number_fixed: "json_number (f64_fixed_1 x)"
proof -
  have "digits ''0''" by (simp add: digits_def)
  from json_number_fraction [OF json_int_digits this, of "[]"] json_number_fraction [OF json_int_digits this, of "''-''"]
  show ?thesis by (simp add: f64_fixed_1_def split: prod.split)
qed

text \<open>The plain decimal form: the integer part has no leading zero, the fraction at least one digit.\<close>

lemma json_number_dec:
  assumes sign: "sign = [] \<or> sign = ''-''"
  shows "json_number (sign @ dec_string q p)"
proof (cases "0 \<le> p")
  case True
  then show ?thesis using json_numberI [OF json_int_digits sign] by (simp add: dec_string_def)
next
  case False
  define k where "k = nat (- p)"
  define ds where "ds = nat_digits q"
  define pad where "pad = replicate (Suc k - length ds) (CHR ''0'') @ ds"
  have k: "0 < k" using False by (simp add: k_def)
  have ds: "digits ds" by (simp add: ds_def nat_digits_digits)
  have len: "k < length pad" by (simp add: pad_def)
  have set: "set pad \<subseteq> set ''0123456789''" using ds by (auto simp: pad_def digits_def)
  have frac: "digits (drop (length pad - k) pad)" using set len k set_drop_subset [of "length pad - k" pad] by (auto simp: digits_def)
  have "json_int (take (length pad - k) pad)"
  proof (cases "length ds \<le> k")
    case True
    then have "length pad - k = Suc 0" "hd pad = CHR ''0''" "pad \<noteq> []" by (simp_all add: pad_def)
    then have "take (length pad - k) pad = ''0''" by (cases pad) simp_all
    then show ?thesis by (simp add: json_int_def digits_def)
  next
    case False
    then have pad: "pad = ds" by (simp add: pad_def)
    have "10 \<le> q"
    proof (rule ccontr)
      assume "\<not> 10 \<le> q"
      then have "length ds = 1" by (simp add: ds_def nat_digits.simps [of q])
      then show False using False k by simp
    qed
    then have "hd ds \<noteq> CHR ''0''" using nat_digits_hd [of q] by (simp add: ds_def)
    moreover have "take (length ds - k) ds \<noteq> []" "hd (take (length ds - k) ds) = hd ds" using False ds by (auto simp: digits_def hd_take)
    ultimately show ?thesis
      unfolding pad json_int_def using ds set_take_subset [of "length ds - k" ds] by (auto simp: digits_def)
  qed
  moreover have "dec_string q p = take (length pad - k) pad @ ''.'' @ drop (length pad - k) pad"
    using False by (simp add: dec_string_def Let_def pad_def ds_def k_def)
  ultimately show ?thesis using json_number_fraction [OF _ frac sign] by simp
qed

lemma write_float_json: "json_text (write_float x)"
proof (cases "f64_is_finite x")
  case True
  have "json_number (f64_to_string x)"
    using True json_number_dec [of "if f64_sign x then ''-'' else []"] json_numberI [of "''0''" "if f64_sign x then ''-'' else []"]
    by (auto simp: f64_to_string_def f64_is_finite_def json_int_def digits_def split: prod.split)
  then show ?thesis using True json_number_fixed by (simp add: write_float_def json_text.json_num)
qed (simp add: write_float_def json_text.json_null)

lemma hex_digit_hex: "n < 16 \<Longrightarrow> is_hex (hex_digit n)"
proof -
  have "\<forall>n \<in> set [0..<16]. is_hex (hex_digit n)" by code_simp
  then show "n < 16 \<Longrightarrow> is_hex (hex_digit n)" by simp
qed

lemma json_char_escape: "json_char (escape_json c)"
proof -
  have "of_char c < (256 :: nat)" by simp
  then have "is_hex (hex_digit (of_char c div 16))" "is_hex (hex_digit (of_char c mod 16))" by (intro hex_digit_hex, simp add: less_mult_imp_div_less)+
  moreover have "is_hex (CHR ''0'')" by (simp add: is_hex_def)
  ultimately show ?thesis by (auto simp: escape_json_def json_char_def plain_char_def Let_def)
qed

lemma write_string_json: "json_string (write_string s)"
  unfolding json_string_def write_string_def quoted_def using json_char_escape by (intro exI [of _ "map escape_json s"]) auto

lemma quoted_plain: "\<forall>c \<in> set s. plain_char c \<Longrightarrow> json_string (quoted s)"
  unfolding json_string_def by (rule exI [of _ "map (\<lambda>c. [c]) s"]) (auto simp: json_char_def)

lemma json_members:
  assumes "\<forall>(k, v) \<in> set kvs. json_string k \<and> json_text v"
  shows "json_text (''{'' @ comma_sep (map (\<lambda>(k, v). k @ '':'' @ v) kvs) @ ''}'')"
  by (rule json_text.json_object) (use assms in auto)

lemma write_json_text: "json_text (write_json v)"
proof (induction v rule: write_json.induct)
  case (3 n)
  then show ?case by (simp add: json_text.json_num json_number_int)
next
  case (5 s)
  then show ?case by (simp add: json_text.json_str write_string_json)
next
  case (6 items)
  then show ?case using json_text.json_array [of "map write_json items"] by auto
next
  case (7 doc)
  have "json_text (''{'' @ comma_sep (map (\<lambda>(k, v). k @ '':'' @ v) (map (\<lambda>(k, v). (write_string k, write_json v)) (sort_key fst doc))) @ ''}'')"
    using 7 write_string_json by (intro json_members) auto
  then show ?case by (simp add: comp_def case_prod_unfold)
qed (simp_all add: json_text.intros write_float_json)

lemma write_json_document_text: "json_text (write_json_document doc)"
  using write_json_text [of "VDocument doc"] by (simp add: write_json_document_def)

lemma write_output_text: "json_text (write_output out)"
proof (cases out)
  case (Documents docs)
  have "json_text (''['' @ comma_sep (map write_json_document docs) @ '']'')"
    by (rule json_text.json_array) (use write_json_document_text in auto)
  then have "json_text (''{'' @ comma_sep (map (\<lambda>(k, v). k @ '':'' @ v) [(quoted ''count'', nat_digits (length docs)),
      (quoted ''documents'', ''['' @ comma_sep (map write_json_document docs) @ '']'')]) @ ''}'')"
    using quoted_plain [of "''count''"] quoted_plain [of "''documents''"]
    by (intro json_members) (auto simp: plain_char_def intro: json_text.json_num json_number_nat)
  then show ?thesis by (simp add: write_output_def Documents)
next
  case (Affected n)
  have "json_text (''{'' @ comma_sep (map (\<lambda>(k, v). k @ '':'' @ v) [(quoted ''affected'', nat_digits n)]) @ ''}'')"
    using quoted_plain [of "''affected''"] by (intro json_members) (auto simp: plain_char_def intro: json_text.json_num json_number_nat)
  then show ?thesis by (simp add: write_output_def Affected)
qed

lemma write_error_text: "json_text (write_error message stage)"
proof -
  have "json_text (''{'' @ comma_sep (map (\<lambda>(k, v). k @ '':'' @ v) [(quoted ''error'', write_string message), (quoted ''stage'', write_string stage)]) @ ''}'')"
    using quoted_plain [of "''error''"] quoted_plain [of "''stage''"]
    by (intro json_members) (auto simp: plain_char_def intro: json_text.json_str write_string_json)
  then show ?thesis by (simp add: write_error_def)
qed

end
