(* ===== verification/Shared_Db.thy ===== *)
theory Shared_Db
  imports Query_Delete Json_Output Query_Binder Asl_Parser Wire_Codec
begin

text \<open>
  What the two servers and the sweeper share: \<open>Arc<Mutex<Database>>\<close>, and the run of one statement
  under its lock (\<open>run_statement\<close> of \<open>server.rs\<close>, \<open>do_exec\<close> of \<open>binserver.rs\<close> and \<open>run\<close> of \<open>ttl.rs\<close>
  make the same calls and differ in the form of the error).

  A thread that panics while it holds the guard poisons the mutex, and every later \<open>lock()\<close> is an
  error. The text that a derived \<open>Debug\<close> gives an error is an argument, \<open>debug\<close>; the texts of the
  \<open>Display\<close> implementations are the code's own. The fuel \<open>n\<close> is that of \<open>execute\<close>.
\<close>

section \<open>The lock\<close>

record shared =
  sh_db :: database
  sh_poisoned :: bool

definition locked :: "'e \<Rightarrow> (database, 'e, 'a) prog \<Rightarrow> (shared, 'e, 'a) prog" where
  "locked poisoned m = (\<lambda>s. if sh_poisoned s then (Err poisoned, s)
     else case m (sh_db s) of (r, db) \<Rightarrow> (r, s\<lparr>sh_db := db, sh_poisoned := (case r of Panic _ \<Rightarrow> True | _ \<Rightarrow> False)\<rparr>))"

section \<open>Error texts\<close>

record debug =
  dbg_lex :: "lex_error \<Rightarrow> string"
  dbg_parse :: "parse_error \<Rightarrow> string"
  dbg_db :: "database_error \<Rightarrow> string"

fun query_error_text :: "query_error \<Rightarrow> string" where
  "query_error_text (Arithmetic msg) = ''arithmetic error: '' @ msg"
| "query_error_text (Storage msg) = ''storage error: '' @ msg"
| "query_error_text (InvalidPipeline msg) = ''invalid pipeline: '' @ msg"
| "query_error_text (TypeErr msg) = ''type error: '' @ msg"
| "query_error_text (Unsupported msg) = ''unsupported query: '' @ msg"
| "query_error_text (Validation msg) = ''validation error: '' @ msg"

fun exec_error_text :: "debug \<Rightarrow> exec_error \<Rightarrow> string" where
  "exec_error_text d (ExecQuery e) = query_error_text e"
| "exec_error_text d (ExecStorage e) = query_error_text (Storage (dbg_db d e))"

fun wire_error_text :: "wire_error \<Rightarrow> string" where
  "wire_error_text Truncated = ''frame ended mid-value''"
| "wire_error_text (BadTag t) = ''unknown value tag 0x'' @ [hex_digit (unat t div 16), hex_digit (unat t mod 16)]"
| "wire_error_text BadUtf8 = ''string was not valid UTF-8''"
| "wire_error_text (TooLarge n) = ''frame of '' @ nat_digits n @ '' bytes exceeds the limit''"

section \<open>One statement\<close>

text \<open>What \<open>bind\<close> and \<open>plan\<close> ask the database.\<close>

definition names_of :: "database \<Rightarrow> db_names" where
  "names_of db = \<lparr>dn_has_collection = has_collection db, dn_has_index = has_index db, dn_has_compound_index = has_compound_index db\<rparr>"

definition lift_query :: "string \<Rightarrow> (database \<Rightarrow> 'a query_result) \<Rightarrow> (database, string \<times> string, 'a) prog" where
  "lift_query stage f = (\<lambda>db. (map_err (\<lambda>e. (query_error_text e, stage)) (f db), db))"

definition ddl :: "debug \<Rightarrow> string \<Rightarrow> unit db_prog \<Rightarrow> (database, string \<times> string, query_output) prog" where
  "ddl d stage m = bindP (map_errP (\<lambda>e. (dbg_db d e, stage)) m) (\<lambda>_. returnP (query_output.Affected 1))"

definition run_bound :: "debug \<Rightarrow> nat \<Rightarrow> bound_statement \<Rightarrow> (database, string \<times> string, query_output) prog" where
  "run_bound d n bound = (case bound of
     BPipeline p \<Rightarrow>
       bindP (lift_query ''plan'' (\<lambda>db. plan (has_index db) p)) (\<lambda>physical.
       map_errP (\<lambda>e. (exec_error_text d e, ''execute'')) (execute n physical))
   | BNoOp \<Rightarrow> returnP (query_output.Affected 0)
   | BCreateCollection name _ \<Rightarrow> ddl d ''create'' (database_create_collection name)
   | BDropCollection name \<Rightarrow> ddl d ''drop'' (database_drop_collection name)
   | BCreateIndex collection fs unique \<Rightarrow> ddl d ''index'' (database_create_index_on collection fs unique)
   | BDropIndex collection field \<Rightarrow> ddl d ''index'' (database_drop_index collection field))"

text \<open>Lexing and parsing need no lock; \<open>read_statement\<close> is what happens before it is taken.\<close>

definition read_statement :: "debug \<Rightarrow> string \<Rightarrow> (string \<times> string, stmt) outcome" where
  "read_statement d source =
     bindO (map_err (\<lambda>e. (dbg_lex d e, ''lex'')) (tokenize source)) (\<lambda>tokens.
     map_err (\<lambda>e. (dbg_parse d e, ''parse'')) (parse tokens))"

definition run_locked :: "debug \<Rightarrow> nat \<Rightarrow> stmt \<Rightarrow> (database, string \<times> string, query_output) prog" where
  "run_locked d n statement =
     bindP (lift_query ''bind'' (\<lambda>db. bind (names_of db) statement)) (run_bound d n)"

definition run_source :: "debug \<Rightarrow> nat \<Rightarrow> string \<times> string \<Rightarrow> string \<Rightarrow> (shared, string \<times> string, query_output) prog" where
  "run_source d n poisoned source =
     bindP (liftO (read_statement d source)) (\<lambda>statement. locked poisoned (run_locked d n statement))"

section \<open>A poisoned lock\<close>

lemma locked_poisoned: "sh_poisoned s \<Longrightarrow> locked e m s = (Err e, s)"
  by (simp add: locked_def)

lemma read_statement_returns: "returns (read_statement d source)"
proof -
  have "returns (tokenize source)" unfolding tokenize_def by (rule tokenize_loop_returns) simp
  moreover have "returns (parse ts)" if "tokenize source = Ok ts" for ts by (rule parse_returns [OF tokenize_negatable [OF that]])
  ultimately show ?thesis
    unfolding read_statement_def by (intro returns_bindO) (auto simp: map_err_Ok_iff)
qed

lemma run_source_poisoned:
  assumes "sh_poisoned s"
  obtains e where "run_source d n p source s = (Err e, s)"
proof -
  show ?thesis
    by (rule returnsE [OF read_statement_returns, of d source]) (use that assms in \<open>auto simp: run_source_def prog_simps locked_poisoned\<close>)
qed

end
