(* ===== verification/Abp_Server.thy ===== *)
theory Abp_Server
  imports Shared_Db
begin

text \<open>
  \<open>binserver.rs\<close>: the listener of the binary protocol ABP/1.

  A connection is what the client sends until it hangs up, what it was answered, and whether its
  thread still runs; writing to the socket is taken to succeed. \<open>handle_step\<close> is one round of the
  loop of \<open>handle\<close>. Everything a round does to the database happens under the lock, so threads
  that serve several connections run their rounds one after the other, in any order: that is
  \<open>server_step\<close>.
\<close>

section \<open>Replies\<close>

definition op_frame :: "op \<Rightarrow> byte list \<Rightarrow> byte list" where
  "op_frame opcode body = put_u32 (length body + 1) @ op_code opcode # body"

definition reply_affected :: "nat \<Rightarrow> byte list" where
  "reply_affected n = op_frame op.Affected (le_bytes 8 n)"

definition reply_error :: "string \<Rightarrow> byte list" where
  "reply_error msg = op_frame ErrorOp (put_str msg)"

definition reply_output :: "query_output \<Rightarrow> byte list" where
  "reply_output output = (case output of
     query_output.Affected n \<Rightarrow> reply_affected n
   | query_output.Documents docs \<Rightarrow> op_frame op.Documents (put_u32 (length docs) @ concat (map put_document_body docs)))"

section \<open>Requests\<close>

definition wire :: "'a reader_prog \<Rightarrow> (byte list, string, 'a) prog" where
  "wire m = map_errP wire_error_text m"

definition read_insert :: "(byte list, string, string \<times> document list) prog" where
  "read_insert =
     bindP (wire wire_str) (\<lambda>collection.
     bindP (wire wire_u32) (\<lambda>count.
     bindP (readP length) (\<lambda>remaining.
     if remaining < count then failP ''document count exceeds frame''
     else bindP (repeatP count (wire reader_document_body)) (\<lambda>docs. returnP (collection, docs)))))"

definition do_insert :: "debug \<Rightarrow> byte list \<Rightarrow> (shared, string, nat) prog" where
  "do_insert d payload =
     bindP (liftO (fst (read_insert payload))) (\<lambda>(collection, docs).
     bindP (locked ''database lock poisoned'' (map_errP (dbg_db d) (insert_docs collection docs))) (\<lambda>ids.
     returnP (length ids)))"

definition read_upsert :: "(byte list, string, string \<times> string \<times> doc_value \<times> document) prog" where
  "read_upsert =
     bindP (wire wire_str) (\<lambda>collection.
     bindP (wire wire_str) (\<lambda>field.
     bindP (wire reader_value) (\<lambda>v.
     bindP (wire reader_document_body) (\<lambda>doc.
     returnP (collection, field, v, doc)))))"

definition do_upsert :: "debug \<Rightarrow> byte list \<Rightarrow> (shared, string, nat) prog" where
  "do_upsert d payload =
     bindP (liftO (fst (read_upsert payload))) (\<lambda>(collection, field, v, doc).
     locked ''database lock poisoned'' (map_errP (dbg_db d) (upsert_by collection field v doc)))"

definition do_exec :: "debug \<Rightarrow> nat \<Rightarrow> byte list \<Rightarrow> (shared, string, query_output) prog" where
  "do_exec d n payload =
     bindP (liftO (fst (wire wire_str payload))) (\<lambda>source.
     map_errP fst (run_source d n (''database lock poisoned'', ''server'') source))"

fun op_name :: "op \<Rightarrow> string" where
  "op_name Exec = ''Exec''"
| "op_name Insert = ''Insert''"
| "op_name Ping = ''Ping''"
| "op_name Close = ''Close''"
| "op_name Upsert = ''Upsert''"
| "op_name op.Affected = ''Affected''"
| "op_name op.Documents = ''Documents''"
| "op_name ErrorOp = ''Error''"
| "op_name Pong = ''Pong''"

text \<open>The \<open>match\<close> that turns a result into a reply; a panic unwinds past it.\<close>

definition answer :: "('a \<Rightarrow> byte list) \<Rightarrow> (shared, string, 'a) prog \<Rightarrow> (shared, unit, byte list) prog" where
  "answer reply m = (\<lambda>s. case m s of
     (Ok a, s') \<Rightarrow> (Ok (reply a), s')
   | (Err e, s') \<Rightarrow> (Ok (reply_error e), s')
   | (Panic p, s') \<Rightarrow> (Panic p, s')
   | (Hang, s') \<Rightarrow> (Hang, s'))"

definition dispatch :: "debug \<Rightarrow> nat \<Rightarrow> op \<Rightarrow> byte list \<Rightarrow> (shared, unit, byte list) prog" where
  "dispatch d n opcode payload = (case opcode of
     Ping \<Rightarrow> returnP (put_u32 1 @ [op_code Pong])
   | Insert \<Rightarrow> answer reply_affected (do_insert d payload)
   | Upsert \<Rightarrow> answer reply_affected (do_upsert d payload)
   | Exec \<Rightarrow> answer reply_output (do_exec d n payload)
   | Close \<Rightarrow> returnP []
   | _ \<Rightarrow> returnP (reply_error (op_name opcode @ '' is a response, not a request'')))"

section \<open>Connections\<close>

record connection =
  cn_in :: "byte list"
  cn_out :: "byte list"
  cn_open :: bool

definition hang_up :: "connection \<Rightarrow> connection" where
  "hang_up c = c\<lparr>cn_open := False\<rparr>"

definition reply :: "byte list \<Rightarrow> connection \<Rightarrow> connection" where
  "reply bytes c = c\<lparr>cn_out := cn_out c @ bytes\<rparr>"

definition handle_step :: "debug \<Rightarrow> nat \<Rightarrow> connection \<Rightarrow> (shared, unit, connection) prog" where
  "handle_step d n c = (
     if length (cn_in c) < 4 then returnP (hang_up c)
     else let len = le_val (take 4 (cn_in c)); rest = drop 4 (cn_in c) in
       if len = 0 \<or> MAX_FRAME < len then returnP (hang_up (reply (reply_error (''bad frame length '' @ nat_digits len)) c))
       else if length rest < len then returnP (hang_up c)
       else let fr = take len rest; c' = c\<lparr>cn_in := drop len rest\<rparr> in
         case op_try_from (hd fr) of
           Ok Close \<Rightarrow> returnP (hang_up c')
         | Ok opcode \<Rightarrow> (\<lambda>s. case dispatch d n opcode (tl fr) s of
             (Ok bytes, s') \<Rightarrow> (Ok (reply bytes c'), s')
           | (Err e, s') \<Rightarrow> (Err e, s')
           | (Panic p, s') \<Rightarrow> (Ok (hang_up c'), s')
           | (Hang, s') \<Rightarrow> (Hang, s'))
         | Err code \<Rightarrow> returnP (reply (reply_error (''unknown opcode '' @ nat_digits (unat code))) c')
         | _ \<Rightarrow> hangP)"

text \<open>
  The whole loop of \<open>handle\<close>. A round that leaves the connection open has consumed a frame, five
  bytes at least, so the number of bytes is enough fuel.
\<close>

fun handle_loop :: "debug \<Rightarrow> nat \<Rightarrow> nat \<Rightarrow> connection \<Rightarrow> (shared, unit, connection) prog" where
  "handle_loop d n 0 c = hangP"
| "handle_loop d n (Suc k) c = (if \<not> cn_open c then returnP c else bindP (handle_step d n c) (handle_loop d n k))"

definition handle :: "debug \<Rightarrow> nat \<Rightarrow> connection \<Rightarrow> (shared, unit, connection) prog" where
  "handle d n c = handle_loop d n (length (cn_in c) + 2) c"

inductive server_step :: "debug \<Rightarrow> nat \<Rightarrow> shared \<times> connection list \<Rightarrow> shared \<times> connection list \<Rightarrow> bool"
  for d n where
  accept: "server_step d n (s, cs) (s, cs @ [\<lparr>cn_in = input, cn_out = [], cn_open = True\<rparr>])"
| serve: "i < length cs \<Longrightarrow> cn_open (cs ! i) \<Longrightarrow> handle_step d n (cs ! i) s = (Ok c, s') \<Longrightarrow> server_step d n (s, cs) (s', cs[i := c])"

section \<open>Invariants of the server\<close>

text \<open>A round that leaves the connection open has eaten a frame, so the loop ends.\<close>

lemma handle_step_eats:
  assumes "handle_step d n c s = (Ok c', s')" and "cn_open c'"
  shows "length (cn_in c') < length (cn_in c)"
proof -
  let ?rest = "drop (le_val (take 4 (cn_in c))) (drop 4 (cn_in c))"
  have "4 \<le> length (cn_in c)" "cn_in c' = ?rest"
    using assms by (auto simp: handle_step_def Let_def hang_up_def reply_def hangP_def
        split: if_splits outcome.splits op.splits prod.splits)
  then show ?thesis by simp
qed

lemma handle_loop_ends:
  assumes "length (cn_in c) + 2 \<le> k" and "\<forall>c s. fst (handle_step d n c s) \<noteq> Hang"
  shows "fst (handle_loop d n k c s) \<noteq> Hang"
  using assms
proof (induction k arbitrary: c s)
  case (Suc k)
  show ?case
  proof (cases "cn_open c")
    case True
    obtain r s' where st: "handle_step d n c s = (r, s')" by (cases "handle_step d n c s")
    have nh: "r \<noteq> Hang" using Suc.prems(2) st by (metis fst_conv)
    show ?thesis
    proof (cases r)
      case (Ok c')
      then show ?thesis
      proof (cases "cn_open c'")
        case True
        then have "length (cn_in c') + 2 \<le> k" using handle_step_eats [of d n c s c' s'] st Ok Suc.prems(1) by simp
        then have "fst (handle_loop d n k c' s') \<noteq> Hang" using Suc.IH [of c'] Suc.prems(2) by blast
        then show ?thesis using st Ok by (simp add: prog_simps)
      next
        case False
        then show ?thesis using st Ok Suc.prems(1) by (cases k) (simp_all add: prog_simps)
      qed
    qed (use st nh True in \<open>simp_all add: bindP_def\<close>)
  qed simp
qed simp

text \<open>Requests are read without a panic, whatever their bytes.\<close>

lemma consumes_wire [simp]: "consumes (wire m) bs \<longleftrightarrow> consumes m bs"
  unfolding consumes_def wire_def map_errP_def by (cases "m bs"; cases "fst (m bs)") auto

lemma consumes_readers [simp]: "consumes reader_document_body bs" "consumes reader_value bs"
proof -
  show "consumes reader_document_body bs"
    using consumes_wire_body [of bs "wire_value (length bs)"] consumes_wire_value by (simp add: consumes_def reader_document_body_def)
  show "consumes reader_value bs" using consumes_wire_value [of bs "Suc (length bs)"] by (simp add: consumes_def reader_value_def)
qed

lemma consumes_requests: "consumes read_insert bs" "consumes read_upsert bs"
proof -
  have len: "consumes (readP length) bs" for bs by (simp add: consumes_def readP_def)
  show "consumes read_insert bs"
    unfolding read_insert_def
    by (rule consumes_bind, simp, rule consumes_bind, simp, rule consumes_bind [OF len]) (auto intro!: consumes_bind consumes_repeat)
  show "consumes read_upsert bs"
    unfolding read_upsert_def by (rule consumes_bind, simp)+ simp
qed

section \<open>A poisoned lock\<close>

lemma dispatch_poisoned:
  assumes s: "sh_poisoned s" and opcode: "opcode \<in> {Exec, Insert, Upsert}"
  shows "\<exists>msg. dispatch d n opcode payload s = (Ok (reply_error msg), s)"
proof -
  have "\<exists>e. do_insert d payload s = (Err e, s)"
    using consumes_requests(1) [of payload] by (cases rule: consumesE) (auto simp: do_insert_def locked_poisoned [OF s] prog_simps split: prod.splits)
  moreover have "\<exists>e. do_upsert d payload s = (Err e, s)"
    using consumes_requests(2) [of payload] by (cases rule: consumesE) (auto simp: do_upsert_def locked_poisoned [OF s] prog_simps split: prod.splits)
  moreover have "\<exists>e. do_exec d n payload s = (Err e, s)"
  proof -
    have "consumes (wire wire_str) payload" by simp
    then show ?thesis
    proof (cases rule: consumesE)
      case (Ok source rest)
      obtain e where "run_source d n (''database lock poisoned'', ''server'') source s = (Err e, s)" by (rule run_source_poisoned [OF s])
      then show ?thesis using Ok by (auto simp: do_exec_def prog_simps)
    qed (auto simp: do_exec_def prog_simps)
  qed
  ultimately obtain a b e where "do_insert d payload s = (Err a, s)" "do_upsert d payload s = (Err b, s)" "do_exec d n payload s = (Err e, s)"
    by blast
  then show ?thesis using opcode by (auto simp: dispatch_def answer_def)
qed

lemma dispatch_poisoned_db: "sh_poisoned s \<Longrightarrow> \<exists>bytes. dispatch d n opcode payload s = (Ok bytes, s)"
  using dispatch_poisoned [of s opcode d n payload] by (cases opcode) (auto simp: dispatch_def)

lemma handle_step_poisoned:
  assumes "sh_poisoned s" and st: "handle_step d n c s = (r, s')"
  shows "s' = s"
proof -
  have "\<forall>opcode payload. \<exists>bytes. dispatch d n opcode payload s = (Ok bytes, s)" using dispatch_poisoned_db [OF assms(1)] by blast
  then obtain f where "\<And>opcode payload. dispatch d n opcode payload s = (Ok (f opcode payload), s)" by metis
  then have "snd (handle_step d n c s) = s"
    by (simp add: handle_step_def Let_def hangP_def returnP_def split: outcome.split op.split)
  then show ?thesis using st by simp
qed

lemma poisoned_for_ever:
  assumes "(server_step d n)\<^sup>*\<^sup>* (s, cs) (s', cs')" and "sh_poisoned s"
  shows "s' = s"
  using assms(1)
proof (induction rule: rtranclp_induct2)
  case (step s1 cs1 s2 cs2)
  from step(2) step(3) assms(2) show ?case by cases (auto dest: handle_step_poisoned)
qed simp

section \<open>Insert requests\<close>

text \<open>The payload of an \<open>Insert\<close> frame, as a client writes it.\<close>

definition insert_payload :: "string \<Rightarrow> document list \<Rightarrow> byte list" where
  "insert_payload collection docs = put_str collection @ put_u32 (length docs) @ concat (map put_document_body docs)"

definition sendable :: "document \<Rightarrow> bool" where
  "sendable x \<longleftrightarrow> document_ok x \<and> wire_fits (VDocument x)"

interpretation abp_document: codec put_document_body "wire reader_document_body" sendable canon_doc
proof
  show "sendable x \<Longrightarrow> wire reader_document_body (put_document_body x @ rest) = (Ok (canon_doc x), rest)" for x rest
    using wire_document_codec.dec_enc [of x rest] by (simp add: wire_def map_errP_def sendable_def)
qed

lemma read_insert_payload:
  assumes "utf8_valid name" and "length name < 2 ^ 32" and "length docs < 2 ^ 32" and "\<forall>x \<in> set docs. sendable x"
  shows "fst (read_insert (insert_payload name docs)) = Ok (name, map canon_doc docs)"
proof -
  have "0 < length (put_document_body x)" for x by (simp add: put_document_body_def put_u32_def)
  then have "length docs \<le> length (concat (map put_document_body docs))" by (intro length_le_concat)
  moreover have "repeatP (length docs) (wire reader_document_body) (concat (map put_document_body docs)) = (Ok (map canon_doc docs), [])"
    using abp_document.repeat_dec [OF assms(4), of "[]"] by simp
  ultimately show ?thesis
    using assms by (simp add: read_insert_def insert_payload_def wire_def [of wire_str] wire_def [of wire_u32] map_errP_def prog_simps)
qed

lemma handle_step_request:
  assumes "cn_in c = op_frame opcode body @ rest" and "opcode \<noteq> Close" and "length body < MAX_FRAME"
  shows "handle_step d n c s = (case dispatch d n opcode body s of
      (Ok bytes, s') \<Rightarrow> (Ok (reply bytes (c\<lparr>cn_in := rest\<rparr>)), s')
    | (Err e, s') \<Rightarrow> (Err e, s')
    | (Panic p, s') \<Rightarrow> (Ok (hang_up (c\<lparr>cn_in := rest\<rparr>)), s')
    | (Hang, s') \<Rightarrow> (Hang, s'))"
proof -
  have len: "le_val (take 4 (cn_in c)) = Suc (length body)" "drop 4 (cn_in c) = op_code opcode # body @ rest" "4 \<le> length (cn_in c)"
    using assms(1,3) by (simp_all add: op_frame_def put_u32_def MAX_FRAME_def)
  let ?fr = "take (Suc (length body)) (op_code opcode # body @ rest)"
  have fr: "op_try_from (hd ?fr) = Ok opcode" "tl ?fr = body" "drop (Suc (length body)) (op_code opcode # body @ rest) = rest"
    by (simp_all add: op_roundtrip)
  have size: "\<not> length (cn_in c) < 4" "\<not> (Suc (length body) = 0 \<or> MAX_FRAME < Suc (length body))"
    "\<not> length (op_code opcode # body @ rest) < Suc (length body)" using len(3) assms(3) by simp_all
  show ?thesis
    unfolding handle_step_def Let_def len fr if_not_P [OF size(1)] if_not_P [OF size(2)] if_not_P [OF size(3)]
    using assms(2) by (cases opcode) simp_all
qed

text \<open>
  C9: an insert request over the binary protocol, from the bytes on the wire to the pages. The
  server answers with the number of the documents, has consumed exactly the request, and the
  database holds, under fresh ids, the documents that were sent, equal to them as hash maps.
\<close>

theorem abp_insert_request:
  assumes db: "pool_inv (db_pool (sh_db s))" "\<not> sh_poisoned s" "db_collection (db_view (sh_db s)) name ps m" "unindexed (db_catalog (sh_db s)) name"
    and b: "length ps + length docs * (length ps + length docs + 4) \<le> pool_budget (db_pool (sh_db s))"
    and name: "utf8_valid name" "length name < 2 ^ 32"
    and docs: "\<forall>x \<in> set docs. sendable x \<and> storable (canon_doc x)"
    and req: "length (insert_payload name docs) < MAX_FRAME" "cn_in c = op_frame Insert (insert_payload name docs) @ rest"
  shows "\<exists>ids s'. handle_step d n c s = (Ok (reply (reply_affected (length docs)) (c\<lparr>cn_in := rest\<rparr>)), s')
    \<and> pool_inv (db_pool (sh_db s')) \<and> \<not> sh_poisoned s'
    \<and> docs_inserted (db_view (sh_db s)) name ps m (map canon_doc docs) ids (db_view (sh_db s'))"
proof -
  have "0 < length (put_document_body x)" for x by (simp add: put_document_body_def put_u32_def)
  then have "length docs \<le> length (concat (map put_document_body docs))" by (intro length_le_concat)
  then have "length docs < 2 ^ 32" using req(1) by (simp add: insert_payload_def MAX_FRAME_def)
  then have rd: "fst (read_insert (insert_payload name docs)) = Ok (name, map canon_doc docs)" using name docs by (intro read_insert_payload) auto
  have st: "\<forall>x \<in> set (map canon_doc docs). storable x" using docs by simp
  have b': "length ps + length (map canon_doc docs) * (length ps + length (map canon_doc docs) + 4) \<le> pool_budget (db_pool (sh_db s))" using b by simp
  obtain ids db' where i: "insert_docs name (map canon_doc docs) (sh_db s) = (Ok ids, db')" "pool_inv (db_pool db')"
    "docs_inserted (db_view (sh_db s)) name ps m (map canon_doc docs) ids (db_view db')"
    by (rule dbst.totalE [OF insert_docs_total [OF db(3,4) st] db(1) b'])
  have "length ids = length docs" using i(3) by (simp add: docs_inserted_def)
  then have "dispatch d n Insert (insert_payload name docs) s = (Ok (reply_affected (length docs)), s\<lparr>sh_db := db', sh_poisoned := False\<rparr>)"
    using db(2) i(1) by (simp add: dispatch_def answer_def do_insert_def rd prog_simps locked_def)
  then have "handle_step d n c s = (Ok (reply (reply_affected (length docs)) (c\<lparr>cn_in := rest\<rparr>)), s\<lparr>sh_db := db', sh_poisoned := False\<rparr>)"
    using handle_step_request [OF req(2) _ req(1)] by simp
  then show ?thesis using i(2,3) by auto
qed

section \<open>A document that does not fit a page\<close>

lemma insert_oversized:
  assumes "MAX_RECORD_SIZE < length (serialize_document x)"
  shows "collection_insert x (c, s) = (Panic ''record larger than MAX_RECORD_SIZE'', (c, s))"
  using assms serialize_nonempty [of x] by (simp add: collection_insert_def on_heap_def heap_insert_def prog_simps bindP_def assertP_def panicP_def)

lemma insert_docs_oversized:
  assumes inv: "pool_inv (db_pool db)" and b: "length ps \<le> pool_budget (db_pool db)"
    and coll: "db_collection (db_view db) name ps m" and idx: "unindexed (db_catalog db) name"
    and x: "MAX_RECORD_SIZE < length (serialize_document x)"
  obtains db' where "insert_docs name (x # docs) db = (Panic ''record larger than MAX_RECORD_SIZE'', db')"
proof -
  obtain db1 where o: "on_parts DbCatalog (catalog_open_collection name) db = (Ok (opened ps), db1)"
    by (rule dbst.totalE [OF open_total [OF coll] inv b]) blast
  have u: "on_parts DbCatalog (check_unique_batch name (x # docs)) db = (Ok (), db)" by (rule on_parts_pure) (rule unindexed_check [OF idx])
  have "mapP collection_insert (x # docs) (opened ps, db_pool db1) = (Panic ''record larger than MAX_RECORD_SIZE'', (opened ps, db_pool db1))"
    using insert_oversized [OF x] by (simp add: bindP_def)
  then have "on_collection (opened ps) (mapP collection_insert (x # docs)) db1 = (Panic ''record larger than MAX_RECORD_SIZE'', db1)"
    by (simp add: on_collection_def)
  with o u show ?thesis using that unfolding insert_docs_def by (simp add: prog_simps bindP_def)
qed

text \<open>
  C36: one insert request can stop the server for good. A document that is well formed but too long
  for a page makes the storage layer panic under the lock: the request is not answered and the
  connection ends, and from then on, whatever connections are served in whatever order, the
  database never changes again and every \<open>Exec\<close>, \<open>Insert\<close> and \<open>Upsert\<close> is answered by an error.
\<close>

theorem oversized_document_stops_server:
  assumes db: "pool_inv (db_pool (sh_db s))" "\<not> sh_poisoned s" "db_collection (db_view (sh_db s)) name ps m" "unindexed (db_catalog (sh_db s)) name"
    "length ps \<le> pool_budget (db_pool (sh_db s))"
    and name: "utf8_valid name" "length name < 2 ^ 32"
    and x: "sendable x" "MAX_RECORD_SIZE < length (serialize_document (canon_doc x))"
    and req: "length (insert_payload name [x]) < MAX_FRAME" "cn_in c = op_frame Insert (insert_payload name [x]) @ rest"
  shows "\<exists>s'. handle_step d n c s = (Ok (hang_up (c\<lparr>cn_in := rest\<rparr>)), s')
    \<and> (\<forall>cs s'' cs''. (server_step d n)\<^sup>*\<^sup>* (s', cs) (s'', cs'') \<longrightarrow> s'' = s'
        \<and> (\<forall>opcode \<in> {Exec, Insert, Upsert}. \<forall>payload. \<exists>msg. dispatch d n opcode payload s'' = (Ok (reply_error msg), s'')))"
proof -
  have rd: "fst (read_insert (insert_payload name [x])) = Ok (name, [canon_doc x])"
    using read_insert_payload [OF name, of "[x]"] x(1) by simp
  obtain db' where "insert_docs name [canon_doc x] (sh_db s) = (Panic ''record larger than MAX_RECORD_SIZE'', db')"
    using insert_docs_oversized [OF db(1,5,3,4) x(2)] by blast
  then have "dispatch d n Insert (insert_payload name [x]) s = (Panic ''record larger than MAX_RECORD_SIZE'', s\<lparr>sh_db := db', sh_poisoned := True\<rparr>)"
    (is "_ = (_, ?s')") using db(2) by (simp add: dispatch_def answer_def do_insert_def rd locked_def map_errP_def bindP_def liftO_def)
  then have "handle_step d n c s = (Ok (hang_up (c\<lparr>cn_in := rest\<rparr>)), ?s')"
    using handle_step_request [OF req(2) _ req(1)] by simp
  moreover have "s'' = ?s'" if "(server_step d n)\<^sup>*\<^sup>* (?s', cs) (s'', cs'')" for cs s'' cs''
    using poisoned_for_ever [OF that] by simp
  moreover have "\<exists>msg. dispatch d n opcode payload ?s' = (Ok (reply_error msg), ?s')" if "opcode \<in> {Exec, Insert, Upsert}" for opcode payload
    using dispatch_poisoned [OF _ that] by simp
  ultimately show ?thesis by blast
qed

section \<open>Witnesses\<close>

definition example_debug :: debug where
  "example_debug = \<lparr>dbg_lex = \<lambda>_. [], dbg_parse = \<lambda>_. [], dbg_db = \<lambda>_. []\<rparr>"

definition example_request :: "document \<Rightarrow> connection" where
  "example_request x = \<lparr>cn_in = op_frame Insert (insert_payload ''c'' [x]), cn_out = [], cn_open = True\<rparr>"

lemma example_shared:
  obtains s :: shared and ps m where "pool_inv (db_pool (sh_db s))" "\<not> sh_poisoned s" "db_collection (db_view (sh_db s)) ''c'' ps m"
    "unindexed (db_catalog (sh_db s)) ''c''" "900 \<le> pool_budget (db_pool (sh_db s))" "length ps \<le> 3"
proof -
  obtain db ps d e where db: "pool_inv (db_pool db)" "900 \<le> pool_budget (db_pool db)" "length ps \<le> 3" "d \<noteq> e"
    "db_collection (db_view db) ''c'' ps [d \<mapsto> [(''a'', VInt 2)], e \<mapsto> [(''a'', VInt 1)]]" "unindexed (db_catalog db) ''c''"
    by (rule example_two_documents)
  show ?thesis by (rule that [of "\<lparr>sh_db = db, sh_poisoned = False\<rparr>"]) (use db in simp_all)
qed

lemma example_name: "utf8_valid ''c''" "length ''c'' < 2 ^ 32"
  by (simp_all add: utf8_valid_def)

lemma payload_single: "length (insert_payload ''c'' [[(''a'', v)]]) = 18 + length (put_value v)"
  by (simp add: insert_payload_def put_document_body_def put_str_def put_u32_def)

theorem abp_insert_request_witness:
  "\<exists>s ps m ids s'. handle_step example_debug 0 (example_request [(''a'', VInt 7)]) s
      = (Ok \<lparr>cn_in = [], cn_out = reply_affected 1, cn_open = True\<rparr>, s')
    \<and> docs_inserted (db_view (sh_db s)) ''c'' ps m [[(''a'', VInt 7)]] ids (db_view (sh_db s'))"
proof -
  obtain s :: shared and ps m where s: "pool_inv (db_pool (sh_db s))" "\<not> sh_poisoned s" "db_collection (db_view (sh_db s)) ''c'' ps m"
    "unindexed (db_catalog (sh_db s)) ''c''" "900 \<le> pool_budget (db_pool (sh_db s))" "length ps \<le> 3" by (rule example_shared)
  let ?x = "[(''a'', VInt 7)]"
  have c: "canon_doc ?x = ?x" by (simp add: canon_doc_def)
  have b: "length ps + length [?x] * (length ps + length [?x] + 4) \<le> pool_budget (db_pool (sh_db s))" using s(5,6) by simp
  have "sendable ?x" by (simp add: sendable_def document_ok_def utf8_valid_def)
  then have docs: "\<forall>x \<in> set [?x]. sendable x \<and> storable (canon_doc x)" using example_storable [of 7] by (simp add: c)
  have req: "length (insert_payload ''c'' [?x]) < MAX_FRAME" "cn_in (example_request ?x) = op_frame Insert (insert_payload ''c'' [?x]) @ []"
    by (simp_all add: payload_single MAX_FRAME_def example_request_def)
  from abp_insert_request [where docs = "[?x]" and c = "example_request ?x" and rest = "[]", OF s(1-4) b example_name docs req, of example_debug 0]
  have "\<exists>ids s'. handle_step example_debug 0 (example_request ?x) s = (Ok \<lparr>cn_in = [], cn_out = reply_affected 1, cn_open = True\<rparr>, s')
      \<and> docs_inserted (db_view (sh_db s)) ''c'' ps m [?x] ids (db_view (sh_db s'))"
    by (auto simp: c reply_def example_request_def)
  then show ?thesis by blast
qed

lemma oversized_string:
  defines "x \<equiv> [(''a'', VString (replicate 5000 (CHR ''x'')))]"
  shows "sendable x" "canon_doc x = x" "MAX_RECORD_SIZE < length (serialize_document x)" "length (insert_payload ''c'' [x]) < MAX_FRAME"
proof -
  have "utf8_valid (replicate 5000 (CHR ''x''))" by (rule utf8_valid_ascii) simp
  then show "sendable x" by (simp add: x_def sendable_def document_ok_def utf8_valid_def)
  show "canon_doc x = x" by (simp add: x_def canon_doc_def)
  show "MAX_RECORD_SIZE < length (serialize_document x)"
    by (simp add: x_def serialize_document_def write_document_def write_len_def write_bytes_def MAX_RECORD_SIZE_def heap_consts PAGE_SIZE_def)
  show "length (insert_payload ''c'' [x]) < MAX_FRAME"
    unfolding x_def payload_single by (simp add: put_str_def put_u32_def MAX_FRAME_def)
qed

theorem oversized_document_stops_server_witness:
  "\<exists>s s'. handle_step example_debug 0 (example_request [(''a'', VString (replicate 5000 (CHR ''x'')))]) s
      = (Ok \<lparr>cn_in = [], cn_out = [], cn_open = False\<rparr>, s')
    \<and> (\<exists>msg. dispatch example_debug 0 Exec [] s' = (Ok (reply_error msg), s'))"
proof -
  obtain s :: shared and ps m where s: "pool_inv (db_pool (sh_db s))" "\<not> sh_poisoned s" "db_collection (db_view (sh_db s)) ''c'' ps m"
    "unindexed (db_catalog (sh_db s)) ''c''" "900 \<le> pool_budget (db_pool (sh_db s))" "length ps \<le> 3" by (rule example_shared)
  let ?x = "[(''a'', VString (replicate 5000 (CHR ''x'')))]"
  note x = oversized_string
  have b: "length ps \<le> pool_budget (db_pool (sh_db s))" using s(5,6) by simp
  have big: "MAX_RECORD_SIZE < length (serialize_document (canon_doc ?x))" using x(3) unfolding x(2) .
  have req: "cn_in (example_request ?x) = op_frame Insert (insert_payload ''c'' [?x]) @ []" by (simp add: example_request_def)
  from oversized_document_stops_server [where c = "example_request ?x" and rest = "[]", OF s(1-4) b example_name x(1) big x(4) req, of example_debug 0]
  obtain s' where h: "handle_step example_debug 0 (example_request ?x) s = (Ok (hang_up ((example_request ?x)\<lparr>cn_in := []\<rparr>)), s')"
    and after: "\<forall>cs s'' cs''. (server_step example_debug 0)\<^sup>*\<^sup>* (s', cs) (s'', cs'') \<longrightarrow> s'' = s'
        \<and> (\<forall>opcode \<in> {Exec, Insert, Upsert}. \<forall>payload. \<exists>msg. dispatch example_debug 0 opcode payload s'' = (Ok (reply_error msg), s''))" by blast
  from after [rule_format, of "[]" s' "[]"] have "\<exists>msg. dispatch example_debug 0 Exec [] s' = (Ok (reply_error msg), s')" by blast
  with h show ?thesis by (auto simp: hang_up_def example_request_def)
qed

end
