(* ===== verification/Rust_Text.thy ===== *)
theory Rust_Text
  imports Asl_Lexer
begin

text \<open>
  String functions of the standard library that the servers and the sweeper use, over strings as
  UTF-8 bytes: \<open>trim\<close>, \<open>split_whitespace\<close> with the white space of Unicode, \<open>split_once\<close>, \<open>parse\<close> for
  unsigned integers and \<open>from_utf8_lossy\<close>.
\<close>

section \<open>White space, words and numbers\<close>

text \<open>The characters of a valid UTF-8 string, each as its bytes.\<close>

function utf8_chars :: "string \<Rightarrow> string list" where
  "utf8_chars [] = []"
| "utf8_chars (c # s) = (c # take (utf8_width c - 1) s) # utf8_chars (drop (utf8_width c - 1) s)"
  by pat_completeness auto
termination by (relation "measure length") auto

definition is_whitespace :: "string \<Rightarrow> bool" where
  "is_whitespace ch \<longleftrightarrow> map of_char ch \<in> set (
     [[9], [10], [11], [12], [13], [32], [0xC2, 0x85], [0xC2, 0xA0], [0xE1, 0x9A, 0x80]]
     @ map (\<lambda>n :: nat. [0xE2, 0x80, n]) [0x80..<0x8B] @ [[0xE2, 0x80, 0xA8], [0xE2, 0x80, 0xA9], [0xE2, 0x80, 0xAF],
     [0xE2, 0x81, 0x9F], [0xE3, 0x80, 0x80]])"

definition trim_end :: "string \<Rightarrow> string" where
  "trim_end s = concat (rev (dropWhile is_whitespace (rev (utf8_chars s))))"

definition trim_start :: "string \<Rightarrow> string" where
  "trim_start s = concat (dropWhile is_whitespace (utf8_chars s))"

definition trim :: "string \<Rightarrow> string" where
  "trim s = trim_end (trim_start s)"

text \<open>\<open>split_whitespace().next()\<close>: the first word and what comes after it.\<close>

definition next_word :: "string \<Rightarrow> string \<times> string" where
  "next_word s = (let cs = utf8_chars (trim_start s) in
     (concat (takeWhile (\<lambda>c. \<not> is_whitespace c) cs), concat (dropWhile (\<lambda>c. \<not> is_whitespace c) cs)))"

definition to_ascii_lowercase :: "string \<Rightarrow> string" where
  "to_ascii_lowercase s = map (\<lambda>c. let n = of_char c :: nat in if 65 \<le> n \<and> n \<le> 90 then char_of (n + 32) else c) s"

definition split_once :: "char \<Rightarrow> string \<Rightarrow> (string \<times> string) option" where
  "split_once d s = (if d \<in> set s then Some (takeWhile (\<lambda>c. c \<noteq> d) s, tl (dropWhile (\<lambda>c. c \<noteq> d) s)) else None)"

text \<open>\<open>str::parse\<close> for an unsigned 64-bit integer: an optional plus sign, then digits only.\<close>

definition parse_u64 :: "string \<Rightarrow> nat option" where
  "parse_u64 s = (let ds = (case s of c # r \<Rightarrow> if c = CHR ''+'' then r else s | [] \<Rightarrow> []) in
     if ds = [] \<or> \<not> (\<forall>c \<in> set ds. is_digit c) \<or> U64_MAX < digits_value ds then None else Some (digits_value ds))"

text \<open>\<open>String::from_utf8_lossy\<close>: a maximal prefix of a broken sequence becomes one U+FFFD.\<close>

definition REPLACEMENT :: "nat list" where "REPLACEMENT = [0xEF, 0xBF, 0xBD]"

definition second_of_3 :: "nat \<Rightarrow> nat \<Rightarrow> bool" where
  "second_of_3 a b \<longleftrightarrow> (if a = 224 then 160 \<le> b \<and> b \<le> 191 else if a = 237 then 128 \<le> b \<and> b \<le> 159 else utf8_cont b)"

definition second_of_4 :: "nat \<Rightarrow> nat \<Rightarrow> bool" where
  "second_of_4 a b \<longleftrightarrow> (if a = 240 then 144 \<le> b \<and> b \<le> 191 else if a = 244 then 128 \<le> b \<and> b \<le> 143 else utf8_cont b)"

text \<open>The next character, or the replacement of the bytes that begin none, and the number of bytes it takes.\<close>

definition lossy_step :: "nat \<Rightarrow> nat list \<Rightarrow> nat list \<times> nat" where
  "lossy_step a bs = (
     if a < 128 then ([a], 1)
     else case bs of
       [] \<Rightarrow> (REPLACEMENT, 1)
     | b # r \<Rightarrow>
         if 194 \<le> a \<and> a \<le> 223 then (if utf8_cont b then ([a, b], 2) else (REPLACEMENT, 1))
         else if 224 \<le> a \<and> a \<le> 239 \<and> second_of_3 a b then
           (case r of c # _ \<Rightarrow> if utf8_cont c then ([a, b, c], 3) else (REPLACEMENT, 2) | [] \<Rightarrow> (REPLACEMENT, 2))
         else if 240 \<le> a \<and> a \<le> 244 \<and> second_of_4 a b then
           (case r of
              c # r' \<Rightarrow> if utf8_cont c then (case r' of d # _ \<Rightarrow> if utf8_cont d then ([a, b, c, d], 4) else (REPLACEMENT, 3) | [] \<Rightarrow> (REPLACEMENT, 3))
                else (REPLACEMENT, 2)
            | [] \<Rightarrow> (REPLACEMENT, 2))
         else (REPLACEMENT, 1))"

function lossy :: "nat list \<Rightarrow> nat list" where
  "lossy [] = []"
| "lossy (a # bs) = (case lossy_step a bs of (out, n) \<Rightarrow> out @ lossy (drop (n - 1) bs))"
  by pat_completeness auto
termination by (relation "measure length") auto

definition from_utf8_lossy :: "string \<Rightarrow> string" where
  "from_utf8_lossy s = map char_of (lossy (map of_char s))"

lemma lossy_valid: "utf8_valid_nat bs \<Longrightarrow> lossy bs = bs"
proof (induction bs rule: utf8_valid_nat.induct)
  case (2 a bs)
  consider (one) "a < 128" | (two) "194 \<le> a" "a \<le> 223" | (three) "224 \<le> a" "a \<le> 239" | (four) "240 \<le> a" "a \<le> 244"
    using "2.prems" by (auto split: if_splits)
  then show ?case
  proof cases
    case one
    then show ?thesis using 2 by (simp add: lossy_step_def)
  next
    case two
    then obtain b r where "bs = b # r" "utf8_cont b" "utf8_valid_nat r" using "2.prems" by (auto split: list.splits)
    then show ?thesis using 2(2) [OF _ _ \<open>bs = b # r\<close>] two by (simp add: lossy_step_def)
  next
    case three
    then obtain b c r where bs: "bs = b # c # r" and v: "second_of_3 a b" "utf8_cont c" "utf8_valid_nat r"
      using "2.prems" unfolding second_of_3_def by (auto split: list.splits)
    moreover have "lossy r = r" using 2(3) [OF _ _ _ bs refl v(3)] three by simp
    ultimately show ?thesis using three by (simp add: lossy_step_def)
  next
    case four
    then obtain b c e r where bs: "bs = b # c # e # r" and v: "second_of_4 a b" "utf8_cont c" "utf8_cont e" "utf8_valid_nat r"
      using "2.prems" unfolding second_of_4_def by (auto split: list.splits)
    moreover have "lossy r = r" using 2(4) [OF _ _ _ _ bs refl refl v(4)] four by simp
    ultimately show ?thesis using four by (simp add: lossy_step_def)
  qed
qed simp

lemma from_utf8_lossy_valid: "utf8_valid s \<Longrightarrow> from_utf8_lossy s = s"
  by (simp add: from_utf8_lossy_def utf8_valid_def lossy_valid)

end
