(* ===== verification/Http_Server.thy ===== *)
theory Http_Server
  imports Shared_Db Rust_Text Asl_Roundtrip
begin

text \<open>
  \<open>server.rs\<close>: the HTTP front end. A connection is the text the client sends until it stops sending,
  as bytes; \<open>handle_connection\<close> reads one request from it and gives the bytes of the response, or
  none when the client sent nothing. What is not a statement (a route, a method, an empty body) is
  answered without the lock.
\<close>

section \<open>Reading a request\<close>

datatype http_io_error = InvalidData | UnexpectedEof

type_synonym 'a http_read = "(string, http_io_error, 'a) prog"

definition NEWLINE :: char where "NEWLINE = CHR 0x0A"

definition read_line :: "string http_read" where
  "read_line = (\<lambda>input. let body = takeWhile (\<lambda>c. c \<noteq> NEWLINE) input; rest = dropWhile (\<lambda>c. c \<noteq> NEWLINE) input;
       line = body @ take 1 rest in
     (if utf8_valid line then Ok line else Err InvalidData, drop 1 rest))"

definition read_exact_text :: "nat \<Rightarrow> string http_read" where
  "read_exact_text n = (\<lambda>input. if length input < n then (Err UnexpectedEof, []) else (Ok (take n input), drop n input))"

definition MAX_BODY_BYTES :: nat where "MAX_BODY_BYTES = 1024 * 1024"

record request =
  rq_method :: string
  rq_path :: string
  rq_body :: string

text \<open>The two variables of the header loop and what one header line does to them.\<close>

definition read_header :: "string \<Rightarrow> nat \<times> bool \<Rightarrow> nat \<times> bool" where
  "read_header header st = (case st of (content_length, chunked) \<Rightarrow>
     (case split_once (CHR '':'') header of
        None \<Rightarrow> (content_length, chunked)
      | Some (name, v) \<Rightarrow>
          let name = to_ascii_lowercase (trim name); v = trim v in
          if name = ''content-length'' then (case parse_u64 v of Some n \<Rightarrow> n | None \<Rightarrow> 0, chunked)
          else if name = ''transfer-encoding'' \<and> to_ascii_lowercase v = ''chunked'' then (content_length, True)
          else (content_length, chunked)))"

fun read_headers :: "nat \<Rightarrow> nat \<times> bool \<Rightarrow> (nat \<times> bool) http_read" where
  "read_headers 0 st = hangP"
| "read_headers (Suc fuel) st =
     bindP read_line (\<lambda>line.
     if line = [] then returnP st
     else let header = trim_end line in
       if header = [] then returnP st else read_headers fuel (read_header header st))"

definition read_body :: "nat \<Rightarrow> string http_read" where
  "read_body content_length =
     (if content_length = 0 then returnP []
      else bindP (read_exact_text (min content_length MAX_BODY_BYTES)) (\<lambda>buf. returnP (from_utf8_lossy buf)))"

definition read_request :: "request option http_read" where
  "read_request =
     bindP read_line (\<lambda>line.
     if line = [] then returnP None
     else case next_word line of (meth, rest) \<Rightarrow> case next_word rest of (path, _) \<Rightarrow>
       bindP (\<lambda>input. read_headers (Suc (length input)) (0, False) input) (\<lambda>(content_length, chunked).
       if chunked then returnP (Some \<lparr>rq_method = meth, rq_path = path, rq_body = []\<rparr>)
       else bindP (read_body content_length) (\<lambda>body.
         returnP (Some \<lparr>rq_method = meth, rq_path = path, rq_body = body\<rparr>))))"

section \<open>Answering\<close>

definition run_statement :: "debug \<Rightarrow> nat \<Rightarrow> string \<Rightarrow> (shared, http_io_error, string \<times> string) prog" where
  "run_statement d n source = (\<lambda>s.
     case run_source d n (''database lock poisoned by an earlier panic'', ''server'') source s of
       (Ok out, s') \<Rightarrow> (Ok (''200 OK'', write_output out), s')
     | (Err (msg, stage), s') \<Rightarrow>
         (Ok (if stage = ''server'' then ''500 Internal Server Error'' else ''400 Bad Request'', write_error msg stage), s')
     | (Panic p, s') \<Rightarrow> (Panic p, s')
     | (Hang, s') \<Rightarrow> (Hang, s'))"

definition route :: "debug \<Rightarrow> nat \<Rightarrow> request \<Rightarrow> (shared, http_io_error, string \<times> string) prog" where
  "route d n rq = (
     if rq_method rq = ''GET'' \<and> rq_path rq = ''/health'' then
       returnP (''200 OK'', ''{'' @ quoted ''status'' @ '':'' @ quoted ''ok'' @ ''}'')
     else if rq_method rq = ''POST'' \<and> rq_path rq = ''/query'' then
       (if trim (rq_body rq) = [] then returnP (''400 Bad Request'', write_error
          ''empty request body; expected an ASL statement (chunked encoding is not supported)'' ''request'')
        else run_statement d n (rq_body rq))
     else if rq_method rq = ''GET'' \<or> rq_method rq = ''POST'' then
       returnP (''404 Not Found'', write_error ''no such endpoint; try POST /query'' ''request'')
     else returnP (''405 Method Not Allowed'', write_error ''only GET and POST are supported'' ''request''))"

definition CRLF :: string where "CRLF = [CHR 0x0D, CHR 0x0A]"

definition response :: "string \<times> string \<Rightarrow> string" where
  "response r = (case r of (status, body) \<Rightarrow>
     ''HTTP/1.1 '' @ status @ CRLF @ ''Content-Type: application/json'' @ CRLF
     @ ''Content-Length: '' @ nat_digits (length body) @ CRLF @ ''Connection: close'' @ CRLF @ CRLF @ body)"

definition handle_connection :: "debug \<Rightarrow> nat \<Rightarrow> string \<Rightarrow> (shared, http_io_error, string option) prog" where
  "handle_connection d n input =
     bindP (liftO (fst (read_request input))) (\<lambda>rq.
     case rq of
       None \<Rightarrow> returnP None
     | Some rq \<Rightarrow> bindP (route d n rq) (\<lambda>r. returnP (Some (response r))))"

section \<open>Every request is read\<close>

lemma read_line_shorter:
  assumes "read_line input = (Ok line, rest)" and "line \<noteq> []"
  shows "length rest < length input"
proof -
  let ?tail = "dropWhile (\<lambda>c. c \<noteq> NEWLINE) input"
  have r: "rest = drop 1 ?tail" and l: "line = takeWhile (\<lambda>c. c \<noteq> NEWLINE) input @ take 1 ?tail"
    using assms(1) by (auto simp: read_line_def Let_def split: if_splits)
  have "length (takeWhile (\<lambda>c. c \<noteq> NEWLINE) input) + length ?tail = length input"
    by (metis length_append takeWhile_dropWhile_id)
  moreover have "0 < length (takeWhile (\<lambda>c. c \<noteq> NEWLINE) input) \<or> 0 < length ?tail" using l assms(2) by auto
  moreover have "length rest = length ?tail - 1" by (simp add: r)
  ultimately show ?thesis by linarith
qed

lemma read_line_returns: "returns (fst (read_line input))"
  by (simp add: read_line_def Let_def)

lemma bindP_returns:
  assumes "returns (fst (m s))" and "\<And>a s'. m s = (Ok a, s') \<Longrightarrow> returns (fst (k a s'))"
  shows "returns (fst (bindP m k s))"
  using assms by (cases "m s"; cases "fst (m s)") (auto simp: bindP_def)

lemma read_headers_returns: "length input < fuel \<Longrightarrow> returns (fst (read_headers fuel st input))"
proof (induction fuel arbitrary: st input)
  case (Suc fuel)
  show ?case
    unfolding read_headers.simps
  proof (rule bindP_returns [OF read_line_returns])
    fix line rest assume r: "read_line input = (Ok line, rest)"
    have "length rest < fuel" if "line \<noteq> []" using read_line_shorter [OF r that] Suc.prems by simp
    then show "returns (fst ((if line = [] then returnP st else let header = trim_end line in
        if header = [] then returnP st else read_headers fuel (read_header header st)) rest))"
      using Suc.IH by (simp add: Let_def)
  qed
qed simp

declare read_headers.simps [simp del]

lemma read_request_returns: "returns (fst (read_request input))"
  unfolding read_request_def
proof (rule bindP_returns [OF read_line_returns])
  have body: "returns (fst (bindP (read_body n) (\<lambda>b. returnP (f b)) rest))" for n f rest
    by (rule bindP_returns) (auto simp: read_body_def read_exact_text_def bindP_def)
  have headers: "returns (fst ((\<lambda>input. read_headers (Suc (length input)) st input) rest))" for st rest
    by (rule read_headers_returns) simp
  fix line rest
  show "returns (fst ((if line = [] then returnP None else case next_word line of (meth, rest) \<Rightarrow> case next_word rest of (path, _) \<Rightarrow>
       bindP (\<lambda>input. read_headers (Suc (length input)) (0, False) input) (\<lambda>(content_length, chunked).
       if chunked then returnP (Some \<lparr>rq_method = meth, rq_path = path, rq_body = []\<rparr>)
       else bindP (read_body content_length) (\<lambda>body.
         returnP (Some \<lparr>rq_method = meth, rq_path = path, rq_body = body\<rparr>)))) rest))"
    by (auto simp: body intro!: bindP_returns headers split: prod.split)
qed

text \<open>A body over the limit is cut, not refused.\<close>

theorem large_body_is_cut:
  assumes "MAX_BODY_BYTES < content_length" and "content_length \<le> length input" and "utf8_valid (take MAX_BODY_BYTES input)"
  shows "read_body content_length input = (Ok (take MAX_BODY_BYTES input), drop MAX_BODY_BYTES input)"
  using assms by (simp add: read_body_def read_exact_text_def prog_simps from_utf8_lossy_valid min_def)

section \<open>Every response is JSON\<close>

lemma run_statement_json: "run_statement d n source s = (Ok (status, body), s') \<Longrightarrow>
    json_text body \<and> status \<in> {''200 OK'', ''400 Bad Request'', ''500 Internal Server Error''}"
  by (auto simp: run_statement_def write_output_text write_error_text split: prod.splits outcome.splits if_splits)

lemma health_json: "json_text (''{'' @ quoted ''status'' @ '':'' @ quoted ''ok'' @ ''}'')"
proof -
  have q: "json_string (quoted ''status'')" "json_string (quoted ''ok'')" by (rule quoted_plain, simp add: plain_char_def)+
  then have "json_text (''{'' @ comma_sep (map (\<lambda>(k, v). k @ '':'' @ v) [(quoted ''status'', quoted ''ok'')]) @ ''}'')"
    by (intro json_members) (auto intro: json_text.json_str)
  then show ?thesis by simp
qed

lemma route_json: "route d n rq s = (Ok (status, body), s') \<Longrightarrow> json_text body
    \<and> status \<in> {''200 OK'', ''400 Bad Request'', ''404 Not Found'', ''405 Method Not Allowed'', ''500 Internal Server Error''}"
  using run_statement_json [of d n "rq_body rq" s status body s'] health_json
  by (auto simp: route_def write_error_text split: if_splits)

text \<open>
  The form of the answers. When the connection ends without an answer or with a read error, the
  database is as before; an answer has one of five status lines, the length of the body, and a body
  that is JSON text. In the third case, a panic or an endless run, the request was a \<open>POST /query\<close>, the
  client gets nothing, and the theorem says nothing of the database.
\<close>

theorem http_response_is_json:
  "case handle_connection d n input s of
     (Ok None, s') \<Rightarrow> s' = s
   | (Ok (Some text), s') \<Rightarrow> (\<exists>status body. text = response (status, body) \<and> json_text body
       \<and> status \<in> {''200 OK'', ''400 Bad Request'', ''404 Not Found'', ''405 Method Not Allowed'', ''500 Internal Server Error''})
   | (Err e, s') \<Rightarrow> s' = s
   | (_, s') \<Rightarrow> (\<exists>rq. fst (read_request input) = Ok (Some rq) \<and> rq_method rq = ''POST'' \<and> rq_path rq = ''/query'')"
proof (cases "fst (read_request input)" rule: outcome.exhaust)
  case (Ok rq)
  show ?thesis
  proof (cases rq)
    case (Some r)
    obtain x s' where rt: "route d n r s = (x, s')" by (cases "route d n r s")
    have run: "handle_connection d n input s = bindP (route d n r) (\<lambda>r. returnP (Some (response r))) s"
      by (simp add: handle_connection_def Ok Some prog_simps)
    have noerr: "x \<noteq> Err e" for e using rt by (auto simp: route_def run_statement_def split: if_splits prod.splits outcome.splits)
    show ?thesis
    proof (cases x)
      case (Ok sb)
      obtain status body where sb: "sb = (status, body)" by (cases sb)
      have hc: "handle_connection d n input s = (Ok (Some (response (status, body))), s')" using run rt Ok sb by (simp add: prog_simps)
      have "route d n r s = (Ok (status, body), s')" using rt Ok sb by simp
      note rj = route_json [OF this]
      show ?thesis unfolding hc prod.case outcome.case option.case
        by (rule exI [of _ status], rule exI [of _ body], intro conjI) (rule refl, rule conjunct1 [OF rj], rule conjunct2 [OF rj])
    next
      case (Panic p)
      then have "rq_method r = ''POST'' \<and> rq_path r = ''/query''" using rt by (auto simp: route_def split: if_splits)
      then show ?thesis using run rt Panic \<open>fst (read_request input) = Ok rq\<close> Some by (simp add: bindP_def)
    next
      case Hang
      then have "rq_method r = ''POST'' \<and> rq_path r = ''/query''" using rt by (auto simp: route_def split: if_splits)
      then show ?thesis using run rt Hang \<open>fst (read_request input) = Ok rq\<close> Some by (simp add: bindP_def)
    qed (use noerr in simp)
  qed (simp add: handle_connection_def Ok prog_simps)
qed (use read_request_returns [of input] in \<open>simp_all add: handle_connection_def bindP_def liftO_def\<close>)

section \<open>A request that is read\<close>


lemma concat_singles [simp]: "concat (map (\<lambda>c. [c]) s) = s"
  by (induction s) simp_all









section \<open>A query over HTTP\<close>










end
