(* ===== verification/Ttl_Sweeper.thy ===== *)
theory Ttl_Sweeper
  imports Shared_Db Rust_Text Asl_Roundtrip
begin

text \<open>
  \<open>ttl.rs\<close>: the expiry of aged documents. A policy is a collection, a field and an age; one pass runs
  the text \<open>from <collection> | where <field> < <cutoff> | delete\<close> for every policy through the lexer,
  the parser, the binder, the planner and the executor. The time of day is an argument of the pass;
  the thread that sleeps between two passes is not modelled.
\<close>

section \<open>Policies\<close>

text \<open>The age is kept in milliseconds, as \<open>as_millis\<close> gives it.\<close>

record policy =
  po_collection :: string
  po_field :: string
  po_ttl_millis :: nat

definition mul_u64 :: "nat \<Rightarrow> nat \<Rightarrow> ('e, nat) outcome" where
  "mul_u64 a b = (if a * b \<le> U64_MAX then Ok (a * b) else Panic ''attempt to multiply with overflow'')"

text \<open>The duration in seconds. \<open>split_at\<close> panics between the bytes of one character.\<close>

definition parse_duration :: "string \<Rightarrow> ('e, nat option) outcome" where
  "parse_duration text = (let spec = trim text in
     if spec = [] then Ok None
     else if utf8_cont (of_char (last spec)) then Panic ''not a char boundary''
     else case parse_u64 (butlast spec) of
       None \<Rightarrow> Ok None
     | Some n \<Rightarrow>
         if last spec = CHR ''s'' then Ok (Some n)
         else if last spec = CHR ''m'' then bindO (mul_u64 n 60) (\<lambda>k. Ok (Some k))
         else if last spec = CHR ''h'' then bindO (mul_u64 n 60) (\<lambda>k. bindO (mul_u64 k 60) (\<lambda>k. Ok (Some k)))
         else if last spec = CHR ''d'' then
           bindO (mul_u64 n 60) (\<lambda>k. bindO (mul_u64 k 60) (\<lambda>k. bindO (mul_u64 k 24) (\<lambda>k. Ok (Some k))))
         else Ok None)"

definition policy_statement :: "policy \<Rightarrow> i64 \<Rightarrow> string" where
  "policy_statement po cutoff =
     ''from '' @ po_collection po @ '' | where '' @ po_field po @ '' < '' @ int_to_string (sint cutoff) @ '' | delete''"

section \<open>The pass\<close>

definition run_ttl :: "debug \<Rightarrow> nat \<Rightarrow> string \<Rightarrow> (shared, string, nat) prog" where
  "run_ttl d n source =
     bindP (liftO (map_err fst (read_statement d source))) (\<lambda>statement.
     locked ''database lock poisoned'' (
       bindP (map_errP fst (lift_query ''bind'' (\<lambda>db. bind (names_of db) statement))) (\<lambda>bound.
       case bound of
         BPipeline p \<Rightarrow>
           bindP (map_errP fst (run_bound d n (BPipeline p))) (\<lambda>out.
           returnP (case out of query_output.Affected k \<Rightarrow> k | query_output.Documents docs \<Rightarrow> length docs))
       | _ \<Rightarrow> failP ''ttl statement must be a pipeline'')))"

text \<open>\<open>now - policy.ttl.as_millis() as i64\<close>: the cast keeps the low 64 bits.\<close>

definition ttl_cutoff :: "i64 \<Rightarrow> policy \<Rightarrow> ('e, i64) outcome" where
  "ttl_cutoff now po = (let r = sint now - sint (word_of_nat (po_ttl_millis po) :: i64) in
     if i64_range r then Ok (word_of_int r) else Panic ''attempt to subtract with overflow'')"

fun sweep_policies :: "debug \<Rightarrow> nat \<Rightarrow> i64 \<Rightarrow> policy list \<Rightarrow> nat \<Rightarrow> (shared, unit, nat) prog" where
  "sweep_policies d n now [] removed = returnP removed"
| "sweep_policies d n now (po # pos) removed =
     bindP (liftO (ttl_cutoff now po)) (\<lambda>cutoff. \<lambda>s.
     case run_ttl d n (policy_statement po cutoff) s of
       (Ok k, s') \<Rightarrow> sweep_policies d n now pos (removed + k) s'
     | (Err e, s') \<Rightarrow> sweep_policies d n now pos removed s'
     | (Panic p, s') \<Rightarrow> (Panic p, s')
     | (Hang, s') \<Rightarrow> (Hang, s'))"

definition sweep_once :: "debug \<Rightarrow> nat \<Rightarrow> i64 option \<Rightarrow> policy list \<Rightarrow> (shared, unit, nat) prog" where
  "sweep_once d n now policies = (case now of
     None \<Rightarrow> returnP 0
   | Some t \<Rightarrow> sweep_policies d n t policies 0)"

section \<open>The text of a policy\<close>

text \<open>A name that can be written without quotes.\<close>

definition plain_ident :: "string \<Rightarrow> bool" where
  "plain_ident s \<longleftrightarrow> s \<noteq> [] \<and> is_ident_start (hd s) \<and> (\<forall>c \<in> set s. is_ident_char c) \<and> map_of keyword_table s = None"

lemma ident_start_facts:
  assumes "is_ident_start c"
  shows "map_of single_table c = None" and "map_of double_table c = None" and "\<not> is_space c" and "\<not> is_digit c"
    and "c \<noteq> CHR 0x22" and "c \<noteq> CHR 0x60" and "c \<noteq> CHR ''-''"
proof -
  have "list_all (\<lambda>e. \<not> is_ident_start (fst e)) single_table" "list_all (\<lambda>e. \<not> is_ident_start (fst e)) double_table"
    by (simp_all add: single_table_def double_table_def is_ident_start_def is_alpha_def char_code_def)
  then show "map_of single_table c = None" "map_of double_table c = None"
    using assms by (auto simp: map_of_eq_None_iff list_all_iff)
  have n: "c \<noteq> d" if "\<not> is_ident_start d" for d using assms that by auto
  show "\<not> is_space c" "c \<noteq> CHR 0x22" "c \<noteq> CHR 0x60" "c \<noteq> CHR ''-''"
    unfolding is_space_def by (simp_all add: n is_ident_start_def is_alpha_def char_code_def)
  show "\<not> is_digit c" using assms by (auto simp: is_ident_start_def is_alpha_def is_digit_def char_code_def)
qed

lemma plain_ident_lexed:
  assumes "plain_ident name"
  shows "lexed_back (Ident name) name"
proof -
  obtain c s where cs: "name = c # s" and c: "is_ident_start c" and s: "\<forall>d \<in> set (c # s). is_ident_char d"
    and kw: "map_of keyword_table (c # s) = None" using assms by (cases name) (auto simp: plain_ident_def)
  have "\<not> is_ident_char (CHR '' '')" by (simp add: is_ident_char_def is_alpha_def is_digit_def char_code_def)
  then have "takeWhile is_ident_char (c # s @ CHR '' '' # rest) = c # s"
    "dropWhile is_ident_char (c # s @ CHR '' '' # rest) = CHR '' '' # rest" for rest
    using s by (simp_all add: takeWhile_append2 dropWhile_append2)
  then show ?thesis using c kw ident_start_facts [OF c] unfolding cs
    by (auto simp: lexed_back_def lex_token_def read_ident_or_keyword_def Let_def split: prod.split)
qed

text \<open>Texts that are lexed back, one blank after each, in front of any other text.\<close>

definition spaced :: "(token \<times> string) list \<Rightarrow> string" where
  "spaced txs = concat (map (\<lambda>(t, x). x @ '' '') txs)"

lemma tokenize_spaced:
  assumes "\<forall>(t, x) \<in> set txs. lexed_back t x"
  shows "\<exists>sps q. tokenize_loop (length txs + Suc k) (spaced txs @ tail) p out = tokenize_loop (Suc k) tail q (out @ sps)
    \<and> map sp_token sps = map fst txs"
  using assms
proof (induction txs arbitrary: p out)
  case Nil
  show ?case by (rule exI [of _ "[]"], rule exI [of _ p]) (simp add: spaced_def del: tokenize_loop.simps)
next
  case (Cons tx txs)
  obtain t x where tx: "tx = (t, x)" by (cases tx)
  let ?rest = "spaced txs @ tail"
  have "lexed_back t x" using Cons.prems tx by simp
  then obtain c s' q where x: "x = c # s'" and c: "\<not> is_space c" "\<not> (c = CHR ''-'' \<and> s' \<noteq> [])"
    and lx: "lex_token c (s' @ CHR '' '' # ?rest) p = Ok (t, CHR '' '' # ?rest, q)" unfolding lexed_back_def by blast
  let ?sp = "\<lparr>sp_token = t, sp_line = fst p, sp_col = snd p\<rparr>" let ?m = "length txs + k"
  have pr: "spaced (tx # txs) @ tail = c # s' @ CHR '' '' # ?rest" by (simp add: spaced_def tx x)
  have n: "length (tx # txs) + Suc k = Suc (Suc ?m)" by simp
  have step: "tokenize_loop (length (tx # txs) + Suc k) (spaced (tx # txs) @ tail) p out
      = tokenize_loop (Suc ?m) ?rest (advance (CHR '' '') q) (out @ [?sp])"
    unfolding n pr tokenize_loop.simps(2) [of "Suc ?m"] skip_ws_token [OF c] prod.case list.case lx
    by (simp only: bindO_simps prod.case tokenize_loop_blank)
  have m: "Suc ?m = length txs + Suc k" by simp
  obtain sps q' where ih: "tokenize_loop (length txs + Suc k) ?rest (advance (CHR '' '') q) (out @ [?sp]) = tokenize_loop (Suc k) tail q' ((out @ [?sp]) @ sps)"
    "map sp_token sps = map fst txs" using Cons.IH [of "advance (CHR '' '') q" "out @ [?sp]"] Cons.prems by auto
  have "tokenize_loop (length (tx # txs) + Suc k) (spaced (tx # txs) @ tail) p out = tokenize_loop (Suc k) tail q' (out @ ?sp # sps)"
    unfolding step m ih(1) by (simp only: append_assoc append.simps)
  moreover have "map sp_token (?sp # sps) = map fst (tx # txs)" using ih(2) tx by simp
  ultimately show ?case by blast
qed

lemma tokenize_delete:
  "tokenize_loop (Suc (Suc k)) ''delete'' q out = Ok (out @ [\<lparr>sp_token = TDelete, sp_line = fst q, sp_col = snd q\<rparr>])"
  by (cases q) (simp add: lex_token_def single_table_def double_table_def is_digit_def is_ident_start_def is_alpha_def
      is_ident_char_def is_space_def read_ident_or_keyword_def keyword_table_def char_code_def)

lemma length_spaced: "length txs \<le> length (spaced txs)"
  by (induction txs) (auto simp: spaced_def)

lemma policy_tokens:
  assumes names: "plain_ident (po_collection po)" "plain_ident (po_field po)" and cut: "0 \<le> sint cutoff"
  obtains sps where "tokenize (policy_statement po cutoff) = Ok sps"
    "map sp_token sps = [TFrom, Ident (po_collection po), Pipe, TWhere, Ident (po_field po), Lt, IntLit cutoff, Pipe, TDelete]"
proof -
  let ?n = "nat_digits (unat cutoff)"
  let ?txs = "[(TFrom, ''from''), (Ident (po_collection po), po_collection po), (Pipe, ''|''), (TWhere, ''where''),
    (Ident (po_field po), po_field po), (Lt, ''<''), (IntLit cutoff, ?n), (Pipe, ''|'')]"
  have u: "unat cutoff < 2 ^ 63"
  proof (rule ccontr)
    assume "\<not> unat cutoff < 2 ^ 63"
    then have neg: "sint cutoff = int (unat cutoff) - 2 ^ 64" using sint_unat [of cutoff] by (simp only: not_less if_True)
    have "int (unat cutoff) < int (2 ^ 64)" by (subst of_nat_less_iff) (simp add: unat_i64_less)
    then have "int (unat cutoff) < 2 ^ 64" by (simp only: of_nat_power of_nat_numeral)
    then show False using cut neg by linarith
  qed
  have "sint cutoff = int (unat cutoff)" using sint_unat [of cutoff] u by (simp only: not_le [symmetric] if_False)
  then have src: "policy_statement po cutoff = spaced ?txs @ ''delete''"
    by (simp add: policy_statement_def spaced_def int_to_string_def)
  have fixed: "lexed_back TFrom ''from''" "lexed_back TWhere ''where''" "lexed_back Pipe ''|''" "lexed_back Lt ''<''"
    by (rule fixed_lexed, simp add: fixed_text_def keyword_table_def single_table_def)+
  have "\<forall>(t, x) \<in> set ?txs. lexed_back t x"
    using fixed plain_ident_lexed [OF names(1)] plain_ident_lexed [OF names(2)] int_lexed [OF u] by simp
  moreover obtain k where k: "Suc (length (spaced ?txs @ ''delete'')) = length ?txs + Suc (Suc k)"
    using length_spaced [of ?txs] by (intro that [of "length (spaced ?txs @ ''delete'') - length ?txs - 1"]) simp
  ultimately obtain sps q where "tokenize_loop (length ?txs + Suc (Suc k)) (spaced ?txs @ ''delete'') (1, 1) [] = tokenize_loop (Suc (Suc k)) ''delete'' q ([] @ sps)"
    and sps: "map sp_token sps = map fst ?txs" using tokenize_spaced [of ?txs "Suc k" "''delete''" "(1, 1)" "[]"] by blast
  then have "tokenize (policy_statement po cutoff) = Ok (sps @ [\<lparr>sp_token = TDelete, sp_line = fst q, sp_col = snd q\<rparr>])"
    unfolding tokenize_def src k by (simp only: tokenize_delete append.simps)
  then show ?thesis by (rule that) (use sps in simp)
qed

lemma policy_parsed:
  assumes "plain_ident (po_collection po)" "plain_ident (po_field po)" and "0 \<le> sint cutoff"
  shows "read_statement d (policy_statement po cutoff)
    = Ok (Pipeline [SFrom (po_collection po) None, SWhere (EBinOp OpLt (EField (po_field po)) (ELit (LInt cutoff))), SDelete])"
proof -
  obtain sps where t: "tokenize (policy_statement po cutoff) = Ok sps"
    "map sp_token sps = [TFrom, Ident (po_collection po), Pipe, TWhere, Ident (po_field po), Lt, IntLit cutoff, Pipe, TDelete]"
    by (rule policy_tokens [OF assms])
  have "parse sps = Ok (Pipeline [SFrom (po_collection po) None, SWhere (EBinOp OpLt (EField (po_field po)) (ELit (LInt cutoff))), SDelete])"
    by (rule parse_printed [where seps = "[SepPipe, SepPipe]"]) (simp_all add: t(2) print_stages_def at_level_def left_level_def right_level_def op_level_def)
  with t(1) show ?thesis by (simp add: read_statement_def)
qed

section \<open>What a pass removes\<close>

definition expires :: "string \<Rightarrow> i64 \<Rightarrow> document \<Rightarrow> bool" where
  "expires field cutoff x \<longleftrightarrow> (case doc_get x field of Some (VInt k) \<Rightarrow> sint k < sint cutoff | _ \<Rightarrow> False)"

text \<open>The field is missing, null or an integer, as the documentation of a policy asks.\<close>

definition timed :: "string \<Rightarrow> document \<Rightarrow> bool" where
  "timed field x \<longleftrightarrow> (case doc_get x field of None \<Rightarrow> True | Some v \<Rightarrow> (case v of VNull \<Rightarrow> True | VInt k \<Rightarrow> True | _ \<Rightarrow> False))"

lemma timed_predicate:
  assumes "timed field x"
  shows "evaluate_bool (EBinOp OpLt (EField field) (ELit (LInt cutoff))) x = Ok (expires field cutoff x)"
  using assms by (auto simp: timed_def expires_def evaluate_bool_def field_or_null_def evaluate_comparison_def is_ordering_op_def cmp_def
      split: option.splits doc_value.splits)

lemma run_ttl_deletes:
  assumes names: "plain_ident (po_collection po)" "plain_ident (po_field po)" and cut: "0 \<le> sint cutoff"
    and db: "pool_inv (db_pool (sh_db s))" "\<not> sh_poisoned s" "db_collection (db_view (sh_db s)) (po_collection po) ps m"
      "unindexed (db_catalog (sh_db s)) (po_collection po)"
    and b: "length ps * (length ps + 1) + length ps + 2 * card {i. \<exists>x. m i = Some x \<and> expires (po_field po) cutoff x} \<le> pool_budget (db_pool (sh_db s))"
    and t: "\<forall>x \<in> ran m. timed (po_field po) x"
  obtains fuel db' where "\<And>n. fuel \<le> n \<Longrightarrow> run_ttl d n (policy_statement po cutoff) s =
      (Ok (card {i. \<exists>x. m i = Some x \<and> expires (po_field po) cutoff x}), s\<lparr>sh_db := db', sh_poisoned := False\<rparr>)"
    and "pool_inv (db_pool db')"
    and "db_collection (db_view db') (po_collection po) ps (m |` {i. \<nexists>x. m i = Some x \<and> expires (po_field po) cutoff x})"
proof -
  let ?c = "po_collection po" let ?gone = "{i. \<exists>x. m i = Some x \<and> expires (po_field po) cutoff x}"
  let ?p = "EBinOp OpLt (EField (po_field po)) (ELit (LInt cutoff))" let ?pipe = "[SFrom ?c None, SWhere ?p, SDelete]"
  have pred: "\<forall>x \<in> ran m. evaluate_bool ?p x = Ok (expires (po_field po) cutoff x)" using t timed_predicate by blast
  obtain tree fuel db' where r: "plan (has_index (sh_db s)) ?pipe = Ok tree"
    "\<forall>n \<ge> fuel. execute n tree (sh_db s) = (Ok (query_output.Affected (card ?gone)), db')" "pool_inv (db_pool db')"
    "db_collection (db_view db') ?c ps (m |` {i. \<nexists>x. m i = Some x \<and> expires (po_field po) cutoff x})"
    using delete_query_run [OF db(1) b db(3,4) pred] by blast
  have has: "has_collection (sh_db s) ?c" using db(3) by (simp add: has_collection_def catalog_collection_root_def db_collection_def)
  have bound: "bind (names_of (sh_db s)) (Pipeline ?pipe) = Ok (BPipeline ?pipe)"
    using has by (simp add: bind_def bind_pipeline_def names_of_def bind_stage_def ensure_terminal_def)
  have "run_ttl d n (policy_statement po cutoff) s = (Ok (card ?gone), s\<lparr>sh_db := db', sh_poisoned := False\<rparr>)" if "fuel \<le> n" for n
    using r(1) r(2) [rule_format, OF that] db(2)
    by (simp add: run_ttl_def policy_parsed [OF names cut] prog_simps locked_def lift_query_def bound run_bound_def map_errP_def)
  with that r(3,4) show ?thesis by blast
qed

text \<open>
  C10: a pass of the sweeper. For a policy with plain names on a collection without an index, whose
  documents hold integers under the field or nothing, the text that the policy builds is understood
  by every stage of the query engine, and the pass removes exactly the documents older than the cutoff
  and reports their number; a document without the field is never removed.
\<close>

theorem ttl_sweep_exact:
  assumes names: "plain_ident (po_collection po)" "plain_ident (po_field po)"
    and cut: "ttl_cutoff now po = (Ok cutoff :: (unit, i64) outcome)" "0 \<le> sint cutoff"
    and db: "pool_inv (db_pool (sh_db s))" "\<not> sh_poisoned s" "db_collection (db_view (sh_db s)) (po_collection po) ps m"
      "unindexed (db_catalog (sh_db s)) (po_collection po)"
    and b: "length ps * (length ps + 1) + length ps + 2 * card {i. \<exists>x. m i = Some x \<and> expires (po_field po) cutoff x} \<le> pool_budget (db_pool (sh_db s))"
    and t: "\<forall>x \<in> ran m. timed (po_field po) x"
  shows "\<exists>fuel s'. (\<forall>n \<ge> fuel. sweep_once d n (Some now) [po] s = (Ok (card {i. \<exists>x. m i = Some x \<and> expires (po_field po) cutoff x}), s'))
    \<and> pool_inv (db_pool (sh_db s')) \<and> \<not> sh_poisoned s'
    \<and> db_collection (db_view (sh_db s')) (po_collection po) ps (m |` {i. \<nexists>x. m i = Some x \<and> expires (po_field po) cutoff x})"
proof -
  let ?gone = "{i. \<exists>x. m i = Some x \<and> expires (po_field po) cutoff x}"
  obtain fuel db' where r: "\<And>n. fuel \<le> n \<Longrightarrow> run_ttl d n (policy_statement po cutoff) s = (Ok (card ?gone), s\<lparr>sh_db := db', sh_poisoned := False\<rparr>)"
    "pool_inv (db_pool db')" "db_collection (db_view db') (po_collection po) ps (m |` {i. \<nexists>x. m i = Some x \<and> expires (po_field po) cutoff x})"
    using run_ttl_deletes [OF names cut(2) db b t] by blast
  have "sweep_once d n (Some now) [po] s = (Ok (card ?gone), s\<lparr>sh_db := db', sh_poisoned := False\<rparr>)" if "fuel \<le> n" for n
    using r(1) [OF that] by (simp add: sweep_once_def cut(1) prog_simps)
  then show ?thesis using r(2,3) by (intro exI [of _ fuel] exI [of _ "s\<lparr>sh_db := db', sh_poisoned := False\<rparr>"]) simp
qed

definition example_policy :: policy where
  "example_policy = \<lparr>po_collection = ''c'', po_field = ''a'', po_ttl_millis = 10\<rparr>"

theorem ttl_sweep_exact_witness:
  "\<exists>s ps fuel s' i. (\<forall>n \<ge> fuel. sweep_once \<lparr>dbg_lex = \<lambda>_. [], dbg_parse = \<lambda>_. [], dbg_db = \<lambda>_. []\<rparr> n (Some 12) [example_policy] s = (Ok 1, s'))
    \<and> db_collection (db_view (sh_db s')) ''c'' ps [i \<mapsto> [(''a'', VInt 2)]]"
proof -
  obtain db ps i e where db: "pool_inv (db_pool db)" "900 \<le> pool_budget (db_pool db)" "length ps \<le> 3" "i \<noteq> e"
    "db_collection (db_view db) ''c'' ps [i \<mapsto> [(''a'', VInt 2)], e \<mapsto> [(''a'', VInt 1)]]" "unindexed (db_catalog db) ''c''"
    by (rule example_two_documents)
  define m where "m = [i \<mapsto> [(''a'', VInt 2)], e \<mapsto> [(''a'', VInt 1)]]"
  let ?s = "\<lparr>sh_db = db, sh_poisoned = False\<rparr>"
  let ?po = example_policy let ?d = "\<lparr>dbg_lex = \<lambda>_. [], dbg_parse = \<lambda>_. [], dbg_db = \<lambda>_. []\<rparr>"
  have names: "plain_ident (po_collection ?po)" "plain_ident (po_field ?po)"
    by (simp_all add: example_policy_def plain_ident_def is_ident_start_def is_ident_char_def is_alpha_def char_code_def keyword_table_def)
  have cut: "ttl_cutoff 12 ?po = (Ok 2 :: (unit, i64) outcome)" "0 \<le> sint (2 :: i64)"
    by (simp_all add: ttl_cutoff_def example_policy_def i64_range_def)
  have f: "po_field ?po = ''a''" "po_collection ?po = ''c''" by (simp_all add: example_policy_def)
  have "length ps * (length ps + 1) \<le> 3 * (3 + 1)" by (intro mult_le_mono) (use db(3) in simp_all)
  moreover have gone: "{j. \<exists>x. m j = Some x \<and> expires (po_field ?po) 2 x} = {e}" using db(4) by (auto simp: m_def expires_def f)
  ultimately have b: "length ps * (length ps + 1) + length ps + 2 * card {j. \<exists>x. m j = Some x \<and> expires (po_field ?po) 2 x} \<le> pool_budget (db_pool (sh_db ?s))"
    using db(2,3) by simp
  have t: "\<forall>x \<in> ran m. timed (po_field ?po) x" using db(4) by (auto simp: m_def ran_def timed_def f split: if_splits)
  have s: "pool_inv (db_pool (sh_db ?s))" "\<not> sh_poisoned ?s" "db_collection (db_view (sh_db ?s)) (po_collection ?po) ps m"
    "unindexed (db_catalog (sh_db ?s)) (po_collection ?po)" using db by (simp_all add: m_def f)
  have left: "m |` {j. \<nexists>x. m j = Some x \<and> expires (po_field ?po) 2 x} = [i \<mapsto> [(''a'', VInt 2)]]"
    using db(4) by (auto simp: m_def restrict_map_def fun_eq_iff expires_def f)
  from ttl_sweep_exact [OF names cut s b t, of ?d] obtain fuel s' where
    "\<forall>n \<ge> fuel. sweep_once ?d n (Some 12) [?po] ?s = (Ok 1, s')" "db_collection (db_view (sh_db s')) ''c'' ps [i \<mapsto> [(''a'', VInt 2)]]"
    unfolding gone left by (auto simp: f)
  then show ?thesis by blast
qed

text \<open>
  Two ways in which a policy goes wrong. A duration whose last character is not ASCII makes
  \<open>parse_duration\<close> panic instead of returning \<open>None\<close>. And a long duration wraps around in the cast to a
  signed integer: with an age of \<open>10\<^sup>1\<^sup>6\<close> seconds the cutoff lies in the future, so that the pass
  removes every document that was ever stored.
\<close>

lemmas trim_simps = trim_def trim_start_def trim_end_def is_whitespace_def utf8_width_def char_code_def Let_def

theorem parse_duration_panics:
  "parse_duration [CHR ''7'', CHR 0xC2, CHR 0xB5] = (Panic ''not a char boundary'' :: (unit, nat option) outcome)"
  by (simp add: parse_duration_def trim_simps utf8_cont_def)

theorem ttl_cutoff_wraps:
  "parse_duration ''10000000000000000s'' = (Ok (Some (10 ^ 16)) :: (unit, nat option) outcome)
   \<and> (\<exists>cutoff. ttl_cutoff 1700000000000 \<lparr>po_collection = c, po_field = f, po_ttl_millis = 10 ^ 16 * 1000\<rparr> = (Ok cutoff :: (unit, i64) outcome)
        \<and> sint (1700000000000 :: i64) < sint cutoff)"
proof
  show "parse_duration ''10000000000000000s'' = (Ok (Some (10 ^ 16)) :: (unit, nat option) outcome)"
    by (simp add: parse_duration_def trim_simps utf8_cont_def parse_u64_def is_digit_def digits_value_def U64_MAX_def)
  show "\<exists>cutoff. ttl_cutoff 1700000000000 \<lparr>po_collection = c, po_field = f, po_ttl_millis = 10 ^ 16 * 1000\<rparr> = (Ok cutoff :: (unit, i64) outcome)
      \<and> sint (1700000000000 :: i64) < sint cutoff"
    by (simp add: ttl_cutoff_def i64_range_def)
qed

end
