(* ===== verification/Spec2Isabelle.thy ===== *)
theory Spec2Isabelle
  imports Storage_Heap Doc_Codec Wire_Codec Query_Binder Asl_Roundtrip Doc_Catalog BTree_Delete Index_Laws
    Query_Index Abp_Server Http_Server Ttl_Sweeper
begin

text \<open>
  A verification development of asdb, an embedded document database in Rust (\<open>src/src\<close>).

  \<^bold>\<open>The program.\<close> A database is one file of 4 KiB pages. A disk manager reads, writes and
  allocates pages; a buffer pool of 1024 frames caches them and evicts the least recently used.
  A heap file is a chain of slotted pages of records; a collection stores documents in a heap
  file through a binary codec; a catalog, a chain of pages from page 0, names the collections and
  the indexes. An index is a B+ tree over an order-preserving encoding of values. The database
  facade keeps collections and indexes together. Queries are written in ASL: a lexer, a parser, a
  binder that checks names, a planner that chooses an index or a scan, and an executor of
  pull-based operators. Two servers take statements from clients, one over HTTP, one over a binary
  protocol with its own value encoding.

  \<^bold>\<open>Results and state.\<close> A Rust function that can fail is a function into \<open>outcome\<close>
  (\<open>Asdb_Prelude\<close>): \<open>Ok\<close>, \<open>Err\<close>, \<open>Panic\<close> for a panic (an index out of range, \<open>assert!\<close>, \<open>unwrap\<close>
  on an error, arithmetic overflow in a debug build) and \<open>Hang\<close> for a loop whose fuel ran out. A
  method on mutable state is a \<open>prog\<close>, a function from the state to an outcome and the new state;
  \<open>bindP\<close> is the \<open>?\<close> of the code, so that the changes made before an error stay. Bytes and 64-bit
  integers are words, floats are bit patterns (\<open>F64\<close>), strings are the bytes of their UTF-8 form,
  a \<open>HashMap\<close> is an association list with distinct keys. Where the code requests room for a count that
  it read from a file (\<open>Vec::with_capacity\<close>), \<open>with_capacity\<close> asks an allocator, an argument of the
  decoders whose names end in \<open>_with\<close>, and a refused request ends the process. The theorems on
  arbitrary bytes hold for every allocator; the layers above use the instance \<open>ample\<close>, which serves all.

  \<^bold>\<open>Theories, from the file upwards.\<close>
  \<^item> \<open>Storage_Disk\<close> (\<open>storage/page.rs\<close>, \<open>storage/disk.rs\<close>), \<open>Storage_Pool\<close>
    (\<open>storage/buffer_pool.rs\<close>): frames, page table and clock as in the code; \<open>pool_inv\<close> is the
    invariant, \<open>pool_view\<close> the map from page ids to pages that the pool and the file show together.
    The pool's operations refine reads, writes and allocation on that map, whatever is cached; a
    flushed file shows the same pages when it is opened again.
  \<^item> \<open>Store_Logic\<close>: the calculus \<open>total n m s Q\<close> (the program returns \<open>Ok\<close>, keeps the invariant,
    ends in a view with \<open>Q\<close>, uses at most \<open>n\<close> accesses) as a locale, and the laws of a page store.
    Each layer interprets it on its own state. The budget counts the accesses left before the
    64-bit clock of the pool or the page counter would overflow, at first nearly \<open>2\<^sup>6\<^sup>4\<close>; it is the
    only reason for which these programs can fail on a well-formed file.
  \<^item> \<open>Storage_Heap\<close> (\<open>storage/heap.rs\<close>): a heap file as a map from record ids to byte strings.
  \<^item> \<open>Doc_Value\<close>, \<open>F64\<close>, \<open>Codec_Interface\<close>, \<open>Doc_Codec\<close>, \<open>Doc_Key\<close>, \<open>Wire_Codec\<close>
    (\<open>document/value.rs\<close>, \<open>codec.rs\<close>, \<open>key.rs\<close>, \<open>wire.rs\<close>): values, the two encodings as instances
    of one codec contract, and the order of the index keys. Decoders recurse with a depth bound
    taken from the length of the input, which every nesting level consumes.
  \<^item> \<open>Doc_Collection\<close>, \<open>Doc_Catalog\<close> (\<open>document/collection.rs\<close>, \<open>catalog.rs\<close>): a collection as a
    map from ids to documents; the catalog chain, its flush and its opening on any bytes.
  \<^item> \<open>BTree_Node\<close>, \<open>BTree\<close> (\<open>btree/node.rs\<close>, \<open>btree.rs\<close>): the node layout and the operations.
    \<open>BTree_Rep\<close> says which tree the pages stand for, \<open>BTree_Split\<close> and \<open>BTree_Insert\<close> show that
    insertion, with splits up to the root, search and range scans act as on a finite map. Insertion
    is shown for keys of one length, as an index over integers or floats has them; the theory says
    what goes wrong otherwise. \<open>BTree_Delete\<close> shows that a deletion which does not empty a leaf
    below the root removes the one entry.
  \<^item> \<open>Index_Manager\<close>, \<open>Db_Facade\<close> (\<open>btree/index.rs\<close>, \<open>database/database.rs\<close>): indexes and
    the operations on the whole database. \<open>Index_Laws\<close> shows that the single-field
    indexes of a collection, as long as their root nodes have room, take the entries of a new document
    and find them, and that the root in the catalog goes stale when it splits;
    \<open>Db_Logic\<close> has the laws of the database for collections without an index.
  \<^item> \<open>Asl_Ast\<close>, \<open>Asl_Lexer\<close>, \<open>Asl_Parser\<close> (\<open>asl/\<close>), with \<open>Asl_Printer\<close> and \<open>Asl_Roundtrip\<close>: the
    lexer and the parser are total, the parser recovers every statement from its tokens when a
    separator follows each select list that ends in a bare \<open>count\<close>, and both recover it from its text
    when it has no float literal. The loops of the parser carry the number of tokens as fuel; \<open>parse_total\<close> shows that it is enough.
  \<^item> \<open>Query_Eval\<close>, \<open>Query_Binder\<close>, \<open>Query_Planner\<close>, \<open>Query_Exec\<close> (\<open>query/\<close>): expressions, name
    checks, plans and running operators. An operator is a value of \<open>operator\<close> with the fields of
    its struct; \<open>next_row\<close> takes a fuel, as an update that runs while its input is scanned need not
    end. \<open>Query_Stream\<close> shows that more fuel never changes a result and that each operator computes
    a list function of its input; \<open>Query_Select\<close> and \<open>Query_Delete\<close> put planner and
    executor together for queries that read and for queries that remove, over collections without an
    index. \<open>Query_Index\<close> does so for a predicate over a collection with indexes, from the range scan of the
    tree to the documents behind its ids, and shows which queries an index answers wrongly.
  \<^item> \<open>Json_Output\<close> (\<open>json.rs\<close>): results and errors as text, and the grammar of JSON they are in.
    \<open>Rust_Text\<close> has the operations on strings that the servers take from the standard library.
  \<^item> \<open>Shared_Db\<close> (\<open>server.rs\<close>): the database behind its lock. A program that panics under the lock
    leaves it poisoned, and every later one is refused; a statement runs from its text to its
    output with the name of the stage it failed in. \<open>Abp_Server\<close> (\<open>binserver.rs\<close>): frames, requests
    and replies of the binary protocol over the bytes of a connection; \<open>server_step\<close> lets the
    connections take turns request by request, as the lock does. \<open>Http_Server\<close> (\<open>server.rs\<close>): one
    request and one response per connection; a query is followed from the bytes of its request to the
    bytes of its answer. \<open>Ttl_Sweeper\<close> (\<open>ttl.rs\<close>): the policies and one pass
    over them, which builds statements as text.

  \<^bold>\<open>Properties.\<close> Refinement: the pool of a page map, the heap and the collection of finite maps,
  tree insertion of map update, a request of the binary protocol of an insertion. Round trips:
  documents, wire values, tokens, statements, the catalog, a flushed pool. Equivalence: key order,
  the executed query against the list functions, with an index against the predicate alone. Totality
  on arbitrary bytes or text: decoders, catalog, lexer, parser, evaluator. Functional, through all
  stages: deletion by query and by the sweeper, a query over HTTP. The
  theorems of kind error state what the code does wrong.

  \<^bold>\<open>Bounds and fuel.\<close> The loops over pages carry the number of pages as fuel, the loops over text or
  tokens its length; each is shown to be enough where its result is used. The fuel of the executor
  is an argument: the theorems say that there is an amount from which on the result is the same.

  \<^bold>\<open>Not modelled.\<close> Sockets, the start of threads and the thread that sleeps between two sweeps; the
  real clock, which is an argument of a pass; the texts that \<open>Debug\<close> derives for errors, which are the
  argument \<open>debug\<close> of the servers; the command line and the benchmarks, which hold no logic of the
  database. No theorem is stated about a deletion that empties a leaf below the root (the merging of
  leaves is modelled), nor about trees with keys of different lengths or with the same key twice.
\<close>

end
